(* ===== verification/Prelude.thy ===== *)
theory Prelude
  imports Main "HOL-Library.Monad_Syntax" "HOL-Library.Word"
begin

text \<open>
  Shared vocabulary of the development.

  \<^item> Program results that may hit undefined behaviour (a dangling or null pointer, an
    index out of range, a division by zero) or may not return are values of
    \<open>'a option\<close>: \<open>None\<close> is "no defined result".
  \<^item> \<open>run_ops\<close> runs a list of operations that may fail in that sense, and the
    locale \<open>simulation\<close> is the one proof that such a run refines the run of an
    abstract operation on an abstract state.
  \<^item> Generic lemmas on lists and maps used by several components.
\<close>

subsection \<open>Types of machine integers\<close>

type_synonym int32 = "32 word"   \<comment> \<open>C++ \<open>int\<close>, read with \<open>sint\<close>\<close>
type_synonym uint32 = "32 word"  \<comment> \<open>C++ \<open>uint32_t\<close>, read with \<open>uint\<close>\<close>
type_synonym uint16 = "16 word"
type_synonym ull = "64 word"     \<comment> \<open>C++ \<open>unsigned long long\<close> and \<open>size_t\<close>\<close>

named_theorems store_simps \<open>how the operations act on the abstract store\<close>
named_theorems frame_simps \<open>which parts of a state an operation leaves alone\<close>

subsection \<open>Lists and maps\<close>

lemma map_of_filter_neq:
  "map_of (filter (\<lambda>e. fst e \<noteq> k) xs) = (map_of xs)(k := None)"
  by (induction xs) (auto simp: fun_eq_iff)

lemma map_of_append_apply:
  "map_of (xs @ ys) k = (case map_of xs k of None \<Rightarrow> map_of ys k | Some v \<Rightarrow> Some v)"
  by (simp add: map_add_def)

lemma map_of_concat_None:
  "(\<And>xs. xs \<in> set xss \<Longrightarrow> map_of xs k = None) \<Longrightarrow> map_of (concat xss) k = None"
  by (induction xss) (auto simp: map_add_def)

text \<open>
  A key that can only occur in list number \<open>i\<close> is looked up there: the step from a
  table of buckets to one association list.
\<close>

lemma map_of_concat_nth:
  assumes "i < length xss"
    and "\<And>j. j < length xss \<Longrightarrow> j \<noteq> i \<Longrightarrow> map_of (xss ! j) k = None"
  shows "map_of (concat xss) k = map_of (xss ! i) k"
  using assms
proof (induction xss arbitrary: i)
  case Nil
  then show ?case by simp
next
  case (Cons xs xss)
  show ?case
  proof (cases i)
    case 0
    have "map_of (concat xss) k = None"
    proof (rule map_of_concat_None)
      fix ys assume "ys \<in> set xss"
      then obtain j where "j < length xss" "ys = xss ! j" by (auto simp: in_set_conv_nth)
      with Cons.prems(2)[of "Suc j"] 0 show "map_of ys k = None" by simp
    qed
    with 0 show ?thesis by (simp add: map_add_def split: option.split)
  next
    case (Suc i')
    have "map_of (concat xss) k = map_of (xss ! i') k"
    proof (rule Cons.IH)
      show "i' < length xss" using Cons.prems(1) Suc by simp
      show "map_of (xss ! j) k = None" if "j < length xss" "j \<noteq> i'" for j
        using Cons.prems(2)[of "Suc j"] that Suc by simp
    qed
    moreover have "map_of xs k = None" using Cons.prems(2)[of 0] Suc by simp
    ultimately show ?thesis using Suc by (simp add: map_add_def split: option.split)
  qed
qed

lemma concat_update_split:
  assumes "i < length xss"
  shows "concat xss = concat (take i xss) @ xss ! i @ concat (drop (Suc i) xss)"
    and "concat (xss[i := ys]) = concat (take i xss) @ ys @ concat (drop (Suc i) xss)"
proof -
  have "xss = take i xss @ xss ! i # drop (Suc i) xss" using assms by (rule id_take_nth_drop)
  then show "concat xss = concat (take i xss) @ xss ! i @ concat (drop (Suc i) xss)"
    by (metis concat.simps(2) concat_append)
  show "concat (xss[i := ys]) = concat (take i xss) @ ys @ concat (drop (Suc i) xss)"
    using assms by (simp add: upd_conv_take_nth_drop)
qed

lemma map_update_id: "i < length xs \<Longrightarrow> f (xs ! i) = y \<Longrightarrow> (map f xs)[i := y] = map f xs"
  by (metis length_map list_update_id nth_map)

lemma map_remove1_distinct:
  assumes "distinct (map f xs)" and "x \<in> set xs"
  shows "map f (remove1 x xs) = remove1 (f x) (map f xs)"
  using assms
proof (induction xs)
  case (Cons a xs)
  then have "x \<noteq> a \<Longrightarrow> f x \<noteq> f a" by (metis distinct.simps(2) image_eqI list.simps(9) set_ConsD set_map)
  with Cons show ?case by auto
qed simp

subsection \<open>Runs of operations that may have no defined result\<close>

fun run_ops :: "('o \<Rightarrow> 's \<Rightarrow> 's option) \<Rightarrow> 'o list \<Rightarrow> 's \<Rightarrow> 's option" where
  "run_ops step [] s = Some s"
| "run_ops step (x # xs) s = (case step x s of None \<Rightarrow> None | Some s' \<Rightarrow> run_ops step xs s')"

lemma run_ops_append:
  "run_ops step (xs @ ys) s = Option.bind (run_ops step xs s) (run_ops step ys)"
  by (induction xs arbitrary: s) (auto split: option.split)

text \<open>
  Forward simulation: every admissible operation of the code has a defined result in a
  state that satisfies the invariant, keeps the invariant and commutes with the
  abstraction.
\<close>

locale simulation =
  fixes step :: "'o \<Rightarrow> 's \<Rightarrow> 's option"
    and ok :: "'o \<Rightarrow> bool"
    and inv :: "'s \<Rightarrow> bool"
    and abs :: "'s \<Rightarrow> 'a"
    and astep :: "'o \<Rightarrow> 'a \<Rightarrow> 'a"
  assumes sim: "inv s \<Longrightarrow> ok x \<Longrightarrow>
    \<exists>s'. step x s = Some s' \<and> inv s' \<and> abs s' = astep x (abs s)"
begin

lemma run_refines:
  "inv s \<Longrightarrow> list_all ok xs \<Longrightarrow>
   \<exists>s'. run_ops step xs s = Some s' \<and> inv s' \<and> abs s' = fold astep xs (abs s)"
proof (induction xs arbitrary: s)
  case Nil
  then show ?case by simp
next
  case (Cons x xs)
  obtain s1 where s1: "step x s = Some s1" "inv s1" "abs s1 = astep x (abs s)"
    using sim[OF Cons.prems(1), of x] Cons.prems(2) by auto
  from Cons.IH[OF s1(2)] Cons.prems(2) s1 show ?case by auto
qed

lemma run_preserves:
  "inv s \<Longrightarrow> list_all ok xs \<Longrightarrow> run_ops step xs s = Some s' \<Longrightarrow> inv s'"
  using run_refines[of s xs] by auto

end

end
