(* ===== verification/Store.thy ===== *)
theory Store
  imports Prelude
begin

text \<open>
  The abstract key-value store that the in-memory map implements and that the log and the
  snapshot describe: a partial map from strings to strings with two updates.  The locale
  \<open>kv_store\<close> is the contract of an implementation; its clients' lemmas are proved
  there once.
\<close>

datatype store_op = Put string string | Del string

definition store_step :: "store_op \<Rightarrow> (string \<rightharpoonup> string) \<Rightarrow> (string \<rightharpoonup> string)" where
  "store_step x s = (case x of Put k v \<Rightarrow> s(k \<mapsto> v) | Del k \<Rightarrow> s(k := None))"

lemma store_step_simps [simp]:
  "store_step (Put k v) s = s(k \<mapsto> v)"
  "store_step (Del k) s = s(k := None)"
  by (simp_all add: store_step_def)

text \<open>What a lookup returns: the empty string stands for "not found".\<close>

definition value_or_empty :: "(string \<rightharpoonup> string) \<Rightarrow> string \<Rightarrow> string" where
  "value_or_empty s k = (case s k of None \<Rightarrow> '''' | Some v \<Rightarrow> v)"

lemma value_or_empty_simps [store_simps]:
  "s k = None \<Longrightarrow> value_or_empty s k = ''''"
  "s k = Some v \<Longrightarrow> value_or_empty s k = v"
  by (simp_all add: value_or_empty_def)

subsection \<open>The effect of a list of updates\<close>

text \<open>The last update of a key decides; keys without one keep their value.\<close>

fun last_effect :: "store_op list \<Rightarrow> string \<Rightarrow> string option option" where
  "last_effect [] k = None"
| "last_effect (x # xs) k =
     (case last_effect xs k of
        Some r \<Rightarrow> Some r
      | None \<Rightarrow> (case x of
            Put k' v \<Rightarrow> if k' = k then Some (Some v) else None
          | Del k' \<Rightarrow> if k' = k then Some None else None))"

lemma fold_store_step:
  "fold store_step xs s k = (case last_effect xs k of None \<Rightarrow> s k | Some r \<Rightarrow> r)"
  by (induction xs arbitrary: s) (auto split: option.split store_op.split)

lemma fold_store_step_idem:
  "fold store_step xs (fold store_step xs s) = fold store_step xs s"
  by (rule ext) (simp add: fold_store_step split: option.split)

lemma fold_puts:
  "distinct (map fst es) \<Longrightarrow>
   fold store_step (map (\<lambda>(k, v). Put k v) es) s = s ++ map_of es"
proof (induction es arbitrary: s)
  case Nil
  then show ?case by simp
next
  case (Cons e es)
  obtain k v where e: "e = (k, v)" by (cases e)
  have "k \<notin> dom (map_of es)" using Cons.prems e by (simp add: dom_map_of_conv_image_fst)
  have "fold store_step (map (\<lambda>(k, v). Put k v) (e # es)) s = s(k \<mapsto> v) ++ map_of es"
    using Cons.IH[of "s(k \<mapsto> v)"] Cons.prems
    by (simp only: e list.map prod.case fold_Cons comp_apply store_step_simps distinct.simps)
  also have "\<dots> = (s ++ map_of es)(k \<mapsto> v)"
    using \<open>k \<notin> dom (map_of es)\<close> by (rule map_add_upd_left)
  also have "\<dots> = s ++ map_of (e # es)" by (simp only: e map_of.simps map_add_upd fst_conv snd_conv)
  finally show ?case .
qed

lemma fold_puts_empty:
  "distinct (map fst es) \<Longrightarrow>
   fold store_step (map (\<lambda>(k, v). Put k v) es) Map.empty = map_of es"
  by (simp add: fold_puts)

text \<open>Updates of different keys commute.\<close>

fun op_key :: "store_op \<Rightarrow> string" where
  "op_key (Put k v) = k"
| "op_key (Del k) = k"

lemma store_step_commute:
  "op_key x \<noteq> op_key y \<Longrightarrow> store_step x (store_step y s) = store_step y (store_step x s)"
  by (cases x; cases y) (auto simp: fun_eq_iff)

lemma store_step_other: "op_key x \<noteq> k \<Longrightarrow> store_step x s k = s k"
  by (cases x) auto

lemma store_step_same: "s k = t k \<Longrightarrow> store_step x s k = store_step x t k"
  by (cases x) auto

subsection \<open>The contract of an implementation\<close>

fun apply_op ::
  "('m \<Rightarrow> string \<Rightarrow> string \<Rightarrow> 'm option) \<Rightarrow> ('m \<Rightarrow> string \<Rightarrow> 'm option) \<Rightarrow>
   store_op \<Rightarrow> 'm \<Rightarrow> 'm option" where
  "apply_op ins rem (Put k v) m = ins m k v"
| "apply_op ins rem (Del k) m = rem m k"

locale kv_store =
  fixes inv :: "'m \<Rightarrow> bool"
    and abs :: "'m \<Rightarrow> string \<rightharpoonup> string"
    and ins :: "'m \<Rightarrow> string \<Rightarrow> string \<Rightarrow> 'm option"
    and rem :: "'m \<Rightarrow> string \<Rightarrow> 'm option"
    and get :: "'m \<Rightarrow> string \<Rightarrow> string option"
    and entries :: "'m \<Rightarrow> (string \<times> string) list"
  assumes ins: "inv m \<Longrightarrow> \<exists>m'. ins m k v = Some m' \<and> inv m' \<and> abs m' = (abs m)(k \<mapsto> v)"
    and rem: "inv m \<Longrightarrow> \<exists>m'. rem m k = Some m' \<and> inv m' \<and> abs m' = (abs m)(k := None)"
    and get: "inv m \<Longrightarrow> get m k = Some (value_or_empty (abs m) k)"
    and entries: "inv m \<Longrightarrow> map_of (entries m) = abs m"
    and entries_distinct: "inv m \<Longrightarrow> distinct (map fst (entries m))"
begin

lemma apply_op_simulates:
  "inv m \<Longrightarrow> \<exists>m'. apply_op ins rem x m = Some m' \<and> inv m' \<and> abs m' = store_step x (abs m)"
  using ins rem by (cases x) auto

end

sublocale kv_store \<subseteq> ops: simulation "apply_op ins rem" "\<lambda>_. True" inv abs store_step
  by unfold_locales (rule apply_op_simulates)

context kv_store
begin

lemma run_store:
  "inv m \<Longrightarrow> \<exists>m'. run_ops (apply_op ins rem) xs m = Some m' \<and> inv m' \<and>
     abs m' = fold store_step xs (abs m)"
  using ops.run_refines[of m xs] by (simp add: list_all_iff)

lemma get_after_run:
  "inv m \<Longrightarrow> \<exists>m'. run_ops (apply_op ins rem) xs m = Some m' \<and>
     get m' k = Some (value_or_empty (fold store_step xs (abs m)) k)"
  using run_store[of m xs] get by auto

text \<open>Replaying an implementation's entries into an empty one copies its store.\<close>

lemma copy_entries:
  assumes "inv m" and "inv m0" and "abs m0 = Map.empty"
  shows "\<exists>m'. run_ops (apply_op ins rem) (map (\<lambda>(k, v). Put k v) (entries m)) m0 = Some m' \<and>
     inv m' \<and> abs m' = abs m"
  using run_store[OF assms(2), of "map (\<lambda>(k, v). Put k v) (entries m)"]
    fold_puts_empty[OF entries_distinct[OF assms(1)]] entries[OF assms(1)] assms(3) by auto

end

end
