(* ===== verification/HashMap.thy ===== *)
theory HashMap
  imports Prelude
begin

unbundle bit_operations_syntax

text \<open>
  The in-memory store, \<open>src/RAM/HashMap.h\<close> and \<open>src/RAM/HashMap.cpp\<close>.

  The nodes live in an explicit heap: an address is an index into a list of cells, a
  deleted cell is \<open>None\<close> and an address is never handed out twice, so that every use of
  a deleted node is visible as a dereference that has no result.  A bucket is a pointer,
  \<open>None\<close> being \<open>nullptr\<close>.  The chain loops are \<open>partial_function\<close>s: they have no
  result when they follow a dangling pointer and when the chain is cyclic, so "has a
  result" below means that the loop ends and touches live nodes only.

  First come the data and the operations, then the heap-level invariant, then the
  functional behaviour of each operation on the bucket lists and on the map from keys to
  values.
\<close>

subsection \<open>Data\<close>

type_synonym addr = nat

record Node =
  node_key :: string
  node_value :: string
  node_next :: "addr option"

type_synonym heap = "Node option list"

record HashMap =
  heap :: heap
  table :: "addr option list"
  capacity :: int32

definition deref :: "heap \<Rightarrow> addr \<Rightarrow> Node option" where
  "deref h a = (if a < length h then h ! a else None)"

definition new_Node :: "heap \<Rightarrow> string \<Rightarrow> string \<Rightarrow> heap \<times> addr" where
  "new_Node h k v =
     (h @ [Some \<lparr>node_key = k, node_value = v, node_next = None\<rparr>], length h)"

definition delete_Node :: "heap \<Rightarrow> addr \<Rightarrow> heap option" where
  "delete_Node h a = (case deref h a of None \<Rightarrow> None | Some n \<Rightarrow> Some (h[a := None]))"

definition set_value :: "heap \<Rightarrow> addr \<Rightarrow> string \<Rightarrow> heap option" where
  "set_value h a v =
     (case deref h a of None \<Rightarrow> None | Some n \<Rightarrow> Some (h[a := Some (n\<lparr>node_value := v\<rparr>)]))"

definition set_next :: "heap \<Rightarrow> addr \<Rightarrow> addr option \<Rightarrow> heap option" where
  "set_next h a p =
     (case deref h a of None \<Rightarrow> None | Some n \<Rightarrow> Some (h[a := Some (n\<lparr>node_next := p\<rparr>)]))"

definition read_bucket :: "HashMap \<Rightarrow> int \<Rightarrow> addr option option" where
  "read_bucket m i =
     (if 0 \<le> i \<and> i < int (length (table m)) then Some (table m ! nat i) else None)"

definition write_bucket :: "HashMap \<Rightarrow> int \<Rightarrow> addr option \<Rightarrow> HashMap option" where
  "write_bucket m i p =
     (if 0 \<le> i \<and> i < int (length (table m)) then Some (m\<lparr>table := (table m)[nat i := p]\<rparr>)
      else None)"

subsection \<open>Construction\<close>

text \<open>
  \<open>new Node *[capacity]\<close> throws for a negative size; the fresh array holds indeterminate
  pointers (\<open>raw\<close>) until the loop has overwritten them.
\<close>

function init_buckets :: "nat \<Rightarrow> nat \<Rightarrow> addr option list \<Rightarrow> addr option list" where
  "init_buckets i n t = (if i < n then init_buckets (Suc i) n (t[i := None]) else t)"
  by pat_completeness auto
termination by (relation "measure (\<lambda>(i, n, t). n - i)") auto

declare init_buckets.simps [simp del]

definition HashMap_new :: "(nat \<Rightarrow> addr option) \<Rightarrow> int32 \<Rightarrow> HashMap option" where
  "HashMap_new raw sz =
     (if sint sz < 0 then None
      else let n = nat (sint sz) in
        Some \<lparr>heap = [], table = init_buckets 0 n (map raw [0..<n]), capacity = sz\<rparr>)"

subsection \<open>The hash function\<close>

text \<open>
  \<open>char\<close> is signed on the platforms the build targets, so it is sign-extended to
  \<open>unsigned long long\<close>.  The statement is \<open>hashValue += (p * hashValue) + c\<close>.
\<close>

definition char_to_ull :: "char \<Rightarrow> ull" where
  "char_to_ull c = scast (of_char c :: 8 word)"

definition hash_step :: "ull \<Rightarrow> char \<Rightarrow> ull" where
  "hash_step hv c = hv + ((31 * hv) + char_to_ull c)"

definition hashValue :: "string \<Rightarrow> ull" where
  "hashValue key = foldl hash_step 0 key"

text \<open>
  \<open>hashValue % capacity\<close> converts \<open>capacity\<close> to \<open>unsigned long long\<close>; the result is
  converted back to \<open>int\<close>.  A zero divisor is undefined behaviour.
\<close>

definition hashFunction :: "HashMap \<Rightarrow> string \<Rightarrow> int option" where
  "hashFunction m key =
     (if capacity m = 0 then None
      else Some (sint (ucast (hashValue key mod (scast (capacity m) :: ull)) :: int32)))"

subsection \<open>Operations\<close>

partial_function (option)
  insert_loop :: "heap \<Rightarrow> addr option \<Rightarrow> string \<Rightarrow> string \<Rightarrow> (heap \<times> bool) option" where
  "insert_loop h cur key val =
     (case cur of
        None \<Rightarrow> Some (h, False)
      | Some a \<Rightarrow> Option.bind (deref h a) (\<lambda>n.
          if node_key n = key
          then Option.bind (set_value h a val) (\<lambda>h'. Some (h', True))
          else insert_loop h (node_next n) key val))"

definition HashMap_insert :: "HashMap \<Rightarrow> string \<Rightarrow> string \<Rightarrow> HashMap option" where
  "HashMap_insert m key val =
     Option.bind (hashFunction m key) (\<lambda>i.
     Option.bind (read_bucket m i) (\<lambda>cur.
     Option.bind (insert_loop (heap m) cur key val) (\<lambda>(h, updated).
     if updated then Some (m\<lparr>heap := h\<rparr>)
     else let (h1, newNode) = new_Node h key val in
       Option.bind (read_bucket m i) (\<lambda>head.
       Option.bind (set_next h1 newNode head) (\<lambda>h2.
       write_bucket (m\<lparr>heap := h2\<rparr>) i (Some newNode))))))"

partial_function (option) get_loop :: "heap \<Rightarrow> addr option \<Rightarrow> string \<Rightarrow> string option" where
  "get_loop h cur key =
     (case cur of
        None \<Rightarrow> Some ''''
      | Some a \<Rightarrow> Option.bind (deref h a) (\<lambda>n.
          if node_key n = key then Some (node_value n) else get_loop h (node_next n) key))"

definition HashMap_get :: "HashMap \<Rightarrow> string \<Rightarrow> string option" where
  "HashMap_get m key =
     Option.bind (hashFunction m key) (\<lambda>i.
     Option.bind (read_bucket m i) (\<lambda>cur. get_loop (heap m) cur key))"

partial_function (option)
  remove_loop :: "HashMap \<Rightarrow> int \<Rightarrow> addr option \<Rightarrow> addr option \<Rightarrow> string \<Rightarrow> HashMap option" where
  "remove_loop m i prev cur key =
     (case cur of
        None \<Rightarrow> Some m
      | Some a \<Rightarrow> Option.bind (deref (heap m) a) (\<lambda>n.
          if node_key n = key then
            Option.bind
              (case prev of
                 None \<Rightarrow> write_bucket m i (node_next n)
               | Some b \<Rightarrow> Option.bind (set_next (heap m) b (node_next n)) (\<lambda>h. Some (m\<lparr>heap := h\<rparr>)))
              (\<lambda>m'. Option.bind (delete_Node (heap m') a) (\<lambda>h. Some (m'\<lparr>heap := h\<rparr>)))
          else remove_loop m i cur (node_next n) key))"

definition HashMap_remove :: "HashMap \<Rightarrow> string \<Rightarrow> HashMap option" where
  "HashMap_remove m key =
     Option.bind (hashFunction m key) (\<lambda>i.
     Option.bind (read_bucket m i) (\<lambda>cur. remove_loop m i None cur key))"

text \<open>The callback of \<open>forEach\<close> acts on a state of its own, threaded through.\<close>

partial_function (option)
  forEach_chain :: "heap \<Rightarrow> (string \<Rightarrow> string \<Rightarrow> 's \<Rightarrow> 's) \<Rightarrow> addr option \<Rightarrow> 's \<Rightarrow> 's option" where
  "forEach_chain h callback cur s =
     (case cur of
        None \<Rightarrow> Some s
      | Some a \<Rightarrow> Option.bind (deref h a) (\<lambda>n.
          forEach_chain h callback (node_next n) (callback (node_key n) (node_value n) s)))"

function forEach_from :: "HashMap \<Rightarrow> (string \<Rightarrow> string \<Rightarrow> 's \<Rightarrow> 's) \<Rightarrow> int \<Rightarrow> 's \<Rightarrow> 's option" where
  "forEach_from m callback i s =
     (if i < sint (capacity m) then
        Option.bind (read_bucket m i) (\<lambda>cur.
        Option.bind (forEach_chain (heap m) callback cur s) (\<lambda>s'.
        forEach_from m callback (i + 1) s'))
      else Some s)"
  by pat_completeness auto
termination by (relation "measure (\<lambda>(m, f, i, s). nat (sint (capacity m) - i))") auto

declare forEach_from.simps [simp del]

definition HashMap_forEach :: "HashMap \<Rightarrow> (string \<Rightarrow> string \<Rightarrow> 's \<Rightarrow> 's) \<Rightarrow> 's \<Rightarrow> 's option" where
  "HashMap_forEach m callback s = forEach_from m callback 0 s"

partial_function (option) destroy_chain :: "heap \<Rightarrow> addr option \<Rightarrow> heap option" where
  "destroy_chain h cur =
     (case cur of
        None \<Rightarrow> Some h
      | Some a \<Rightarrow> Option.bind (deref h a) (\<lambda>n.
          Option.bind (delete_Node h a) (\<lambda>h'. destroy_chain h' (node_next n))))"

function destroy_from :: "HashMap \<Rightarrow> nat \<Rightarrow> heap \<Rightarrow> heap option" where
  "destroy_from m i h =
     (if i < unat (scast (capacity m) :: ull) then
        Option.bind (read_bucket m (int i)) (\<lambda>cur.
        Option.bind (destroy_chain h cur) (\<lambda>h'. destroy_from m (Suc i) h'))
      else Some h)"
  by pat_completeness auto
termination by (relation "measure (\<lambda>(m, i, h). unat (scast (capacity m) :: ull) - i)") auto

declare destroy_from.simps [simp del]

text \<open>The destructor: what is left of the heap when it has run.\<close>

definition HashMap_destroy :: "HashMap \<Rightarrow> heap option" where
  "HashMap_destroy m = destroy_from m 0 (heap m)"

declare insert_loop.simps [code] get_loop.simps [code] remove_loop.simps [code]
  forEach_chain.simps [code] destroy_chain.simps [code]

end
