(* ===== verification/HashMap_Correct.thy ===== *)
theory HashMap_Correct
  imports HashMap Store
begin

text \<open>
  The hash map is correct.  \<open>rep\<close> is the heap-level invariant: which list of addresses
  each bucket points to, that no node is shared or lost, that a key sits in the bucket it
  hashes to and only once.  \<open>HashMap_buckets\<close> reads the key-value lists off the heap,
  \<open>HashMap_map\<close> is the abstract store.  Each operation is shown to have a result, to
  keep the invariant, and to act on bucket lists and on the store as specified; the locale
  \<open>kv_store\<close> states that contract for the clients of the map.
\<close>

subsection \<open>Dereferencing after an update\<close>

lemma deref_update:
  "deref (h[a := x]) b = (if a = b \<and> a < length h then x else deref h b)"
  by (auto simp: deref_def)

lemma deref_append: "deref (h @ [x]) b = (if b = length h then x else deref h b)"
  by (auto simp: deref_def nth_append)

lemma deref_less: "deref h a = Some n \<Longrightarrow> a < length h"
  by (auto simp: deref_def split: if_splits)

definition cell :: "heap \<Rightarrow> addr \<Rightarrow> string \<times> string" where
  "cell h a = (case deref h a of None \<Rightarrow> ('''', '''') | Some n \<Rightarrow> (node_key n, node_value n))"

lemma cell_deref: "deref h a = Some n \<Longrightarrow> cell h a = (node_key n, node_value n)"
  by (simp add: cell_def)

subsection \<open>Chains\<close>

fun chain :: "heap \<Rightarrow> addr option \<Rightarrow> addr list \<Rightarrow> bool" where
  "chain h p [] = (p = None)"
| "chain h p (a # as) =
     (p = Some a \<and> (case deref h a of None \<Rightarrow> False | Some n \<Rightarrow> chain h (node_next n) as))"

lemma chain_Cons_iff:
  "chain h p (a # as) \<longleftrightarrow> p = Some a \<and> (\<exists>n. deref h a = Some n \<and> chain h (node_next n) as)"
  by (auto split: option.splits)

declare chain.simps(2) [simp del]
declare chain_Cons_iff [simp]

lemma chain_live: "chain h p as \<Longrightarrow> a \<in> set as \<Longrightarrow> \<exists>n. deref h a = Some n"
  by (induction as arbitrary: p) auto

lemma chain_cong:
  "(\<And>a. a \<in> set as \<Longrightarrow> map_option node_next (deref h' a) = map_option node_next (deref h a)) \<Longrightarrow>
   chain h' p as = chain h p as"
proof (induction as arbitrary: p)
  case Nil
  then show ?case by simp
next
  case (Cons a as)
  have "map_option node_next (deref h' a) = map_option node_next (deref h a)"
    using Cons.prems[of a] by simp
  moreover have "chain h' q as = chain h q as" for q
    by (rule Cons.IH) (simp add: Cons.prems)
  ultimately show ?case by (auto simp: map_option_case split: option.splits)
qed

lemma chain_frame:
  "(\<And>a. a \<in> set as \<Longrightarrow> deref h' a = deref h a) \<Longrightarrow> chain h' p as = chain h p as"
  by (rule chain_cong) simp

lemma cells_frame:
  "(\<And>a. a \<in> set as \<Longrightarrow> deref h' a = deref h a) \<Longrightarrow> map (cell h') as = map (cell h) as"
  by (simp add: cell_def)

text \<open>A segment of a chain, up to the pointer it continues with.\<close>

lemma chain_append_next:
  assumes "chain h p (xs @ a # ys)"
  shows "\<exists>n. deref h a = Some n \<and> chain h (node_next n) ys"
  using assms by (induction xs arbitrary: p) auto

text \<open>Redirecting the pointer before a node unlinks it.\<close>

lemma chain_unlink:
  assumes "chain h p (xs @ a # ys)" and "distinct (xs @ a # ys)" and "xs \<noteq> []"
    and "deref h a = Some n" and "deref h (last xs) = Some nb"
  shows "chain (h[last xs := Some (nb\<lparr>node_next := node_next n\<rparr>)]) p (xs @ ys)"
  using assms
proof (induction xs arbitrary: p)
  case Nil
  then show ?case by simp
next
  case (Cons x xs)
  let ?h' = "h[last (x # xs) := Some (nb\<lparr>node_next := node_next n\<rparr>)]"
  obtain nx where nx: "deref h x = Some nx" "chain h (node_next nx) (xs @ a # ys)" "p = Some x"
    using Cons.prems(1) by auto
  show ?case
  proof (cases "xs = []")
    case True
    have "chain h (node_next n) ys" using nx(2) True Cons.prems(4) by auto
    then have "chain ?h' (node_next n) ys"
      using Cons.prems(2) True by (subst chain_frame) (auto simp: deref_update)
    then show ?thesis using True nx Cons.prems(5) deref_less[OF Cons.prems(5)]
      by (auto simp: deref_update)
  next
    case False
    have "chain (h[last xs := Some (nb\<lparr>node_next := node_next n\<rparr>)]) (node_next nx) (xs @ ys)"
      using Cons.IH[OF nx(2)] Cons.prems False by auto
    moreover have "last xs \<noteq> x" using Cons.prems(2) False by (metis append_is_Nil_conv
      distinct.simps(2) in_set_conv_decomp_last append_Cons last_in_set set_append UnI1)
    ultimately show ?thesis using nx False by (auto simp: deref_update)
  qed
qed

lemma distinct_bounded_length:
  assumes "distinct as" and "\<And>a. a \<in> set as \<Longrightarrow> a < (n::nat)"
  shows "length as \<le> n"
proof -
  have "set as \<subseteq> {..<n}" using assms(2) by auto
  then have "card (set as) \<le> n" using card_mono[of "{..<n}" "set as"] by simp
  with assms(1) show ?thesis by (simp add: distinct_card)
qed

subsection \<open>The loops over a chain\<close>

lemma get_loop_chain:
  "chain h p as \<Longrightarrow>
   get_loop h p k = Some (case map_of (map (cell h) as) k of None \<Rightarrow> '''' | Some v \<Rightarrow> v)"
  by (induction as arbitrary: p) (subst get_loop.simps, auto simp: cell_deref)+

lemma insert_loop_absent:
  "chain h p as \<Longrightarrow> k \<notin> fst ` set (map (cell h) as) \<Longrightarrow> insert_loop h p k v = Some (h, False)"
  by (induction as arbitrary: p) (subst insert_loop.simps, force simp: cell_deref)+

lemma insert_loop_present:
  "chain h p as \<Longrightarrow> k \<in> fst ` set (map (cell h) as) \<Longrightarrow>
   \<exists>a n. a \<in> set as \<and> deref h a = Some n \<and> node_key n = k \<and>
     insert_loop h p k v = Some (h[a := Some (n\<lparr>node_value := v\<rparr>)], True)"
proof (induction as arbitrary: p)
  case Nil
  then show ?case by simp
next
  case (Cons a as)
  obtain n where n: "p = Some a" "deref h a = Some n" "chain h (node_next n) as"
    using Cons.prems(1) by auto
  show ?case
  proof (cases "node_key n = k")
    case True
    have "insert_loop h p k v = Some (h[a := Some (n\<lparr>node_value := v\<rparr>)], True)"
      using n True by (subst insert_loop.simps) (simp add: set_value_def)
    with n True show ?thesis by auto
  next
    case False
    then have "k \<in> fst ` set (map (cell h) as)" using Cons.prems(2) n by (auto simp: cell_deref)
    from Cons.IH[OF n(3) this] show ?thesis using n False
      by (subst insert_loop.simps) auto
  qed
qed

definition unlink :: "HashMap \<Rightarrow> int \<Rightarrow> addr option \<Rightarrow> addr \<Rightarrow> Node \<Rightarrow> HashMap option" where
  "unlink m i prev a n =
     Option.bind
       (case prev of
          None \<Rightarrow> write_bucket m i (node_next n)
        | Some b \<Rightarrow> Option.bind (set_next (heap m) b (node_next n)) (\<lambda>h. Some (m\<lparr>heap := h\<rparr>)))
       (\<lambda>m'. Option.bind (delete_Node (heap m') a) (\<lambda>h. Some (m'\<lparr>heap := h\<rparr>)))"

lemma remove_loop_absent:
  "chain (heap m) p as \<Longrightarrow> k \<notin> fst ` set (map (cell (heap m)) as) \<Longrightarrow>
   remove_loop m i prev p k = Some m"
  by (induction as arbitrary: p prev) (subst remove_loop.simps, force simp: cell_deref)+

lemma remove_loop_present:
  "chain (heap m) p as \<Longrightarrow> k \<in> fst ` set (map (cell (heap m)) as) \<Longrightarrow>
   \<exists>xs a ys n. as = xs @ a # ys \<and> deref (heap m) a = Some n \<and> node_key n = k \<and>
     remove_loop m i prev p k = unlink m i (if xs = [] then prev else Some (last xs)) a n"
proof (induction as arbitrary: p prev)
  case Nil
  then show ?case by simp
next
  case (Cons a as)
  obtain n where n: "p = Some a" "deref (heap m) a = Some n" "chain (heap m) (node_next n) as"
    using Cons.prems(1) by auto
  show ?case
  proof (cases "node_key n = k")
    case True
    have "remove_loop m i prev p k = unlink m i prev a n"
      using n True by (subst remove_loop.simps) (simp add: unlink_def)
    with n True show ?thesis by (intro exI[of _ "[]"] exI) auto
  next
    case False
    then have "k \<in> fst ` set (map (cell (heap m)) as)"
      using Cons.prems(2) n by (auto simp: cell_deref)
    from Cons.IH[OF n(3) this, of p] obtain xs b ys nb where
      b: "as = xs @ b # ys" "deref (heap m) b = Some nb" "node_key nb = k"
        "remove_loop m i p (node_next n) k
           = unlink m i (if xs = [] then p else Some (last xs)) b nb" by blast
    have "remove_loop m i prev p k = remove_loop m i p (node_next n) k"
      using n False by (subst remove_loop.simps) simp
    with b n(1) show ?thesis by (intro exI[of _ "a # xs"] exI[of _ b] exI[of _ ys] exI[of _ nb]) auto
  qed
qed

lemma forEach_chain_fold:
  "chain h p as \<Longrightarrow>
   forEach_chain h f p s = Some (fold (\<lambda>(k, v). f k v) (map (cell h) as) s)"
  by (induction as arbitrary: p s) (subst forEach_chain.simps, auto simp: cell_deref)+

subsection \<open>The hash function\<close>

lemma uint_scast_pos:
  assumes "0 < sint (c :: int32)"
  shows "uint (scast c :: ull) = sint c"
proof -
  have lt: "sint c < 2 ^ 31" using sint_lt[of c] by simp
  have "uint (scast c :: ull) = uint (word_of_int (sint c) :: ull)" by (simp only: scast_eq)
  also have "\<dots> = sint c mod 2 ^ 64" by (subst uint_word_of_int) simp
  also have "\<dots> = sint c" using assms lt by (intro mod_pos_pos_trivial) auto
  finally show ?thesis .
qed

lemma sint_ucast_small:
  assumes "uint (x :: ull) < 2 ^ 31"
  shows "sint (ucast x :: int32) = uint x"
proof -
  have "uint (ucast x :: int32) = uint x"
    using assms by (simp add: unsigned_ucast_eq take_bit_int_eq_self)
  moreover have "signed_take_bit 31 (uint x) = uint x"
    using assms by (intro signed_take_bit_int_eq_self) (auto intro: order_trans[OF _ uint_ge_0])
  ultimately show ?thesis by (simp add: sint_uint)
qed

lemma hashFunction_eq:
  assumes "0 < sint (capacity m)"
  shows "hashFunction m key = Some (uint (hashValue key) mod sint (capacity m))"
proof -
  let ?c = "sint (capacity m)"
  have c: "?c < 2 ^ 31" using sint_lt[of "capacity m"] by simp
  have nz: "capacity m \<noteq> 0" using assms by auto
  have u: "uint (hashValue key mod (scast (capacity m) :: ull)) = uint (hashValue key) mod ?c"
    using uint_scast_pos[OF assms] by (simp add: uint_mod_distrib)
  have "uint (hashValue key) mod ?c < 2 ^ 31"
    using pos_mod_bound[OF assms, of "uint (hashValue key)"] c by linarith
  then show ?thesis using nz u by (simp add: hashFunction_def sint_ucast_small)
qed

definition slot :: "HashMap \<Rightarrow> string \<Rightarrow> nat" where
  "slot m key = nat (uint (hashValue key) mod sint (capacity m))"

lemma slot_cong: "capacity m' = capacity m \<Longrightarrow> slot m' k = slot m k"
  by (simp add: slot_def)

lemma hashFunction_slot:
  "0 < sint (capacity m) \<Longrightarrow> hashFunction m key = Some (int (slot m key))"
  by (simp add: hashFunction_eq slot_def)

lemma slot_less: "0 < sint (capacity m) \<Longrightarrow> slot m key < nat (sint (capacity m))"
  by (simp add: slot_def nat_less_iff)

subsection \<open>The invariant\<close>

definition rep :: "HashMap \<Rightarrow> addr list list \<Rightarrow> bool" where
  "rep m css \<longleftrightarrow>
     0 < sint (capacity m) \<and>
     length (table m) = nat (sint (capacity m)) \<and>
     length css = length (table m) \<and>
     (\<forall>i < length css. chain (heap m) (table m ! i) (css ! i)) \<and>
     distinct (concat css) \<and>
     (\<forall>a. deref (heap m) a \<noteq> None \<longleftrightarrow> a \<in> set (concat css)) \<and>
     (\<forall>i < length css. distinct (map fst (map (cell (heap m)) (css ! i)))) \<and>
     (\<forall>i < length css. \<forall>a \<in> set (css ! i). slot m (fst (cell (heap m) a)) = i)"

lemma repI:
  assumes "0 < sint (capacity m)" and "length (table m) = nat (sint (capacity m))"
    and "length css = nat (sint (capacity m))"
    and "\<And>i. i < length css \<Longrightarrow> chain (heap m) (table m ! i) (css ! i)"
    and "distinct (concat css)"
    and "\<And>a. deref (heap m) a \<noteq> None \<longleftrightarrow> a \<in> set (concat css)"
    and "\<And>i. i < length css \<Longrightarrow> distinct (map fst (map (cell (heap m)) (css ! i)))"
    and "\<And>i a. i < length css \<Longrightarrow> a \<in> set (css ! i) \<Longrightarrow> slot m (fst (cell (heap m) a)) = i"
  shows "rep m css"
  unfolding rep_def
  by (intro conjI allI impI ballI)
     (rule assms(1,5,6) | (rule assms(4,7,8); assumption) | simp only: assms(2,3))+

definition HashMap_inv :: "HashMap \<Rightarrow> bool" where
  "HashMap_inv m \<longleftrightarrow> (\<exists>css. rep m css)"

text \<open>The abstraction: the key-value list of each bucket, in chain order.\<close>

fun walk :: "nat \<Rightarrow> heap \<Rightarrow> addr option \<Rightarrow> (string \<times> string) list" where
  "walk 0 h p = []"
| "walk (Suc f) h None = []"
| "walk (Suc f) h (Some a) =
     (case deref h a of
        None \<Rightarrow> []
      | Some n \<Rightarrow> (node_key n, node_value n) # walk f h (node_next n))"

definition HashMap_buckets :: "HashMap \<Rightarrow> (string \<times> string) list list" where
  "HashMap_buckets m = map (walk (length (heap m)) (heap m)) (table m)"

definition HashMap_entries :: "HashMap \<Rightarrow> (string \<times> string) list" where
  "HashMap_entries m = concat (HashMap_buckets m)"

definition HashMap_map :: "HashMap \<Rightarrow> string \<rightharpoonup> string" where
  "HashMap_map m = map_of (HashMap_entries m)"

lemma walk_chain: "chain h p as \<Longrightarrow> length as \<le> f \<Longrightarrow> walk f h p = map (cell h) as"
proof (induction as arbitrary: p f)
  case Nil
  then show ?case by (cases f) auto
next
  case (Cons a as)
  then show ?case by (cases f) (auto simp: cell_deref)
qed

lemma rep_capacity: "rep m css \<Longrightarrow> 0 < sint (capacity m)"
  by (simp add: rep_def)

lemma rep_lengths:
  "rep m css \<Longrightarrow> length (table m) = nat (sint (capacity m))"
  "rep m css \<Longrightarrow> length css = nat (sint (capacity m))"
  by (simp_all add: rep_def)

lemma rep_chain: "rep m css \<Longrightarrow> i < length css \<Longrightarrow> chain (heap m) (table m ! i) (css ! i)"
  by (simp add: rep_def)

lemma rep_slot_less: "rep m css \<Longrightarrow> slot m k < length css"
  by (simp add: rep_def slot_less)

lemma rep_distinct_nth: "rep m css \<Longrightarrow> i < length css \<Longrightarrow> distinct (css ! i)"
  by (simp add: rep_def distinct_concat_iff)

lemma rep_live: "rep m css \<Longrightarrow> deref (heap m) a \<noteq> None \<longleftrightarrow> a \<in> set (concat css)"
  by (simp add: rep_def)

lemma rep_keys:
  "rep m css \<Longrightarrow> i < length css \<Longrightarrow> a \<in> set (css ! i) \<Longrightarrow> slot m (fst (cell (heap m) a)) = i"
  by (simp add: rep_def)

text \<open>Two buckets share no node.\<close>

lemma distinct_concat_disjoint:
  "distinct (concat css) \<Longrightarrow> i < length css \<Longrightarrow> j < length css \<Longrightarrow> i \<noteq> j \<Longrightarrow>
   set (css ! i) \<inter> set (css ! j) = {}"
proof (induction css arbitrary: i j)
  case Nil
  then show ?case by simp
next
  case (Cons as css)
  have "set as \<inter> set (css ! k) = {}" if "k < length css" for k
    using Cons.prems(1) nth_mem[OF that] by auto
  with Cons show ?case by (cases i; cases j) auto
qed

lemma rep_disjoint:
  "rep m css \<Longrightarrow> i < length css \<Longrightarrow> j < length css \<Longrightarrow> i \<noteq> j \<Longrightarrow> set (css ! i) \<inter> set (css ! j) = {}"
  by (rule distinct_concat_disjoint) (simp_all add: rep_def)

lemma rep_buckets:
  assumes "rep m css"
  shows "HashMap_buckets m = map (map (cell (heap m))) css"
proof (rule nth_equalityI)
  show "length (HashMap_buckets m) = length (map (map (cell (heap m))) css)"
    using assms by (simp add: HashMap_buckets_def rep_def)
next
  fix i assume "i < length (HashMap_buckets m)"
  then have i: "i < length css" "i < length (table m)"
    using assms by (simp_all add: HashMap_buckets_def rep_def)
  have "length (css ! i) \<le> length (heap m)"
  proof (rule distinct_bounded_length)
    show "distinct (css ! i)" using assms i(1) by (rule rep_distinct_nth)
    show "a < length (heap m)" if "a \<in> set (css ! i)" for a
      using chain_live[OF rep_chain[OF assms i(1)] that] deref_less by blast
  qed
  from walk_chain[OF rep_chain[OF assms i(1)] this]
  show "HashMap_buckets m ! i = map (map (cell (heap m))) css ! i"
    using i by (simp add: HashMap_buckets_def)
qed

text \<open>A change of one chain is a change of one bucket list.\<close>

lemma buckets_update:
  assumes "rep m css" and "rep m' css'" and "length css' = length css" and "i < length css"
    and "map (cell (heap m')) (css' ! i) = ys"
    and "\<And>j. j < length css \<Longrightarrow> j \<noteq> i \<Longrightarrow>
           map (cell (heap m')) (css' ! j) = map (cell (heap m)) (css ! j)"
  shows "HashMap_buckets m' = (HashMap_buckets m)[i := ys]"
proof (rule nth_equalityI)
  show "length (HashMap_buckets m') = length ((HashMap_buckets m)[i := ys])"
    using assms(3) by (simp add: rep_buckets[OF assms(1)] rep_buckets[OF assms(2)])
next
  fix j assume "j < length (HashMap_buckets m')"
  then have j: "j < length css" using assms(3) by (simp add: rep_buckets[OF assms(2)])
  have "HashMap_buckets m' ! j = map (cell (heap m')) (css' ! j)"
    using j assms(3) by (simp add: rep_buckets[OF assms(2)])
  moreover have "HashMap_buckets m ! j = map (cell (heap m)) (css ! j)"
    using j by (simp add: rep_buckets[OF assms(1)])
  moreover have "length (HashMap_buckets m) = length css"
    by (simp add: rep_buckets[OF assms(1)])
  ultimately show "HashMap_buckets m' ! j = (HashMap_buckets m)[i := ys] ! j"
    using assms(5) assms(6)[OF j] j by (cases "j = i") simp_all
qed

lemma rep_bucket_keys:
  assumes "rep m css" and "i < length css" and "(k, v) \<in> set (HashMap_buckets m ! i)"
  shows "slot m k = i"
proof -
  obtain a where "a \<in> set (css ! i)" "cell (heap m) a = (k, v)"
    using assms by (auto simp: rep_buckets)
  with rep_keys[OF assms(1,2)] show ?thesis by force
qed

text \<open>Looking a key up in the store is looking it up in the bucket it hashes to.\<close>

lemma HashMap_map_slot:
  assumes "rep m css"
  shows "HashMap_map m k = map_of (HashMap_buckets m ! slot m k) k"
  unfolding HashMap_map_def HashMap_entries_def
proof (rule map_of_concat_nth)
  show "slot m k < length (HashMap_buckets m)"
    using rep_slot_less[OF assms] by (simp add: rep_buckets[OF assms])
next
  fix j assume j: "j < length (HashMap_buckets m)" "j \<noteq> slot m k"
  then have "j < length css" by (simp add: rep_buckets[OF assms])
  with rep_bucket_keys[OF assms this] j show "map_of (HashMap_buckets m ! j) k = None"
    by (metis map_of_SomeD not_None_eq)
qed

lemma rep_read_bucket:
  "rep m css \<Longrightarrow> read_bucket m (int (slot m k)) = Some (table m ! slot m k)"
  using slot_less[of m k] by (simp add: read_bucket_def rep_def)

subsection \<open>Insertion\<close>

definition put :: "string \<Rightarrow> string \<Rightarrow> (string \<times> string) list \<Rightarrow> (string \<times> string) list" where
  "put k v xs =
     (if k \<in> fst ` set xs then map (\<lambda>e. if fst e = k then (k, v) else e) xs else (k, v) # xs)"

lemma map_of_replace:
  "k \<in> fst ` set xs \<Longrightarrow>
   map_of (map (\<lambda>e. if fst e = k then (k, v) else e) xs) = (map_of xs)(k \<mapsto> v)"
proof (induction xs)
  case Nil
  then show ?case by simp
next
  case (Cons e xs)
  obtain k' v' where e: "e = (k', v')" by (cases e)
  show ?case
  proof (cases "k \<in> fst ` set xs")
    case True
    with Cons e show ?thesis by (auto simp: fun_eq_iff)
  next
    case False
    then have "map (\<lambda>e. if fst e = k then (k, v) else e) xs = xs"
      by (intro map_idI) force
    moreover have "k' = k" using Cons.prems False e by auto
    ultimately show ?thesis using e by (auto simp: fun_eq_iff)
  qed
qed

lemma map_of_put: "map_of (put k v xs) = (map_of xs)(k \<mapsto> v)"
  by (simp add: put_def map_of_replace)

lemma map_put:
  assumes "distinct (map fst (map f bs))" and "a \<in> set bs" and "fst (f a) = k"
  shows "map (\<lambda>b. if b = a then (k, v) else f b) bs = put k v (map f bs)"
proof -
  have "(if b = a then (k, v) else f b) = (if fst (f b) = k then (k, v) else f b)" if "b \<in> set bs" for b
    using assms that by (auto simp: distinct_map inj_on_def)
  then have "map (\<lambda>b. if b = a then (k, v) else f b) bs = map (\<lambda>e. if fst e = k then (k, v) else e) (map f bs)"
    by simp
  moreover have "k \<in> fst ` set (map f bs)" using assms(2,3) by force
  ultimately show ?thesis by (simp add: put_def)
qed

text \<open>Overwriting the value of a node: no pointer changes.\<close>

lemma rep_set_value:
  assumes r: "rep m css" and a: "deref (heap m) a = Some n"
  shows "rep (m\<lparr>heap := (heap m)[a := Some (n\<lparr>node_value := v\<rparr>)]\<rparr>) css"
    and "cell ((heap m)[a := Some (n\<lparr>node_value := v\<rparr>)]) b = (if b = a then (node_key n, v) else cell (heap m) b)"
proof -
  let ?h = "(heap m)[a := Some (n\<lparr>node_value := v\<rparr>)]"
  have d: "deref ?h b = (if b = a then Some (n\<lparr>node_value := v\<rparr>) else deref (heap m) b)" for b
    using deref_less[OF a] by (auto simp: deref_update)
  show cells: "cell ?h b = (if b = a then (node_key n, v) else cell (heap m) b)" for b
    by (simp add: cell_def d)
  have keys: "fst (cell ?h b) = fst (cell (heap m) b)" for b using a by (simp add: cells cell_deref)
  have ch: "chain ?h p (css ! j) = chain (heap m) p (css ! j)" for p j
    by (rule chain_cong) (use a in \<open>auto simp: d\<close>)
  show "rep (m\<lparr>heap := ?h\<rparr>) css"
  proof (rule repI)
    show "deref (heap (m\<lparr>heap := ?h\<rparr>)) b \<noteq> None \<longleftrightarrow> b \<in> set (concat css)" for b
      using rep_live[OF r, of b] a by (auto simp: d)
    show "slot (m\<lparr>heap := ?h\<rparr>) (fst (cell (heap (m\<lparr>heap := ?h\<rparr>)) b)) = j"
      if "j < length css" "b \<in> set (css ! j)" for j b
      using rep_keys[OF r that] by (simp add: keys slot_def)
  qed (use r in \<open>simp_all add: rep_def ch keys comp_def\<close>)
qed

lemma insert_present:
  assumes r: "rep m css" and k: "k \<in> fst ` set (HashMap_buckets m ! slot m k)"
  shows "\<exists>m'. HashMap_insert m k v = Some m' \<and> capacity m' = capacity m \<and> rep m' css \<and>
           HashMap_buckets m' =
             (HashMap_buckets m)[slot m k := put k v (HashMap_buckets m ! slot m k)]"
proof -
  let ?i = "slot m k"
  note i = rep_slot_less[OF r, of k]
  have bi: "HashMap_buckets m ! ?i = map (cell (heap m)) (css ! ?i)"
    using i by (simp add: rep_buckets[OF r])
  obtain a n where a: "a \<in> set (css ! ?i)" "deref (heap m) a = Some n" "node_key n = k"
    and loop: "insert_loop (heap m) (table m ! ?i) k v
                 = Some ((heap m)[a := Some (n\<lparr>node_value := v\<rparr>)], True)"
    using insert_loop_present[OF rep_chain[OF r i], of k v] k bi by auto
  let ?h = "(heap m)[a := Some (n\<lparr>node_value := v\<rparr>)]"
  note rep' = rep_set_value(1)[OF r a(2), of v] and cells = rep_set_value(2)[OF r a(2), of v, unfolded a(3)]
  have ins: "HashMap_insert m k v = Some (m\<lparr>heap := ?h\<rparr>)"
    using loop by (simp add: HashMap_insert_def hashFunction_slot rep_capacity[OF r] rep_read_bucket[OF r])
  have "map (cell ?h) (css ! ?i) = put k v (HashMap_buckets m ! ?i)"
    using map_put[of "cell (heap m)" "css ! ?i" a k v] r i a
    by (simp add: rep_def bi cells[abs_def] cell_deref)
  moreover have "map (cell ?h) (css ! j) = map (cell (heap m)) (css ! j)" if "j < length css" "j \<noteq> ?i" for j
    using rep_disjoint[OF r that(1) i that(2)] a(1) by (auto simp: cells)
  ultimately have "HashMap_buckets (m\<lparr>heap := ?h\<rparr>) = (HashMap_buckets m)[?i := put k v (HashMap_buckets m ! ?i)]"
    by (intro buckets_update[OF r rep' refl i]) simp_all
  with ins rep' show ?thesis by auto
qed

text \<open>A new node in front of the chain; the address is fresh.\<close>

lemma fresh_node:
  assumes r: "rep m css" and j: "j < length css"
  shows "length (heap m) \<notin> set (css ! j)"
    and "map (cell (heap m @ [Some n])) (css ! j) = map (cell (heap m)) (css ! j)"
    and "chain (heap m @ [Some n]) p (css ! j) = chain (heap m) p (css ! j)"
proof -
  have "length (heap m) \<notin> set (concat css)" using rep_live[OF r, of "length (heap m)"] by (simp add: deref_def)
  then show f: "length (heap m) \<notin> set (css ! j)" using nth_mem[OF j] by auto
  show "map (cell (heap m @ [Some n])) (css ! j) = map (cell (heap m)) (css ! j)"
    by (rule cells_frame) (use f in \<open>auto simp: deref_append\<close>)
  show "chain (heap m @ [Some n]) p (css ! j) = chain (heap m) p (css ! j)"
    by (rule chain_frame) (use f in \<open>auto simp: deref_append\<close>)
qed

lemma rep_new_node:
  assumes r: "rep m css" and k: "k \<notin> fst ` set (HashMap_buckets m ! slot m k)"
    and n: "n = \<lparr>node_key = k, node_value = v, node_next = table m ! slot m k\<rparr>"
  shows "rep (m\<lparr>heap := heap m @ [Some n], table := (table m)[slot m k := Some (length (heap m))]\<rparr>)
     (css[slot m k := length (heap m) # css ! slot m k])" (is "rep ?m' ?css'")
proof -
  let ?i = "slot m k" and ?a = "length (heap m)" and ?h' = "heap m @ [Some n]"
  note i = rep_slot_less[OF r, of k] and frame = fresh_node[OF r]
  have tl: "length (table m) = length css" using r by (simp add: rep_def)
  have d: "deref ?h' b = (if b = ?a then Some n else deref (heap m) b)" for b by (simp add: deref_append)
  have cells: "cell ?h' b = (if b = ?a then (k, v) else cell (heap m) b)" for b
    unfolding cell_def d by (simp add: n)
  have nn: "node_next n = table m ! ?i" by (simp add: n)
  have nth': "?css' ! j = (if j = ?i then ?a # css ! ?i else css ! j)" if "j < length css" for j
    using that by simp
  have conc: "set (concat ?css') = insert ?a (set (concat css))" "distinct (concat ?css') = distinct (?a # concat css)"
    using concat_update_split(2)[OF i, of "?a # css ! ?i"] concat_update_split(1)[OF i] by auto
  show ?thesis
  proof (rule repI)
    show "chain (heap ?m') (table ?m' ! j) (?css' ! j)" if "j < length ?css'" for j
      using that i tl rep_chain[OF r, of j] by (cases "j = ?i") (simp_all add: frame(3) d nn)
    show "distinct (concat ?css')"
      using conc(2) r rep_live[OF r, of ?a] by (simp add: rep_def deref_def)
    show "deref (heap ?m') b \<noteq> None \<longleftrightarrow> b \<in> set (concat ?css')" for b
      using rep_live[OF r, of b] unfolding conc(1) by (simp add: d)
    show "distinct (map fst (map (cell (heap ?m')) (?css' ! j)))" if "j < length ?css'" for j
    proof -
      have j: "j < length css" using that by simp
      have "distinct (map fst (map (cell ?h') (css ! j)))" using r j by (simp only: frame(2) rep_def)
      then show ?thesis using k j i frame(1,2)[OF i] by (auto simp: rep_buckets[OF r] nth' cells)
    qed
    show "slot ?m' (fst (cell (heap ?m') b)) = j" if "j < length ?css'" "b \<in> set (?css' ! j)" for j b
    proof (cases "b = ?a")
      case True
      then have "j = ?i" using that frame(1)[of j] by (simp add: nth' split: if_splits)
      then show ?thesis using True by (simp add: cells slot_def)
    next
      case False
      with that have "b \<in> set (css ! j)" by (auto simp: nth' split: if_splits)
      with rep_keys[OF r _ this] that(1) False show ?thesis by (simp add: cells slot_def)
    qed
  qed (use r in \<open>simp_all add: rep_def\<close>)
qed

lemma insert_absent:
  assumes r: "rep m css" and k: "k \<notin> fst ` set (HashMap_buckets m ! slot m k)"
  shows "\<exists>m' css'. HashMap_insert m k v = Some m' \<and> capacity m' = capacity m \<and> rep m' css' \<and>
           HashMap_buckets m' =
             (HashMap_buckets m)[slot m k := put k v (HashMap_buckets m ! slot m k)]"
proof -
  let ?i = "slot m k" and ?a = "length (heap m)"
  define n where n: "n = \<lparr>node_key = k, node_value = v, node_next = table m ! ?i\<rparr>"
  let ?h' = "heap m @ [Some n]" and ?css' = "css[?i := ?a # css ! ?i]"
  let ?m' = "m\<lparr>heap := ?h', table := (table m)[?i := Some ?a]\<rparr>"
  note i = rep_slot_less[OF r, of k] and rep' = rep_new_node[OF r k n]
  have bi: "HashMap_buckets m ! ?i = map (cell (heap m)) (css ! ?i)"
    using i by (simp add: rep_buckets[OF r])
  have "insert_loop (heap m) (table m ! ?i) k v = Some (heap m, False)"
    using insert_loop_absent[OF rep_chain[OF r i]] k bi by simp
  moreover have "set_next (heap m @ [Some \<lparr>node_key = k, node_value = v, node_next = None\<rparr>])
      ?a (table m ! ?i) = Some ?h'"
    by (simp add: set_next_def deref_append n)
  moreover have "write_bucket (m\<lparr>heap := ?h'\<rparr>) (int ?i) (Some ?a) = Some ?m'"
    using i r by (simp add: write_bucket_def rep_def)
  ultimately have ins: "HashMap_insert m k v = Some ?m'"
    by (simp add: HashMap_insert_def hashFunction_slot rep_capacity[OF r] rep_read_bucket[OF r] new_Node_def)
  have c: "cell ?h' ?a = (k, v)" by (simp add: cell_def deref_append n)
  have "HashMap_buckets ?m' = (HashMap_buckets m)[?i := put k v (HashMap_buckets m ! ?i)]"
  proof (rule buckets_update[OF r rep' _ i])
    show "map (cell (heap ?m')) (?css' ! ?i) = put k v (HashMap_buckets m ! ?i)"
      using k i fresh_node(2)[OF r i, of n] c by (simp add: put_def bi)
    show "map (cell (heap ?m')) (?css' ! j) = map (cell (heap m)) (css ! j)"
      if "j < length css" "j \<noteq> ?i" for j
      using fresh_node(2)[OF r that(1), of n] that by simp
  qed simp
  with ins rep' show ?thesis by (intro exI[of _ ?m'] exI[of _ ?css']) simp
qed

lemma HashMap_insert_buckets:
  assumes "rep m css"
  shows "\<exists>m' css'. HashMap_insert m k v = Some m' \<and> capacity m' = capacity m \<and> rep m' css' \<and>
           HashMap_buckets m' =
             (HashMap_buckets m)[slot m k := put k v (HashMap_buckets m ! slot m k)]"
proof (cases "k \<in> fst ` set (HashMap_buckets m ! slot m k)")
  case True
  from insert_present[OF assms this] show ?thesis by blast
next
  case False
  from insert_absent[OF assms this] show ?thesis .
qed

subsection \<open>Removal\<close>

definition del :: "string \<Rightarrow> (string \<times> string) list \<Rightarrow> (string \<times> string) list" where
  "del k xs = filter (\<lambda>e. fst e \<noteq> k) xs"

lemma del_absent: "k \<notin> fst ` set xs \<Longrightarrow> del k xs = xs"
  unfolding del_def by (intro filter_True) force

lemma del_split:
  assumes "distinct (map fst (xs @ e # ys))" and "fst e = k"
  shows "del k (xs @ e # ys) = xs @ ys"
proof -
  have "k \<notin> fst ` set xs" "k \<notin> fst ` set ys" using assms by auto
  from this[THEN del_absent] assms(2) show ?thesis by (simp add: del_def)
qed

text \<open>What unlinking node \<open>a\<close> and deleting it does to the heap.\<close>

lemma unlink_result:
  assumes ch: "chain (heap m) (table m ! i) (xs @ a # ys)" and dist: "distinct (xs @ a # ys)"
    and i: "i < length (table m)" and n: "deref (heap m) a = Some n"
  shows "\<exists>m'. unlink m (int i) (if xs = [] then None else Some (last xs)) a n = Some m' \<and>
      capacity m' = capacity m \<and> length (table m') = length (table m) \<and>
      (\<forall>j. j \<noteq> i \<longrightarrow> table m' ! j = table m ! j) \<and>
      chain (heap m') (table m' ! i) (xs @ ys) \<and>
      deref (heap m') a = None \<and>
      (\<forall>b. b \<noteq> a \<longrightarrow> cell (heap m') b = cell (heap m) b \<and>
         (deref (heap m') b = None \<longleftrightarrow> deref (heap m) b = None)) \<and>
      (\<forall>b. b \<notin> set (xs @ a # ys) \<longrightarrow> deref (heap m') b = deref (heap m) b)"
proof (cases "xs = []")
  case True
  let ?m = "m\<lparr>table := (table m)[i := node_next n], heap := (heap m)[a := None]\<rparr>"
  have d: "deref ((heap m)[a := None]) b = (if b = a then None else deref (heap m) b)" for b
    using deref_less[OF n] by (auto simp: deref_update)
  have "chain (heap m) (node_next n) ys" using ch True n by auto
  then have "chain ((heap m)[a := None]) (node_next n) ys"
    using dist True by (subst chain_frame) (auto simp: d)
  with True i n show ?thesis
    by (intro exI[of _ ?m])
       (simp add: unlink_def write_bucket_def delete_Node_def d cell_def)
next
  case False
  obtain nb where nb: "deref (heap m) (last xs) = Some nb"
    using chain_live[OF ch, of "last xs"] False by auto
  let ?h = "(heap m)[last xs := Some (nb\<lparr>node_next := node_next n\<rparr>)]"
  let ?m = "m\<lparr>heap := ?h[a := None]\<rparr>"
  have ne: "a \<noteq> last xs" using dist False by (metis IntI append_is_Nil_conv distinct_append
    empty_iff last_in_set list.set_intros(1))
  have d1: "deref ?h b = (if b = last xs then Some (nb\<lparr>node_next := node_next n\<rparr>) else deref (heap m) b)"
    for b using deref_less[OF nb] by (auto simp: deref_update)
  have d: "deref (?h[a := None]) b = (if b = a then None else deref ?h b)" for b
    using deref_less[OF n] by (auto simp: deref_update[of ?h])
  have "chain ?h (table m ! i) (xs @ ys)" by (rule chain_unlink[OF ch dist False n nb])
  then have "chain (?h[a := None]) (table m ! i) (xs @ ys)"
    using dist by (subst chain_frame) (auto simp: d)
  moreover have "last xs \<in> set xs" using False by simp
  ultimately show ?thesis using False n ne nb
    by (intro exI[of _ ?m])
       (auto simp: unlink_def set_next_def delete_Node_def d d1 cell_def)
qed

text \<open>
  A map whose bucket \<open>i\<close> has lost node \<open>a\<close> and is otherwise as before satisfies
  the invariant, and reads as the old buckets without the entry of \<open>a\<close>.
\<close>

lemma rep_unlinked:
  assumes r: "rep m css" and i: "i < length css" and split: "css ! i = xs @ a # ys"
    and cap: "capacity m' = capacity m" and tlen: "length (table m') = length (table m)"
    and tab: "\<And>j. j \<noteq> i \<Longrightarrow> table m' ! j = table m ! j"
    and ch: "chain (heap m') (table m' ! i) (xs @ ys)"
    and gone: "deref (heap m') a = None"
    and cells: "\<And>b. b \<noteq> a \<Longrightarrow> cell (heap m') b = cell (heap m) b"
    and live: "\<And>b. b \<noteq> a \<Longrightarrow> deref (heap m') b = None \<longleftrightarrow> deref (heap m) b = None"
    and other: "\<And>b. b \<notin> set (xs @ a # ys) \<Longrightarrow> deref (heap m') b = deref (heap m) b"
  shows "rep m' (css[i := xs @ ys])"
    and "\<And>j. j < length css \<Longrightarrow>
      map (cell (heap m')) (css[i := xs @ ys] ! j) = map (cell (heap m)) (css[i := xs @ ys] ! j)"
proof -
  let ?css = "css[i := xs @ ys]"
  have dist: "distinct (xs @ a # ys)" using rep_distinct_nth[OF r i] split by simp
  have nth': "?css ! j = (if j = i then xs @ ys else css ! j)" if "j < length css" for j
    using that by simp
  have apart: "b \<noteq> a \<and> b \<notin> set (xs @ a # ys)" if "j < length css" "j \<noteq> i" "b \<in> set (css ! j)" for j b
    using rep_disjoint[OF r that(1) i that(2)] that(3) split by auto
  have mem: "b \<noteq> a \<and> b \<in> set (css ! j)" if "j < length css" "b \<in> set (?css ! j)" for j b
    using that apart dist split by (auto simp: nth' split: if_splits)
  show old: "map (cell (heap m')) (?css ! j) = map (cell (heap m)) (?css ! j)"
    if "j < length css" for j
    using mem[OF that] by (simp add: cells)
  have d: "distinct (concat css)" using r by (simp add: rep_def)
  note c = concat_update_split(1)[OF i, unfolded split] concat_update_split(2)[OF i, of "xs @ ys"]
  have conc: "set (concat ?css) = set (concat css) - {a}" "distinct (concat ?css)"
    using d unfolding c by auto
  have keys: "distinct (map fst (map (cell (heap m)) (css ! j)))" if "j < length css" for j
    using r that by (simp add: rep_def)
  show "rep m' ?css"
  proof (rule repI)
    show "0 < sint (capacity m')" "length (table m') = nat (sint (capacity m'))"
      "length ?css = nat (sint (capacity m'))" "distinct (concat ?css)"
      using r cap tlen conc(2) by (simp_all add: rep_def)
    show "chain (heap m') (table m' ! j) (?css ! j)" if "j < length ?css" for j
    proof (cases "j = i")
      case True
      with ch i show ?thesis by simp
    next
      case False
      have j: "j < length css" using that by simp
      have "chain (heap m') p (css ! j) = chain (heap m) p (css ! j)" for p
        by (rule chain_frame) (use apart[OF j False] other in blast)
      with False j rep_chain[OF r j] tab[OF False] show ?thesis by simp
    qed
    show "deref (heap m') b \<noteq> None \<longleftrightarrow> b \<in> set (concat ?css)" for b
      using rep_live[OF r, of b] gone live[of b] unfolding conc(1) by (cases "b = a") auto
    show "distinct (map fst (map (cell (heap m')) (?css ! j)))" if "j < length ?css" for j
    proof -
      have j: "j < length css" using that by simp
      show ?thesis unfolding old[OF j] using keys[OF j] keys[OF i] split by (auto simp: nth'[OF j])
    qed
    show "slot m' (fst (cell (heap m') b)) = j" if "j < length ?css" "b \<in> set (?css ! j)" for j b
      using that mem[of j b] rep_keys[OF r, of j b] by (simp add: cells slot_cong[OF cap])
  qed
qed

lemma remove_present:
  assumes r: "rep m css" and k: "k \<in> fst ` set (HashMap_buckets m ! slot m k)"
  shows "\<exists>m' css'. remove_loop m (int (slot m k)) None (table m ! slot m k) k = Some m' \<and>
           capacity m' = capacity m \<and> rep m' css' \<and>
           HashMap_buckets m' =
             (HashMap_buckets m)[slot m k := del k (HashMap_buckets m ! slot m k)]"
proof -
  let ?i = "slot m k"
  note i = rep_slot_less[OF r, of k]
  have bi: "HashMap_buckets m ! ?i = map (cell (heap m)) (css ! ?i)"
    using i by (simp add: rep_buckets[OF r])
  obtain xs a ys n where split: "css ! ?i = xs @ a # ys"
    and n: "deref (heap m) a = Some n" "node_key n = k"
    and loop: "remove_loop m (int ?i) None (table m ! ?i) k
                 = unlink m (int ?i) (if xs = [] then None else Some (last xs)) a n"
    using remove_loop_present[OF rep_chain[OF r i], of k "int ?i" None] k bi by auto
  have dist: "distinct (xs @ a # ys)" using rep_distinct_nth[OF r i] split by simp
  have tl: "?i < length (table m)" using i r by (simp add: rep_def)
  obtain m' where u: "unlink m (int ?i) (if xs = [] then None else Some (last xs)) a n = Some m'"
    and cap: "capacity m' = capacity m" and rest: "length (table m') = length (table m)"
      "\<And>j. j \<noteq> ?i \<Longrightarrow> table m' ! j = table m ! j"
      "chain (heap m') (table m' ! ?i) (xs @ ys)" "deref (heap m') a = None"
      "\<And>b. b \<noteq> a \<Longrightarrow> cell (heap m') b = cell (heap m) b"
      "\<And>b. b \<noteq> a \<Longrightarrow> deref (heap m') b = None \<longleftrightarrow> deref (heap m) b = None"
      "\<And>b. b \<notin> set (xs @ a # ys) \<Longrightarrow> deref (heap m') b = deref (heap m) b"
    using unlink_result[OF _ dist tl n(1)] rep_chain[OF r i] split by auto
  have rep': "rep m' (css[?i := xs @ ys])"
    by (rule rep_unlinked(1)[OF r i split cap]) (rule rest; assumption)+
  have old: "map (cell (heap m')) (css[?i := xs @ ys] ! j)
      = map (cell (heap m)) (css[?i := xs @ ys] ! j)" if "j < length css" for j
    by (rule rep_unlinked(2)[OF r i split cap]) ((rule rest; assumption) | rule that)+
  have "HashMap_buckets m' = (HashMap_buckets m)[?i := del k (HashMap_buckets m ! ?i)]"
  proof (rule buckets_update[OF r rep' _ i])
    have "distinct (map fst (map (cell (heap m)) (css ! ?i)))" using r i by (simp add: rep_def)
    then have "del k (map (cell (heap m)) (xs @ a # ys)) = map (cell (heap m)) (xs @ ys)"
      using del_split[of "map (cell (heap m)) xs" "cell (heap m) a" "map (cell (heap m)) ys" k]
        split n by (simp add: cell_deref)
    then show "map (cell (heap m')) (css[?i := xs @ ys] ! ?i) = del k (HashMap_buckets m ! ?i)"
      using i bi split old[OF i] by simp
    show "map (cell (heap m')) (css[?i := xs @ ys] ! j) = map (cell (heap m)) (css ! j)"
      if "j < length css" "j \<noteq> ?i" for j
      using old[OF that(1)] that by simp
  qed simp
  with loop u cap rep' show ?thesis by auto
qed

lemma HashMap_remove_buckets:
  assumes r: "rep m css"
  shows "\<exists>m' css'. HashMap_remove m k = Some m' \<and> capacity m' = capacity m \<and> rep m' css' \<and>
           HashMap_buckets m' =
             (HashMap_buckets m)[slot m k := del k (HashMap_buckets m ! slot m k)]"
proof -
  have unfold: "HashMap_remove m k
      = remove_loop m (int (slot m k)) None (table m ! slot m k) k"
    by (simp add: HashMap_remove_def hashFunction_slot rep_capacity[OF r] rep_read_bucket[OF r])
  show ?thesis
  proof (cases "k \<in> fst ` set (HashMap_buckets m ! slot m k)")
    case True
    from remove_present[OF r this] show ?thesis unfolding unfold .
  next
    case False
    note i = rep_slot_less[OF r, of k]
    have "HashMap_remove m k = Some m" unfolding unfold
      by (rule remove_loop_absent[OF rep_chain[OF r i]])
         (use False i in \<open>simp add: rep_buckets[OF r]\<close>)
    with r False show ?thesis by (auto simp: del_absent)
  qed
qed

subsection \<open>Lookup, iteration, construction, destruction\<close>

lemma HashMap_get_map:
  assumes r: "rep m css"
  shows "HashMap_get m k = Some (case HashMap_map m k of None \<Rightarrow> '''' | Some v \<Rightarrow> v)"
proof -
  note i = rep_slot_less[OF r, of k]
  have "get_loop (heap m) (table m ! slot m k) k
      = Some (case map_of (HashMap_buckets m ! slot m k) k of None \<Rightarrow> '''' | Some v \<Rightarrow> v)"
    using get_loop_chain[OF rep_chain[OF r i], of k] i by (simp add: rep_buckets[OF r])
  then show ?thesis
    by (simp add: HashMap_get_def hashFunction_slot rep_capacity[OF r] rep_read_bucket[OF r]
        HashMap_map_slot[OF r])
qed

lemma forEach_from_fold:
  assumes r: "rep m css"
  shows "i \<le> length css \<Longrightarrow>
    forEach_from m f (int i) s
      = Some (fold (\<lambda>(k, v). f k v) (concat (drop i (HashMap_buckets m))) s)"
proof (induction "length css - i" arbitrary: i s)
  case 0
  then have "int i = sint (capacity m)" using r by (simp add: rep_def)
  with 0 show ?case by (subst forEach_from.simps) (simp add: rep_buckets[OF r])
next
  case (Suc d)
  then have i: "i < length css" by simp
  have lt: "int i < sint (capacity m)" and len: "int i < int (length (table m))"
    using i r by (simp_all add: rep_def)
  have "forEach_from m f (int i) s = forEach_from m f (int (Suc i))
          (fold (\<lambda>(k, v). f k v) (map (cell (heap m)) (css ! i)) s)"
    using lt len forEach_chain_fold[OF rep_chain[OF r i], of f s]
    by (subst forEach_from.simps) (simp add: read_bucket_def add.commute)
  also have "\<dots> = Some (fold (\<lambda>(k, v). f k v) (concat (drop (Suc i) (HashMap_buckets m)))
          (fold (\<lambda>(k, v). f k v) (map (cell (heap m)) (css ! i)) s))"
    using Suc.hyps(1)[of "Suc i"] Suc.hyps(2) i by simp
  also have "\<dots> = Some (fold (\<lambda>(k, v). f k v) (concat (drop i (HashMap_buckets m))) s)"
    using i Cons_nth_drop_Suc[of i "HashMap_buckets m", symmetric] by (simp add: rep_buckets[OF r])
  finally show ?case .
qed

lemma HashMap_forEach_fold:
  assumes "rep m css"
  shows "HashMap_forEach m f s = Some (fold (\<lambda>(k, v). f k v) (HashMap_entries m) s)"
  using forEach_from_fold[OF assms, of 0] by (simp add: HashMap_forEach_def HashMap_entries_def)

lemma distinct_concat_keys:
  assumes "\<And>i. i < length xss \<Longrightarrow> distinct (map fst (xss ! i))"
    and "\<And>i j k. i < length xss \<Longrightarrow> j < length xss \<Longrightarrow> k \<in> fst ` set (xss ! i) \<Longrightarrow>
           k \<in> fst ` set (xss ! j) \<Longrightarrow> i = j"
  shows "distinct (map fst (concat xss))"
  using assms
proof (induction xss)
  case Nil
  then show ?case by simp
next
  case (Cons xs xss)
  have d: "distinct (map fst (concat xss))"
  proof (rule Cons.IH)
    show "distinct (map fst (xss ! i))" if "i < length xss" for i
      using Cons.prems(1)[of "Suc i"] that by simp
    show "i = j" if "i < length xss" "j < length xss" "k \<in> fst ` set (xss ! i)"
        "k \<in> fst ` set (xss ! j)" for i j k
      using Cons.prems(2)[of "Suc i" "Suc j" k] that by simp
  qed
  have "fst ` set xs \<inter> fst ` set (concat xss) = {}"
  proof (rule ccontr)
    assume "fst ` set xs \<inter> fst ` set (concat xss) \<noteq> {}"
    then obtain k ys where k: "k \<in> fst ` set xs" "ys \<in> set xss" "k \<in> fst ` set ys" by auto
    then obtain j where "j < length xss" "xss ! j = ys" by (auto simp: in_set_conv_nth)
    with k Cons.prems(2)[of 0 "Suc j" k] show False by simp
  qed
  with d Cons.prems(1)[of 0] show ?case by auto
qed

lemma HashMap_entries_distinct:
  assumes r: "rep m css"
  shows "distinct (map fst (HashMap_entries m))"
  unfolding HashMap_entries_def
proof (rule distinct_concat_keys)
  fix i assume "i < length (HashMap_buckets m)"
  then show "distinct (map fst (HashMap_buckets m ! i))"
    using r by (simp add: rep_buckets[OF r]) (simp add: rep_def)
next
  fix i j k assume i: "i < length (HashMap_buckets m)" and j: "j < length (HashMap_buckets m)"
    and k: "k \<in> fst ` set (HashMap_buckets m ! i)" "k \<in> fst ` set (HashMap_buckets m ! j)"
  have ij: "i < length css" "j < length css" using i j by (simp_all add: rep_buckets[OF r])
  obtain v w where "(k, v) \<in> set (HashMap_buckets m ! i)" "(k, w) \<in> set (HashMap_buckets m ! j)"
    using k by force
  with rep_bucket_keys[OF r ij(1), of k v] rep_bucket_keys[OF r ij(2), of k w] show "i = j" by simp
qed

lemma init_buckets_eq:
  "i \<le> n \<Longrightarrow> length t = n \<Longrightarrow> init_buckets i n t = take i t @ replicate (n - i) None"
proof (induction i n t rule: init_buckets.induct)
  case (1 i n t)
  show ?case
  proof (cases "i < n")
    case True
    then have "init_buckets i n t = take (Suc i) (t[i := None]) @ replicate (n - Suc i) None"
      using 1 by (subst init_buckets.simps) simp
    also have "\<dots> = take i t @ replicate (n - i) None"
      using True 1(3) by (simp add: take_Suc_conv_app_nth Suc_diff_Suc[symmetric])
    finally show ?thesis .
  next
    case False
    with 1 show ?thesis by (subst init_buckets.simps) simp
  qed
qed

lemma HashMap_new_eq:
  "0 \<le> sint sz \<Longrightarrow> HashMap_new raw sz
     = Some \<lparr>heap = [], table = replicate (nat (sint sz)) None, capacity = sz\<rparr>"
  by (simp add: HashMap_new_def init_buckets_eq)

lemma HashMap_new_rep:
  assumes "0 < sint sz"
  shows "\<exists>m. HashMap_new raw sz = Some m \<and> capacity m = sz \<and>
           rep m (replicate (nat (sint sz)) []) \<and> HashMap_map m = Map.empty"
proof -
  define m where "m = \<lparr>heap = [], table = replicate (nat (sint sz)) (None :: addr option), capacity = sz\<rparr>"
  have r: "rep m (replicate (nat (sint sz)) [])"
    using assms by (intro repI) (auto simp: m_def deref_def)
  have "HashMap_map m = Map.empty"
    by (simp add: HashMap_map_def HashMap_entries_def rep_buckets[OF r])
  with r assms show ?thesis by (simp add: HashMap_new_eq m_def)
qed

lemma destroy_chain_frees:
  "chain h p as \<Longrightarrow> distinct as \<Longrightarrow>
   \<exists>h'. destroy_chain h p = Some h' \<and>
     (\<forall>b. deref h' b = (if b \<in> set as then None else deref h b))"
proof (induction as arbitrary: h p)
  case Nil
  then show ?case by (subst destroy_chain.simps) simp
next
  case (Cons a as)
  obtain n where n: "p = Some a" "deref h a = Some n" "chain h (node_next n) as"
    using Cons.prems(1) by auto
  have d: "deref (h[a := None]) b = (if b = a then None else deref h b)" for b
    using deref_less[OF n(2)] by (auto simp: deref_update)
  have "chain (h[a := None]) (node_next n) as"
    using n(3) Cons.prems(2) by (subst chain_frame) (auto simp: d)
  from Cons.IH[OF this] Cons.prems(2) obtain h' where
    "destroy_chain (h[a := None]) (node_next n) = Some h'"
    "\<forall>b. deref h' b = (if b \<in> set as then None else deref (h[a := None]) b)" by auto
  with n show ?case by (subst destroy_chain.simps) (auto simp: delete_Node_def d)
qed

lemma destroy_from_frees:
  assumes r: "rep m css"
  shows "i \<le> length css \<Longrightarrow>
    (\<And>j b. i \<le> j \<Longrightarrow> j < length css \<Longrightarrow> b \<in> set (css ! j) \<Longrightarrow> deref h b = deref (heap m) b) \<Longrightarrow>
    \<exists>h'. destroy_from m i h = Some h' \<and>
      (\<forall>b. deref h' b = (if b \<in> set (concat (drop i css)) then None else deref h b))"
proof (induction "length css - i" arbitrary: i h)
  case 0
  have "unat (scast (capacity m) :: ull) = length css"
    using r uint_scast_pos[of "capacity m"] by (simp add: rep_def unat_eq_nat_uint)
  with 0 show ?case by (subst destroy_from.simps) simp
next
  case (Suc d)
  then have i: "i < length css" by simp
  have u: "unat (scast (capacity m) :: ull) = length css"
    using r uint_scast_pos[of "capacity m"] by (simp add: rep_def unat_eq_nat_uint)
  have "chain h (table m ! i) (css ! i)"
    using rep_chain[OF r i] Suc.prems(2)[OF le_refl i] by (subst chain_frame) auto
  from destroy_chain_frees[OF this rep_distinct_nth[OF r i]] obtain h1 where
    h1: "destroy_chain h (table m ! i) = Some h1"
      "\<And>b. deref h1 b = (if b \<in> set (css ! i) then None else deref h b)" by auto
  have keep: "deref h1 b = deref (heap m) b"
    if "Suc i \<le> j" "j < length css" "b \<in> set (css ! j)" for j b
    using rep_disjoint[OF r that(2) i] Suc.prems(2)[of j b] that by (auto simp: h1(2))
  have "d = length css - Suc i" "Suc i \<le> length css" using Suc.hyps(2) i by auto
  from Suc.hyps(1)[OF this, of h1] keep obtain h' where
    h': "destroy_from m (Suc i) h1 = Some h'"
      "\<And>b. deref h' b = (if b \<in> set (concat (drop (Suc i) css)) then None else deref h1 b)" by blast
  have "read_bucket m (int i) = Some (table m ! i)"
    using i r by (simp add: read_bucket_def rep_def)
  then have "destroy_from m i h = Some h'"
    using u i h1(1) h'(1) by (subst destroy_from.simps) simp
  moreover have "drop i css = css ! i # drop (Suc i) css" using i by (rule Cons_nth_drop_Suc[symmetric])
  ultimately show ?case by (auto simp: h'(2) h1(2))
qed

lemma HashMap_destroy_frees:
  assumes "rep m css"
  shows "\<exists>h. HashMap_destroy m = Some h \<and> (\<forall>a. deref h a = None)"
proof -
  obtain h where h: "HashMap_destroy m = Some h"
    "\<And>b. deref h b = (if b \<in> set (concat css) then None else deref (heap m) b)"
    using destroy_from_frees[OF assms, of 0 "heap m"] by (auto simp: HashMap_destroy_def)
  have "deref h a = None" for a using h(2)[of a] rep_live[OF assms, of a] by auto
  with h(1) show ?thesis by blast
qed

subsection \<open>The contract\<close>

lemma HashMap_map_update:
  assumes r: "rep m css" and r': "rep m' css'" and cap: "capacity m' = capacity m"
    and b: "HashMap_buckets m' = (HashMap_buckets m)[slot m k := ys]"
    and ys: "map_of ys = (map_of (HashMap_buckets m ! slot m k))(k := w)"
  shows "HashMap_map m' = (HashMap_map m)(k := w)"
proof
  fix j
  have i: "slot m k < length (HashMap_buckets m)"
    using rep_slot_less[OF r] by (simp add: rep_buckets[OF r])
  have "HashMap_map m' j = map_of ((HashMap_buckets m)[slot m k := ys] ! slot m j) j"
    using HashMap_map_slot[OF r'] b by (simp add: slot_cong[OF cap])
  also have "\<dots> = ((HashMap_map m)(k := w)) j"
    using i ys HashMap_map_slot[OF r, of j] by (cases "slot m j = slot m k") auto
  finally show "HashMap_map m' j = ((HashMap_map m)(k := w)) j" .
qed

lemma HashMap_insert_store:
  assumes "HashMap_inv m"
  shows "\<exists>m'. HashMap_insert m k v = Some m' \<and> HashMap_inv m' \<and>
           HashMap_map m' = (HashMap_map m)(k \<mapsto> v)"
proof -
  obtain css where r: "rep m css" using assms by (auto simp: HashMap_inv_def)
  obtain m' css' where "HashMap_insert m k v = Some m'" and c: "capacity m' = capacity m"
    and r': "rep m' css'" and b: "HashMap_buckets m' =
      (HashMap_buckets m)[slot m k := put k v (HashMap_buckets m ! slot m k)]"
    using HashMap_insert_buckets[OF r] by blast
  moreover from HashMap_map_update[OF r r' c b map_of_put]
  have "HashMap_map m' = (HashMap_map m)(k \<mapsto> v)" .
  ultimately show ?thesis by (auto simp: HashMap_inv_def)
qed

lemma HashMap_remove_store:
  assumes "HashMap_inv m"
  shows "\<exists>m'. HashMap_remove m k = Some m' \<and> HashMap_inv m' \<and>
           HashMap_map m' = (HashMap_map m)(k := None)"
proof -
  obtain css where r: "rep m css" using assms by (auto simp: HashMap_inv_def)
  obtain m' css' where "HashMap_remove m k = Some m'" and c: "capacity m' = capacity m"
    and r': "rep m' css'" and b: "HashMap_buckets m' =
      (HashMap_buckets m)[slot m k := del k (HashMap_buckets m ! slot m k)]"
    using HashMap_remove_buckets[OF r] by blast
  moreover have "HashMap_map m' = (HashMap_map m)(k := None)"
    by (rule HashMap_map_update[OF r r' c b]) (simp add: del_def map_of_filter_neq)
  ultimately show ?thesis by (auto simp: HashMap_inv_def)
qed

interpretation hm: kv_store HashMap_inv HashMap_map HashMap_insert HashMap_remove HashMap_get
  HashMap_entries
proof unfold_locales
  fix m k v assume inv: "HashMap_inv m"
  then obtain css where r: "rep m css" by (auto simp: HashMap_inv_def)
  show "\<exists>m'. HashMap_insert m k v = Some m' \<and> HashMap_inv m' \<and>
          HashMap_map m' = (HashMap_map m)(k \<mapsto> v)"
    using inv by (rule HashMap_insert_store)
  show "\<exists>m'. HashMap_remove m k = Some m' \<and> HashMap_inv m' \<and>
          HashMap_map m' = (HashMap_map m)(k := None)"
    using inv by (rule HashMap_remove_store)
  show "HashMap_get m k = Some (value_or_empty (HashMap_map m) k)"
    by (simp add: HashMap_get_map[OF r] value_or_empty_def)
  show "map_of (HashMap_entries m) = HashMap_map m" by (simp add: HashMap_map_def)
  show "distinct (map fst (HashMap_entries m))" using r by (rule HashMap_entries_distinct)
qed

lemma HashMap_new_store:
  "0 < sint sz \<Longrightarrow>
   \<exists>m. HashMap_new raw sz = Some m \<and> HashMap_inv m \<and> HashMap_map m = Map.empty"
  using HashMap_new_rep[of sz raw] by (auto simp: HashMap_inv_def)

lemma HashMap_forEach_entries:
  "HashMap_inv m \<Longrightarrow> HashMap_forEach m f s = Some (fold (\<lambda>(k, v). f k v) (HashMap_entries m) s)"
  using HashMap_forEach_fold by (auto simp: HashMap_inv_def)

subsection \<open>The hash is a polynomial in 32\<close>

lemma hash_step_32: "hash_step hv c = 32 * hv + char_to_ull c"
  by (simp add: hash_step_def)

lemma foldl_hash_step:
  "foldl hash_step hv s = 32 ^ length s * hv + foldl hash_step 0 s"
proof (induction s arbitrary: hv)
  case Nil
  then show ?case by simp
next
  case (Cons c s)
  have "foldl hash_step hv (c # s) = foldl hash_step (hash_step hv c) s" by simp
  also have "\<dots> = 32 ^ length s * (32 * hv + char_to_ull c) + foldl hash_step 0 s"
    by (subst Cons.IH) (simp only: hash_step_32)
  also have "32 ^ length s * char_to_ull c + foldl hash_step 0 s = foldl hash_step (hash_step 0 c) s"
    by (subst (2) Cons.IH) (simp add: hash_step_32)
  then have "32 ^ length s * (32 * hv + char_to_ull c) + foldl hash_step 0 s
      = 32 ^ length (c # s) * hv + foldl hash_step 0 (c # s)"
    by (simp add: algebra_simps)
  finally show ?case .
qed

lemma pow_32_zero:
  assumes "13 \<le> n"
  shows "(32 :: ull) ^ n = 0"
proof -
  have "(32 :: ull) ^ n = 32 ^ (13 + (n - 13))" using assms by simp
  also have "\<dots> = 32 ^ 13 * 32 ^ (n - 13)" by (rule power_add)
  also have "(32 :: ull) ^ 13 = 0" by simp
  finally show ?thesis by simp
qed

lemma hashValue_suffix: "13 \<le> length s \<Longrightarrow> hashValue (p @ s) = hashValue s"
  using foldl_hash_step[of "foldl hash_step 0 p" s] by (simp add: hashValue_def pow_32_zero)

subsection \<open>A map for the witnesses: two keys in one chain\<close>

definition example_map :: HashMap where
  "example_map = \<lparr>heap = [Some \<lparr>node_key = ''ab'', node_value = ''x'', node_next = None\<rparr>,
                          Some \<lparr>node_key = ''cb'', node_value = ''y'', node_next = Some 0\<rparr>],
                  table = [Some 1, None], capacity = 2\<rparr>"

lemma example_map_inv: "HashMap_inv example_map"
proof -
  have "0 < sint (2 :: int32)" by simp
  then obtain m0 where m0: "HashMap_new (\<lambda>_. None) 2 = Some m0" "HashMap_inv m0"
    using HashMap_new_store by blast
  have "run_ops (apply_op HashMap_insert HashMap_remove) [Put ''ab'' ''x'', Put ''cb'' ''y'']
      (the (HashMap_new (\<lambda>_. None) 2)) = Some example_map" by code_simp
  then have "run_ops (apply_op HashMap_insert HashMap_remove) [Put ''ab'' ''x'', Put ''cb'' ''y''] m0
      = Some example_map" by (simp only: m0(1) option.sel)
  from hm.ops.run_preserves[OF m0(2) _ this] show ?thesis by simp
qed

subsection \<open>Properties\<close>

text \<open>
  C9 (refinement). A map built with a positive size answers, after any sequence of
  insertions and removals, exactly what the abstract store answers; no operation follows a
  dangling pointer or runs forever.
\<close>

theorem HashMap_refines_store:
  assumes "0 < sint sz"
  shows "\<exists>m0 m. HashMap_new raw sz = Some m0 \<and>
           run_ops (apply_op HashMap_insert HashMap_remove) ops m0 = Some m \<and>
           (\<forall>k. HashMap_get m k = Some (value_or_empty (fold store_step ops Map.empty) k))"
proof -
  obtain m0 where m0: "HashMap_new raw sz = Some m0" "HashMap_inv m0" "HashMap_map m0 = Map.empty"
    using HashMap_new_store[OF assms] by blast
  from hm.run_store[OF m0(2), of ops] m0 hm.get show ?thesis by auto
qed

theorem HashMap_refines_store_witness:
  "\<exists>m0 m. HashMap_new (\<lambda>_. None) 2 = Some m0 \<and>
     run_ops (apply_op HashMap_insert HashMap_remove)
       [Put ''ab'' ''x'', Put ''cb'' ''y'', Put ''ab'' ''z'', Del ''cb''] m0 = Some m \<and>
     HashMap_get m ''ab'' = Some ''z'' \<and> HashMap_get m ''cb'' = Some ''''"
proof -
  have "0 < sint (2 :: int32)" by simp
  from HashMap_refines_store[OF this, of "\<lambda>_. None"
      "[Put ''ab'' ''x'', Put ''cb'' ''y'', Put ''ab'' ''z'', Del ''cb'']"]
  show ?thesis by (fastforce simp: value_or_empty_def)
qed

text \<open>
  Insertion overwrites the value of a present key in place, and puts a new
  node in front of the chain of the key's bucket otherwise; no other bucket changes.
\<close>

theorem HashMap_insert_exact:
  assumes "HashMap_inv m"
  shows "\<exists>m'. HashMap_insert m k v = Some m' \<and> HashMap_inv m' \<and>
           HashMap_buckets m' = (HashMap_buckets m)
             [slot m k := put k v (HashMap_buckets m ! slot m k)] \<and>
           HashMap_map m' = (HashMap_map m)(k \<mapsto> v)"
proof -
  obtain css where r: "rep m css" using assms by (auto simp: HashMap_inv_def)
  from HashMap_insert_buckets[OF r, of k v] HashMap_insert_store[OF assms, of k v]
  show ?thesis by (auto simp: HashMap_inv_def)
qed

theorem HashMap_insert_exact_witness:
  "\<exists>m'. HashMap_insert example_map ''eb'' ''z'' = Some m' \<and>
     HashMap_buckets m' = [[(''eb'', ''z''), (''cb'', ''y''), (''ab'', ''x'')], []]"
proof -
  have "HashMap_buckets example_map = [[(''cb'', ''y''), (''ab'', ''x'')], []]"
    and "slot example_map ''eb'' = 0" by code_simp+
  with HashMap_insert_exact[OF example_map_inv, of "''eb''" "''z''"]
  show ?thesis by (auto simp: put_def)
qed

text \<open>
  Removal unlinks and frees exactly the node of the key, keeps the order of
  the others, and leaves the map as it was when the key is absent.
\<close>

theorem HashMap_remove_exact:
  assumes "HashMap_inv m"
  shows "\<exists>m'. HashMap_remove m k = Some m' \<and> HashMap_inv m' \<and>
           HashMap_buckets m' = (HashMap_buckets m)
             [slot m k := del k (HashMap_buckets m ! slot m k)] \<and>
           HashMap_map m' = (HashMap_map m)(k := None) \<and>
           (HashMap_map m k = None \<longrightarrow> HashMap_buckets m' = HashMap_buckets m)"
proof -
  obtain css where r: "rep m css" using assms by (auto simp: HashMap_inv_def)
  obtain m' css' where m': "HashMap_remove m k = Some m'" and r': "rep m' css'"
    and b: "HashMap_buckets m' =
      (HashMap_buckets m)[slot m k := del k (HashMap_buckets m ! slot m k)]"
    using HashMap_remove_buckets[OF r, of k] by blast
  have sem: "HashMap_inv m'" "HashMap_map m' = (HashMap_map m)(k := None)"
    using HashMap_remove_store[OF assms, of k] m' by auto
  have keep: "HashMap_buckets m' = HashMap_buckets m" if "HashMap_map m k = None"
  proof -
    have "k \<notin> fst ` set (HashMap_buckets m ! slot m k)"
      using that HashMap_map_slot[OF r, of k] by (simp add: map_of_eq_None_iff)
    with b show ?thesis by (simp add: del_absent)
  qed
  show ?thesis by (intro exI[of _ m'] conjI impI m' sem b) (rule keep)
qed

theorem HashMap_remove_exact_witness:
  "\<exists>m'. HashMap_remove example_map ''cb'' = Some m' \<and>
     HashMap_buckets m' = [[(''ab'', ''x'')], []]"
proof -
  have "HashMap_buckets example_map = [[(''cb'', ''y''), (''ab'', ''x'')], []]"
    and "slot example_map ''cb'' = 0" by code_simp+
  with HashMap_remove_exact[OF example_map_inv, of "''cb''"]
  show ?thesis by (auto simp: del_def)
qed

text \<open>
  \<open>forEach\<close> calls the callback once for every binding of the store and
  for nothing else.
\<close>

theorem HashMap_forEach_once:
  assumes "HashMap_inv m"
  shows "\<exists>es. HashMap_forEach m f s = Some (fold (\<lambda>(k, v). f k v) es s) \<and>
           distinct (map fst es) \<and> map_of es = HashMap_map m"
  by (intro exI[of _ "HashMap_entries m"] conjI HashMap_forEach_entries hm.entries
      hm.entries_distinct assms)

theorem HashMap_forEach_once_witness:
  "\<exists>es. HashMap_forEach example_map (\<lambda>k v s. s @ [(k, v)]) [] = Some es \<and>
     distinct (map fst es) \<and> map_of es ''ab'' = Some ''x'' \<and> map_of es ''cb'' = Some ''y''"
proof -
  obtain es where es: "HashMap_forEach example_map (\<lambda>k v s. s @ [(k, v)]) []
      = Some (fold (\<lambda>(k, v) s. s @ [(k, v)]) es [])"
    "distinct (map fst es)" "map_of es = HashMap_map example_map"
    using HashMap_forEach_once[OF example_map_inv, of "\<lambda>k v s. s @ [(k, v)]" "[]"] by auto
  have "fold (\<lambda>(k, v) s. s @ [(k, v)]) es xs = xs @ es" for xs
    by (induction es arbitrary: xs) auto
  moreover have "HashMap_map example_map ''ab'' = Some ''x''" "HashMap_map example_map ''cb'' = Some ''y''"
    by code_simp+
  ultimately show ?thesis using es by simp
qed

text \<open>
  C33 (safety). After any sequence of insertions and removals the destructor deletes every
  node that is still allocated, each once: nothing leaks and nothing is deleted twice.
\<close>

theorem HashMap_destroy_no_leak:
  assumes "0 < sint sz"
  shows "\<exists>m0 m h. HashMap_new raw sz = Some m0 \<and>
           run_ops (apply_op HashMap_insert HashMap_remove) ops m0 = Some m \<and>
           HashMap_destroy m = Some h \<and> (\<forall>a. deref h a = None)"
proof -
  obtain m0 where m0: "HashMap_new raw sz = Some m0" "HashMap_inv m0"
    using HashMap_new_store[OF assms] by blast
  from hm.run_store[OF m0(2), of ops] obtain m where
    m: "run_ops (apply_op HashMap_insert HashMap_remove) ops m0 = Some m" "HashMap_inv m" by blast
  from m(2) obtain css where "rep m css" by (auto simp: HashMap_inv_def)
  from HashMap_destroy_frees[OF this] m(1) m0(1) show ?thesis by blast
qed

theorem HashMap_destroy_no_leak_witness:
  "\<exists>m0 m h. HashMap_new (\<lambda>_. None) 2 = Some m0 \<and>
     run_ops (apply_op HashMap_insert HashMap_remove)
       [Put ''ab'' ''x'', Put ''cb'' ''y'', Del ''ab''] m0 = Some m \<and>
     HashMap_destroy m = Some h \<and> (\<forall>a. deref h a = None)"
proof -
  have "0 < sint (2 :: int32)" by simp
  from HashMap_destroy_no_leak[OF this] show ?thesis by blast
qed

text \<open>
  C34 (bounds). The bucket index is in range for every key and every positive capacity, and
  it depends on the last 13 characters only: the factor of the hash is 32, a power of two,
  so longer prefixes are shifted out of the 64 bits.
\<close>

theorem hashFunction_range_and_suffix:
  assumes "0 < sint (capacity m)"
  shows "(\<exists>i. hashFunction m key = Some i \<and> 0 \<le> i \<and> i < sint (capacity m)) \<and>
         (13 \<le> length s \<longrightarrow> hashFunction m (p @ s) = hashFunction m (q @ s))"
  using assms by (simp add: hashFunction_eq hashValue_suffix)

theorem hashFunction_range_and_suffix_witness:
  "(let m = \<lparr>heap = [], table = replicate 100 None, capacity = 100\<rparr> in
     \<exists>i. hashFunction m ''key'' = Some i \<and> 0 \<le> i \<and> i < 100) \<and>
   (let m = \<lparr>heap = [], table = replicate 100 None, capacity = 100\<rparr> in
     hashFunction m (''alice'' @ ''0123456789abc'') = hashFunction m (''bob'' @ ''0123456789abc''))"
proof -
  have c: "0 < sint (capacity \<lparr>heap = [], table = replicate 100 None, capacity = 100\<rparr>)" by simp
  from hashFunction_range_and_suffix[OF c, of "''key''" "''0123456789abc''" "''alice''" "''bob''"]
  show ?thesis by (simp add: Let_def)
qed

text \<open>
  The constructor refuses negative sizes only; a map of size 0 is built, and
  then no key can be inserted or looked up without dividing by zero.
\<close>

theorem HashMap_new_zero:
  assumes "HashMap_new raw sz = Some m"
  shows "0 \<le> sint sz \<and> (HashMap_insert m k v = None \<longleftrightarrow> sint sz = 0) \<and>
         (HashMap_get m k = None \<longleftrightarrow> sint sz = 0)"
proof -
  have nn: "0 \<le> sint sz" using assms by (simp add: HashMap_new_def split: if_splits)
  have "(HashMap_insert m k v = None \<longleftrightarrow> sint sz = 0) \<and> (HashMap_get m k = None \<longleftrightarrow> sint sz = 0)"
  proof (cases "sint sz = 0")
    case True
    then have "sz = 0" by (metis signed_0 signed_word_eqI)
    with assms have "capacity m = 0" by (auto simp: HashMap_new_def Let_def split: if_splits)
    with True show ?thesis by (simp add: HashMap_insert_def HashMap_get_def hashFunction_def)
  next
    case False
    with nn have "0 < sint sz" by simp
    with assms HashMap_new_store[OF this, of raw] have "HashMap_inv m" by auto
    with False show ?thesis using hm.ins[of m k v] hm.get[of m k] by auto
  qed
  with nn show ?thesis by blast
qed

theorem HashMap_new_zero_witness:
  "\<exists>m. HashMap_new (\<lambda>_. None) 0 = Some m \<and> HashMap_insert m ''k'' ''v'' = None \<and>
       HashMap_get m ''k'' = None"
proof -
  obtain m where m: "HashMap_new (\<lambda>_. None) 0 = Some m" by (simp add: HashMap_new_eq)
  with HashMap_new_zero[OF m, of "''k''" "''v''"] show ?thesis by simp
qed

end
