(* ===== verification/Doubles.thy ===== *)
theory Doubles
  imports Complex_Main Prelude
begin

text \<open>
  C++ \<open>double\<close> as the rate limiter uses it: a finite binary64 value is the rational
  number it denotes, and every arithmetic operation is the exact one followed by rounding
  to the nearest binary64 value, ties to even (53 significant bits, least exponent
  \<open>-1074\<close>).  Infinities and NaN are not values here; the limiter's quantities are bounded
  far below the overflow threshold.

  The laws the limiter rests on are those of the locale \<open>rounding\<close>: monotonicity and
  the fixpoints 0 and 1; \<open>rnd64\<close> is shown to satisfy them.
\<close>

subsection \<open>Rounding to an integer, ties to even\<close>

definition rnd_int :: "rat \<Rightarrow> int" where
  "rnd_int m =
     (let f = \<lfloor>m\<rfloor>; d = m - of_int f in
      if d < 1 / 2 then f else if 1 / 2 < d then f + 1 else if even f then f else f + 1)"

lemma rnd_int_of_int [simp]: "rnd_int (of_int n) = n"
  by (simp add: rnd_int_def)

lemma rnd_int_bounds: "\<lfloor>m\<rfloor> \<le> rnd_int m \<and> rnd_int m \<le> \<lfloor>m\<rfloor> + 1"
  by (simp add: rnd_int_def Let_def)

lemma rnd_int_mono:
  assumes "m \<le> n"
  shows "rnd_int m \<le> rnd_int n"
proof (cases "\<lfloor>m\<rfloor> = \<lfloor>n\<rfloor>")
  case True
  have "m - of_int \<lfloor>m\<rfloor> \<le> n - of_int \<lfloor>m\<rfloor>" using assms by simp
  then show ?thesis unfolding rnd_int_def Let_def True[symmetric] by auto
next
  case False
  with floor_mono[OF assms] have "\<lfloor>m\<rfloor> + 1 \<le> \<lfloor>n\<rfloor>" by linarith
  with rnd_int_bounds[of m] rnd_int_bounds[of n] show ?thesis by linarith
qed

lemma rnd_int_error: "\<bar>of_int (rnd_int m) - m\<bar> \<le> 1 / 2"
proof -
  have "of_int \<lfloor>m\<rfloor> \<le> m" "m < of_int \<lfloor>m\<rfloor> + 1" using floor_correct[of m] by simp_all
  then show ?thesis unfolding rnd_int_def Let_def by (auto simp: abs_le_iff)
qed

subsection \<open>The exponent of a positive number\<close>

fun bits :: "nat \<Rightarrow> nat" where
  "bits n = (if n = 0 then 0 else Suc (bits (n div 2)))"

declare bits.simps [simp del]

lemma bits_0 [simp]: "bits 0 = 0"
  by (subst bits.simps) simp

lemma bits_upper: "n < 2 ^ bits n"
proof (induction n rule: bits.induct)
  case (1 n)
  show ?case
  proof (cases "n = 0")
    case False
    with 1 have "n div 2 < 2 ^ bits (n div 2)" by simp
    with False show ?thesis by (subst bits.simps) simp
  qed simp
qed

lemma bits_lower: "n \<noteq> 0 \<Longrightarrow> 2 ^ (bits n - 1) \<le> n"
proof (induction n rule: bits.induct)
  case (1 n)
  show ?case
  proof (cases "n div 2 = 0")
    case True
    with 1 have "n = 1" by simp
    then show ?thesis by (subst bits.simps) (simp add: bits.simps)
  next
    case False
    then have "bits (n div 2) \<noteq> 0" by (subst bits.simps) simp
    moreover have "2 ^ (bits (n div 2) - 1) \<le> n div 2" using 1 False by simp
    ultimately have "2 ^ bits (n div 2) \<le> n"
      by (cases "bits (n div 2)") auto
    with 1(2) show ?thesis by (subst bits.simps) simp
  qed
qed

text \<open>\<open>expo x\<close> is the \<open>e\<close> with \<open>2 powi e \<le> x < 2 powi (e + 1)\<close>, for positive \<open>x\<close>.\<close>

definition expo :: "rat \<Rightarrow> int" where
  "expo x = (if 1 \<le> x then int (bits (nat \<lfloor>x\<rfloor>)) - 1 else - int (bits (nat (\<lceil>1 / x\<rceil> - 1))))"

lemma expo_bounds:
  assumes "0 < x"
  shows "2 powi expo x \<le> x \<and> x < 2 powi (expo x + 1)"
proof (cases "1 \<le> x")
  case True
  let ?n = "nat \<lfloor>x\<rfloor>"
  have n: "?n \<noteq> 0" "of_nat ?n \<le> x" "x < of_nat ?n + 1"
    using True floor_correct[of x] by (simp_all add: le_floor_iff)
  have b: "bits ?n \<noteq> 0" using n(1) by (subst bits.simps) simp
  have "(2 :: rat) ^ (bits ?n - 1) \<le> of_nat ?n"
    using bits_lower[OF n(1)] by (metis of_nat_le_iff of_nat_numeral of_nat_power)
  moreover have "of_nat ?n + 1 \<le> (2 :: rat) ^ bits ?n"
    using bits_upper[of ?n] by (metis Suc_leI of_nat_Suc of_nat_le_iff of_nat_numeral of_nat_power add.commute)
  moreover have "2 powi expo x = (2 :: rat) ^ (bits ?n - 1)"
    using True b by (simp add: expo_def power_int_def nat_diff_distrib')
  moreover have "2 powi (expo x + 1) = (2 :: rat) ^ bits ?n"
    using True by (simp add: expo_def power_int_def)
  ultimately show ?thesis using n by linarith
next
  case False
  let ?c = "\<lceil>1 / x\<rceil>" and ?k = "bits (nat (\<lceil>1 / x\<rceil> - 1))"
  have "1 < 1 / x" using False assms by (simp add: field_simps)
  then have c: "2 \<le> ?c" by linarith
  have up: "1 / x \<le> 2 ^ ?k"
  proof -
    have "nat (?c - 1) < 2 ^ ?k" by (rule bits_upper)
    then have "?c \<le> 2 ^ ?k" using c by (simp add: nat_less_iff)
    then have "of_int ?c \<le> (2 :: rat) ^ ?k" by (metis of_int_le_iff of_int_numeral of_int_power)
    then show ?thesis using le_of_int_ceiling[of "1 / x"] by linarith
  qed
  have nz: "nat (?c - 1) \<noteq> 0" using c by simp
  have k: "?k \<noteq> 0" using nz by (subst bits.simps) simp
  have lo: "2 ^ (?k - 1) < 1 / x"
  proof -
    have "(2::nat) ^ (?k - 1) \<le> nat (?c - 1)" by (rule bits_lower[OF nz])
    then have "int (2 ^ (?k - 1)) \<le> int (nat (?c - 1))" by (simp only: of_nat_le_iff)
    moreover have "int (nat (?c - 1)) = ?c - 1" using c by (intro nat_0_le) linarith
    moreover have "int (2 ^ (?k - 1)) = 2 ^ (?k - 1)" by (simp only: of_nat_power of_nat_numeral)
    ultimately have "(2::int) ^ (?k - 1) \<le> ?c - 1" by (simp only:)
    then have "(2::int) ^ (?k - 1) < ?c" by linarith
    then have "of_int (2 ^ (?k - 1)) < 1 / x" by (simp only: less_ceiling_iff)
    then show ?thesis by simp
  qed
  have e: "expo x = - int ?k" using False by (simp add: expo_def)
  have "2 powi expo x = (1 :: rat) / 2 ^ ?k"
    by (simp add: e power_int_minus divide_inverse)
  moreover have "2 powi (expo x + 1) = (1 :: rat) / 2 ^ (?k - 1)"
  proof -
    have "expo x + 1 = - int (?k - 1)" using k e by simp
    then show ?thesis by (simp add: power_int_minus divide_inverse)
  qed
  moreover have "1 / 2 ^ ?k \<le> x" using up assms by (simp add: field_simps)
  moreover have "x < 1 / 2 ^ (?k - 1)" using lo assms by (simp add: field_simps)
  ultimately show ?thesis by (simp only: simp_thms)
qed

lemma powi_less_iff: "(2 :: rat) powi a < 2 powi b \<longleftrightarrow> a < b"
  using power_int_strict_increasing[of a b "2 :: rat"] power_int_increasing[of b a "2 :: rat"]
  by (meson linorder_not_less one_le_numeral one_less_numeral_iff semiring_norm(76))

lemma powi_le_iff: "(2 :: rat) powi a \<le> 2 powi b \<longleftrightarrow> a \<le> b"
  using powi_less_iff[of b a] by (simp add: not_less[symmetric])

lemma expo_less: "0 < x \<Longrightarrow> x < 2 powi a \<Longrightarrow> expo x < a"
  using expo_bounds[of x] by (metis order_le_less_trans powi_less_iff)

lemma expo_mono:
  assumes "0 < x" and "x \<le> y"
  shows "expo x \<le> expo y"
proof -
  have "x < 2 powi (expo y + 1)" using expo_bounds[of y] assms by linarith
  with expo_less[OF assms(1)] show ?thesis by fastforce
qed

subsection \<open>Rounding on a grid\<close>

definition on_grid :: "rat \<Rightarrow> rat \<Rightarrow> rat" where
  "on_grid g x = of_int (rnd_int (x / g)) * g"

lemma on_grid_mono: "0 < g \<Longrightarrow> x \<le> y \<Longrightarrow> on_grid g x \<le> on_grid g y"
  by (simp add: on_grid_def rnd_int_mono divide_right_mono)

lemma on_grid_multiple: "0 < g \<Longrightarrow> on_grid g (of_int n * g) = of_int n * g"
  by (simp add: on_grid_def)

lemma on_grid_error:
  assumes "0 < g"
  shows "\<bar>on_grid g x - x\<bar> \<le> g / 2"
proof -
  have "on_grid g x - x = (of_int (rnd_int (x / g)) - x / g) * g"
    using assms by (simp add: on_grid_def left_diff_distrib)
  then have "\<bar>on_grid g x - x\<bar> = \<bar>of_int (rnd_int (x / g)) - x / g\<bar> * g"
    using assms by (simp add: abs_mult)
  also have "\<dots> \<le> 1 / 2 * g"
    using assms rnd_int_error[of "x / g"] by (intro mult_right_mono) auto
  finally show ?thesis by simp
qed

lemma powi_multiple:
  assumes "q \<le> a"
  shows "(2 :: rat) powi a = of_int (2 ^ nat (a - q)) * 2 powi q"
proof -
  have "(2 :: rat) powi a = 2 powi (a - q) * 2 powi q"
    by (simp flip: power_int_add)
  with assms show ?thesis by (simp add: power_int_def)
qed

lemma on_grid_powi: "q \<le> a \<Longrightarrow> on_grid (2 powi q) (2 powi a) = 2 powi a"
  using on_grid_multiple[of "2 powi q" "2 ^ nat (a - q)"] powi_multiple[of q a]
  by simp

subsection \<open>Rounding to binary64\<close>

definition ulp_expo :: "rat \<Rightarrow> int" where
  "ulp_expo x = max (expo x - 52) (- 1074)"

definition rnd_pos :: "rat \<Rightarrow> rat" where
  "rnd_pos x = on_grid (2 powi ulp_expo x) x"

definition rnd64 :: "rat \<Rightarrow> rat" where
  "rnd64 x = (if x = 0 then 0 else if x < 0 then - rnd_pos (- x) else rnd_pos x)"

lemma rnd_pos_nonneg: "0 < x \<Longrightarrow> 0 \<le> rnd_pos x"
  using on_grid_mono[of "2 powi ulp_expo x" 0 x] on_grid_multiple[of "2 powi ulp_expo x" 0]
  by (simp add: rnd_pos_def)

text \<open>
  Two numbers on different grids are separated by the power of two at which the grid of
  the larger one starts, and that power is on both grids.
\<close>

lemma rnd_pos_mono:
  assumes "0 < x" and "x \<le> y"
  shows "rnd_pos x \<le> rnd_pos y"
proof (cases "ulp_expo x = ulp_expo y")
  case True
  with assms show ?thesis by (simp add: rnd_pos_def on_grid_mono)
next
  case False
  have e: "expo x \<le> expo y" using assms by (rule expo_mono)
  with False have ly: "expo x < expo y" "ulp_expo y = expo y - 52" "ulp_expo x \<le> ulp_expo y"
    by (auto simp: ulp_expo_def max_def split: if_splits)
  have xy: "x \<le> 2 powi expo y" "2 powi expo y \<le> y"
  proof -
    have "x < 2 powi (expo x + 1)" using expo_bounds[OF assms(1)] by simp
    also have "\<dots> \<le> 2 powi expo y" using ly(1) by (simp add: powi_le_iff)
    finally show "x \<le> 2 powi expo y" by simp
    show "2 powi expo y \<le> y" using expo_bounds[of y] assms by simp
  qed
  have "rnd_pos x \<le> on_grid (2 powi ulp_expo x) (2 powi expo y)"
    unfolding rnd_pos_def using xy(1) by (simp add: on_grid_mono)
  also have "\<dots> = 2 powi expo y" using ly by (intro on_grid_powi) simp
  also have "\<dots> = on_grid (2 powi ulp_expo y) (2 powi expo y)"
    using ly by (intro on_grid_powi[symmetric]) simp
  also have "\<dots> \<le> rnd_pos y" unfolding rnd_pos_def using xy(2) by (simp add: on_grid_mono)
  finally show ?thesis .
qed

lemma rnd64_0 [simp]: "rnd64 0 = 0"
  by (simp add: rnd64_def)

lemma rnd64_minus: "rnd64 (- x) = - rnd64 x"
  by (simp add: rnd64_def)

lemma rnd64_mono:
  assumes "x \<le> y"
  shows "rnd64 x \<le> rnd64 y"
proof -
  consider "0 < x" | "x \<le> 0" "0 \<le> y" | "y < 0" by linarith
  then show ?thesis
  proof cases
    case 1
    with assms show ?thesis by (simp add: rnd64_def rnd_pos_mono)
  next
    case 2
    then have "rnd64 x \<le> 0" "0 \<le> rnd64 y"
      using rnd_pos_nonneg[of "- x"] rnd_pos_nonneg[of y] by (auto simp: rnd64_def)
    then show ?thesis by simp
  next
    case 3
    with assms rnd_pos_mono[of "- y" "- x"] show ?thesis by (simp add: rnd64_def)
  qed
qed

text \<open>Numbers with at most 53 significant bits are not changed.\<close>

lemma rnd64_exact_pos:
  assumes "0 < n" and "n < 2 ^ 53" and "- 1074 \<le> q"
  shows "rnd64 (of_int n * 2 powi q) = of_int n * 2 powi q"
proof -
  let ?x = "of_int n * 2 powi q :: rat"
  have pos: "0 < ?x" using assms(1) by simp
  have "(of_int n :: rat) < of_int (2 ^ 53)" using assms(2) by (simp only: of_int_less_iff)
  then have "?x < of_int (2 ^ 53) * 2 powi q" by (rule mult_strict_right_mono) simp
  also have "of_int (2 ^ 53) * 2 powi q = (2 :: rat) powi (q + 53)"
    using powi_multiple[of q "q + 53"] by simp
  finally have "expo ?x < q + 53" using pos by (intro expo_less)
  then have le: "ulp_expo ?x \<le> q" using assms(3) by (simp add: ulp_expo_def)
  have "?x = of_int (n * 2 ^ nat (q - ulp_expo ?x)) * 2 powi ulp_expo ?x"
    using powi_multiple[OF le] by simp
  then have "rnd_pos ?x = ?x"
    unfolding rnd_pos_def by (metis on_grid_multiple zero_less_numeral zero_less_power_int)
  with pos show ?thesis by (simp add: rnd64_def)
qed

lemma rnd64_exact:
  assumes "\<bar>n\<bar> < 2 ^ 53" and "- 1074 \<le> q"
  shows "rnd64 (of_int n * 2 powi q) = of_int n * 2 powi q"
proof -
  consider "n = 0" | "0 < n" | "n < 0" by linarith
  then show ?thesis
  proof cases
    case 2
    with assms show ?thesis by (simp add: rnd64_exact_pos)
  next
    case 3
    with assms rnd64_exact_pos[of "- n" q] rnd64_minus[of "of_int n * 2 powi q"]
    show ?thesis by simp
  qed simp
qed

lemma rnd64_of_int: "\<bar>n\<bar> < 2 ^ 53 \<Longrightarrow> rnd64 (of_int n) = of_int n"
  using rnd64_exact[of n 0] by simp

lemma rnd64_1 [simp]: "rnd64 1 = 1"
  using rnd64_of_int[of 1] by simp

subsection \<open>Rounding is a projection\<close>

lemma rnd_pos_form:
  assumes "0 < x"
  shows "\<exists>n q. rnd_pos x = of_int n * 2 powi q \<and> 0 \<le> n \<and> n < 2 ^ 53 \<and> - 1074 \<le> q"
proof -
  let ?q = "ulp_expo x" and ?n = "rnd_int (x / 2 powi ulp_expo x)"
  have "x < 2 powi (?q + 53)"
  proof -
    have "x < 2 powi (expo x + 1)" using expo_bounds[OF assms] by simp
    also have "\<dots> \<le> 2 powi (?q + 53)" by (simp add: powi_le_iff ulp_expo_def)
    finally show ?thesis .
  qed
  then have "x / 2 powi ?q < of_int (2 ^ 53)"
    using powi_multiple[of ?q "?q + 53"] by (simp add: divide_less_eq)
  then have "?n \<le> rnd_int (of_int (2 ^ 53))" by (intro rnd_int_mono) simp
  then have n: "?n \<le> 2 ^ 53" by (simp only: rnd_int_of_int)
  have "rnd_int (of_int 0) \<le> ?n" using assms by (intro rnd_int_mono) simp
  then have n0: "0 \<le> ?n" by (simp only: rnd_int_of_int)
  have q: "- 1074 \<le> ?q" by (simp add: ulp_expo_def)
  have eq: "rnd_pos x = of_int ?n * 2 powi ?q" by (simp add: rnd_pos_def on_grid_def)
  show ?thesis
  proof (cases "?n = 2 ^ 53")
    case True
    have "?q + 53 - (?q + 1) = 52" "?q + 53 - ?q = 53" by simp_all
    then have "(2 :: rat) powi (?q + 53) = of_int (2 ^ nat 52) * 2 powi (?q + 1)"
      "(2 :: rat) powi (?q + 53) = of_int (2 ^ nat 53) * 2 powi ?q"
      using powi_multiple[of "?q + 1" "?q + 53"] powi_multiple[of ?q "?q + 53"]
      by (simp_all only:)
    then have "rnd_pos x = of_int (2 ^ 52) * 2 powi (?q + 1)"
      unfolding eq True by simp
    moreover have "(0 :: int) \<le> 2 ^ 52" "(2 :: int) ^ 52 < 2 ^ 53" "- 1074 \<le> ?q + 1"
      using q by simp_all
    ultimately show ?thesis by blast
  next
    case False
    with n have "?n < 2 ^ 53" by linarith
    with n0 q eq show ?thesis by blast
  qed
qed

text \<open>The values of type \<open>double\<close>: what rounding leaves alone.\<close>

definition is_double :: "rat \<Rightarrow> bool" where
  "is_double x \<longleftrightarrow> rnd64 x = x"

lemma rnd64_idem [simp]: "rnd64 (rnd64 x) = rnd64 x"
proof -
  have pos: "rnd64 (rnd_pos y) = rnd_pos y" if "0 < y" for y
  proof -
    obtain n q where "rnd_pos y = of_int n * 2 powi q" "0 \<le> n" "n < 2 ^ 53" "- 1074 \<le> q"
      using rnd_pos_form[OF \<open>0 < y\<close>] by blast
    with rnd64_exact[of n q] show ?thesis by (simp only: abs_of_nonneg)
  qed
  consider "x = 0" | "0 < x" | "x < 0" by linarith
  then show ?thesis
  proof cases
    case 1
    then show ?thesis by simp
  next
    case 2
    then have "rnd64 x = rnd_pos x" by (simp add: rnd64_def)
    with pos[OF 2] show ?thesis by (simp only:)
  next
    case 3
    then have "rnd64 x = - rnd_pos (- x)" by (simp add: rnd64_def)
    with pos[of "- x"] 3 show ?thesis by (simp only: rnd64_minus neg_0_less_iff_less)
  qed
qed

lemma is_double_rnd64 [simp]: "is_double (rnd64 x)"
  by (simp add: is_double_def)

lemma is_double_of_int: "\<bar>n\<bar> < 2 ^ 53 \<Longrightarrow> is_double (of_int n)"
  by (simp add: is_double_def rnd64_of_int)

subsection \<open>The laws used by clients\<close>

locale rounding =
  fixes rnd :: "rat \<Rightarrow> rat"
  assumes mono: "x \<le> y \<Longrightarrow> rnd x \<le> rnd y"
    and idem: "rnd (rnd x) = rnd x"
    and zero: "rnd 0 = 0"
    and one: "rnd 1 = 1"
begin

lemma nonneg: "0 \<le> x \<Longrightarrow> 0 \<le> rnd x"
  using mono[of 0 x] by (simp add: zero)

lemma ge_one: "1 \<le> x \<Longrightarrow> 1 \<le> rnd x"
  using mono[of 1 x] by (simp add: one)

lemma below_fixpoint: "x \<le> y \<Longrightarrow> rnd y = y \<Longrightarrow> rnd x \<le> y"
  using mono[of x y] by simp

lemma above_fixpoint: "y \<le> x \<Longrightarrow> rnd y = y \<Longrightarrow> y \<le> rnd x"
  using mono[of y x] by simp

end

interpretation rnd64: rounding rnd64
  by unfold_locales (simp_all add: rnd64_mono)

subsection \<open>Arithmetic\<close>

definition dadd :: "rat \<Rightarrow> rat \<Rightarrow> rat" where "dadd x y = rnd64 (x + y)"
definition dsub :: "rat \<Rightarrow> rat \<Rightarrow> rat" where "dsub x y = rnd64 (x - y)"
definition dmul :: "rat \<Rightarrow> rat \<Rightarrow> rat" where "dmul x y = rnd64 (x * y)"
definition ddiv :: "rat \<Rightarrow> rat \<Rightarrow> rat" where "ddiv x y = rnd64 (x / y)"

lemma is_double_arith [simp]:
  "is_double (dadd x y)" "is_double (dsub x y)" "is_double (dmul x y)" "is_double (ddiv x y)"
  by (simp_all add: dadd_def dsub_def dmul_def ddiv_def)

lemma dmul_0_right [simp]: "dmul x 0 = 0"
  by (simp add: dmul_def)

lemma dadd_0_right: "is_double x \<Longrightarrow> dadd x 0 = x"
  by (simp add: dadd_def is_double_def)

lemma dsub_of_int:
  "\<bar>m - n\<bar> < 2 ^ 53 \<Longrightarrow> dsub (of_int m) (of_int n) = of_int (m - n)"
  using rnd64_of_int[of "m - n"] by (simp add: dsub_def)

text \<open>A \<open>steady_clock\<close> difference in nanoseconds as \<open>duration<double>\<close> seconds.\<close>

definition to_seconds :: "int \<Rightarrow> rat" where
  "to_seconds ns = ddiv (rnd64 (of_int ns)) 1000000000"

lemma to_seconds_nonneg: "0 \<le> ns \<Longrightarrow> 0 \<le> to_seconds ns"
  by (simp add: to_seconds_def ddiv_def rnd64.nonneg)

lemma to_seconds_0 [simp]: "to_seconds 0 = 0"
  by (simp add: to_seconds_def ddiv_def)

text \<open>Taking one from a value between 1 and \<open>2 ^ 53\<close> is exact.\<close>

lemma dsub_1_exact:
  assumes "is_double t" and "1 \<le> t" and "t < 2 ^ 53"
  shows "dsub t 1 = t - 1"
proof -
  have "rnd_pos t = t" using assms by (simp add: is_double_def rnd64_def)
  then obtain n q where t: "t = of_int n * 2 powi q" and n: "0 \<le> n" "n < 2 ^ 53" and q: "- 1074 \<le> q"
    using rnd_pos_form[of t] assms(2) by auto
  show ?thesis
  proof (cases "0 \<le> q")
    case True
    then have ti: "t = of_int (n * 2 ^ nat q)" using t by (simp add: power_int_def)
    have "(of_int (n * 2 ^ nat q) :: rat) < of_int (2 ^ 53)" using assms(3) ti by simp
    moreover have "(of_int 1 :: rat) \<le> of_int (n * 2 ^ nat q)" using assms(2) ti by simp
    ultimately have "\<bar>n * 2 ^ nat q - 1\<bar> < 2 ^ 53" by (simp only: of_int_less_iff of_int_le_iff)
    from dsub_of_int[OF this] ti show ?thesis by simp
  next
    case False
    then have one: "(1 :: rat) = of_int (2 ^ nat (- q)) * 2 powi q"
      using powi_multiple[of q 0] by simp
    have d: "t - 1 = of_int (n - 2 ^ nat (- q)) * 2 powi q"
      by (subst t, subst one) (simp add: left_diff_distrib)
    have pos: "0 < (2 :: rat) powi q" by simp
    have "0 * 2 powi q \<le> (of_int (n - 2 ^ nat (- q)) :: rat) * 2 powi q" using d assms(2) by linarith
    then have "(0 :: rat) \<le> of_int (n - 2 ^ nat (- q))" by (simp only: mult_le_cancel_right_pos[OF pos])
    then have "0 \<le> n - 2 ^ nat (- q)" by (simp only: of_int_0_le_iff)
    moreover have "n - 2 ^ nat (- q) < 2 ^ 53"
      using n(2) zero_less_power[of "2 :: int" "nat (- q)"] by linarith
    ultimately have "\<bar>n - 2 ^ nat (- q)\<bar> < 2 ^ 53" by simp
    from rnd64_exact[OF this q] d show ?thesis by (simp add: dsub_def)
  qed
qed

end
