(* ===== verification/Limiter.thy ===== *)
theory Limiter
  imports Doubles "HOL-Library.Signed_Division"
begin

text \<open>
  The rate limiter, \<open>src/Limit/Limiter.h\<close> and \<open>src/Limit/Limiter.cpp\<close>: a global
  fixed-window counter and a token bucket per IP address.

  A \<open>steady_clock::time_point\<close> is its number of nanoseconds; every reading of the clock
  is an argument.  Tokens and rates are doubles (theory \<open>Doubles\<close>).  The counter and its
  limit keep their 32 bits.
\<close>

subsection \<open>State and operations\<close>

record IPRecord =
  tokens :: rat
  lastRefill :: int

record RateLimiter =
  ipRecords :: "uint32 \<rightharpoonup> IPRecord"
  globalCount :: int32
  globalWindowStart :: int
  maxTokens :: rat
  refillRate :: rat
  maxRequestsGlobal :: int32

definition RateLimiter_new :: "int \<Rightarrow> rat \<Rightarrow> rat \<Rightarrow> int32 \<Rightarrow> RateLimiter" where
  "RateLimiter_new now max_tokens refill_rate globalLimit =
     \<lparr>ipRecords = Map.empty, globalCount = 0, globalWindowStart = now,
      maxTokens = max_tokens, refillRate = refill_rate, maxRequestsGlobal = globalLimit\<rparr>"

definition RateLimiter_destroy :: "RateLimiter \<Rightarrow> RateLimiter" where
  "RateLimiter_destroy l = l\<lparr>ipRecords := Map.empty\<rparr>"

text \<open>\<open>duration_cast<seconds>\<close> truncates towards zero.\<close>

definition elapsed_seconds :: "int \<Rightarrow> int \<Rightarrow> int" where
  "elapsed_seconds now start = (now - start) sdiv 1000000000"

definition isAllowedGlobal :: "int \<Rightarrow> RateLimiter \<Rightarrow> bool \<times> RateLimiter" where
  "isAllowedGlobal now l =
     (let l1 = (if 1 \<le> elapsed_seconds now (globalWindowStart l)
                then l\<lparr>globalCount := 0, globalWindowStart := now\<rparr> else l) in
      if sint (maxRequestsGlobal l1) \<le> sint (globalCount l1) then (False, l1)
      else (True, l1\<lparr>globalCount := globalCount l1 + 1\<rparr>))"

definition isAllowedPrivate :: "uint32 \<Rightarrow> int \<Rightarrow> RateLimiter \<Rightarrow> bool \<times> RateLimiter" where
  "isAllowedPrivate ip now l =
     (let record = (case ipRecords l ip of
                      None \<Rightarrow> \<lparr>tokens = maxTokens l, lastRefill = now\<rparr> | Some r \<Rightarrow> r);
          seconds = to_seconds (now - lastRefill record);
          tokens1 = dadd (tokens record) (dmul seconds (refillRate l));
          tokens2 = (if maxTokens l < tokens1 then maxTokens l else tokens1) in
      if tokens2 < 1
      then (False, l\<lparr>ipRecords := (ipRecords l)(ip \<mapsto> \<lparr>tokens = tokens2, lastRefill = now\<rparr>)\<rparr>)
      else (True, l\<lparr>ipRecords := (ipRecords l)
                     (ip \<mapsto> \<lparr>tokens = dsub tokens2 1, lastRefill = now\<rparr>)\<rparr>))"

text \<open>Short-circuit: a globally refused request does not touch the bucket.\<close>

definition isAllowed :: "uint32 \<Rightarrow> int \<Rightarrow> int \<Rightarrow> RateLimiter \<Rightarrow> bool \<times> RateLimiter" where
  "isAllowed ip now_global now_private l =
     (let (g, l1) = isAllowedGlobal now_global l in
      if g then isAllowedPrivate ip now_private l1 else (False, l1))"

text \<open>A run of requests, each with its address and its clock readings.\<close>

fun isAllowed_run :: "(uint32 \<times> int \<times> int) list \<Rightarrow> RateLimiter \<Rightarrow> bool list \<times> RateLimiter" where
  "isAllowed_run [] l = ([], l)"
| "isAllowed_run ((ip, tg, tp) # rs) l =
     (let (a, l1) = isAllowed ip tg tp l; (as, l2) = isAllowed_run rs l1 in (a # as, l2))"

subsection \<open>What the operations leave alone\<close>

lemma isAllowedGlobal_frame [frame_simps]:
  "ipRecords (snd (isAllowedGlobal now l)) = ipRecords l"
  "maxTokens (snd (isAllowedGlobal now l)) = maxTokens l"
  "refillRate (snd (isAllowedGlobal now l)) = refillRate l"
  "maxRequestsGlobal (snd (isAllowedGlobal now l)) = maxRequestsGlobal l"
  by (simp_all add: isAllowedGlobal_def Let_def)

lemma isAllowedPrivate_frame [frame_simps]:
  "globalCount (snd (isAllowedPrivate ip now l)) = globalCount l"
  "globalWindowStart (snd (isAllowedPrivate ip now l)) = globalWindowStart l"
  "maxTokens (snd (isAllowedPrivate ip now l)) = maxTokens l"
  "refillRate (snd (isAllowedPrivate ip now l)) = refillRate l"
  "maxRequestsGlobal (snd (isAllowedPrivate ip now l)) = maxRequestsGlobal l"
  "ip' \<noteq> ip \<Longrightarrow> ipRecords (snd (isAllowedPrivate ip now l)) ip' = ipRecords l ip'"
  by (simp_all add: isAllowedPrivate_def Let_def)

lemma isAllowed_frame [frame_simps]:
  "maxTokens (snd (isAllowed ip tg tp l)) = maxTokens l"
  "refillRate (snd (isAllowed ip tg tp l)) = refillRate l"
  "maxRequestsGlobal (snd (isAllowed ip tg tp l)) = maxRequestsGlobal l"
  "ip' \<noteq> ip \<Longrightarrow> ipRecords (snd (isAllowed ip tg tp l)) ip' = ipRecords l ip'"
  by (simp_all add: isAllowed_def frame_simps split: prod.split)
     (metis frame_simps snd_conv)+

subsection \<open>The invariant\<close>

definition bucket_ok :: "RateLimiter \<Rightarrow> IPRecord \<Rightarrow> bool" where
  "bucket_ok l r \<longleftrightarrow> 0 \<le> tokens r \<and> tokens r \<le> maxTokens l \<and> is_double (tokens r)"

definition limiter_ok :: "RateLimiter \<Rightarrow> bool" where
  "limiter_ok l \<longleftrightarrow>
     0 \<le> maxTokens l \<and> 0 \<le> refillRate l \<and> is_double (maxTokens l) \<and>
     (\<forall>ip r. ipRecords l ip = Some r \<longrightarrow> bucket_ok l r) \<and>
     0 \<le> sint (globalCount l) \<and> sint (globalCount l) \<le> max 0 (sint (maxRequestsGlobal l))"

definition refilled_before :: "int \<Rightarrow> RateLimiter \<Rightarrow> bool" where
  "refilled_before t l \<longleftrightarrow> (\<forall>ip r. ipRecords l ip = Some r \<longrightarrow> lastRefill r \<le> t)"

text \<open>The counter is only incremented below its limit, so its 32 bits never wrap.\<close>

lemma sint_plus_1:
  assumes "sint (c :: int32) < sint (m :: int32)"
  shows "sint (c + 1) = sint c + 1"
proof -
  have "sint c < 2 ^ 31 - 1" "- (2 ^ 31) \<le> sint c"
    using assms sint_lt[of m] sint_ge[of c] by simp_all
  then have "signed_take_bit 31 (sint c + 1) = sint c + 1"
    by (intro signed_take_bit_int_eq_self) auto
  moreover have "sint (c + 1) = signed_take_bit 31 (sint c + sint (1 :: int32))"
    by (simp only: sint_word_ariths(1)) (simp add: signed_take_bit_eq_if_positive)
  ultimately show ?thesis by simp
qed

lemma isAllowedGlobal_count:
  assumes "0 \<le> sint (globalCount l)"
    and "sint (globalCount l) \<le> max 0 (sint (maxRequestsGlobal l))"
  shows "0 \<le> sint (globalCount (snd (isAllowedGlobal now l)))"
    and "sint (globalCount (snd (isAllowedGlobal now l))) \<le> max 0 (sint (maxRequestsGlobal l))"
  using assms sint_plus_1[of "globalCount l" "maxRequestsGlobal l"]
    sint_plus_1[of 0 "maxRequestsGlobal l"]
  by (auto simp: isAllowedGlobal_def Let_def not_le)

lemma isAllowedGlobal_ok: "limiter_ok l \<Longrightarrow> limiter_ok (snd (isAllowedGlobal now l))"
  using isAllowedGlobal_count[of l now] by (simp add: limiter_ok_def frame_simps bucket_ok_def)

text \<open>The tokens a request finds in its bucket.\<close>

definition available :: "uint32 \<Rightarrow> int \<Rightarrow> RateLimiter \<Rightarrow> rat" where
  "available ip now l =
     (let record = (case ipRecords l ip of
                      None \<Rightarrow> \<lparr>tokens = maxTokens l, lastRefill = now\<rparr> | Some r \<Rightarrow> r) in
      min (maxTokens l)
        (dadd (tokens record) (dmul (to_seconds (now - lastRefill record)) (refillRate l))))"

lemma isAllowedPrivate_available:
  "isAllowedPrivate ip now l =
     (if available ip now l < 1
      then (False, l\<lparr>ipRecords := (ipRecords l)(ip \<mapsto> \<lparr>tokens = available ip now l, lastRefill = now\<rparr>)\<rparr>)
      else (True, l\<lparr>ipRecords := (ipRecords l)
             (ip \<mapsto> \<lparr>tokens = dsub (available ip now l) 1, lastRefill = now\<rparr>)\<rparr>))"
  by (simp add: isAllowedPrivate_def available_def Let_def min_def)

lemma available_bounds:
  assumes ok: "limiter_ok l" and t: "refilled_before now l"
  shows "0 \<le> available ip now l" "available ip now l \<le> maxTokens l" "is_double (available ip now l)"
proof -
  let ?r = "case ipRecords l ip of None \<Rightarrow> \<lparr>tokens = maxTokens l, lastRefill = now\<rparr> | Some r \<Rightarrow> r"
  let ?x = "dmul (to_seconds (now - lastRefill ?r)) (refillRate l)"
  have r: "0 \<le> tokens ?r" "lastRefill ?r \<le> now"
    using ok t by (auto simp: limiter_ok_def bucket_ok_def refilled_before_def split: option.split)
  have "0 \<le> ?x"
    using r(2) ok by (simp add: dmul_def limiter_ok_def rnd64.nonneg to_seconds_nonneg)
  then have "0 \<le> dadd (tokens ?r) ?x" using r(1) by (simp add: dadd_def rnd64.nonneg)
  then show "0 \<le> available ip now l" "available ip now l \<le> maxTokens l" "is_double (available ip now l)"
    using ok by (simp_all add: available_def Let_def limiter_ok_def min_def)
qed

lemma isAllowedPrivate_ok:
  assumes ok: "limiter_ok l" and t: "refilled_before now l"
  shows "limiter_ok (snd (isAllowedPrivate ip now l))"
proof -
  note a = available_bounds[OF ok t, of ip]
  have "bucket_ok l \<lparr>tokens = dsub (available ip now l) 1, lastRefill = now\<rparr>"
    if "1 \<le> available ip now l"
  proof -
    have "dsub (available ip now l) 1 \<le> available ip now l"
      unfolding dsub_def by (rule rnd64.below_fixpoint) (use a(3) in \<open>simp_all add: is_double_def\<close>)
    moreover have "0 \<le> dsub (available ip now l) 1"
      unfolding dsub_def using that by (simp add: rnd64.nonneg)
    ultimately show ?thesis using a(2) by (simp add: bucket_ok_def)
  qed
  moreover have "bucket_ok l \<lparr>tokens = available ip now l, lastRefill = now\<rparr>"
    using a by (simp add: bucket_ok_def)
  ultimately show ?thesis
    using ok by (auto simp: isAllowedPrivate_available limiter_ok_def bucket_ok_def)
qed

lemma isAllowedPrivate_refilled:
  "refilled_before now l \<Longrightarrow> refilled_before now (snd (isAllowedPrivate ip now l))"
  by (auto simp: isAllowedPrivate_available refilled_before_def)

lemma refilled_before_mono: "refilled_before t l \<Longrightarrow> t \<le> t' \<Longrightarrow> refilled_before t' l"
  by (auto simp: refilled_before_def intro: order_trans)

lemma refilled_before_global:
  "refilled_before t (snd (isAllowedGlobal now l)) = refilled_before t l"
  by (simp add: refilled_before_def frame_simps)

lemma isAllowed_cases:
  "isAllowed ip tg tp l =
     (if fst (isAllowedGlobal tg l) then isAllowedPrivate ip tp (snd (isAllowedGlobal tg l))
      else isAllowedGlobal tg l)"
  by (cases "isAllowedGlobal tg l") (auto simp: isAllowed_def)

lemma isAllowed_ok:
  assumes "limiter_ok l" and "refilled_before tp l"
  shows "limiter_ok (snd (isAllowed ip tg tp l))" "refilled_before tp (snd (isAllowed ip tg tp l))"
  using isAllowedGlobal_ok[OF assms(1), of tg] assms
    isAllowedPrivate_ok[of "snd (isAllowedGlobal tg l)" tp ip]
    isAllowedPrivate_refilled[of tp "snd (isAllowedGlobal tg l)" ip]
  by (simp_all add: isAllowed_cases refilled_before_global)

text \<open>Readings of a steady clock along a run.\<close>

fun steady_from :: "int \<Rightarrow> (uint32 \<times> int \<times> int) list \<Rightarrow> bool" where
  "steady_from t [] = True"
| "steady_from t ((ip, tg, tp) # rs) = (t \<le> tg \<and> tg \<le> tp \<and> steady_from tp rs)"

lemma isAllowed_run_Cons:
  "fst (isAllowed_run ((ip, tg, tp) # rs) l)
     = fst (isAllowed ip tg tp l) # fst (isAllowed_run rs (snd (isAllowed ip tg tp l)))"
  "snd (isAllowed_run ((ip, tg, tp) # rs) l) = snd (isAllowed_run rs (snd (isAllowed ip tg tp l)))"
  by (simp_all split: prod.split)

declare isAllowed_run.simps(2) [simp del]

lemma isAllowed_run_ok:
  "limiter_ok l \<Longrightarrow> refilled_before t l \<Longrightarrow> steady_from t rs \<Longrightarrow>
   limiter_ok (snd (isAllowed_run rs l))"
proof (induction rs arbitrary: l t)
  case Nil
  then show ?case by simp
next
  case (Cons x rs)
  obtain ip tg tp where x: "x = (ip, tg, tp)" by (cases x)
  have "refilled_before tp l" using Cons.prems x by (auto intro: refilled_before_mono)
  note ok = isAllowed_ok[OF Cons.prems(1) this, of ip tg]
  have "steady_from tp rs" using Cons.prems(3) x by simp
  from Cons.IH[OF ok this] x show ?case by (simp add: isAllowed_run_Cons)
qed

lemma RateLimiter_new_ok:
  "0 \<le> mt \<Longrightarrow> 0 \<le> rr \<Longrightarrow> is_double mt \<Longrightarrow>
   limiter_ok (RateLimiter_new now mt rr gl) \<and> refilled_before t (RateLimiter_new now mt rr gl)"
  by (simp add: RateLimiter_new_def limiter_ok_def refilled_before_def)

subsection \<open>The global window\<close>

fun isAllowedGlobal_run :: "int list \<Rightarrow> RateLimiter \<Rightarrow> bool list \<times> RateLimiter" where
  "isAllowedGlobal_run [] l = ([], l)"
| "isAllowedGlobal_run (t # ts) l =
     (let (a, l1) = isAllowedGlobal t l; (as, l2) = isAllowedGlobal_run ts l1 in (a # as, l2))"

lemma isAllowedGlobal_run_Cons:
  "fst (isAllowedGlobal_run (t # ts) l)
     = fst (isAllowedGlobal t l) # fst (isAllowedGlobal_run ts (snd (isAllowedGlobal t l)))"
  "snd (isAllowedGlobal_run (t # ts) l) = snd (isAllowedGlobal_run ts (snd (isAllowedGlobal t l)))"
  by (simp_all split: prod.split)

declare isAllowedGlobal_run.simps(2) [simp del]

lemma isAllowedGlobal_in_window:
  "elapsed_seconds t (globalWindowStart l) < 1 \<Longrightarrow>
   isAllowedGlobal t l =
     (if sint (globalCount l) < sint (maxRequestsGlobal l)
      then (True, l\<lparr>globalCount := globalCount l + 1\<rparr>) else (False, l))"
  by (simp add: isAllowedGlobal_def not_le)

lemma isAllowedGlobal_new_window:
  "1 \<le> elapsed_seconds t (globalWindowStart l) \<Longrightarrow> 0 < sint (maxRequestsGlobal l) \<Longrightarrow>
   isAllowedGlobal t l = (True, l\<lparr>globalCount := 1, globalWindowStart := t\<rparr>)"
  by (simp add: isAllowedGlobal_def)

lemma isAllowedGlobal_run_granted:
  "(\<And>t. t \<in> set ts \<Longrightarrow> elapsed_seconds t (globalWindowStart l) < 1) \<Longrightarrow>
   sint (globalCount l) + int (length ts) \<le> sint (maxRequestsGlobal l) \<Longrightarrow>
   fst (isAllowedGlobal_run ts l) = replicate (length ts) True \<and>
   globalWindowStart (snd (isAllowedGlobal_run ts l)) = globalWindowStart l \<and>
   maxRequestsGlobal (snd (isAllowedGlobal_run ts l)) = maxRequestsGlobal l"
proof (induction ts arbitrary: l)
  case Nil
  then show ?case by simp
next
  case (Cons t ts)
  have lt: "sint (globalCount l) < sint (maxRequestsGlobal l)" using Cons.prems(2) by simp
  let ?l = "l\<lparr>globalCount := globalCount l + 1\<rparr>"
  have "isAllowedGlobal t l = (True, ?l)"
    using Cons.prems(1)[of t] lt by (simp add: isAllowedGlobal_in_window)
  moreover have "sint (globalCount ?l) + int (length ts) \<le> sint (maxRequestsGlobal ?l)"
    using Cons.prems(2) sint_plus_1[OF lt] by simp
  ultimately show ?case
    using Cons.IH[of ?l] Cons.prems(1) by (simp add: isAllowedGlobal_run_Cons)
qed

text \<open>A request leaves the window alone or counts against it, whatever the bucket says.\<close>

lemma isAllowed_in_window:
  assumes "elapsed_seconds tg (globalWindowStart l) < 1"
  shows "globalWindowStart (snd (isAllowed ip tg tp l)) = globalWindowStart l"
    and "globalCount (snd (isAllowed ip tg tp l)) =
      (if sint (globalCount l) < sint (maxRequestsGlobal l) then globalCount l + 1 else globalCount l)"
    and "fst (isAllowed ip tg tp l) \<Longrightarrow> sint (globalCount l) < sint (maxRequestsGlobal l)"
  using assms by (simp_all add: isAllowed_cases isAllowedGlobal_in_window frame_simps split: if_splits)

lemma isAllowed_run_in_window:
  "(\<And>ip tg tp. (ip, tg, tp) \<in> set rs \<Longrightarrow> elapsed_seconds tg (globalWindowStart l) < 1) \<Longrightarrow>
   sint (globalCount l) \<le> sint (maxRequestsGlobal l) \<Longrightarrow>
   sint (globalCount l) + int (length (filter (\<lambda>a. a) (fst (isAllowed_run rs l))))
     \<le> sint (maxRequestsGlobal l)"
proof (induction rs arbitrary: l)
  case Nil
  then show ?case by simp
next
  case (Cons x rs)
  obtain ip tg tp where x: "x = (ip, tg, tp)" by (cases x)
  let ?l = "snd (isAllowed ip tg tp l)"
  have w: "elapsed_seconds tg (globalWindowStart l) < 1" using Cons.prems(1)[of ip tg tp] x by simp
  note step = isAllowed_in_window[OF w, of ip tp]
  have "sint (globalCount ?l) \<le> sint (maxRequestsGlobal ?l)"
    using step(2) Cons.prems(2) sint_plus_1[of "globalCount l" "maxRequestsGlobal l"]
    by (simp add: frame_simps split: if_splits)
  moreover have "elapsed_seconds tg' (globalWindowStart ?l) < 1" if "(ip', tg', tp') \<in> set rs" for ip' tg' tp'
    using Cons.prems(1)[of ip' tg' tp'] that step(1) by simp
  ultimately have "sint (globalCount ?l) + int (length (filter (\<lambda>a. a) (fst (isAllowed_run rs ?l))))
      \<le> sint (maxRequestsGlobal l)"
    using Cons.IH[of ?l] by (simp add: frame_simps)
  with step(2,3) sint_plus_1[of "globalCount l" "maxRequestsGlobal l"] x show ?case
    by (auto simp: isAllowed_run_Cons split: if_splits)
qed

subsection \<open>One bucket\<close>

fun isAllowedPrivate_run :: "uint32 \<Rightarrow> int list \<Rightarrow> RateLimiter \<Rightarrow> bool list \<times> RateLimiter" where
  "isAllowedPrivate_run ip [] l = ([], l)"
| "isAllowedPrivate_run ip (t # ts) l =
     (let (a, l1) = isAllowedPrivate ip t l; (as, l2) = isAllowedPrivate_run ip ts l1 in (a # as, l2))"

lemma isAllowedPrivate_run_Cons:
  "fst (isAllowedPrivate_run ip (t # ts) l)
     = fst (isAllowedPrivate ip t l) # fst (isAllowedPrivate_run ip ts (snd (isAllowedPrivate ip t l)))"
  by (simp split: prod.split)

declare isAllowedPrivate_run.simps(2) [simp del]

text \<open>Without refill the bucket holds what it held, clamped.\<close>

lemma available_no_refill:
  assumes "refillRate l = 0" and "is_double (maxTokens l)"
    and "\<And>r. ipRecords l ip = Some r \<Longrightarrow> is_double (tokens r)"
  shows "available ip t l =
    min (maxTokens l) (case ipRecords l ip of None \<Rightarrow> maxTokens l | Some r \<Rightarrow> tokens r)"
  using assms by (simp add: available_def Let_def dadd_0_right split: option.split)

text \<open>A new address finds a full bucket.\<close>

lemma available_fresh:
  "ipRecords l ip = None \<Longrightarrow> is_double (maxTokens l) \<Longrightarrow> available ip t l = maxTokens l"
  by (simp add: available_def Let_def dmul_def dadd_0_right)

text \<open>
  With a refill rate of zero a bucket of integer size \<open>n\<close> grants exactly \<open>n\<close> requests.
\<close>

lemma private_run_no_refill:
  assumes "refillRate l = 0" and "maxTokens l = of_int m" and "0 \<le> n" and "n \<le> m" and "m < 2 ^ 53"
    and "ipRecords l ip = Some r \<and> tokens r = of_int n \<or> ipRecords l ip = None \<and> n = m"
  shows "fst (isAllowedPrivate_run ip ts l) = map (\<lambda>i. int i < n) [0..<length ts]"
  using assms
proof (induction ts arbitrary: l n r)
  case Nil
  then show ?case by simp
next
  case (Cons t ts)
  have d: "is_double (of_int m)" "is_double (of_int n)"
    using Cons.prems(3-5) by (auto intro!: is_double_of_int)
  then have a: "available ip t l = of_int n"
    using Cons.prems by (subst available_no_refill) (auto simp: min_def)
  let ?n = "if n < 1 then n else n - 1"
  have sub: "dsub (of_int n) 1 = of_int (n - 1)" if "1 \<le> n"
    using dsub_of_int[of n 1] that Cons.prems(4,5) by simp
  let ?l = "snd (isAllowedPrivate ip t l)"
  have l: "fst (isAllowedPrivate ip t l) = (0 < n)" "ipRecords ?l ip = Some \<lparr>tokens = of_int ?n, lastRefill = t\<rparr>"
    using a sub by (auto simp: isAllowedPrivate_available)
  have "fst (isAllowedPrivate_run ip ts ?l) = map (\<lambda>i. int i < ?n) [0..<length ts]"
    using Cons.prems l(2)
    by (intro Cons.IH[where r = "\<lparr>tokens = of_int ?n, lastRefill = t\<rparr>"]) (auto simp: frame_simps)
  also have "\<dots> = map (\<lambda>i. int (Suc i) < n) [0..<length ts]"
    using Cons.prems(3) by (intro map_cong) auto
  finally show ?case using l(1)
    by (simp add: isAllowedPrivate_run_Cons upt_conv_Cons map_Suc_upt[symmetric] del: upt_Suc)
qed

text \<open>An exhausted bucket without refill stays exhausted.\<close>

lemma exhausted_refused:
  assumes "ipRecords l a = Some r" and "tokens r < 1" and "is_double (tokens r)"
    and "is_double (maxTokens l)" and "refillRate l = 0"
  shows "\<not> fst (isAllowed a tg tp l)"
    and "\<exists>r'. ipRecords (snd (isAllowed a tg tp l)) a = Some r' \<and> tokens r' < 1 \<and> is_double (tokens r')"
proof -
  let ?l = "snd (isAllowedGlobal tg l)"
  have "available a tp ?l = min (maxTokens l) (tokens r)"
    using assms by (subst available_no_refill) (simp_all add: frame_simps)
  then have av: "available a tp ?l < 1" "is_double (available a tp ?l)"
    using assms by (simp_all add: min_def)
  then show "\<not> fst (isAllowed a tg tp l)"
    by (simp add: isAllowed_cases isAllowedPrivate_available)
  show "\<exists>r'. ipRecords (snd (isAllowed a tg tp l)) a = Some r' \<and> tokens r' < 1 \<and> is_double (tokens r')"
    using av assms by (simp add: isAllowed_cases isAllowedPrivate_available frame_simps)
qed

lemma exhausted_run:
  assumes "ipRecords l a = Some r" and "tokens r < 1" and "is_double (tokens r)"
    and "is_double (maxTokens l)" and "refillRate l = 0"
    and "\<And>ip tg tp. (ip, tg, tp) \<in> set rs \<Longrightarrow> ip = a \<and> elapsed_seconds tg (globalWindowStart l) < 1"
    and "sint (globalCount l) + int (length rs) = sint (maxRequestsGlobal l)"
  shows "True \<notin> set (fst (isAllowed_run rs l)) \<and>
    globalCount (snd (isAllowed_run rs l)) = maxRequestsGlobal l \<and>
    globalWindowStart (snd (isAllowed_run rs l)) = globalWindowStart l \<and>
    maxRequestsGlobal (snd (isAllowed_run rs l)) = maxRequestsGlobal l"
  using assms
proof (induction rs arbitrary: l r)
  case Nil
  then show ?case by (simp add: signed_word_eqI)
next
  case (Cons x rs)
  obtain tg tp where x: "x = (a, tg, tp)" using Cons.prems(6) by (cases x) auto
  let ?l = "snd (isAllowed a tg tp l)"
  have w: "elapsed_seconds tg (globalWindowStart l) < 1" using Cons.prems(6)[of a tg tp] x by simp
  have lt: "sint (globalCount l) < sint (maxRequestsGlobal l)" using Cons.prems(7) by simp
  note step = isAllowed_in_window[OF w, of a tp]
  note refused = exhausted_refused[OF Cons.prems(1-5), of tg tp]
  obtain r' where r': "ipRecords ?l a = Some r'" "tokens r' < 1" "is_double (tokens r')"
    using refused(2) by blast
  have "True \<notin> set (fst (isAllowed_run rs ?l)) \<and>
    globalCount (snd (isAllowed_run rs ?l)) = maxRequestsGlobal ?l \<and>
    globalWindowStart (snd (isAllowed_run rs ?l)) = globalWindowStart ?l \<and>
    maxRequestsGlobal (snd (isAllowed_run rs ?l)) = maxRequestsGlobal ?l"
  proof (rule Cons.IH[OF r'])
    show "is_double (maxTokens ?l)" "refillRate ?l = 0" using Cons.prems(4,5) by (simp_all add: frame_simps)
    show "sint (globalCount ?l) + int (length rs) = sint (maxRequestsGlobal ?l)"
      using Cons.prems(7) step(2) lt sint_plus_1[OF lt] by (simp add: frame_simps)
    show "ip = a \<and> elapsed_seconds tg' (globalWindowStart ?l) < 1" if "(ip, tg', tp') \<in> set rs" for ip tg' tp'
      using Cons.prems(6)[of ip tg' tp'] that step(1) by simp
  qed
  with refused(1) step(1) x show ?case by (simp add: isAllowed_run_Cons frame_simps)
qed

text \<open>Waiting whole seconds earns whole tokens, rounding included.\<close>

lemma to_seconds_ge:
  assumes "0 \<le> k" and "k * 1000000000 < 2 ^ 53" and "k * 1000000000 \<le> ns"
  shows "of_int k \<le> to_seconds ns"
proof -
  have "of_int (k * 1000000000) \<le> rnd64 (of_int ns)"
  proof (rule rnd64.above_fixpoint)
    show "of_int (k * 1000000000) \<le> (of_int ns :: rat)" using assms(3) by (simp only: of_int_le_iff)
    show "rnd64 (of_int (k * 1000000000)) = of_int (k * 1000000000)"
      by (rule rnd64_of_int) (use assms in simp)
  qed
  then have "of_int k \<le> rnd64 (of_int ns) / 1000000000" by (simp add: le_divide_eq)
  moreover have "\<bar>k\<bar> < 2 ^ 53" using assms by simp
  ultimately show ?thesis
    unfolding to_seconds_def ddiv_def by (intro rnd64.above_fixpoint rnd64_of_int)
qed

lemma refill_grants:
  assumes ok: "limiter_ok l" and r: "ipRecords l ip = Some r"
    and k: "0 \<le> k" "k * 1000000000 < 2 ^ 53" "1 \<le> of_int k * refillRate l"
    and wait: "lastRefill r + k * 1000000000 \<le> now" and mt: "1 \<le> maxTokens l"
  shows "fst (isAllowedPrivate ip now l)"
proof -
  have "of_int k \<le> to_seconds (now - lastRefill r)" using k wait by (intro to_seconds_ge) auto
  then have "of_int k * refillRate l \<le> to_seconds (now - lastRefill r) * refillRate l"
    using ok by (intro mult_right_mono) (simp_all add: limiter_ok_def)
  with k(3) have "1 \<le> to_seconds (now - lastRefill r) * refillRate l" by linarith
  then have "1 \<le> dmul (to_seconds (now - lastRefill r)) (refillRate l)"
    by (simp add: dmul_def rnd64.ge_one)
  moreover have "0 \<le> tokens r" using ok r by (simp add: limiter_ok_def bucket_ok_def)
  ultimately have "1 \<le> dadd (tokens r) (dmul (to_seconds (now - lastRefill r)) (refillRate l))"
    by (simp add: dadd_def rnd64.ge_one)
  then have "1 \<le> available ip now l" using r mt by (simp add: available_def)
  then show ?thesis by (simp add: isAllowedPrivate_available)
qed

subsection \<open>Properties\<close>

text \<open>
  Along every run of requests under a steady clock, each bucket holds a
  double between 0 and its capacity, and the global counter stays between 0 and the limit.
\<close>

theorem limiter_run_invariant:
  assumes "0 \<le> mt" and "0 \<le> rr" and "is_double mt" and "steady_from t rs"
  shows "limiter_ok (snd (isAllowed_run rs (RateLimiter_new t mt rr gl)))"
  using isAllowed_run_ok[of "RateLimiter_new t mt rr gl" t rs] RateLimiter_new_ok[of mt rr t gl t] assms
  by simp

theorem limiter_run_invariant_witness:
  "limiter_ok (snd (isAllowed_run [(7, 1, 2), (7, 3, 4), (9, 5, 1000000000)]
     (RateLimiter_new 0 10 5 1000)))"
proof -
  have "is_double 10" using is_double_of_int[of 10] by simp
  from limiter_run_invariant[OF _ _ this, where rr = 5 and t = 0] show ?thesis by simp
qed

text \<open>
  Within one window, no more requests are granted than the global limit,
  whatever the addresses.
\<close>

theorem global_limit_per_window:
  assumes "0 \<le> sint gl"
    and "\<forall>(ip, tg, tp) \<in> set rs. elapsed_seconds tg t < 1"
  shows "int (length (filter (\<lambda>a. a) (fst (isAllowed_run rs (RateLimiter_new t mt rr gl))))) \<le> sint gl"
proof -
  let ?l = "RateLimiter_new t mt rr gl"
  have "elapsed_seconds tg (globalWindowStart ?l) < 1" if "(ip, tg, tp) \<in> set rs" for ip tg tp
    using assms(2) that by (auto simp: RateLimiter_new_def)
  from isAllowed_run_in_window[of rs ?l, OF this] assms(1) show ?thesis
    by (simp add: RateLimiter_new_def)
qed

theorem global_limit_per_window_witness:
  "length (filter (\<lambda>a. a) (fst (isAllowed_run
     [(1, 0, 0), (2, 5, 5), (3, 9, 9)] (RateLimiter_new 0 10 5 2)))) \<le> 2"
proof -
  have "\<forall>(ip, tg, tp) \<in> set [(1 :: uint32, 0 :: int, 0 :: int), (2, 5, 5), (3, 9, 9)].
      elapsed_seconds tg 0 < 1"
    by (simp add: elapsed_seconds_def signed_divide_int_def)
  from global_limit_per_window[OF _ this, of 2] show ?thesis by simp
qed

text \<open>
  Without refill, a fresh address is granted exactly as many requests as
  its bucket has tokens, and then none, whatever the times.
\<close>

theorem burst_exact:
  assumes "0 \<le> n" and "n < 2 ^ 53"
  shows "fst (isAllowedPrivate_run ip ts (RateLimiter_new t (of_int n) 0 gl))
           = map (\<lambda>i. int i < n) [0..<length ts]"
  by (rule private_run_no_refill[where m = n]) (use assms in \<open>simp_all add: RateLimiter_new_def\<close>)

theorem burst_exact_witness:
  "fst (isAllowedPrivate_run 7 [0, 10, 20, 30] (RateLimiter_new 0 3 0 1000))
     = [True, True, True, False]"
proof -
  have "fst (isAllowedPrivate_run 7 [0, 10, 20, 30] (RateLimiter_new 0 (of_int 3) 0 1000))
      = map (\<lambda>i. int i < 3) [0..<length [0 :: int, 10, 20, 30]]"
    by (rule burst_exact) simp_all
  then show ?thesis by (simp add: upt_rec)
qed

text \<open>
  An address whose last request lies back so many whole seconds that they
  earn a token is granted its next request by its bucket, rounding included.
\<close>

theorem refill_restores_service:
  assumes "limiter_ok l" and "ipRecords l ip = Some r" and "1 \<le> maxTokens l"
    and "0 \<le> k" and "k * 1000000000 < 2 ^ 53" and "1 \<le> of_int k * refillRate l"
    and "lastRefill r + k * 1000000000 \<le> now"
  shows "fst (isAllowedPrivate ip now l)"
  using refill_grants[OF assms(1,2,4,5,6,7,3)] .

theorem refill_restores_service_witness:
  "fst (isAllowedPrivate 7 1500000000
     ((RateLimiter_new 0 10 5 1000)\<lparr>ipRecords := [7 \<mapsto> \<lparr>tokens = 0, lastRefill = 0\<rparr>]\<rparr>))"
proof -
  let ?l = "(RateLimiter_new 0 10 5 1000)\<lparr>ipRecords := [7 \<mapsto> \<lparr>tokens = 0, lastRefill = 0\<rparr>]\<rparr>"
  have "is_double 10" "is_double 0" using is_double_of_int[of 10] is_double_of_int[of 0] by simp_all
  then have "limiter_ok ?l" by (simp add: limiter_ok_def RateLimiter_new_def bucket_ok_def)
  from refill_restores_service[OF this, of 7 "\<lparr>tokens = 0, lastRefill = 0\<rparr>" 1]
  show ?thesis by (simp add: RateLimiter_new_def)
qed

text \<open>
  The buckets of different addresses do not influence each other: requests of
  one address change neither the record of another one nor its bucket's next answer.
\<close>

theorem buckets_isolated:
  assumes "ip' \<noteq> ip"
  shows "ipRecords (snd (isAllowed ip tg tp l)) ip' = ipRecords l ip' \<and>
         fst (isAllowedPrivate ip' t (snd (isAllowed ip tg tp l))) = fst (isAllowedPrivate ip' t l)"
proof -
  have "ipRecords (snd (isAllowed ip tg tp l)) ip' = ipRecords l ip'"
    using assms by (rule isAllowed_frame)
  moreover from this have "available ip' t (snd (isAllowed ip tg tp l)) = available ip' t l"
    by (cases "ipRecords l ip'") (simp_all add: available_def frame_simps)
  ultimately show ?thesis by (simp add: isAllowedPrivate_available)
qed

theorem buckets_isolated_witness:
  "ipRecords (snd (isAllowed 7 0 0 (RateLimiter_new 0 10 5 1000))) 9 = None"
proof -
  have "(9 :: uint32) \<noteq> 7" by simp
  from buckets_isolated[OF this, of 0 0 "RateLimiter_new 0 10 5 1000"] show ?thesis
    by (simp add: RateLimiter_new_def)
qed

text \<open>
  The global window is not isolated from a blocked address: the requests that
  the exhausted bucket of one address refuses are counted, and once they have filled the
  window every other address is refused too.
\<close>

theorem blocked_address_starves_others:
  assumes "ipRecords l a = Some r" and "tokens r < 1" and "is_double (tokens r)"
    and "is_double (maxTokens l)" and "refillRate l = 0"
    and "\<forall>(ip, tg, tp) \<in> set rs. ip = a \<and> elapsed_seconds tg (globalWindowStart l) < 1"
    and "sint (globalCount l) + int (length rs) = sint (maxRequestsGlobal l)"
    and "elapsed_seconds tg (globalWindowStart l) < 1"
  shows "True \<notin> set (fst (isAllowed_run rs l)) \<and>
         \<not> fst (isAllowed b tg tp (snd (isAllowed_run rs l)))"
proof -
  have "True \<notin> set (fst (isAllowed_run rs l)) \<and>
    globalCount (snd (isAllowed_run rs l)) = maxRequestsGlobal l \<and>
    globalWindowStart (snd (isAllowed_run rs l)) = globalWindowStart l \<and>
    maxRequestsGlobal (snd (isAllowed_run rs l)) = maxRequestsGlobal l"
    by (rule exhausted_run[OF assms(1-5) _ assms(7)]) (use assms(6) in auto)
  with assms(8) show ?thesis by (simp add: isAllowed_cases isAllowedGlobal_in_window)
qed

theorem blocked_address_starves_others_witness:
  "let l = (RateLimiter_new 0 10 0 3)\<lparr>ipRecords := [7 \<mapsto> \<lparr>tokens = 0, lastRefill = 0\<rparr>]\<rparr> in
   \<not> fst (isAllowed 9 50 51 (snd (isAllowed_run [(7, 1, 2), (7, 3, 4), (7, 5, 6)] l)))"
proof -
  let ?l = "(RateLimiter_new 0 10 0 3)\<lparr>ipRecords := [7 \<mapsto> \<lparr>tokens = 0, lastRefill = 0\<rparr>]\<rparr>"
  have d: "is_double 10" "is_double 0" using is_double_of_int[of 10] is_double_of_int[of 0] by simp_all
  have "True \<notin> set (fst (isAllowed_run [(7, 1, 2), (7, 3, 4), (7, 5, 6)] ?l)) \<and>
      \<not> fst (isAllowed 9 50 51 (snd (isAllowed_run [(7, 1, 2), (7, 3, 4), (7, 5, 6)] ?l)))"
    by (rule blocked_address_starves_others[where a = 7 and r = "\<lparr>tokens = 0, lastRefill = 0\<rparr>"])
       (use d in \<open>simp_all add: RateLimiter_new_def elapsed_seconds_def signed_divide_int_def\<close>)
  then show ?thesis by (simp add: Let_def)
qed

text \<open>
  The global limit bounds a window, not a second: a full window at its very
  end and a full window right after it grant twice the limit within one nanosecond.
\<close>

theorem window_boundary_doubles_rate:
  assumes "0 < sint gl"
  shows "fst (isAllowedGlobal_run
           (replicate (nat (sint gl)) (t + 999999999) @ replicate (nat (sint gl)) (t + 1000000000))
           (RateLimiter_new t mt rr gl)) = replicate (2 * nat (sint gl)) True"
proof -
  let ?n = "nat (sint gl)" and ?l = "RateLimiter_new t mt rr gl"
  let ?l1 = "snd (isAllowedGlobal_run (replicate ?n (t + 999999999)) ?l)"
  have app: "fst (isAllowedGlobal_run (xs @ ys) l)
      = fst (isAllowedGlobal_run xs l) @ fst (isAllowedGlobal_run ys (snd (isAllowedGlobal_run xs l)))"
    for xs ys l by (induction xs arbitrary: l) (simp_all add: isAllowedGlobal_run_Cons)
  have first: "fst (isAllowedGlobal_run (replicate ?n (t + 999999999)) ?l) = replicate ?n True \<and>
      globalWindowStart ?l1 = t \<and> maxRequestsGlobal ?l1 = gl"
    using assms isAllowedGlobal_run_granted[of "replicate ?n (t + 999999999)" ?l]
    by (simp add: RateLimiter_new_def elapsed_seconds_def signed_divide_int_def)
  obtain n' where n': "?n = Suc n'" using assms by (cases ?n) auto
  let ?l2 = "?l1\<lparr>globalCount := 1, globalWindowStart := t + 1000000000\<rparr>"
  have "isAllowedGlobal (t + 1000000000) ?l1 = (True, ?l2)"
    using first assms by (intro isAllowedGlobal_new_window)
      (simp_all add: elapsed_seconds_def signed_divide_int_def)
  moreover have "fst (isAllowedGlobal_run (replicate n' (t + 1000000000)) ?l2) = replicate n' True"
    using first n' isAllowedGlobal_run_granted[of "replicate n' (t + 1000000000)" ?l2]
    by (simp add: elapsed_seconds_def signed_divide_int_def)
  ultimately have second: "fst (isAllowedGlobal_run (replicate ?n (t + 1000000000)) ?l1) = replicate ?n True"
    by (simp add: n' isAllowedGlobal_run_Cons)
  have "2 * ?n = ?n + ?n" by simp
  with app first second show ?thesis by (simp only: replicate_add)
qed

theorem window_boundary_doubles_rate_witness:
  "fst (isAllowedGlobal_run [999999999, 1000000000] (RateLimiter_new 0 10 5 1)) = [True, True]"
proof -
  have "0 < sint (1 :: int32)" by simp
  from window_boundary_doubles_rate[OF this, of 0 10 5] show ?thesis by (simp add: numeral_2_eq_2)
qed

end
