(* ===== verification/Streams.thy ===== *)
theory Streams
  imports Prelude
begin

text \<open>
  The part of the C++ stream library that the persistence layer and the command parser
  use: \<open>std::istringstream >> std::string\<close> with its state bits, \<open>std::getline\<close> and
  the words of a line.  Strings are byte strings.
\<close>

subsection \<open>White space\<close>

definition newline :: char where
  "newline = CHR 0x0A"

text \<open>\<open>std::isspace\<close> in the classic locale.\<close>

definition isspace :: "char \<Rightarrow> bool" where
  "isspace c \<longleftrightarrow> c \<in> set [CHR '' '', CHR 0x09, CHR 0x0A, CHR 0x0B, CHR 0x0C, CHR 0x0D]"

lemma isspace_newline [simp]: "isspace newline"
  by (simp add: isspace_def newline_def)

lemma isspace_blank [simp]: "isspace (CHR '' '')"
  by (simp add: isspace_def)

text \<open>A word is what \<open>>>\<close> extracts: not empty, without white space.\<close>

definition word :: "string \<Rightarrow> bool" where
  "word w \<longleftrightarrow> w \<noteq> [] \<and> list_all (\<lambda>c. \<not> isspace c) w"

lemma word_no_newline: "word w \<Longrightarrow> newline \<notin> set w"
  by (auto simp: word_def list_all_iff)

lemma takeWhile_word: "word w \<Longrightarrow> isspace c \<Longrightarrow> takeWhile (\<lambda>c. \<not> isspace c) (w @ c # r) = w"
  by (simp add: word_def list_all_iff takeWhile_tail)

lemma dropWhile_word: "word w \<Longrightarrow> isspace c \<Longrightarrow> dropWhile (\<lambda>c. \<not> isspace c) (w @ c # r) = c # r"
  by (simp add: word_def list_all_iff dropWhile_append3)

lemma takeWhile_word_end: "word w \<Longrightarrow> takeWhile (\<lambda>c. \<not> isspace c) w = w"
  by (auto simp: word_def list_all_iff takeWhile_eq_all_conv)

lemma dropWhile_word_end: "word w \<Longrightarrow> dropWhile (\<lambda>c. \<not> isspace c) w = []"
  by (auto simp: word_def list_all_iff dropWhile_eq_Nil_conv)

lemma skip_word: "word w \<Longrightarrow> dropWhile isspace (w @ r) = w @ r"
  by (cases w) (auto simp: word_def)

subsection \<open>Extraction\<close>

record istream =
  rest :: string
  eofbit :: bool
  failbit :: bool

definition istringstream :: "string \<Rightarrow> istream" where
  "istringstream s = \<lparr>rest = s, eofbit = False, failbit = False\<rparr>"

text \<open>
  \<open>iss >> s\<close> for a string \<open>s\<close> that holds \<open>old\<close>: the sentry fails on a stream that is
  not good and at the end of the input, and then the string keeps its value.
\<close>

definition read_word :: "string \<Rightarrow> istream \<Rightarrow> string \<times> istream" where
  "read_word old iss =
     (if eofbit iss \<or> failbit iss then (old, iss\<lparr>failbit := True\<rparr>)
      else let r = dropWhile isspace (rest iss) in
        if r = [] then (old, iss\<lparr>rest := [], eofbit := True, failbit := True\<rparr>)
        else let w = takeWhile (\<lambda>c. \<not> isspace c) r; r' = dropWhile (\<lambda>c. \<not> isspace c) r in
          (w, iss\<lparr>rest := r', eofbit := (r' = [])\<rparr>))"

text \<open>Three extractions in a row, as both parsers do.\<close>

definition words3 :: "string \<Rightarrow> string \<times> string \<times> string" where
  "words3 s =
     (let (w1, s1) = read_word '''' (istringstream s);
          (w2, s2) = read_word '''' s1;
          (w3, s3) = read_word '''' s2 in (w1, w2, w3))"

lemma read_word_good:
  assumes "\<not> eofbit iss" and "\<not> failbit iss" and "word w"
    and "dropWhile isspace (rest iss) = w @ r" and "r = [] \<or> isspace (hd r)"
  shows "read_word old iss = (w, iss\<lparr>rest := r, eofbit := (r = [])\<rparr>)"
proof -
  have "takeWhile (\<lambda>c. \<not> isspace c) (w @ r) = w \<and> dropWhile (\<lambda>c. \<not> isspace c) (w @ r) = r"
    using assms(3,5)
    by (cases r) (auto simp: takeWhile_word dropWhile_word takeWhile_word_end dropWhile_word_end)
  moreover have "w \<noteq> []" using assms(3) by (simp add: word_def)
  ultimately show ?thesis using assms(1,2,4) by (simp add: read_word_def Let_def)
qed

lemma read_word_none:
  "dropWhile isspace (rest iss) = [] \<or> eofbit iss \<or> failbit iss \<Longrightarrow>
   fst (read_word old iss) = old \<and> failbit (snd (read_word old iss))"
  by (auto simp: read_word_def Let_def)

lemma read_word_failed: "failbit iss \<Longrightarrow> read_word old iss = (old, iss)"
  by (simp add: read_word_def)

text \<open>What is extracted is a word, or the old value is kept for good.\<close>

lemma read_word_result:
  "word (fst (read_word old iss)) \<and> \<not> failbit (snd (read_word old iss)) \<or>
   fst (read_word old iss) = old \<and> failbit (snd (read_word old iss))"
proof (cases "dropWhile isspace (rest iss) = [] \<or> eofbit iss \<or> failbit iss")
  case True
  then show ?thesis using read_word_none by blast
next
  case False
  let ?r = "dropWhile isspace (rest iss)"
  obtain c cs where r: "?r = c # cs" using False by (cases ?r) auto
  then have "\<not> isspace c" by (metis hd_dropWhile list.sel(1) list.distinct(1))
  then have "word (takeWhile (\<lambda>c. \<not> isspace c) ?r)"
    unfolding r by (auto simp: word_def list_all_iff dest: set_takeWhileD)
  with False show ?thesis by (simp add: read_word_def Let_def)
qed

subsection \<open>Lines\<close>

definition getline :: "string \<Rightarrow> (string \<times> string) option" where
  "getline f =
     (if f = [] then None
      else Some (takeWhile (\<lambda>c. c \<noteq> newline) f, drop 1 (dropWhile (\<lambda>c. c \<noteq> newline) f)))"

lemma getline_shorter: "getline f = Some (l, f') \<Longrightarrow> length f' < length f"
  using length_dropWhile_le[of "\<lambda>c. c \<noteq> newline" f]
  by (cases f) (auto simp: getline_def split: if_splits)

function lines_of :: "string \<Rightarrow> string list" where
  "lines_of f = (case getline f of None \<Rightarrow> [] | Some (l, f') \<Rightarrow> l # lines_of f')"
  by pat_completeness auto
termination by (relation "measure length") (auto dest: getline_shorter)

declare lines_of.simps [simp del]

lemma getline_Nil [simp]: "getline [] = None"
  by (simp add: getline_def)

lemma until_newline:
  assumes "newline \<notin> set l"
  shows "takeWhile (\<lambda>c. c \<noteq> newline) l = l" "dropWhile (\<lambda>c. c \<noteq> newline) l = []"
    "takeWhile (\<lambda>c. c \<noteq> newline) (l @ newline # f) = l"
    "dropWhile (\<lambda>c. c \<noteq> newline) (l @ newline # f) = newline # f"
proof -
  show t: "takeWhile (\<lambda>c. c \<noteq> newline) l = l" using assms by (auto simp: takeWhile_eq_all_conv)
  show d: "dropWhile (\<lambda>c. c \<noteq> newline) l = []" using assms by (auto simp: dropWhile_eq_Nil_conv)
  show "takeWhile (\<lambda>c. c \<noteq> newline) (l @ newline # f) = l" using t by (simp add: takeWhile_tail)
  show "dropWhile (\<lambda>c. c \<noteq> newline) (l @ newline # f) = newline # f"
    using d by (simp add: dropWhile_append3)
qed

lemma getline_line: "newline \<notin> set l \<Longrightarrow> getline (l @ newline # f) = Some (l, f)"
  by (simp add: getline_def until_newline)

lemma getline_last: "newline \<notin> set l \<Longrightarrow> l \<noteq> [] \<Longrightarrow> getline l = Some (l, [])"
  by (simp add: getline_def until_newline)

lemma lines_of_Nil [simp]: "lines_of [] = []"
  by (subst lines_of.simps) simp

lemma lines_of_line: "newline \<notin> set l \<Longrightarrow> lines_of (l @ newline # f) = l # lines_of f"
  by (subst lines_of.simps) (simp add: getline_line)

lemma lines_of_last: "newline \<notin> set l \<Longrightarrow> l \<noteq> [] \<Longrightarrow> lines_of l = [l]"
  by (subst lines_of.simps) (simp add: getline_last)

text \<open>A file of complete lines, and what an incomplete last line adds.\<close>

definition join_lines :: "string list \<Rightarrow> string" where
  "join_lines ls = concat (map (\<lambda>l. l @ [newline]) ls)"

lemma join_lines_simps [simp]:
  "join_lines [] = []"
  "join_lines (l # ls) = l @ newline # join_lines ls"
  "join_lines (ls @ ls') = join_lines ls @ join_lines ls'"
  by (simp_all add: join_lines_def)

lemma lines_of_join_append:
  "list_all (\<lambda>l. newline \<notin> set l) ls \<Longrightarrow> lines_of (join_lines ls @ f) = ls @ lines_of f"
  by (induction ls) (auto simp: lines_of_line)

lemma lines_of_join: "list_all (\<lambda>l. newline \<notin> set l) ls \<Longrightarrow> lines_of (join_lines ls) = ls"
  using lines_of_join_append[of ls "[]"] by simp

end
