(* ===== verification/Persistence.thy ===== *)
theory Persistence
  imports HashMap_Correct Streams
begin

text \<open>
  The disk layer, \<open>src/Storage/Persistence.h\<close> and \<open>src/Storage/Persistence.cpp\<close>: the
  append-only log and the snapshot, as the byte strings the two files hold.  Every line is
  flushed by \<open>std::endl\<close> before the writer continues, so the content of a file is what a
  crash at that point leaves.  Whether the operating system lets a file be opened or
  resized is an argument of the operation (\<open>True\<close>: it succeeds).

  The operations come first; then what the loader computes from two files, the round trip
  of snapshot and log, and the states a crash can leave.
\<close>

subsection \<open>State\<close>

record Persistence =
  aof_stream_open :: bool
  aof_file :: "string option"   \<comment> \<open>\<open>appendonly.log\<close>, \<open>None\<close> if it does not exist\<close>
  rdb_file :: "string option"   \<comment> \<open>\<open>snapshot.log\<close>\<close>

datatype pers_error =
    AofOpenError            \<comment> \<open>Error opening AOF file\<close>
  | RdbOpenError            \<comment> \<open>Error opening RDB file\<close>
  | RdbSnapshotOpenError    \<comment> \<open>Error opening RDB file for snapshot\<close>
  | AofResizeError          \<comment> \<open>\<open>filesystem_error\<close> of \<open>resize_file\<close>\<close>
  | AofReopenError          \<comment> \<open>Error opening AOF file after reset\<close>

subsection \<open>Construction and destruction\<close>

text \<open>Opening in append mode creates the file if there is none.\<close>

definition Persistence_new :: "bool \<Rightarrow> Persistence \<Rightarrow> pers_error + Persistence" where
  "Persistence_new can_open p =
     (if can_open
      then Inr (p\<lparr>aof_stream_open := True,
                 aof_file := Some (case aof_file p of None \<Rightarrow> '''' | Some f \<Rightarrow> f)\<rparr>)
      else Inl AofOpenError)"

definition Persistence_destroy :: "Persistence \<Rightarrow> Persistence" where
  "Persistence_destroy p = (if aof_stream_open p then p\<lparr>aof_stream_open := False\<rparr> else p)"

subsection \<open>Loading\<close>

function load_rdb :: "string \<Rightarrow> HashMap \<Rightarrow> HashMap option" where
  "load_rdb f m =
     (case getline f of
        None \<Rightarrow> Some m
      | Some (line, f') \<Rightarrow>
          let (command, s1) = read_word '''' (istringstream line);
              (key, s2) = read_word '''' s1;
              (val, s3) = read_word '''' s2 in
          Option.bind (HashMap_insert m key val) (load_rdb f'))"
  by pat_completeness auto
termination
  by (relation "measure (\<lambda>(f, m). length f)") (auto dest: getline_shorter)

declare load_rdb.simps [simp del]

function load_aof :: "string \<Rightarrow> HashMap \<Rightarrow> HashMap option" where
  "load_aof f m =
     (case getline f of
        None \<Rightarrow> Some m
      | Some (line, f') \<Rightarrow>
          let (command, s1) = read_word '''' (istringstream line) in
          if command = ''INSERT'' then
            let (key, s2) = read_word '''' s1;
                (val, s3) = read_word '''' s2 in
            Option.bind (HashMap_insert m key val) (load_aof f')
          else
            let (key, s2) = read_word '''' s1 in
            Option.bind (HashMap_remove m key) (load_aof f'))"
  by pat_completeness auto
termination
  by (relation "measure (\<lambda>(f, m). length f)") (auto dest: getline_shorter)

declare load_aof.simps [simp del]

definition loadDataOnStartup ::
  "bool \<Rightarrow> bool \<Rightarrow> Persistence \<Rightarrow> HashMap \<Rightarrow> (pers_error + HashMap) option" where
  "loadDataOnStartup can_open_rdb can_open_aof p hashmap =
     (let after_rdb =
        (case rdb_file p of
           None \<Rightarrow> Some (Inr hashmap)
         | Some f \<Rightarrow> if can_open_rdb then map_option Inr (load_rdb f hashmap)
                     else Some (Inl RdbOpenError)) in
      Option.bind after_rdb (\<lambda>r. case r of
        Inl e \<Rightarrow> Some (Inl e)
      | Inr m \<Rightarrow>
          (case aof_file p of
             None \<Rightarrow> Some (Inr m)
           | Some f \<Rightarrow> if can_open_aof then map_option Inr (load_aof f m)
                       else Some (Inl AofOpenError))))"

subsection \<open>Logging and snapshots\<close>

text \<open>Writing to a stream that is not open has no effect.\<close>

definition appendToLog :: "string \<Rightarrow> string \<Rightarrow> string \<Rightarrow> Persistence \<Rightarrow> Persistence" where
  "appendToLog command key val p =
     (if aof_stream_open p
      then p\<lparr>aof_file := map_option
               (\<lambda>f. f @ (command @ '' '' @ key @ '' '' @ val) @ [newline]) (aof_file p)\<rparr>
      else p)"

definition write_rdb_entry :: "string \<Rightarrow> string \<Rightarrow> string \<Rightarrow> string" where
  "write_rdb_entry key val f = f @ (''INSERT '' @ key @ '' '' @ val) @ [newline]"

text \<open>
  \<open>None\<close> is undefined behaviour of the iteration; an exception leaves the state as it is at
  the throw.
\<close>

definition createSnapshot ::
  "bool \<Rightarrow> bool \<Rightarrow> bool \<Rightarrow> HashMap \<Rightarrow> Persistence \<Rightarrow> (Persistence \<times> pers_error option) option" where
  "createSnapshot can_open_rdb can_resize can_reopen hashmap p =
     (if \<not> can_open_rdb then Some (p, Some RdbSnapshotOpenError)
      else
        Option.bind (HashMap_forEach hashmap write_rdb_entry '''') (\<lambda>f.
        let p1 = p\<lparr>rdb_file := Some f, aof_stream_open := False\<rparr> in
        if \<not> can_resize \<or> aof_file p1 = None then Some (p1, Some AofResizeError)
        else
          let p2 = p1\<lparr>aof_file := Some ''''\<rparr> in
          if \<not> can_reopen then Some (p2, Some AofReopenError)
          else Some (p2\<lparr>aof_stream_open := True\<rparr>, None)))"

subsection \<open>What a line means\<close>

definition rdb_op :: "string \<Rightarrow> store_op" where
  "rdb_op line = (case words3 line of (command, key, val) \<Rightarrow> Put key val)"

definition aof_op :: "string \<Rightarrow> store_op" where
  "aof_op line =
     (case words3 line of (command, key, val) \<Rightarrow>
        if command = ''INSERT'' then Put key val else Del key)"

lemma load_rdb_run:
  "load_rdb f m = run_ops (apply_op HashMap_insert HashMap_remove) (map rdb_op (lines_of f)) m"
proof (induction f arbitrary: m rule: lines_of.induct)
  case (1 f)
  show ?case
  proof (cases "getline f")
    case None
    then show ?thesis by (subst load_rdb.simps, subst lines_of.simps) simp
  next
    case (Some lf)
    obtain l f' where lf: "lf = (l, f')" by (cases lf)
    have "load_rdb f m = Option.bind (apply_op HashMap_insert HashMap_remove (rdb_op l) m) (load_rdb f')"
      using Some lf by (subst load_rdb.simps) (simp add: rdb_op_def words3_def split: prod.split)
    with 1 Some lf show ?thesis
      by (subst lines_of.simps) (auto split: option.split)
  qed
qed

lemma load_aof_run:
  "load_aof f m = run_ops (apply_op HashMap_insert HashMap_remove) (map aof_op (lines_of f)) m"
proof (induction f arbitrary: m rule: lines_of.induct)
  case (1 f)
  show ?case
  proof (cases "getline f")
    case None
    then show ?thesis by (subst load_aof.simps, subst lines_of.simps) simp
  next
    case (Some lf)
    obtain l f' where lf: "lf = (l, f')" by (cases lf)
    have "load_aof f m = Option.bind (apply_op HashMap_insert HashMap_remove (aof_op l) m) (load_aof f')"
      using Some lf by (subst load_aof.simps) (simp add: aof_op_def words3_def split: prod.split)
    with 1 Some lf show ?thesis
      by (subst lines_of.simps) (auto split: option.split)
  qed
qed

text \<open>The store two files describe: the snapshot's entries, then the log replayed.\<close>

definition file_ops :: "(string \<Rightarrow> store_op) \<Rightarrow> string option \<Rightarrow> store_op list" where
  "file_ops parse f = (case f of None \<Rightarrow> [] | Some c \<Rightarrow> map parse (lines_of c))"

definition disk_store :: "Persistence \<Rightarrow> string \<rightharpoonup> string" where
  "disk_store p =
     fold store_step (file_ops aof_op (aof_file p))
       (fold store_step (file_ops rdb_op (rdb_file p)) Map.empty)"

lemma loadDataOnStartup_run:
  "loadDataOnStartup True True p m =
     map_option Inr (run_ops (apply_op HashMap_insert HashMap_remove)
       (file_ops rdb_op (rdb_file p) @ file_ops aof_op (aof_file p)) m)"
  by (cases "rdb_file p"; cases "aof_file p";
      cases "run_ops (apply_op HashMap_insert HashMap_remove) (file_ops rdb_op (rdb_file p)) m")
     (simp_all add: loadDataOnStartup_def load_rdb_run load_aof_run file_ops_def run_ops_append)

lemma loadDataOnStartup_store:
  assumes "HashMap_inv m" and "HashMap_map m = Map.empty"
  shows "\<exists>m'. loadDataOnStartup True True p m = Some (Inr m') \<and> HashMap_inv m' \<and>
           HashMap_map m' = disk_store p"
  using hm.run_store[OF assms(1), of "file_ops rdb_op (rdb_file p) @ file_ops aof_op (aof_file p)"]
    assms(2)
  by (auto simp: loadDataOnStartup_run disk_store_def)

subsection \<open>Reading back what was written\<close>

text \<open>The next word of a stream that is good, before a blank and at the end.\<close>

lemma read_next_word:
  "word w \<Longrightarrow> read_word old \<lparr>rest = CHR '' '' # w @ CHR '' '' # r, eofbit = False, failbit = False\<rparr>
     = (w, \<lparr>rest = CHR '' '' # r, eofbit = False, failbit = False\<rparr>)"
  "word w \<Longrightarrow> read_word old \<lparr>rest = w @ CHR '' '' # r, eofbit = False, failbit = False\<rparr>
     = (w, \<lparr>rest = CHR '' '' # r, eofbit = False, failbit = False\<rparr>)"
  using read_word_good[of "\<lparr>rest = CHR '' '' # w @ CHR '' '' # r, eofbit = False, failbit = False\<rparr>" w "CHR '' '' # r"]
    read_word_good[of "\<lparr>rest = w @ CHR '' '' # r, eofbit = False, failbit = False\<rparr>" w "CHR '' '' # r"]
  by (simp_all add: skip_word)

lemma read_last_word:
  "word w \<Longrightarrow> read_word old \<lparr>rest = CHR '' '' # w, eofbit = False, failbit = False\<rparr>
     = (w, \<lparr>rest = [], eofbit = True, failbit = False\<rparr>)"
  "word w \<Longrightarrow> read_word old \<lparr>rest = w, eofbit = False, failbit = False\<rparr>
     = (w, \<lparr>rest = [], eofbit = True, failbit = False\<rparr>)"
  using read_word_good[of "\<lparr>rest = CHR '' '' # w, eofbit = False, failbit = False\<rparr>" w "[]"]
    read_word_good[of "\<lparr>rest = w, eofbit = False, failbit = False\<rparr>" w "[]"]
    skip_word[of w "[]"]
  by simp_all

lemma read_no_word:
  "read_word old \<lparr>rest = '' '', eofbit = False, failbit = False\<rparr>
     = (old, \<lparr>rest = [], eofbit = True, failbit = True\<rparr>)"
  "read_word old \<lparr>rest = ''  '', eofbit = False, failbit = False\<rparr>
     = (old, \<lparr>rest = [], eofbit = True, failbit = True\<rparr>)"
  "fst (read_word old \<lparr>rest = r, eofbit = True, failbit = b\<rparr>) = old"
  "fst (read_word old \<lparr>rest = r, eofbit = e, failbit = True\<rparr>) = old"
  by (simp_all add: read_word_def)

lemmas reads = read_next_word read_last_word read_no_word

lemma words3_full:
  assumes "word a" and "word b" and "word c"
  shows "words3 (a @ '' '' @ b @ '' '' @ c) = (a, b, c)"
  using assms by (simp add: words3_def istringstream_def reads split_beta)

lemma words3_more:
  assumes "word a" and "word b" and "word c"
  shows "words3 (a @ '' '' @ b @ '' '' @ c @ '' '' @ r) = (a, b, c)"
  using assms by (simp add: words3_def istringstream_def reads split_beta)

lemma words3_two:
  assumes "word a" and "word b"
  shows "words3 (a @ '' '' @ b @ '' '') = (a, b, '''')"
  using assms reads(1)[OF assms(2), of _ "[]"]
  by (simp add: words3_def istringstream_def reads split_beta)

lemma words3_one:
  assumes "word a"
  shows "words3 (a @ ''  '') = (a, '''', '''')"
  using assms reads(2)[OF assms, of _ "'' ''"]
  by (simp add: words3_def istringstream_def reads split_beta)

text \<open>A last record cut short, down to its key.\<close>

lemma words3_cut_value:
  assumes "word a" and "word b"
  shows "words3 (a @ '' '' @ b) = (a, b, '''')"
  using assms by (simp add: words3_def istringstream_def reads split_beta)

lemma word_literals [simp]: "word ''INSERT''" "word ''DELETE''" "word ''GET''"
  by (simp_all add: word_def isspace_def)

definition log_line :: "string \<Rightarrow> string \<Rightarrow> string \<Rightarrow> string" where
  "log_line command key val = command @ '' '' @ key @ '' '' @ val"

text \<open>A key is a word, or empty when the client sent none.\<close>

lemma log_line_ops [store_simps]:
  "word k \<Longrightarrow> word v \<Longrightarrow> aof_op (log_line ''INSERT'' k v) = Put k v"
  "word k \<Longrightarrow> word v \<Longrightarrow> rdb_op (log_line ''INSERT'' k v) = Put k v"
  "word k \<or> k = [] \<Longrightarrow> aof_op (log_line ''DELETE'' k []) = Del k"
  using words3_full[of "''INSERT''" k v] words3_two[of "''DELETE''" k] words3_one[of "''DELETE''"]
  by (auto simp: log_line_def aof_op_def rdb_op_def)

lemma log_line_no_newline:
  "newline \<notin> set command \<Longrightarrow> word k \<or> k = [] \<Longrightarrow> word v \<or> v = [] \<Longrightarrow>
   newline \<notin> set (log_line command k v)"
  using word_no_newline by (auto simp: log_line_def newline_def)

lemma no_newline_literals [simp]: "newline \<notin> set ''INSERT''" "newline \<notin> set ''DELETE''"
  by (simp_all add: newline_def)

text \<open>A file whose last line is complete.\<close>

definition newline_ended :: "string \<Rightarrow> bool" where
  "newline_ended f \<longleftrightarrow> f = [] \<or> last f = newline"

lemma lines_of_append_complete: "newline_ended f \<Longrightarrow> lines_of (f @ g) = lines_of f @ lines_of g"
proof (induction f rule: length_induct)
  case (1 f)
  show ?case
  proof (cases "f = []")
    case False
    with 1(2) have "newline \<in> set f" by (auto simp: newline_ended_def dest: last_in_set)
    then obtain l f' where f: "f = l @ newline # f'" "newline \<notin> set l" by (metis split_list_first)
    have "newline_ended f'" using 1(2) f by (auto simp: newline_ended_def split: if_splits)
    with 1(1) f show ?thesis by (simp add: lines_of_line)
  qed simp
qed

lemma lines_of_append_line:
  "newline_ended f \<Longrightarrow> newline \<notin> set l \<Longrightarrow> lines_of (f @ l @ [newline]) = lines_of f @ [l]"
  by (simp add: lines_of_append_complete lines_of_line[of l "[]"])

definition pers_ok :: "Persistence \<Rightarrow> bool" where
  "pers_ok p \<longleftrightarrow>
     aof_stream_open p \<and> (case aof_file p of None \<Rightarrow> False | Some f \<Rightarrow> newline_ended f)"

lemma pers_okE:
  assumes "pers_ok p"
  obtains f where "aof_file p = Some f" "newline_ended f" "aof_stream_open p"
  using assms by (auto simp: pers_ok_def split: option.splits)

lemma appendToLog_op:
  assumes "pers_ok p" and "newline \<notin> set (log_line command k v)"
  shows "pers_ok (appendToLog command k v p)"
    and "disk_store (appendToLog command k v p)
           = store_step (aof_op (log_line command k v)) (disk_store p)"
proof -
  obtain f where f: "aof_file p = Some f" "newline_ended f" "aof_stream_open p"
    using assms(1) by (rule pers_okE)
  have a: "appendToLog command k v p = p\<lparr>aof_file := Some (f @ log_line command k v @ [newline])\<rparr>"
    using f by (simp add: appendToLog_def log_line_def)
  then show "pers_ok (appendToLog command k v p)"
    using f by (simp add: pers_ok_def newline_ended_def)
  show "disk_store (appendToLog command k v p)
           = store_step (aof_op (log_line command k v)) (disk_store p)"
    unfolding a using f assms(2) by (simp add: disk_store_def file_ops_def lines_of_append_line)
qed

lemma appendToLog_store:
  assumes "pers_ok p"
  shows "word k \<Longrightarrow> word v \<Longrightarrow> disk_store (appendToLog ''INSERT'' k v p) = (disk_store p)(k \<mapsto> v)"
    and "word k \<or> k = [] \<Longrightarrow> disk_store (appendToLog ''DELETE'' k [] p) = (disk_store p)(k := None)"
    and "word k \<Longrightarrow> word v \<Longrightarrow> pers_ok (appendToLog ''INSERT'' k v p)"
    and "word k \<or> k = [] \<Longrightarrow> pers_ok (appendToLog ''DELETE'' k [] p)"
proof -
  have ins: "newline \<notin> set (log_line ''INSERT'' k v)" if "word k" "word v"
    using log_line_no_newline[OF no_newline_literals(1)] that by blast
  have del: "newline \<notin> set (log_line ''DELETE'' k [])" if "word k \<or> k = []"
    using log_line_no_newline[OF no_newline_literals(2)] that by blast
  show "disk_store (appendToLog ''INSERT'' k v p) = (disk_store p)(k \<mapsto> v)" if "word k" "word v"
    using appendToLog_op(2)[OF assms ins[OF that]] log_line_ops(1)[OF that] by simp
  show "disk_store (appendToLog ''DELETE'' k [] p) = (disk_store p)(k := None)"
    if "word k \<or> k = []"
    using appendToLog_op(2)[OF assms del[OF that]] log_line_ops(3)[OF that] by simp
  show "pers_ok (appendToLog ''INSERT'' k v p)" if "word k" "word v"
    using appendToLog_op(1)[OF assms ins[OF that]] .
  show "pers_ok (appendToLog ''DELETE'' k [] p)" if "word k \<or> k = []"
    using appendToLog_op(1)[OF assms del[OF that]] .
qed

subsection \<open>The snapshot file\<close>

definition clean_store :: "(string \<rightharpoonup> string) \<Rightarrow> bool" where
  "clean_store s \<longleftrightarrow> (\<forall>k v. s k = Some v \<longrightarrow> word k \<and> word v)"

lemma clean_store_update:
  "clean_store s \<Longrightarrow> word k \<Longrightarrow> word v \<Longrightarrow> clean_store (s(k \<mapsto> v))"
  "clean_store s \<Longrightarrow> clean_store (s(k := None))"
  by (auto simp: clean_store_def)

definition rdb_text :: "(string \<times> string) list \<Rightarrow> string" where
  "rdb_text es = join_lines (map (\<lambda>(k, v). log_line ''INSERT'' k v) es)"

lemma fold_write_rdb_entry:
  "fold (\<lambda>(k, v). write_rdb_entry k v) es f = f @ rdb_text es"
  by (induction es arbitrary: f) (auto simp: write_rdb_entry_def rdb_text_def log_line_def)

lemma rdb_text_append: "rdb_text (es @ es') = rdb_text es @ rdb_text es'"
  by (simp add: rdb_text_def)

lemma file_ops_rdb_text:
  assumes "\<forall>(k, v) \<in> set es. word k \<and> word v"
  shows "file_ops rdb_op (Some (rdb_text es)) = map (\<lambda>(k, v). Put k v) es"
proof -
  have "list_all (\<lambda>l. newline \<notin> set l) (map (\<lambda>(k, v). log_line ''INSERT'' k v) es)"
    using assms log_line_no_newline[OF no_newline_literals(1)]
    by (auto simp: list_all_iff simp del: list.set)
  then have "lines_of (rdb_text es) = map (\<lambda>(k, v). log_line ''INSERT'' k v) es"
    unfolding rdb_text_def by (rule lines_of_join)
  then show ?thesis using assms by (auto simp: file_ops_def store_simps)
qed

lemma entries_words:
  assumes "HashMap_inv m" and "clean_store (HashMap_map m)"
  shows "\<forall>(k, v) \<in> set (HashMap_entries m). word k \<and> word v"
proof safe
  fix k v assume "(k, v) \<in> set (HashMap_entries m)"
  then have "HashMap_map m k = Some v"
    using hm.entries[OF assms(1)] hm.entries_distinct[OF assms(1)] by (metis map_of_is_SomeI)
  with assms(2) show "word k" "word v" by (auto simp: clean_store_def)
qed

lemma fold_rdb_text:
  assumes "HashMap_inv m" and "clean_store (HashMap_map m)"
  shows "fold store_step (file_ops rdb_op (Some (rdb_text (HashMap_entries m)))) Map.empty
    = HashMap_map m"
  by (simp add: file_ops_rdb_text[OF entries_words[OF assms]] fold_puts_empty
      hm.entries_distinct[OF assms(1)] hm.entries[OF assms(1)])

lemma createSnapshot_ok:
  assumes "HashMap_inv m" and "aof_file p \<noteq> None"
  shows "createSnapshot True True True m p =
    Some (\<lparr>aof_stream_open = True, aof_file = Some '''',
           rdb_file = Some (rdb_text (HashMap_entries m)), \<dots> = Persistence.more p\<rparr>, None)"
  using assms by (simp add: createSnapshot_def HashMap_forEach_entries fold_write_rdb_entry Let_def)

lemma createSnapshot_store:
  assumes "HashMap_inv m" and "clean_store (HashMap_map m)" and "aof_file p \<noteq> None"
  shows "\<exists>p'. createSnapshot True True True m p = Some (p', None) \<and> pers_ok p' \<and>
    disk_store p' = HashMap_map m"
  using assms fold_rdb_text[OF assms(1,2)]
  by (simp add: createSnapshot_ok pers_ok_def newline_ended_def disk_store_def file_ops_def)

text \<open>
  A snapshot that fails leaves the same store on disk, whichever call failed: until the
  log is reset both files still describe the map, and replaying the log a second time
  changes nothing.
\<close>

lemma disk_store_rdb_replaced:
  assumes "HashMap_inv m" and "clean_store (HashMap_map m)" and "disk_store p = HashMap_map m"
  shows "disk_store (p\<lparr>rdb_file := Some (rdb_text (HashMap_entries m)), aof_stream_open := b\<rparr>)
    = HashMap_map m"
proof -
  let ?aof = "fold store_step (file_ops aof_op (aof_file p))"
  have "disk_store (p\<lparr>rdb_file := Some (rdb_text (HashMap_entries m)), aof_stream_open := b\<rparr>)
      = ?aof (disk_store p)"
    by (simp add: disk_store_def fold_rdb_text[OF assms(1,2)] assms(3)[unfolded disk_store_def])
  also have "\<dots> = disk_store p"
    by (simp add: disk_store_def fold_store_step_idem)
  finally show ?thesis by (simp add: assms(3))
qed

text \<open>
  A crash while the snapshot is written: the file was truncated when it was opened, and the
  first \<open>n\<close> entries have been flushed.  The counter stops the callback.
\<close>

definition write_rdb_entry_until :: "string \<Rightarrow> string \<Rightarrow> nat \<times> string \<Rightarrow> nat \<times> string" where
  "write_rdb_entry_until key val s =
     (case s of (n, f) \<Rightarrow> if n = 0 then (0, f) else (n - 1, write_rdb_entry key val f))"

definition createSnapshot_crash :: "nat \<Rightarrow> HashMap \<Rightarrow> Persistence \<Rightarrow> Persistence option" where
  "createSnapshot_crash n hashmap p =
     Option.bind (HashMap_forEach hashmap write_rdb_entry_until (n, ''''))
       (\<lambda>(_, f). Some (p\<lparr>rdb_file := Some f\<rparr>))"

lemma fold_write_until:
  "snd (fold (\<lambda>(k, v). write_rdb_entry_until k v) es (n, f)) = f @ rdb_text (take n es)"
proof (induction es arbitrary: n f)
  case Nil
  then show ?case by (simp add: rdb_text_def)
next
  case (Cons e es)
  obtain k v where e: "e = (k, v)" by (cases e)
  show ?case
  proof (cases n)
    case 0
    then show ?thesis using Cons[of 0 f] by (simp add: e write_rdb_entry_until_def rdb_text_def)
  next
    case (Suc n')
    then show ?thesis using Cons[of n' "write_rdb_entry k v f"]
      by (simp add: e write_rdb_entry_until_def rdb_text_def write_rdb_entry_def log_line_def)
  qed
qed

lemma createSnapshot_crash_run:
  assumes "HashMap_inv m"
  shows "createSnapshot_crash n m p = Some (p\<lparr>rdb_file := Some (rdb_text (take n (HashMap_entries m)))\<rparr>)"
  using fold_write_until[of "HashMap_entries m" n "''''"]
  by (simp add: createSnapshot_crash_def HashMap_forEach_entries[OF assms] split_beta)

lemma fold_rdb_text_take:
  assumes "HashMap_inv m" and "clean_store (HashMap_map m)"
  shows "fold store_step (file_ops rdb_op (Some (rdb_text (take n (HashMap_entries m))))) Map.empty
    = map_of (take n (HashMap_entries m))"
proof -
  have "\<forall>(k, v) \<in> set (take n (HashMap_entries m)). word k \<and> word v"
    using entries_words[OF assms] by (meson in_set_takeD)
  moreover have "distinct (map fst (take n (HashMap_entries m)))"
    using hm.entries_distinct[OF assms(1)] by (simp add: take_map[symmetric])
  ultimately show ?thesis by (simp add: file_ops_rdb_text fold_puts_empty)
qed

lemma lines_of_torn:
  assumes "newline_ended f" and "newline \<notin> set l" and "l \<noteq> []"
  shows "lines_of (f @ l) = lines_of f @ [l]"
  using assms by (simp add: lines_of_append_complete lines_of_last)

lemma word_take: "word v \<Longrightarrow> 0 < n \<Longrightarrow> word (take n v)"
  by (cases n) (auto simp: word_def list_all_iff dest: in_set_takeD)

lemma createSnapshot_outcome:
  assumes "HashMap_inv m" and "clean_store (HashMap_map m)" and "pers_ok p"
    and "disk_store p = HashMap_map m"
  shows "\<exists>p'. createSnapshot can_open can_resize can_reopen m p = Some (p',
        if \<not> can_open then Some RdbSnapshotOpenError
        else if \<not> can_resize then Some AofResizeError
        else if \<not> can_reopen then Some AofReopenError else None) \<and>
      disk_store p' = HashMap_map m \<and>
      (aof_stream_open p' \<longleftrightarrow> \<not> can_open \<or> can_resize \<and> can_reopen)"
proof -
  obtain f where f: "aof_file p = Some f" "aof_stream_open p"
    using assms(3) by (rule pers_okE)
  have "disk_store (p\<lparr>rdb_file := Some (rdb_text (HashMap_entries m)), aof_stream_open := b,
           aof_file := Some ''''\<rparr>) = HashMap_map m"
    "disk_store (p\<lparr>rdb_file := Some (rdb_text (HashMap_entries m)), aof_file := Some '''',
           aof_stream_open := b\<rparr>) = HashMap_map m" for b
    using fold_rdb_text[OF assms(1,2)] by (simp_all add: disk_store_def file_ops_def)
  then show ?thesis
    using f assms(4) disk_store_rdb_replaced[OF assms(1,2,4)]
    by (cases can_open; cases can_resize; cases can_reopen)
       (auto simp: createSnapshot_def HashMap_forEach_entries[OF assms(1)] fold_write_rdb_entry Let_def)
qed

subsection \<open>Properties\<close>

text \<open>
  C17 (refinement). Started on an empty map, the loader returns a map in which the last
  record of the log decides about a key, and the snapshot decides about the keys the log
  does not mention; a file that cannot be opened is an error.
\<close>

theorem load_replays_files:
  assumes "HashMap_inv m" and "HashMap_map m = Map.empty"
  shows "\<exists>m'. loadDataOnStartup True True p m = Some (Inr m') \<and> HashMap_inv m' \<and>
      (\<forall>k. HashMap_get m' k = Some (case last_effect (file_ops aof_op (aof_file p)) k of
         Some r \<Rightarrow> (case r of None \<Rightarrow> '''' | Some v \<Rightarrow> v)
       | None \<Rightarrow> (case last_effect (file_ops rdb_op (rdb_file p)) k of
           Some r \<Rightarrow> (case r of None \<Rightarrow> '''' | Some v \<Rightarrow> v) | None \<Rightarrow> '''')))"
proof -
  obtain m' where m': "loadDataOnStartup True True p m = Some (Inr m')" "HashMap_inv m'"
      "HashMap_map m' = disk_store p"
    using loadDataOnStartup_store[OF assms] by blast
  have "HashMap_get m' k = Some (value_or_empty (disk_store p) k)" for k
    using hm.get[OF m'(2)] m'(3) by simp
  then show ?thesis using m'(1,2)
    by (auto simp: value_or_empty_def disk_store_def fold_store_step split: option.split)
qed

theorem load_replays_files_witness:
  "\<exists>m m'. HashMap_new (\<lambda>_. None) 3 = Some m \<and>
     loadDataOnStartup True True
       \<lparr>aof_stream_open = True, aof_file = Some (log_line ''DELETE'' ''a'' '''' @ [newline]),
        rdb_file = Some (log_line ''INSERT'' ''a'' ''1'' @ [newline])\<rparr> m = Some (Inr m') \<and>
     HashMap_get m' ''a'' = Some ''''"
proof -
  obtain m where m: "HashMap_new (\<lambda>_. None) 3 = Some m" "HashMap_inv m" "HashMap_map m = Map.empty"
    using HashMap_new_store[of 3 "\<lambda>_. None"] by auto
  let ?p = "\<lparr>aof_stream_open = True, aof_file = Some (log_line ''DELETE'' ''a'' '''' @ [newline]),
        rdb_file = Some (log_line ''INSERT'' ''a'' ''1'' @ [newline])\<rparr>"
  have "file_ops aof_op (aof_file ?p) = [Del ''a'']" by code_simp
  with load_replays_files[OF m(2,3), of ?p] m(1) show ?thesis by auto
qed

text \<open>
  C18 (roundtrip). A snapshot of a map whose keys and values are words succeeds, empties the
  log, and the loader reads the same map back into any empty map.
\<close>

theorem snapshot_roundtrip:
  assumes "HashMap_inv m" and "clean_store (HashMap_map m)" and "aof_file p \<noteq> None"
    and "HashMap_inv m0" and "HashMap_map m0 = Map.empty"
  shows "\<exists>p' m'. createSnapshot True True True m p = Some (p', None) \<and>
      aof_file p' = Some '''' \<and> aof_stream_open p' \<and>
      loadDataOnStartup True True p' m0 = Some (Inr m') \<and> HashMap_inv m' \<and>
      HashMap_map m' = HashMap_map m"
proof -
  obtain p' where p': "createSnapshot True True True m p = Some (p', None)"
      "disk_store p' = HashMap_map m"
    using createSnapshot_store[OF assms(1-3)] by blast
  moreover have "aof_file p' = Some '''' \<and> aof_stream_open p'"
    using p'(1) createSnapshot_ok[OF assms(1,3)] by auto
  ultimately show ?thesis using loadDataOnStartup_store[OF assms(4,5), of p'] by auto
qed

text \<open>The map with two entries, as an input for the examples.\<close>

lemma example_map_clean: "clean_store (HashMap_map example_map)"
proof -
  have e: "HashMap_entries example_map = [(''cb'', ''y''), (''ab'', ''x'')]" by code_simp
  have "HashMap_map example_map = map_of [(''cb'', ''y''), (''ab'', ''x'')]"
    using hm.entries[OF example_map_inv] by (simp only: e)
  moreover have "word ''cb'' \<and> word ''y'' \<and> word ''ab'' \<and> word ''x''" by code_simp
  ultimately show ?thesis by (auto simp: clean_store_def split: if_splits)
qed

definition example_disk :: Persistence where
  "example_disk = \<lparr>aof_stream_open = True,
     aof_file = Some (log_line ''INSERT'' ''cb'' ''y'' @ [newline]),
     rdb_file = Some (log_line ''INSERT'' ''ab'' ''x'' @ [newline])\<rparr>"

lemma example_disk_store: "disk_store example_disk = HashMap_map example_map"
proof -
  have "file_ops aof_op (aof_file example_disk) = [Put ''cb'' ''y'']"
    and "file_ops rdb_op (rdb_file example_disk) = [Put ''ab'' ''x'']"
    and e: "HashMap_entries example_map = [(''cb'', ''y''), (''ab'', ''x'')]" by code_simp+
  then have "disk_store example_disk = map_of [(''cb'', ''y''), (''ab'', ''x'')]"
    by (simp add: disk_store_def fun_eq_iff)
  then show ?thesis using hm.entries[OF example_map_inv] by (simp only: e)
qed

lemma example_disk_ok: "pers_ok example_disk"
  by (simp add: pers_ok_def example_disk_def newline_ended_def)

theorem snapshot_roundtrip_witness:
  "\<exists>m0 p' m'. HashMap_new (\<lambda>_. None) 3 = Some m0 \<and>
     createSnapshot True True True example_map example_disk = Some (p', None) \<and>
     loadDataOnStartup True True p' m0 = Some (Inr m') \<and> HashMap_map m' = HashMap_map example_map"
proof -
  obtain m0 where m0: "HashMap_new (\<lambda>_. None) 3 = Some m0" "HashMap_inv m0" "HashMap_map m0 = Map.empty"
    using HashMap_new_store[of 3 "\<lambda>_. None"] by auto
  have "aof_file example_disk \<noteq> None" by (simp add: example_disk_def)
  from snapshot_roundtrip[OF example_map_inv example_map_clean this m0(2,3)] m0(1)
  show ?thesis by blast
qed

text \<open>
  C35 (error). Whichever of its three calls fails, and whether or not any fails, a snapshot
  of the map that the files describe leaves files that describe it; the error tells which
  call failed, and the log stream is open afterwards only if the snapshot file could not be
  opened or nothing failed.
\<close>

theorem snapshot_failure_keeps_store:
  assumes "HashMap_inv m" and "clean_store (HashMap_map m)" and "pers_ok p"
    and "disk_store p = HashMap_map m"
  shows "\<exists>p'. createSnapshot can_open can_resize can_reopen m p = Some (p',
        if \<not> can_open then Some RdbSnapshotOpenError
        else if \<not> can_resize then Some AofResizeError
        else if \<not> can_reopen then Some AofReopenError else None) \<and>
      disk_store p' = HashMap_map m \<and>
      (aof_stream_open p' \<longleftrightarrow> \<not> can_open \<or> can_resize \<and> can_reopen)"
  by (rule createSnapshot_outcome[OF assms])

theorem snapshot_failure_keeps_store_witness:
  "\<exists>p'. createSnapshot True False True example_map example_disk = Some (p', Some AofResizeError) \<and>
     disk_store p' = HashMap_map example_map"
  using snapshot_failure_keeps_store[OF example_map_inv example_map_clean example_disk_ok
      example_disk_store, of True False True]
  by auto

text \<open>
  A crash while a snapshot is written can lose data: right after an earlier
  snapshot, when the log is empty, the files describe exactly the entries written so far,
  so every entry from number \<open>n\<close> on is gone.
\<close>

theorem snapshot_crash_loses_entries:
  assumes "HashMap_inv m" and "clean_store (HashMap_map m)"
    and "aof_file p = Some ''''" and "n < length (HashMap_entries m)"
  shows "\<exists>p'. createSnapshot_crash n m p = Some p' \<and>
      disk_store p' = map_of (take n (HashMap_entries m)) \<and>
      disk_store p' (fst (HashMap_entries m ! n)) = None \<and>
      HashMap_map m (fst (HashMap_entries m ! n)) = Some (snd (HashMap_entries m ! n))"
proof -
  let ?es = "HashMap_entries m"
  have d: "distinct (map fst ?es)" using hm.entries_distinct[OF assms(1)] .
  have "fst (?es ! n) \<notin> set (map fst (take n ?es))"
  proof
    assume "fst (?es ! n) \<in> set (map fst (take n ?es))"
    then obtain i where "i < n" "fst (?es ! i) = fst (?es ! n)"
      using assms(4) by (auto simp: in_set_conv_nth)
    then show False using d assms(4) by (simp add: distinct_conv_nth)
  qed
  then have "map_of (take n ?es) (fst (?es ! n)) = None" by (simp add: map_of_eq_None_iff)
  moreover have "HashMap_map m (fst (?es ! n)) = Some (snd (?es ! n))"
    using hm.entries[OF assms(1)] d assms(4) by (metis map_of_is_SomeI nth_mem prod.collapse)
  moreover have "disk_store (p\<lparr>rdb_file := Some (rdb_text (take n ?es))\<rparr>) = map_of (take n ?es)"
    using fold_rdb_text_take[OF assms(1,2)] assms(3) by (simp add: disk_store_def file_ops_def)
  ultimately show ?thesis by (simp add: createSnapshot_crash_run[OF assms(1)])
qed

theorem snapshot_crash_loses_entries_witness:
  "\<exists>p'. createSnapshot_crash 1 example_map (example_disk\<lparr>aof_file := Some ''''\<rparr>) = Some p' \<and>
     disk_store p' ''ab'' = None"
proof -
  have e: "HashMap_entries example_map = [(''cb'', ''y''), (''ab'', ''x'')]" by code_simp
  then have "1 < length (HashMap_entries example_map)" by simp
  from snapshot_crash_loses_entries[OF example_map_inv example_map_clean _ this,
      of "example_disk\<lparr>aof_file := Some ''''\<rparr>"] e
  show ?thesis by auto
qed

text \<open>
  A log whose last record is torn inside its value is accepted: the key gets
  the part of the value that reached the disk, and the empty value if none of it did.
\<close>

theorem torn_record_is_accepted:
  assumes "pers_ok p" and "aof_file p = Some f" and "word k" and "word v" and "n < length v"
  shows "disk_store (p\<lparr>aof_file := Some (f @ take (length (log_line ''INSERT'' k '''') + n)
             (log_line ''INSERT'' k v))\<rparr>)
    = (disk_store p)(k \<mapsto> take n v)"
proof -
  let ?l = "log_line ''INSERT'' k (take n v)"
  have t: "take (length (log_line ''INSERT'' k '''') + n) (log_line ''INSERT'' k v) = ?l"
    by (simp add: log_line_def)
  have "word (take n v) \<or> take n v = []" using word_take[OF assms(4), of n] by (cases n) auto
  then have nl: "newline \<notin> set ?l"
    using log_line_no_newline[OF no_newline_literals(1)] assms(3) by blast
  have op: "aof_op ?l = Put k (take n v)"
  proof (cases n)
    case 0
    then show ?thesis
      using words3_two[of "''INSERT''" k] assms(3) by (simp add: aof_op_def log_line_def)
  next
    case Suc
    then show ?thesis using log_line_ops(1)[OF assms(3) word_take[OF assms(4)]] by simp
  qed
  have "newline_ended f" using assms(1,2) by (simp add: pers_ok_def)
  then have "lines_of (f @ ?l) = lines_of f @ [?l]"
    using nl by (intro lines_of_torn) (simp_all add: log_line_def)
  then show ?thesis
    unfolding t using op assms(2) by (simp add: disk_store_def file_ops_def)
qed

theorem torn_record_is_accepted_witness:
  "disk_store (example_disk\<lparr>aof_file := Some (log_line ''INSERT'' ''cb'' ''y'' @ [newline] @
      take 11 (log_line ''INSERT'' ''ab'' ''12''))\<rparr>) ''ab'' = Some ''1''"
proof -
  have "word ''ab'' \<and> word ''12''" by code_simp
  then have "disk_store (example_disk\<lparr>aof_file := Some ((log_line ''INSERT'' ''cb'' ''y'' @ [newline]) @
      take (length (log_line ''INSERT'' ''ab'' '''') + 1) (log_line ''INSERT'' ''ab'' ''12''))\<rparr>)
    = (disk_store example_disk)(''ab'' \<mapsto> take 1 ''12'')"
    by (intro torn_record_is_accepted example_disk_ok) (simp_all add: example_disk_def)
  then show ?thesis by (simp add: log_line_def)
qed

text \<open>
  After a restart on a log whose last record is torn, the next logged write
  is lost: its record continues the torn line, so the loader sees only the old key, with a
  value that neither write contained.
\<close>

theorem torn_log_swallows_next_write:
  assumes "pers_ok p" and "aof_file p = Some f" and "word k" and "word v"
    and "0 < n" and "n < length v" and "word k2" and "word v2"
    and "torn = p\<lparr>aof_file := Some (f @ take (length (log_line ''INSERT'' k '''') + n)
             (log_line ''INSERT'' k v))\<rparr>"
  shows "\<exists>p'. Persistence_new True torn = Inr p' \<and>
    disk_store (appendToLog ''INSERT'' k2 v2 p') = (disk_store p)(k \<mapsto> take n v @ ''INSERT'')"
proof -
  let ?v = "take n v @ ''INSERT''"
  let ?l = "log_line ''INSERT'' k (?v @ '' '' @ k2 @ '' '' @ v2)"
  have t: "take (length (log_line ''INSERT'' k '''') + n) (log_line ''INSERT'' k v)
      = log_line ''INSERT'' k (take n v)"
    by (simp add: log_line_def)
  have w: "word ?v"
    using word_take[OF assms(4,5)] word_literals(1) by (auto simp: word_def)
  have "newline \<notin> set ?v \<and> newline \<notin> set k \<and> newline \<notin> set k2 \<and> newline \<notin> set v2"
    using w assms(3,7,8) word_no_newline by blast
  then have nl: "newline \<notin> set ?l" by (auto simp: log_line_def newline_def)
  have "words3 ?l = (''INSERT'', k, ?v)"
    using words3_more[OF word_literals(1) assms(3) w, of "k2 @ '' '' @ v2"]
    by (simp add: log_line_def)
  then have op: "aof_op ?l = Put k ?v" by (simp add: aof_op_def)
  have "newline_ended f" "aof_stream_open p" using assms(1,2) by (simp_all add: pers_ok_def)
  then have "lines_of (f @ ?l @ [newline]) = lines_of f @ [?l]"
    using nl by (intro lines_of_append_line)
  moreover have "appendToLog ''INSERT'' k2 v2 torn = p\<lparr>aof_file := Some (f @ ?l @ [newline])\<rparr>"
    using \<open>aof_stream_open p\<close> unfolding assms(9) t by (simp add: appendToLog_def log_line_def)
  moreover have "Persistence_new True torn = Inr torn"
    using \<open>aof_stream_open p\<close> by (simp add: Persistence_new_def assms(9))
  ultimately show ?thesis using op assms(2) by (simp add: disk_store_def file_ops_def)
qed

theorem torn_log_swallows_next_write_witness:
  "\<exists>p'. Persistence_new True (example_disk\<lparr>aof_file := Some (log_line ''INSERT'' ''cb'' ''y'' @ [newline] @
      take 11 (log_line ''INSERT'' ''ab'' ''12''))\<rparr>) = Inr p' \<and>
     disk_store (appendToLog ''INSERT'' ''k'' ''v'' p') ''k'' = None \<and>
     disk_store (appendToLog ''INSERT'' ''k'' ''v'' p') ''ab'' = Some ''1INSERT''"
proof -
  let ?f = "log_line ''INSERT'' ''cb'' ''y'' @ [newline]"
  let ?torn = "example_disk\<lparr>aof_file := Some (?f @
      take (length (log_line ''INSERT'' ''ab'' '''') + 1) (log_line ''INSERT'' ''ab'' ''12''))\<rparr>"
  have w: "word ''ab''" "word ''12''" "word ''k''" "word ''v''" by code_simp+
  have f: "aof_file example_disk = Some ?f" by (simp add: example_disk_def)
  have e: "HashMap_entries example_map = [(''cb'', ''y''), (''ab'', ''x'')]" by code_simp
  have "disk_store example_disk ''k'' = None"
    using fun_cong[OF hm.entries[OF example_map_inv, unfolded e], of "''k''"]
    by (simp add: example_disk_store)
  with torn_log_swallows_next_write[OF example_disk_ok f w(1,2) _ _ w(3,4) refl, of 1]
  show ?thesis by (auto simp: log_line_def)
qed

end
