(* ===== verification/Database.thy ===== *)
theory Database
  imports Persistence
begin

text \<open>
  The in-memory map and the disk layer together, as \<open>src/Server/Server.cpp\<close> drives them:
  a write changes the map and then the log (\<open>messageHandler\<close>), the snapshot callback dumps
  the map and then resets the log (the constructor and \<open>Persistence::createSnapshot\<close>), and
  the files are loaded at start (\<open>start\<close>).  The first part runs the operations one after
  the other and shows durability; the second part splits them at their locks and looks at
  the interleavings of handler threads and the snapshot thread.
\<close>

subsection \<open>Operations\<close>

type_synonym db = "HashMap \<times> Persistence"

definition db_insert :: "string \<Rightarrow> string \<Rightarrow> db \<Rightarrow> db option" where
  "db_insert key val d =
     (case d of (m, p) \<Rightarrow>
        map_option (\<lambda>m'. (m', appendToLog ''INSERT'' key val p)) (HashMap_insert m key val))"

definition db_delete :: "string \<Rightarrow> db \<Rightarrow> db option" where
  "db_delete key d =
     (case d of (m, p) \<Rightarrow>
        map_option (\<lambda>m'. (m', appendToLog ''DELETE'' key '''' p)) (HashMap_remove m key))"

definition db_snapshot :: "db \<Rightarrow> db option" where
  "db_snapshot d =
     (case d of (m, p) \<Rightarrow>
        map_option (\<lambda>(p', e). (m, p')) (createSnapshot True True True m p))"

text \<open>
  The start of the server on the files another run left: the members are constructed, then
  \<open>start\<close> loads the data.
\<close>

definition db_start :: "(nat \<Rightarrow> addr option) \<Rightarrow> int32 \<Rightarrow> Persistence \<Rightarrow> (pers_error + db) option" where
  "db_start raw sz files =
     Option.bind (HashMap_new raw sz) (\<lambda>m.
     case Persistence_new True files of
       Inl e \<Rightarrow> Some (Inl e)
     | Inr p \<Rightarrow> map_option (map_sum (\<lambda>e. e) (\<lambda>m'. (m', p))) (loadDataOnStartup True True p m))"

datatype db_op = DbInsert string string | DbDelete string | DbSnapshot

fun db_step :: "db_op \<Rightarrow> db \<Rightarrow> db option" where
  "db_step (DbInsert k v) d = db_insert k v d"
| "db_step (DbDelete k) d = db_delete k d"
| "db_step DbSnapshot d = db_snapshot d"

text \<open>The operations the command parser lets through.\<close>

fun db_op_ok :: "db_op \<Rightarrow> bool" where
  "db_op_ok (DbInsert k v) = (word k \<and> word v)"
| "db_op_ok (DbDelete k) = (word k \<or> k = [])"
| "db_op_ok DbSnapshot = True"

subsection \<open>The contract\<close>

fun db_astep :: "db_op \<Rightarrow> (string \<rightharpoonup> string) \<Rightarrow> (string \<rightharpoonup> string)" where
  "db_astep (DbInsert k v) s = s(k \<mapsto> v)"
| "db_astep (DbDelete k) s = s(k := None)"
| "db_astep DbSnapshot s = s"

definition db_inv :: "db \<Rightarrow> bool" where
  "db_inv d \<longleftrightarrow>
     (case d of (m, p) \<Rightarrow> HashMap_inv m \<and> clean_store (HashMap_map m) \<and> pers_ok p \<and>
        disk_store p = HashMap_map m)"

definition db_store :: "db \<Rightarrow> string \<rightharpoonup> string" where
  "db_store d = HashMap_map (fst d)"

lemma db_invE:
  assumes "db_inv d"
  obtains m p where "d = (m, p)" "HashMap_inv m" "clean_store (HashMap_map m)" "pers_ok p"
    "disk_store p = HashMap_map m"
  using assms by (cases d) (auto simp: db_inv_def)

lemma db_insert_sim:
  assumes "db_inv d" and "word k" and "word v"
  shows "\<exists>d'. db_insert k v d = Some d' \<and> db_inv d' \<and> db_store d' = (db_store d)(k \<mapsto> v)"
  using assms(1)
proof (rule db_invE)
  fix m p assume d: "d = (m, p)" "HashMap_inv m" "clean_store (HashMap_map m)" "pers_ok p"
    "disk_store p = HashMap_map m"
  obtain m' where "HashMap_insert m k v = Some m'" "HashMap_inv m'"
      "HashMap_map m' = (HashMap_map m)(k \<mapsto> v)"
    using hm.ins[OF d(2), of k v] by blast
  with d assms(2,3) show ?thesis
    using appendToLog_store(1,3)[OF d(4)] clean_store_update(1)[OF d(3)]
    by (simp add: db_insert_def db_inv_def db_store_def)
qed

lemma db_delete_sim:
  assumes "db_inv d" and "word k \<or> k = []"
  shows "\<exists>d'. db_delete k d = Some d' \<and> db_inv d' \<and> db_store d' = (db_store d)(k := None)"
  using assms(1)
proof (rule db_invE)
  fix m p assume d: "d = (m, p)" "HashMap_inv m" "clean_store (HashMap_map m)" "pers_ok p"
    "disk_store p = HashMap_map m"
  obtain m' where "HashMap_remove m k = Some m'" "HashMap_inv m'"
      "HashMap_map m' = (HashMap_map m)(k := None)"
    using hm.rem[OF d(2), of k] by blast
  with d assms(2) show ?thesis
    using appendToLog_store(2,4)[OF d(4)] clean_store_update(2)[OF d(3)]
    by (simp add: db_delete_def db_inv_def db_store_def)
qed

lemma db_snapshot_sim:
  assumes "db_inv d"
  shows "\<exists>d'. db_snapshot d = Some d' \<and> db_inv d' \<and> db_store d' = db_store d"
  using assms
proof (rule db_invE)
  fix m p assume d: "d = (m, p)" "HashMap_inv m" "clean_store (HashMap_map m)" "pers_ok p"
    "disk_store p = HashMap_map m"
  have "aof_file p \<noteq> None" using d(4) by (auto elim: pers_okE)
  from createSnapshot_store[OF d(2,3) this] d show ?thesis
    by (auto simp: db_snapshot_def db_inv_def db_store_def)
qed

interpretation db: simulation db_step db_op_ok db_inv db_store db_astep
proof
  fix d x assume "db_inv d" "db_op_ok x"
  then show "\<exists>d'. db_step x d = Some d' \<and> db_inv d' \<and> db_store d' = db_astep x (db_store d)"
    using db_insert_sim db_delete_sim db_snapshot_sim by (cases x) auto
qed

lemma db_start_store:
  assumes "0 < sint sz" and "clean_store (disk_store files)"
    and "case aof_file files of None \<Rightarrow> True | Some f \<Rightarrow> newline_ended f"
  shows "\<exists>d. db_start raw sz files = Some (Inr d) \<and> db_inv d \<and> db_store d = disk_store files"
proof -
  obtain m where m: "HashMap_new raw sz = Some m" "HashMap_inv m" "HashMap_map m = Map.empty"
    using HashMap_new_store[OF assms(1)] by blast
  let ?p = "files\<lparr>aof_stream_open := True,
                 aof_file := Some (case aof_file files of None \<Rightarrow> '''' | Some f \<Rightarrow> f)\<rparr>"
  have p: "Persistence_new True files = Inr ?p" by (simp add: Persistence_new_def)
  have s: "disk_store ?p = disk_store files"
    by (cases "aof_file files") (simp_all add: disk_store_def file_ops_def)
  have ok: "pers_ok ?p"
    using assms(3) by (cases "aof_file files") (simp_all add: pers_ok_def newline_ended_def)
  obtain m' where m': "loadDataOnStartup True True ?p m = Some (Inr m')" "HashMap_inv m'"
      "HashMap_map m' = disk_store ?p"
    using loadDataOnStartup_store[OF m(2,3), of ?p] by blast
  have "db_start raw sz files = Some (Inr (m', ?p))"
    using m(1) p m'(1) by (simp add: db_start_def)
  moreover have "db_inv (m', ?p)" using m'(2,3) ok s assms(2) by (simp add: db_inv_def)
  ultimately show ?thesis using m'(3) s by (auto simp: db_store_def)
qed

lemma db_restart_store:
  assumes "0 < sint sz" and "db_inv d"
  shows "\<exists>d'. db_start raw sz (Persistence_destroy (snd d)) = Some (Inr d') \<and> db_inv d' \<and>
    db_store d' = db_store d"
  using assms(2)
proof (rule db_invE)
  fix m p assume d: "d = (m, p)" "HashMap_inv m" "clean_store (HashMap_map m)" "pers_ok p"
    "disk_store p = HashMap_map m"
  let ?f = "Persistence_destroy (snd d)"
  have s: "disk_store ?f = disk_store p" "aof_file ?f = aof_file p"
    by (simp_all add: d(1) Persistence_destroy_def disk_store_def)
  have "case aof_file ?f of None \<Rightarrow> True | Some f \<Rightarrow> newline_ended f"
    using d(4) s by (auto elim!: pers_okE)
  from db_start_store[OF assms(1) _ this] d s show ?thesis by (auto simp: db_store_def)
qed

subsection \<open>Properties of sequential runs\<close>

text \<open>
  Durability: after any sequence of inserts, deletes and snapshots that
  starts from files a server left (or from none), stopping the server and starting it again
  gives a database that answers every lookup as the abstract store after those updates.
\<close>

theorem db_durable:
  assumes "0 < sint sz" and "0 < sint sz'" and "clean_store (disk_store files)"
    and "case aof_file files of None \<Rightarrow> True | Some f \<Rightarrow> newline_ended f"
    and "list_all db_op_ok xs"
  shows "\<exists>d d' m'' p''. db_start raw sz files = Some (Inr d) \<and> run_ops db_step xs d = Some d' \<and>
     db_start raw' sz' (Persistence_destroy (snd d')) = Some (Inr (m'', p'')) \<and>
     db_inv (m'', p'') \<and>
     (\<forall>k. HashMap_get m'' k = Some (value_or_empty (fold db_astep xs (disk_store files)) k))"
proof -
  obtain d where d: "db_start raw sz files = Some (Inr d)" "db_inv d" "db_store d = disk_store files"
    using db_start_store[OF assms(1,3,4)] by blast
  obtain d' where d': "run_ops db_step xs d = Some d'" "db_inv d'"
      "db_store d' = fold db_astep xs (db_store d)"
    using db.run_refines[OF d(2) assms(5)] by blast
  obtain m'' p'' where m: "db_start raw' sz' (Persistence_destroy (snd d')) = Some (Inr (m'', p''))"
      "db_inv (m'', p'')" "db_store (m'', p'') = db_store d'"
    using db_restart_store[OF assms(2) d'(2)] by fastforce
  have "HashMap_get m'' k = Some (value_or_empty (fold db_astep xs (disk_store files)) k)" for k
    using hm.get[of m'' k] m(2,3) d'(3) d(3) by (simp add: db_inv_def db_store_def)
  then show ?thesis using d(1) d'(1) m(1,2) by blast
qed

theorem db_durable_witness:
  "\<exists>d d' m'' p''. db_start (\<lambda>_. None) 100 \<lparr>aof_stream_open = False, aof_file = None, rdb_file = None\<rparr>
       = Some (Inr d) \<and>
     run_ops db_step [DbInsert ''a'' ''1'', DbSnapshot, DbInsert ''b'' ''2'', DbDelete ''a''] d = Some d' \<and>
     db_start (\<lambda>_. None) 100 (Persistence_destroy (snd d')) = Some (Inr (m'', p'')) \<and>
     HashMap_get m'' ''a'' = Some '''' \<and> HashMap_get m'' ''b'' = Some ''2''"
proof -
  let ?f = "\<lparr>aof_stream_open = False, aof_file = None, rdb_file = None\<rparr> :: Persistence"
  let ?xs = "[DbInsert ''a'' ''1'', DbSnapshot, DbInsert ''b'' ''2'', DbDelete ''a'']"
  have s: "disk_store ?f = Map.empty" by (simp add: disk_store_def file_ops_def)
  have "list_all db_op_ok ?xs" by code_simp
  with db_durable[of 100 100 ?f ?xs "\<lambda>_. None" "\<lambda>_. None"] s show ?thesis
    by (auto simp: clean_store_def value_or_empty_def)
qed

end
