(* ===== verification/Races.thy ===== *)
theory Races
  imports Database
begin

text \<open>
  Handler threads and the snapshot thread share the map and the log.  What is atomic in
  the code is one critical section: \<open>HashMap::insert\<close> and \<open>remove\<close> under the map's
  lock, \<open>appendToLog\<close> and the log reset of \<open>createSnapshot\<close> under the log's, and the dump
  of the map under the map's shared lock (\<open>src/Server/Server.cpp\<close> lines 290 and 314,
  \<open>src/Storage/Persistence.cpp\<close> lines 87 to 120).  A run is a sequence of such sections; the
  runs of two threads are the \<open>shuffles\<close> of their sections.
\<close>

subsection \<open>Critical sections\<close>

datatype db_event =
    InsertMem string string
  | InsertLog string string
  | DeleteMem string
  | DeleteLog string
  | SnapDump
  | SnapReset

fun db_event_step :: "db_event \<Rightarrow> db \<Rightarrow> db option" where
  "db_event_step (InsertMem k v) (m, p) = map_option (\<lambda>m'. (m', p)) (HashMap_insert m k v)"
| "db_event_step (InsertLog k v) (m, p) = Some (m, appendToLog ''INSERT'' k v p)"
| "db_event_step (DeleteMem k) (m, p) = map_option (\<lambda>m'. (m', p)) (HashMap_remove m k)"
| "db_event_step (DeleteLog k) (m, p) = Some (m, appendToLog ''DELETE'' k '''' p)"
| "db_event_step SnapDump (m, p) =
     map_option (\<lambda>f. (m, p\<lparr>rdb_file := Some f\<rparr>)) (HashMap_forEach m write_rdb_entry '''')"
| "db_event_step SnapReset (m, p) =
     (if aof_file p = None then None
      else Some (m, p\<lparr>aof_file := Some '''', aof_stream_open := True\<rparr>))"

text \<open>A thread that is not interrupted does what the sequential operation does.\<close>

lemma uninterrupted:
  "run_ops db_event_step [InsertMem k v, InsertLog k v] d = db_insert k v d"
  "run_ops db_event_step [DeleteMem k, DeleteLog k] d = db_delete k d"
  by (cases d, simp add: db_insert_def db_delete_def split: option.split)+

lemma uninterrupted_snapshot:
  "db_inv d \<Longrightarrow> run_ops db_event_step [SnapDump, SnapReset] d = db_snapshot d"
  by (auto elim!: db_invE pers_okE
      simp: db_snapshot_def createSnapshot_ok HashMap_forEach_entries fold_write_rdb_entry)

fun event_ok :: "db_event \<Rightarrow> bool" where
  "event_ok (InsertMem k v) = (word k \<and> word v)"
| "event_ok (InsertLog k v) = (word k \<and> word v)"
| "event_ok (DeleteMem k) = (word k \<or> k = [])"
| "event_ok (DeleteLog k) = (word k \<or> k = [])"
| "event_ok SnapDump = True"
| "event_ok SnapReset = True"

subsection \<open>The abstract run\<close>

text \<open>The store in memory, the store in the snapshot file, and the records of the log.\<close>

type_synonym shadow = "(string \<rightharpoonup> string) \<times> (string \<rightharpoonup> string) \<times> store_op list"

fun shadow_step :: "db_event \<Rightarrow> shadow \<Rightarrow> shadow" where
  "shadow_step (InsertMem k v) (s, r, l) = (s(k \<mapsto> v), r, l)"
| "shadow_step (InsertLog k v) (s, r, l) = (s, r, l @ [Put k v])"
| "shadow_step (DeleteMem k) (s, r, l) = (s(k := None), r, l)"
| "shadow_step (DeleteLog k) (s, r, l) = (s, r, l @ [Del k])"
| "shadow_step SnapDump (s, r, l) = (s, s, l)"
| "shadow_step SnapReset (s, r, l) = (s, r, [])"

definition race_inv :: "db \<Rightarrow> bool" where
  "race_inv d \<longleftrightarrow> (case d of (m, p) \<Rightarrow> HashMap_inv m \<and> clean_store (HashMap_map m) \<and> pers_ok p)"

definition shadow :: "db \<Rightarrow> shadow" where
  "shadow d = (case d of (m, p) \<Rightarrow>
     (HashMap_map m, fold store_step (file_ops rdb_op (rdb_file p)) Map.empty,
      file_ops aof_op (aof_file p)))"

lemma db_inv_race_inv: "db_inv d \<Longrightarrow> race_inv d"
  by (auto simp: db_inv_def race_inv_def)

lemma shadow_mem: "fst (shadow d) = db_store d"
  by (simp add: shadow_def db_store_def split_beta)

lemma shadow_disk: "disk_store (snd d) = fold store_step (snd (snd (shadow d))) (fst (snd (shadow d)))"
  by (simp add: shadow_def disk_store_def split_beta)

lemma appendToLog_ops:
  assumes "pers_ok p" and "newline \<notin> set (log_line c k v)"
  shows "file_ops aof_op (aof_file (appendToLog c k v p))
      = file_ops aof_op (aof_file p) @ [aof_op (log_line c k v)]"
    and "rdb_file (appendToLog c k v p) = rdb_file p"
proof -
  obtain f where f: "aof_file p = Some f" "newline_ended f" "aof_stream_open p"
    using assms(1) by (rule pers_okE)
  have a: "appendToLog c k v p = p\<lparr>aof_file := Some (f @ log_line c k v @ [newline])\<rparr>"
    using f by (simp add: appendToLog_def log_line_def)
  show "file_ops aof_op (aof_file (appendToLog c k v p))
      = file_ops aof_op (aof_file p) @ [aof_op (log_line c k v)]"
    unfolding a using f assms(2) by (simp add: file_ops_def lines_of_append_line)
  show "rdb_file (appendToLog c k v p) = rdb_file p" unfolding a by simp
qed

lemma log_insert_shadow:
  assumes "pers_ok p" and "word k" and "word v"
  shows "pers_ok (appendToLog ''INSERT'' k v p) \<and>
    file_ops aof_op (aof_file (appendToLog ''INSERT'' k v p)) = file_ops aof_op (aof_file p) @ [Put k v] \<and>
    rdb_file (appendToLog ''INSERT'' k v p) = rdb_file p"
proof -
  have "newline \<notin> set (log_line ''INSERT'' k v)"
    using log_line_no_newline[OF no_newline_literals(1)] assms(2,3) by blast
  from appendToLog_ops[OF assms(1) this] appendToLog_op(1)[OF assms(1) this]
    log_line_ops(1)[OF assms(2,3)]
  show ?thesis by simp
qed

lemma log_delete_shadow:
  assumes "pers_ok p" and "word k \<or> k = []"
  shows "pers_ok (appendToLog ''DELETE'' k [] p) \<and>
    file_ops aof_op (aof_file (appendToLog ''DELETE'' k [] p)) = file_ops aof_op (aof_file p) @ [Del k] \<and>
    rdb_file (appendToLog ''DELETE'' k [] p) = rdb_file p"
proof -
  have "newline \<notin> set (log_line ''DELETE'' k [])"
    using log_line_no_newline[OF no_newline_literals(2)] assms(2) by blast
  from appendToLog_ops[OF assms(1) this] appendToLog_op(1)[OF assms(1) this]
    log_line_ops(3)[OF assms(2)]
  show ?thesis by simp
qed

lemma db_event_sim:
  assumes "race_inv d" and "event_ok x"
  shows "\<exists>d'. db_event_step x d = Some d' \<and> race_inv d' \<and> shadow d' = shadow_step x (shadow d)"
proof -
  obtain m p where d: "d = (m, p)" by (cases d)
  have inv: "HashMap_inv m" "clean_store (HashMap_map m)" "pers_ok p"
    using assms(1) by (simp_all add: d race_inv_def)
  show ?thesis
  proof (cases x)
    case (InsertMem k v)
    obtain m' where "HashMap_insert m k v = Some m'" "HashMap_inv m'"
        "HashMap_map m' = (HashMap_map m)(k \<mapsto> v)"
      using hm.ins[OF inv(1), of k v] by blast
    then show ?thesis using InsertMem assms(2) inv clean_store_update(1)[OF inv(2)]
      by (simp add: d race_inv_def shadow_def)
  next
    case (DeleteMem k)
    obtain m' where "HashMap_remove m k = Some m'" "HashMap_inv m'"
        "HashMap_map m' = (HashMap_map m)(k := None)"
      using hm.rem[OF inv(1), of k] by blast
    then show ?thesis using DeleteMem assms(2) inv clean_store_update(2)[OF inv(2)]
      by (simp add: d race_inv_def shadow_def)
  next
    case (InsertLog k v)
    then show ?thesis using log_insert_shadow[OF inv(3)] assms(2) inv
      by (simp add: d race_inv_def shadow_def)
  next
    case (DeleteLog k)
    then show ?thesis using log_delete_shadow[OF inv(3)] assms(2) inv
      by (simp add: d race_inv_def shadow_def)
  next
    case SnapDump
    then show ?thesis using inv fold_rdb_text[OF inv(1,2)]
      by (auto simp: d race_inv_def shadow_def HashMap_forEach_entries fold_write_rdb_entry pers_ok_def)
  next
    case SnapReset
    then show ?thesis using inv
      by (auto simp: d race_inv_def shadow_def file_ops_def pers_ok_def newline_ended_def
          split: option.splits)
  qed
qed

interpretation race: simulation db_event_step event_ok race_inv shadow shadow_step
  by unfold_locales (rule db_event_sim)

lemma race_run:
  assumes "db_inv d" and "list_all event_ok es"
  shows "\<exists>d'. run_ops db_event_step es d = Some d' \<and> race_inv d' \<and>
    db_store d' = fst (fold shadow_step es (shadow d)) \<and>
    disk_store (snd d') = fold store_step (snd (snd (fold shadow_step es (shadow d))))
      (fst (snd (fold shadow_step es (shadow d))))"
proof -
  obtain d' where "run_ops db_event_step es d = Some d'" "race_inv d'"
      "shadow d' = fold shadow_step es (shadow d)"
    using race.run_refines[OF db_inv_race_inv[OF assms(1)] assms(2)] by blast
  then show ?thesis using shadow_mem[of d'] shadow_disk[of d'] by auto
qed

lemma shadow_start:
  assumes "db_inv d"
  obtains s r l where "shadow d = (s, r, l)" "db_store d = s" "fold store_step l r = s"
proof -
  obtain s r l where sh: "shadow d = (s, r, l)" by (cases "shadow d")
  moreover have "db_store d = s" using shadow_mem[of d] sh by simp
  moreover have "fold store_step l r = s"
    using shadow_disk[of d] sh assms \<open>db_store d = s\<close> by (auto simp: db_inv_def db_store_def)
  ultimately show ?thesis using that by blast
qed

subsection \<open>Properties of interleavings\<close>

text \<open>
  C15 (safety). Of the six interleavings of one insert with one snapshot exactly one loses
  the write on disk although the client was told that it succeeded: the one in which the
  insert runs between the dump of the map and the reset of the log.
\<close>

theorem snapshot_insert_interleavings:
  assumes "db_inv d" and "word k" and "word v" and "db_store d k \<noteq> Some v"
    and "es \<in> shuffles [InsertMem k v, InsertLog k v] [SnapDump, SnapReset]"
  shows "\<exists>d'. run_ops db_event_step es d = Some d' \<and> db_store d' = (db_store d)(k \<mapsto> v) \<and>
     (disk_store (snd d') = db_store d' \<longleftrightarrow>
      es \<noteq> [SnapDump, InsertMem k v, InsertLog k v, SnapReset]) \<and>
     (es = [SnapDump, InsertMem k v, InsertLog k v, SnapReset] \<longrightarrow> disk_store (snd d') = db_store d)"
proof -
  obtain s r l where s: "shadow d = (s, r, l)" "db_store d = s" "fold store_step l r = s"
    using assms(1) by (rule shadow_start)
  have ok: "list_all event_ok es" using assms(2,3,5) by auto
  have idem: "fold store_step l s = s" using fold_store_step_idem[of l r] s(3) by simp
  have again: "(fold store_step l (s(k \<mapsto> v)))(k \<mapsto> v) = s(k \<mapsto> v)"
  proof
    fix j
    show "((fold store_step l (s(k \<mapsto> v)))(k \<mapsto> v)) j = (s(k \<mapsto> v)) j"
      using fold_store_step[of l "s(k \<mapsto> v)" j] fold_store_step[of l s j] idem
      by (auto split: option.splits)
  qed
  have ne: "s \<noteq> s(k \<mapsto> v)" using assms(4) s(2) by (metis fun_upd_same)
  obtain d' where d': "run_ops db_event_step es d = Some d'"
      "db_store d' = fst (fold shadow_step es (s, r, l))"
      "disk_store (snd d') = fold store_step (snd (snd (fold shadow_step es (s, r, l))))
        (fst (snd (fold shadow_step es (s, r, l))))"
    using race_run[OF assms(1) ok] s(1) by auto
  show ?thesis
    using assms(5) d' s(2,3) ne again idem by (intro exI[of _ d']) auto
qed

text \<open>A database as the server starts it, for the examples.\<close>

lemma example_db:
  obtains d where "db_inv d" "db_store d = Map.empty"
proof -
  let ?f = "\<lparr>aof_stream_open = False, aof_file = None, rdb_file = None\<rparr> :: Persistence"
  have "disk_store ?f = Map.empty" by (simp add: disk_store_def file_ops_def)
  with db_start_store[of 100 ?f "\<lambda>_. None"] show thesis
    by (auto simp: clean_store_def intro: that)
qed

theorem snapshot_insert_interleavings_witness:
  "\<exists>d d'. db_inv d \<and>
     run_ops db_event_step [SnapDump, InsertMem ''a'' ''1'', InsertLog ''a'' ''1'', SnapReset] d = Some d' \<and>
     db_store d' ''a'' = Some ''1'' \<and> disk_store (snd d') ''a'' = None"
proof -
  obtain d where d: "db_inv d" "db_store d = Map.empty" by (rule example_db)
  have w: "word ''a''" "word ''1''" by code_simp+
  let ?es = "[SnapDump, InsertMem ''a'' ''1'', InsertLog ''a'' ''1'', SnapReset]"
  have "?es \<in> shuffles [InsertMem ''a'' ''1'', InsertLog ''a'' ''1''] [SnapDump, SnapReset]" by simp
  with snapshot_insert_interleavings[OF d(1) w, of ?es] d(2)
  obtain d' where "run_ops db_event_step ?es d = Some d'" "db_store d' = [''a'' \<mapsto> ''1'']"
      "disk_store (snd d') = Map.empty"
    by (auto simp del: run_ops.simps)
  then show ?thesis using d(1) by (intro exI[of _ d] exI[of _ d']) (simp del: run_ops.simps)
qed

text \<open>
  C30 (safety). Two handlers that write different values under one key leave memory and disk
  apart exactly when they pass the map's lock in one order and the log's lock in the other.
\<close>

theorem same_key_writers_interleavings:
  assumes "db_inv d" and "word k" and "word v1" and "word v2" and "v1 \<noteq> v2"
    and "es \<in> shuffles [InsertMem k v1, InsertLog k v1] [InsertMem k v2, InsertLog k v2]"
  shows "\<exists>d'. run_ops db_event_step es d = Some d' \<and>
     (disk_store (snd d') \<noteq> db_store d' \<longleftrightarrow>
      es = [InsertMem k v1, InsertMem k v2, InsertLog k v2, InsertLog k v1] \<or>
      es = [InsertMem k v2, InsertMem k v1, InsertLog k v1, InsertLog k v2])"
proof -
  obtain s r l where s: "shadow d = (s, r, l)" "db_store d = s" "fold store_step l r = s"
    using assms(1) by (rule shadow_start)
  have ok: "list_all event_ok es" using assms(2,3,4,6) by auto
  obtain d' where d': "run_ops db_event_step es d = Some d'"
      "db_store d' = fst (fold shadow_step es (s, r, l))"
      "disk_store (snd d') = fold store_step (snd (snd (fold shadow_step es (s, r, l))))
        (fst (snd (fold shadow_step es (s, r, l))))"
    using race_run[OF assms(1) ok] s(1) by auto
  have "s(k \<mapsto> v1) \<noteq> s(k \<mapsto> v2)" using assms(5) by (metis fun_upd_same option.inject)
  then show ?thesis
    using assms(5,6) d' s(3) by (intro exI[of _ d']) auto
qed

theorem same_key_writers_interleavings_witness:
  "\<exists>d d'. db_inv d \<and> run_ops db_event_step
     [InsertMem ''a'' ''1'', InsertMem ''a'' ''2'', InsertLog ''a'' ''2'', InsertLog ''a'' ''1''] d = Some d' \<and>
     disk_store (snd d') \<noteq> db_store d'"
proof -
  obtain d where d: "db_inv d" "db_store d = Map.empty" by (rule example_db)
  have w: "word ''a''" "word ''1''" "word ''2''" by code_simp+
  let ?es = "[InsertMem ''a'' ''1'', InsertMem ''a'' ''2'', InsertLog ''a'' ''2'', InsertLog ''a'' ''1'']"
  have "?es \<in> shuffles [InsertMem ''a'' ''1'', InsertLog ''a'' ''1''] [InsertMem ''a'' ''2'', InsertLog ''a'' ''2'']"
    by simp
  with same_key_writers_interleavings[OF d(1) w, of ?es]
  obtain d' where "run_ops db_event_step ?es d = Some d'" "disk_store (snd d') \<noteq> db_store d'"
    by (auto simp del: run_ops.simps)
  then show ?thesis using d(1) by blast
qed

subsection \<open>Writers that do not cross\<close>

text \<open>The updates a run makes in memory and in the log.\<close>

fun mem_ops :: "db_event list \<Rightarrow> store_op list" where
  "mem_ops [] = []"
| "mem_ops (InsertMem k v # es) = Put k v # mem_ops es"
| "mem_ops (DeleteMem k # es) = Del k # mem_ops es"
| "mem_ops (e # es) = mem_ops es"

fun log_ops :: "db_event list \<Rightarrow> store_op list" where
  "log_ops [] = []"
| "log_ops (InsertLog k v # es) = Put k v # log_ops es"
| "log_ops (DeleteLog k # es) = Del k # log_ops es"
| "log_ops (e # es) = log_ops es"

lemma last_effect_filter: "last_effect (filter (\<lambda>x. op_key x = k) xs) k = last_effect xs k"
  by (induction xs) (auto split: option.split store_op.split)

lemma fold_store_step_per_key:
  assumes "\<And>k. filter (\<lambda>x. op_key x = k) xs = filter (\<lambda>x. op_key x = k) ys"
  shows "fold store_step xs s = fold store_step ys s"
proof
  fix k
  show "fold store_step xs s k = fold store_step ys s k"
    using assms[of k] last_effect_filter[of k xs] last_effect_filter[of k ys]
    by (simp add: fold_store_step)
qed

lemma shadow_run_no_snapshot:
  assumes "SnapDump \<notin> set es" and "SnapReset \<notin> set es"
  shows "fold shadow_step es (s, r, l) = (fold store_step (mem_ops es) s, r, l @ log_ops es)"
  using assms by (induction es arbitrary: s l rule: mem_ops.induct) auto

text \<open>
  Any number of handlers may interleave: while no snapshot runs, memory and
  disk agree at the end if each key's updates reach the log in the order in which they
  reached the map.
\<close>

theorem ordered_writers_agree:
  assumes "db_inv d" and "list_all event_ok es"
    and "SnapDump \<notin> set es" and "SnapReset \<notin> set es"
    and "\<forall>k. filter (\<lambda>x. op_key x = k) (mem_ops es) = filter (\<lambda>x. op_key x = k) (log_ops es)"
  shows "\<exists>d'. run_ops db_event_step es d = Some d' \<and> db_inv d' \<and>
     db_store d' = fold store_step (mem_ops es) (db_store d)"
proof -
  obtain s r l where s: "shadow d = (s, r, l)" "db_store d = s" "fold store_step l r = s"
    using assms(1) by (rule shadow_start)
  have e: "fold store_step (mem_ops es) s = fold store_step (log_ops es) s"
    by (rule fold_store_step_per_key) (use assms(5) in simp)
  obtain d' where d': "run_ops db_event_step es d = Some d'" "race_inv d'"
      "db_store d' = fold store_step (mem_ops es) s"
      "disk_store (snd d') = fold store_step (l @ log_ops es) r"
    using race_run[OF assms(1,2)] s(1) shadow_run_no_snapshot[OF assms(3,4)] by auto
  then have "db_inv d'" using e s(3)
    by (auto simp: race_inv_def db_inv_def db_store_def)
  with d' s(2) show ?thesis by auto
qed

theorem ordered_writers_agree_witness:
  "\<exists>d d'. db_inv d \<and> run_ops db_event_step
     [InsertMem ''a'' ''1'', InsertMem ''b'' ''2'', InsertLog ''b'' ''2'', DeleteMem ''b'',
      InsertLog ''a'' ''1'', DeleteLog ''b''] d = Some d' \<and>
     db_inv d' \<and> db_store d' = [''a'' \<mapsto> ''1'']"
proof -
  let ?es = "[InsertMem ''a'' ''1'', InsertMem ''b'' ''2'', InsertLog ''b'' ''2'', DeleteMem ''b'',
      InsertLog ''a'' ''1'', DeleteLog ''b'']"
  obtain d where d: "db_inv d" "db_store d = Map.empty" by (rule example_db)
  have w: "list_all event_ok ?es" by code_simp
  have k: "\<forall>k. filter (\<lambda>x. op_key x = k) (mem_ops ?es) = filter (\<lambda>x. op_key x = k) (log_ops ?es)"
    by auto
  obtain d' where "run_ops db_event_step ?es d = Some d'" "db_inv d'"
      "db_store d' = fold store_step (mem_ops ?es) (db_store d)"
    using ordered_writers_agree[OF d(1) w _ _ k] by (auto simp del: run_ops.simps)
  moreover have "fold store_step (mem_ops ?es) (db_store d) = [''a'' \<mapsto> ''1'']"
    by (simp add: d(2) fun_eq_iff)
  ultimately show ?thesis using d(1) by (metis (no_types))
qed

subsection \<open>A snapshot among writers\<close>

lemma log_ops_append [simp]: "log_ops (xs @ ys) = log_ops xs @ log_ops ys"
  by (induction xs rule: log_ops.induct) auto

lemma mem_ops_append [simp]: "mem_ops (xs @ ys) = mem_ops xs @ mem_ops ys"
  by (induction xs rule: mem_ops.induct) auto

text \<open>
  C31 (safety). A snapshot may run among writers: memory and disk agree at the end if no
  record is appended between the dump and the reset, and every update made in memory after
  the dump, and none but these, is logged after the reset, each key's updates in their
  order.  What was in flight before the dump does not matter.
\<close>

theorem snapshot_among_writers_agrees:
  assumes "db_inv d" and "list_all event_ok (before @ during @ after)"
    and "SnapDump \<notin> set (before @ during @ after)" and "SnapReset \<notin> set (before @ during @ after)"
    and "log_ops during = []"
    and "\<forall>k. filter (\<lambda>x. op_key x = k) (mem_ops (during @ after))
           = filter (\<lambda>x. op_key x = k) (log_ops after)"
  shows "\<exists>d'. run_ops db_event_step (before @ SnapDump # during @ SnapReset # after) d = Some d' \<and>
     db_inv d' \<and> db_store d' = fold store_step (mem_ops (before @ during @ after)) (db_store d)"
proof -
  let ?es = "before @ SnapDump # during @ SnapReset # after"
  obtain s r l where s: "shadow d = (s, r, l)" "db_store d = s" "fold store_step l r = s"
    using assms(1) by (rule shadow_start)
  have ok: "list_all event_ok ?es" using assms(2) by simp
  let ?m = "fold store_step (mem_ops before) s"
  have run: "fold shadow_step ?es (s, r, l)
      = (fold store_step (mem_ops (during @ after)) ?m, ?m, log_ops after)"
    using assms(3,4) by (simp add: shadow_run_no_snapshot)
  have e: "fold store_step (mem_ops (during @ after)) ?m = fold store_step (log_ops after) ?m"
    by (rule fold_store_step_per_key) (use assms(6) in blast)
  obtain d' where d': "run_ops db_event_step ?es d = Some d'" "race_inv d'"
      "db_store d' = fold store_step (mem_ops (during @ after)) ?m"
      "disk_store (snd d') = fold store_step (log_ops after) ?m"
    using race_run[OF assms(1) ok] s(1) run by auto
  then have "db_inv d'" using e by (auto simp: race_inv_def db_inv_def db_store_def)
  with d' s(2) show ?thesis by auto
qed

theorem snapshot_among_writers_agrees_witness:
  "\<exists>d d'. db_inv d \<and> run_ops db_event_step
     ([InsertMem ''a'' ''1''] @ SnapDump # [InsertMem ''b'' ''2''] @ SnapReset # [InsertLog ''b'' ''2'']) d
       = Some d' \<and> db_inv d'"
proof -
  obtain d where d: "db_inv d" "db_store d = Map.empty" by (rule example_db)
  have w: "list_all event_ok ([InsertMem ''a'' ''1''] @ [InsertMem ''b'' ''2''] @ [InsertLog ''b'' ''2''])"
    by code_simp
  have "\<exists>d'. run_ops db_event_step
     ([InsertMem ''a'' ''1''] @ SnapDump # [InsertMem ''b'' ''2''] @ SnapReset # [InsertLog ''b'' ''2'']) d
       = Some d' \<and> db_inv d' \<and>
     db_store d' = fold store_step (mem_ops ([InsertMem ''a'' ''1''] @ [InsertMem ''b'' ''2''] @ [InsertLog ''b'' ''2''])) (db_store d)"
    by (rule snapshot_among_writers_agrees[OF d(1) w]) simp_all
  with d(1) show ?thesis by blast
qed

end
