(* ===== verification/UserSession.thy ===== *)
theory UserSession
  imports Prelude
begin

unbundle bit_operations_syntax

text \<open>
  User sessions, \<open>src/UserSession/UserSession.h\<close> and \<open>src/UserSession/UserSession.cpp\<close>.
  A session is found under the client's address and port; it holds the socket and the time
  of the last activity, in nanoseconds of the steady clock.  Every clock reading is an
  argument.  The order in which \<open>unordered_map\<close> is traversed is not specified, so the
  traversal is an argument too: the keys in their order, each with the clock reading of its
  test.
\<close>

subsection \<open>Data\<close>

type_synonym SocketType = int   \<comment> \<open>a file descriptor; \<open>INVALID_SOCKET\<close> is -1\<close>

text \<open>The two fields of \<open>sockaddr_in\<close> that are read, in network byte order.\<close>

record sockaddr_in =
  sin_addr :: uint32
  sin_port :: uint16

record SessionKey =
  raw_ip :: uint32
  raw_port :: uint16

definition SessionKey_eq :: "SessionKey \<Rightarrow> SessionKey \<Rightarrow> bool" where
  "SessionKey_eq a b \<longleftrightarrow> raw_ip a = raw_ip b \<and> raw_port a = raw_port b"

text \<open>The two \<open>std::hash\<close> functions are unspecified.\<close>

definition SessionKeyHasher :: "(uint32 \<Rightarrow> ull) \<Rightarrow> (uint16 \<Rightarrow> ull) \<Rightarrow> SessionKey \<Rightarrow> ull" where
  "SessionKeyHasher hash32 hash16 key =
     hash32 (raw_ip key) XOR push_bit 1 (hash16 (raw_port key))"

record UserSession =
  user_socket :: SocketType
  last_activity_time :: int
  session_maximum_idle_time :: int   \<comment> \<open>seconds\<close>
  cached_ip_str :: string
  cached_port_str :: string

record UserSessionManager =
  users_sessions :: "SessionKey \<rightharpoonup> UserSession"

subsection \<open>Address and port as text\<close>

fun to_string :: "nat \<Rightarrow> string" where
  "to_string n =
     (if n < 10 then [char_of (48 + n)] else to_string (n div 10) @ [char_of (48 + n mod 10)])"

declare to_string.simps [simp del]

text \<open>Byte \<open>i\<close> of the address in memory, and the dotted form \<open>inet_ntop\<close> writes.\<close>

definition addr_byte :: "uint32 \<Rightarrow> nat \<Rightarrow> nat" where
  "addr_byte a i = unat (drop_bit (8 * i) a AND 255)"

definition inet_ntop :: "uint32 \<Rightarrow> string" where
  "inet_ntop a =
     to_string (addr_byte a 0) @ ''.'' @ to_string (addr_byte a 1) @ ''.'' @
     to_string (addr_byte a 2) @ ''.'' @ to_string (addr_byte a 3)"

definition ntohs :: "uint16 \<Rightarrow> uint16" where
  "ntohs p = push_bit 8 p OR drop_bit 8 p"

subsection \<open>A session\<close>

definition UserSession_new :: "SocketType \<Rightarrow> sockaddr_in \<Rightarrow> int \<Rightarrow> int \<Rightarrow> UserSession" where
  "UserSession_new socket client_addr max_idle now =
     \<lparr>user_socket = socket, last_activity_time = now, session_maximum_idle_time = max_idle,
      cached_ip_str = inet_ntop (sin_addr client_addr),
      cached_port_str = to_string (unat (ntohs (sin_port client_addr)))\<rparr>"

definition update_last_activity_time :: "int \<Rightarrow> UserSession \<Rightarrow> UserSession" where
  "update_last_activity_time now s = s\<lparr>last_activity_time := now\<rparr>"

definition is_expired :: "int \<Rightarrow> UserSession \<Rightarrow> bool" where
  "is_expired now s \<longleftrightarrow> now - last_activity_time s > session_maximum_idle_time s * 1000000000"

text \<open>The destructor and \<open>terminate_session\<close> have no effect: the socket stays open.\<close>

subsection \<open>The manager\<close>

definition default_max_idle :: int where
  "default_max_idle = 240"

definition add_session ::
  "SocketType \<Rightarrow> sockaddr_in \<Rightarrow> int \<Rightarrow> int \<Rightarrow> UserSessionManager \<Rightarrow> SessionKey \<times> UserSessionManager" where
  "add_session socket client_addr max_idle now M =
     (let key = \<lparr>raw_ip = sin_addr client_addr, raw_port = sin_port client_addr\<rparr> in
      if users_sessions M key \<noteq> None then (key, M)
      else (key, M\<lparr>users_sessions := (users_sessions M)
              (key \<mapsto> UserSession_new socket client_addr max_idle now)\<rparr>))"

definition update_activity :: "SessionKey \<Rightarrow> int \<Rightarrow> UserSessionManager \<Rightarrow> UserSessionManager" where
  "update_activity key now M =
     (case users_sessions M key of
        None \<Rightarrow> M
      | Some s \<Rightarrow> M\<lparr>users_sessions := (users_sessions M)(key \<mapsto> update_last_activity_time now s)\<rparr>)"

definition remove_session :: "SessionKey \<Rightarrow> UserSessionManager \<Rightarrow> UserSessionManager" where
  "remove_session key M = M\<lparr>users_sessions := (users_sessions M)(key := None)\<rparr>"

text \<open>
  The callback, if one is set, acts on a state of its own; it runs before the session is
  erased.
\<close>

fun cleanup_expired_sessions ::
  "(SocketType \<Rightarrow> 's \<Rightarrow> 's) option \<Rightarrow> (SessionKey \<times> int) list \<Rightarrow> UserSessionManager \<times> 's \<Rightarrow>
   UserSessionManager \<times> 's" where
  "cleanup_expired_sessions on_session_expired [] (M, st) = (M, st)"
| "cleanup_expired_sessions on_session_expired ((key, now) # order) (M, st) =
     (case users_sessions M key of
        None \<Rightarrow> cleanup_expired_sessions on_session_expired order (M, st)
      | Some s \<Rightarrow>
          if is_expired now s then
            let st' = (case on_session_expired of None \<Rightarrow> st | Some cb \<Rightarrow> cb (user_socket s) st) in
            cleanup_expired_sessions on_session_expired order
              (M\<lparr>users_sessions := (users_sessions M)(key := None)\<rparr>, st')
          else cleanup_expired_sessions on_session_expired order (M, st))"

definition close_all_sessions :: "UserSessionManager \<Rightarrow> UserSessionManager" where
  "close_all_sessions M = M\<lparr>users_sessions := Map.empty\<rparr>"

definition UserSessionManager_new :: UserSessionManager where
  "UserSessionManager_new = \<lparr>users_sessions = Map.empty\<rparr>"

subsection \<open>Text of addresses and ports\<close>

definition digit :: "char \<Rightarrow> bool" where
  "digit c \<longleftrightarrow> 48 \<le> (of_char c :: nat) \<and> (of_char c :: nat) \<le> 57"

definition of_digits :: "string \<Rightarrow> nat" where
  "of_digits s = foldl (\<lambda>a c. 10 * a + (of_char c - 48)) 0 s"

lemma char_of_digit: "d < 10 \<Longrightarrow> (of_char (char_of (48 + d) :: char) :: nat) = 48 + d"
  by simp

lemma to_string_digits: "list_all digit (to_string n)"
proof (induction n rule: to_string.induct)
  case (1 n)
  have "n mod 10 \<le> 9" by simp
  with 1 show ?case
    by (subst to_string.simps) (simp add: digit_def[abs_def] char_of_digit del: of_char_of)
qed

lemma of_digits_to_string: "of_digits (to_string n) = n"
proof (induction n rule: to_string.induct)
  case (1 n)
  then show ?case
    by (subst to_string.simps) (simp add: of_digits_def char_of_digit del: of_char_of)
qed

lemma to_string_inject: "to_string a = to_string b \<longleftrightarrow> a = b"
  by (metis of_digits_to_string)

lemma split_at_dot:
  assumes "list_all digit x" and "list_all digit y" and "x @ ''.'' @ r = y @ ''.'' @ r'"
  shows "x = y \<and> r = r'"
proof -
  have t: "takeWhile digit (x @ ''.'' @ r) = x" "takeWhile digit (y @ ''.'' @ r') = y"
    using assms(1,2) by (auto simp: list_all_iff takeWhile_append2 digit_def)
  then have "x = y" using assms(3) by metis
  with assms(3) show ?thesis by simp
qed

lemma addr_bytes_inject:
  assumes "\<And>i. i < 4 \<Longrightarrow> addr_byte a i = addr_byte b i"
  shows "a = b"
proof (rule bit_word_eqI)
  fix n assume n: "n < LENGTH(32)"
  have b: "bit a n = bit (drop_bit (8 * (n div 8)) a AND 255) (n mod 8)" for a :: uint32
  proof -
    have "(255 :: uint32) = mask 8" by (simp add: mask_eq_exp_minus_1)
    then have "bit (255 :: uint32) (n mod 8)" by (simp only: bit_mask_iff) simp
    then show ?thesis using n by (simp add: bit_and_iff bit_drop_bit_eq del: bit_numeral_word_iff)
  qed
  have "n div 8 < 4" using n by simp
  from assms[OF this]
  have "drop_bit (8 * (n div 8)) a AND 255 = drop_bit (8 * (n div 8)) b AND 255"
    by (simp only: addr_byte_def flip: word_unat_eq_iff)
  with b show "bit a n = bit b n" by metis
qed

lemma inet_ntop_inject: "inet_ntop a = inet_ntop b \<longleftrightarrow> a = b"
proof
  assume e: "inet_ntop a = inet_ntop b"
  have e0: "to_string (addr_byte a 0) = to_string (addr_byte b 0) \<and>
      to_string (addr_byte a 1) @ ''.'' @ to_string (addr_byte a 2) @ ''.'' @ to_string (addr_byte a 3)
      = to_string (addr_byte b 1) @ ''.'' @ to_string (addr_byte b 2) @ ''.'' @ to_string (addr_byte b 3)"
    by (rule split_at_dot[OF to_string_digits to_string_digits]) (use e in \<open>simp add: inet_ntop_def\<close>)
  have e1: "to_string (addr_byte a 1) = to_string (addr_byte b 1) \<and>
      to_string (addr_byte a 2) @ ''.'' @ to_string (addr_byte a 3)
      = to_string (addr_byte b 2) @ ''.'' @ to_string (addr_byte b 3)"
    by (rule split_at_dot[OF to_string_digits to_string_digits]) (use e0 in simp)
  have e2: "to_string (addr_byte a 2) = to_string (addr_byte b 2) \<and>
      to_string (addr_byte a 3) = to_string (addr_byte b 3)"
    by (rule split_at_dot[OF to_string_digits to_string_digits]) (use e1 in simp)
  show "a = b"
  proof (rule addr_bytes_inject)
    fix i :: nat assume "i < 4"
    then have "i = 0 \<or> i = 1 \<or> i = 2 \<or> i = 3" by arith
    then show "addr_byte a i = addr_byte b i"
      using e0 e1 e2 by (auto simp: to_string_inject)
  qed
qed simp

lemma ntohs_ntohs: "ntohs (ntohs p) = p"
  by (rule bit_word_eqI) (auto simp: ntohs_def bit_simps)

lemma ntohs_inject: "ntohs a = ntohs b \<longleftrightarrow> a = b"
  by (metis ntohs_ntohs)

lemma key_eq_conv: "SessionKey_eq a b \<longleftrightarrow> a = b"
  by (cases a; cases b) (simp add: SessionKey_eq_def)

subsection \<open>What a cleanup does\<close>

text \<open>The sockets it reports, in the order of the traversal.\<close>

definition expired_sockets :: "(SessionKey \<times> int) list \<Rightarrow> UserSessionManager \<Rightarrow> SocketType list" where
  "expired_sockets order M =
     concat (map (\<lambda>(key, now).
       case users_sessions M key of
         None \<Rightarrow> []
       | Some s \<Rightarrow> if is_expired now s then [user_socket s] else []) order)"

definition kept :: "(SessionKey \<times> int) list \<Rightarrow> UserSessionManager \<Rightarrow> SessionKey \<Rightarrow> UserSession option" where
  "kept order M k =
     (case users_sessions M k of
        None \<Rightarrow> None
      | Some s \<Rightarrow> (case map_of order k of
            None \<Rightarrow> Some s
          | Some now \<Rightarrow> if is_expired now s then None else Some s))"

lemma expired_sockets_iff:
  "x \<in> set (expired_sockets order M) \<longleftrightarrow>
   (\<exists>k now s. (k, now) \<in> set order \<and> users_sessions M k = Some s \<and> is_expired now s \<and> user_socket s = x)"
proof -
  have e: "x \<in> set (case users_sessions M k of None \<Rightarrow> []
        | Some s \<Rightarrow> if is_expired now s then [user_socket s] else []) \<longleftrightarrow>
      (\<exists>s. users_sessions M k = Some s \<and> is_expired now s \<and> user_socket s = x)" for k now
    by (cases "users_sessions M k") auto
  show ?thesis
  proof (induction order)
    case Nil
    then show ?case by (simp add: expired_sockets_def)
  next
    case (Cons o' order)
    obtain k now where o': "o' = (k, now)" by (cases o')
    have "x \<in> set (expired_sockets (o' # order) M) \<longleftrightarrow>
        (\<exists>s. users_sessions M k = Some s \<and> is_expired now s \<and> user_socket s = x) \<or>
        x \<in> set (expired_sockets order M)"
      using e[where k = k and now = now] by (simp add: expired_sockets_def o')
    with Cons show ?case unfolding o' by simp blast
  qed
qed

lemma expired_sockets_other:
  "key \<notin> set (map fst order) \<Longrightarrow>
   expired_sockets order (M\<lparr>users_sessions := (users_sessions M)(key := v)\<rparr>) = expired_sockets order M"
  by (induction order) (auto simp: expired_sockets_def)

lemma cleanup_run:
  assumes "distinct (map fst order)"
  shows "cleanup_expired_sessions (Some cb) order (M, st) =
    (M\<lparr>users_sessions := kept order M\<rparr>, fold cb (expired_sockets order M) st)"
  using assms
proof (induction order arbitrary: M st)
  case Nil
  have "users_sessions M = kept [] M" by (simp add: fun_eq_iff kept_def split: option.split)
  then show ?case by (simp add: expired_sockets_def)
next
  case (Cons e order)
  obtain key now where e: "e = (key, now)" by (cases e)
  have d: "distinct (map fst order)" "key \<notin> set (map fst order)" using Cons.prems e by auto
  then have n: "map_of order key = None" by (simp add: map_of_eq_None_iff)
  show ?case
  proof (cases "\<exists>s. users_sessions M key = Some s \<and> is_expired now s")
    case True
    then obtain s where s: "users_sessions M key = Some s" "is_expired now s" by blast
    let ?M = "M\<lparr>users_sessions := (users_sessions M)(key := None)\<rparr>"
    have k: "kept order ?M = kept (e # order) M"
      using s e n by (auto simp: fun_eq_iff kept_def split: option.split)
    have x: "expired_sockets (e # order) M = user_socket s # expired_sockets order M"
      using s by (simp add: e expired_sockets_def)
    show ?thesis
      using s Cons.IH[OF d(1), of ?M "cb (user_socket s) st"] k x expired_sockets_other[OF d(2)]
      by (simp add: e)
  next
    case False
    have k: "kept order M = kept (e # order) M"
      using False e n by (auto simp: fun_eq_iff kept_def split: option.split)
    have x: "expired_sockets (e # order) M = expired_sockets order M"
      using False by (auto simp: e expired_sockets_def split: option.split)
    show ?thesis
      using False Cons.IH[OF d(1), of M st] k x by (auto simp: e split: option.split)
  qed
qed

lemma cleanup_without_callback:
  "fst (cleanup_expired_sessions None order (M, st)) =
     fst (cleanup_expired_sessions (Some (\<lambda>_ s. s)) order (M, st)) \<and>
   snd (cleanup_expired_sessions None order (M, st)) = st"
  by (induction order arbitrary: M) (auto split: option.split)

text \<open>
  C40 (functional). A cleanup that visits every session once removes exactly the sessions
  that are idle for longer than their limit at their own clock reading, leaves the others
  unchanged, and hands the callback the socket of each removed session exactly once, in the
  order of the traversal.
\<close>

theorem cleanup_exact:
  assumes "distinct (map fst order)" and "set (map fst order) = dom (users_sessions M)"
  shows "\<exists>M'. cleanup_expired_sessions (Some (\<lambda>sock l. l @ [sock])) order (M, socks)
       = (M', socks @ expired_sockets order M) \<and>
     (\<forall>k s. users_sessions M' k = Some s \<longleftrightarrow> users_sessions M k = Some s \<and>
        the (map_of order k) - last_activity_time s \<le> session_maximum_idle_time s * 1000000000)"
proof -
  have f: "fold (\<lambda>sock l. l @ [sock]) xs l = l @ xs" for xs and l :: "SocketType list"
    by (induction xs arbitrary: l) auto
  have o: "\<exists>now. map_of order k = Some now" if "users_sessions M k = Some s" for k s
  proof -
    have "k \<in> dom (map_of order)" using that assms(2) by (auto simp: dom_map_of_conv_image_fst)
    then show ?thesis by blast
  qed
  have "kept order M k = Some s \<longleftrightarrow> users_sessions M k = Some s \<and>
      the (map_of order k) - last_activity_time s \<le> session_maximum_idle_time s * 1000000000" for k s
    using o[of k] by (auto simp: kept_def is_expired_def not_less split: option.splits if_splits)
  then show ?thesis
    using cleanup_run[OF assms(1), of "\<lambda>sock l. l @ [sock]" M socks] by (simp add: f)
qed

definition example_sessions :: UserSessionManager where
  "example_sessions =
     snd (add_session 6 \<lparr>sin_addr = 16777343, sin_port = 3000\<rparr> 240 100000000000
       (snd (add_session 5 \<lparr>sin_addr = 16777343, sin_port = 2000\<rparr> 240 0 UserSessionManager_new)))"

lemma example_sessions_map:
  "users_sessions example_sessions =
     [\<lparr>raw_ip = 16777343, raw_port = 2000\<rparr> \<mapsto> UserSession_new 5 \<lparr>sin_addr = 16777343, sin_port = 2000\<rparr> 240 0,
      \<lparr>raw_ip = 16777343, raw_port = 3000\<rparr> \<mapsto>
        UserSession_new 6 \<lparr>sin_addr = 16777343, sin_port = 3000\<rparr> 240 100000000000]"
  by (simp add: example_sessions_def add_session_def UserSessionManager_new_def Let_def)

theorem cleanup_exact_witness:
  "\<exists>M'. cleanup_expired_sessions (Some (\<lambda>sock l. l @ [sock]))
      [(\<lparr>raw_ip = 16777343, raw_port = 2000\<rparr>, 240000000001),
       (\<lparr>raw_ip = 16777343, raw_port = 3000\<rparr>, 240000000002)] (example_sessions, []) = (M', [5]) \<and>
     users_sessions M' \<lparr>raw_ip = 16777343, raw_port = 2000\<rparr> = None"
proof -
  let ?o = "[(\<lparr>raw_ip = 16777343, raw_port = 2000\<rparr>, 240000000001),
       (\<lparr>raw_ip = 16777343, raw_port = 3000\<rparr>, 240000000002)] :: (SessionKey \<times> int) list"
  have d: "set (map fst ?o) = dom (users_sessions example_sessions)"
    by (auto simp: example_sessions_map)
  have x: "expired_sockets ?o example_sessions = [5]"
    and t: "(the (map_of ?o \<lparr>raw_ip = 16777343, raw_port = 2000\<rparr>)) = 240000000001"
    by (simp_all add: expired_sockets_def example_sessions_map is_expired_def UserSession_new_def)
  obtain M' where M': "cleanup_expired_sessions (Some (\<lambda>sock l. l @ [sock])) ?o (example_sessions, []) = (M', [5])"
      "\<forall>k s. users_sessions M' k = Some s \<longleftrightarrow> users_sessions example_sessions k = Some s \<and>
        the (map_of ?o k) - last_activity_time s \<le> session_maximum_idle_time s * 1000000000"
    using cleanup_exact[OF _ d, of "[]"] x by auto
  have "users_sessions M' \<lparr>raw_ip = 16777343, raw_port = 2000\<rparr> = None"
  proof (rule ccontr)
    assume "\<not> ?thesis"
    then obtain s where "users_sessions M' \<lparr>raw_ip = 16777343, raw_port = 2000\<rparr> = Some s" by blast
    then show False using M'(2) t
      by (auto simp: example_sessions_map UserSession_new_def)
  qed
  with M'(1) show ?thesis by blast
qed

subsection \<open>When an idle session goes\<close>

fun cleanup_passes :: "(SessionKey \<times> int) list list \<Rightarrow> UserSessionManager \<Rightarrow> UserSessionManager" where
  "cleanup_passes [] M = M"
| "cleanup_passes (p # ps) M =
     cleanup_passes ps (fst (cleanup_expired_sessions (Some (\<lambda>_ st. st)) p (M, ())))"

lemma cleanup_pass_kept:
  "distinct (map fst p) \<Longrightarrow>
   users_sessions (fst (cleanup_expired_sessions (Some cb) p (M, st))) = kept p M"
  by (simp add: cleanup_run)

text \<open>The clock reading of a pass for one session, and passes at most \<open>d\<close> apart.\<close>

definition reading :: "(SessionKey \<times> int) list \<Rightarrow> SessionKey \<Rightarrow> int" where
  "reading p key = the (map_of p key)"

fun passes_within :: "int \<Rightarrow> SessionKey \<Rightarrow> int \<Rightarrow> (SessionKey \<times> int) list list \<Rightarrow> bool" where
  "passes_within d key r [] = True"
| "passes_within d key r (p # ps) =
     (distinct (map fst p) \<and> key \<in> set (map fst p) \<and> reading p key \<le> r + d \<and>
      passes_within d key (reading p key) ps)"

text \<open>
  A session without activity is removed by the first cleanup that reads the
  clock after its idle limit: not before the limit, and no later than the distance of two
  cleanups after it.
\<close>

theorem idle_session_expires:
  assumes "users_sessions M key = Some s"
    and "limit = last_activity_time s + session_maximum_idle_time s * 1000000000"
    and "r \<le> limit" and "passes_within d key r ps"
    and "ps \<noteq> []" and "limit < reading (last ps) key"
  shows "\<exists>qs p qs'. ps = qs @ p # qs' \<and>
     users_sessions (cleanup_passes qs M) key = Some s \<and>
     users_sessions (cleanup_passes (qs @ [p]) M) key = None \<and>
     limit < reading p key \<and> reading p key \<le> limit + d"
  using assms(1,3-6)
proof (induction ps arbitrary: M r)
  case Nil
  then show ?case by simp
next
  case (Cons p ps)
  let ?M = "fst (cleanup_expired_sessions (Some (\<lambda>_ st. st)) p (M, ()))"
  have p: "distinct (map fst p)" "key \<in> set (map fst p)" "reading p key \<le> r + d"
      "passes_within d key (reading p key) ps"
    using Cons.prems(3) by auto
  obtain now where now: "map_of p key = Some now"
    using p(2) by (cases "map_of p key") (auto simp: map_of_eq_None_iff)
  then have rd: "reading p key = now" by (simp add: reading_def)
  have k: "users_sessions ?M key = (if limit < now then None else Some s)"
    using cleanup_pass_kept[OF p(1), of "\<lambda>_ st. st" M "()"] now Cons.prems(1) assms(2)
    by (auto simp: kept_def is_expired_def)
  show ?case
  proof (cases "limit < now")
    case True
    then show ?thesis
      using Cons.prems(1,2) k p(3) rd
      by (intro exI[of _ "[]"] exI[of _ p] exI[of _ ps]) simp
  next
    case False
    then have ne: "ps \<noteq> []" "limit < reading (last ps) key"
      using Cons.prems(5) rd by (auto split: if_splits)
    have M: "users_sessions ?M key = Some s" "reading p key \<le> limit"
      using k rd False by auto
    obtain qs q qs' where "ps = qs @ q # qs'"
        "users_sessions (cleanup_passes qs ?M) key = Some s"
        "users_sessions (cleanup_passes (qs @ [q]) ?M) key = None"
        "limit < reading q key" "reading q key \<le> limit + d"
      using Cons.IH[OF M p(4) ne] by (elim exE conjE) (rule that)
    then show ?thesis
      by (intro exI[of _ "p # qs"] exI[of _ q] exI[of _ qs']) simp
  qed
qed

theorem idle_session_expires_witness:
  "\<exists>qs p qs'. [[(\<lparr>raw_ip = 16777343, raw_port = 2000\<rparr>, 200000000000)],
       [(\<lparr>raw_ip = 16777343, raw_port = 2000\<rparr>, 260000000000)]] = qs @ p # qs' \<and>
     users_sessions (cleanup_passes (qs @ [p]) example_sessions) \<lparr>raw_ip = 16777343, raw_port = 2000\<rparr>
       = None"
proof -
  let ?k = "\<lparr>raw_ip = 16777343, raw_port = 2000\<rparr>"
  let ?ps = "[[(?k, 200000000000)], [(?k, 260000000000)]]"
  have "users_sessions example_sessions ?k
      = Some (UserSession_new 5 \<lparr>sin_addr = 16777343, sin_port = 2000\<rparr> 240 0)"
    by (simp add: example_sessions_map)
  moreover have "passes_within 60000000000 ?k 140000000000 ?ps" by (simp add: reading_def)
  ultimately show ?thesis
    using idle_session_expires[of example_sessions ?k _ 240000000000 140000000000 60000000000 ?ps]
    by (fastforce simp: UserSession_new_def reading_def)
qed

text \<open>
  A client that connects again from the address and port of a session that is
  still registered gets no session of its own: the old entry stays, with the old socket and
  idle time, and no cleanup ever reports the new socket, also not after the entry was
  removed with the old connection.
\<close>

theorem reconnect_gets_no_session:
  assumes "users_sessions M \<lparr>raw_ip = sin_addr a, raw_port = sin_port a\<rparr> = Some s"
    and "\<forall>k s'. users_sessions M k = Some s' \<longrightarrow> user_socket s' \<noteq> sock"
  shows "add_session sock a idle now M = (\<lparr>raw_ip = sin_addr a, raw_port = sin_port a\<rparr>, M) \<and>
     sock \<notin> set (expired_sockets order M) \<and>
     sock \<notin> set (expired_sockets order
        (remove_session \<lparr>raw_ip = sin_addr a, raw_port = sin_port a\<rparr> M))"
proof -
  have "sock \<notin> set (expired_sockets order M')"
    if "\<forall>k s'. users_sessions M' k = Some s' \<longrightarrow> user_socket s' \<noteq> sock" for M'
    using that by (auto simp: expired_sockets_iff)
  then show ?thesis using assms by (simp add: add_session_def remove_session_def Let_def)
qed

theorem reconnect_gets_no_session_witness:
  "snd (add_session 9 \<lparr>sin_addr = 16777343, sin_port = 2000\<rparr> 240 7 example_sessions) = example_sessions \<and>
   9 \<notin> set (expired_sockets [(\<lparr>raw_ip = 16777343, raw_port = 2000\<rparr>, 1000000000000)] example_sessions)"
proof -
  have "users_sessions example_sessions \<lparr>raw_ip = 16777343, raw_port = 2000\<rparr>
      = Some (UserSession_new 5 \<lparr>sin_addr = 16777343, sin_port = 2000\<rparr> 240 0)"
    by (simp add: example_sessions_map)
  moreover have "\<forall>k s'. users_sessions example_sessions k = Some s' \<longrightarrow> user_socket s' \<noteq> 9"
    by (auto simp: example_sessions_map UserSession_new_def)
  ultimately show ?thesis
    using reconnect_gets_no_session[of example_sessions "\<lparr>sin_addr = 16777343, sin_port = 2000\<rparr>" _ 9
        240 7 "[(\<lparr>raw_ip = 16777343, raw_port = 2000\<rparr>, 1000000000000)]"] by simp
qed

text \<open>
  The cached texts of two sessions agree exactly when the clients have the
  same address and port, that is when \<open>SessionKey::operator==\<close> holds of their keys.
\<close>

theorem session_text_identifies_client:
  "cached_ip_str (UserSession_new so a i t) = cached_ip_str (UserSession_new so' b i' t') \<and>
   cached_port_str (UserSession_new so a i t) = cached_port_str (UserSession_new so' b i' t') \<longleftrightarrow>
   SessionKey_eq \<lparr>raw_ip = sin_addr a, raw_port = sin_port a\<rparr> \<lparr>raw_ip = sin_addr b, raw_port = sin_port b\<rparr>"
  by (simp add: UserSession_new_def inet_ntop_inject to_string_inject SessionKey_eq_def
      ntohs_inject flip: word_unat_eq_iff)

end
