(* ===== verification/EventLoop.thy ===== *)
theory EventLoop
  imports UserSession
begin

unbundle bit_operations_syntax

text \<open>
  The event loops, \<open>src/Networking/EventLoop.h\<close>, \<open>EpollEventLoop.cpp\<close> and
  \<open>IocpEventLoop.cpp\<close>.  The kernel is not part of the sources: its calls are arguments,
  functions on a kernel state of any type \<open>'k\<close>.
\<close>

subsection \<open>The interface\<close>

datatype IOEvent = Readable | Writable | HangUp | Error

record EventLoopEntry =
  entry_socket :: SocketType
  entry_event :: IOEvent

subsection \<open>epoll\<close>

text \<open>The constants of \<open>sys/epoll.h\<close>.\<close>

definition EPOLLIN :: uint32 where "EPOLLIN = 0x001"
definition EPOLLERR :: uint32 where "EPOLLERR = 0x008"
definition EPOLLHUP :: uint32 where "EPOLLHUP = 0x010"
definition EPOLLRDHUP :: uint32 where "EPOLLRDHUP = 0x2000"
definition EPOLLONESHOT :: uint32 where "EPOLLONESHOT = 0x40000000"

record epoll_event =
  ev_events :: uint32
  ev_fd :: SocketType

datatype epoll_ctl_op = EPOLL_CTL_ADD | EPOLL_CTL_MOD | EPOLL_CTL_DEL

text \<open>\<open>epoll_ctl (epollFd, op, sock, ev)\<close> and \<open>epoll_wait (epollFd, n, timeout)\<close>.\<close>

type_synonym 'k epoll_ctl =
  "int \<Rightarrow> epoll_ctl_op \<Rightarrow> SocketType \<Rightarrow> epoll_event option \<Rightarrow> 'k \<Rightarrow> int \<times> 'k"

type_synonym 'k epoll_wait = "int \<Rightarrow> int \<Rightarrow> int \<Rightarrow> 'k \<Rightarrow> (int \<times> epoll_event list) \<times> 'k"

record EpollEventLoop =
  epollFd :: int

definition MAX_EVENTS :: int where
  "MAX_EVENTS = 64"

definition Epoll_new :: "('k \<Rightarrow> int \<times> 'k) \<Rightarrow> 'k \<Rightarrow> EpollEventLoop \<times> 'k" where
  "Epoll_new epoll_create1 k = (case epoll_create1 k of (fd, k') \<Rightarrow> (\<lparr>epollFd = fd\<rparr>, k'))"

definition Epoll_destroy :: "(int \<Rightarrow> 'k \<Rightarrow> 'k) \<Rightarrow> EpollEventLoop \<Rightarrow> 'k \<Rightarrow> 'k" where
  "Epoll_destroy close l k = close (epollFd l) k"

definition Epoll_add :: "'k epoll_ctl \<Rightarrow> EpollEventLoop \<Rightarrow> SocketType \<Rightarrow> 'k \<Rightarrow> 'k" where
  "Epoll_add epoll_ctl l sock k =
     snd (epoll_ctl (epollFd l) EPOLL_CTL_ADD sock
       (Some \<lparr>ev_events = EPOLLIN OR EPOLLONESHOT, ev_fd = sock\<rparr>) k)"

definition Epoll_remove :: "'k epoll_ctl \<Rightarrow> EpollEventLoop \<Rightarrow> SocketType \<Rightarrow> 'k \<Rightarrow> 'k" where
  "Epoll_remove epoll_ctl l sock k = snd (epoll_ctl (epollFd l) EPOLL_CTL_DEL sock None k)"

definition Epoll_rearm :: "'k epoll_ctl \<Rightarrow> EpollEventLoop \<Rightarrow> SocketType \<Rightarrow> 'k \<Rightarrow> bool \<times> 'k" where
  "Epoll_rearm epoll_ctl l sock k =
     (case epoll_ctl (epollFd l) EPOLL_CTL_MOD sock
        (Some \<lparr>ev_events = EPOLLIN OR EPOLLONESHOT, ev_fd = sock\<rparr>) k of
        (r, k') \<Rightarrow> (r = 0, k'))"

definition classify :: "uint32 \<Rightarrow> IOEvent" where
  "classify e =
     (if e AND (EPOLLHUP OR EPOLLRDHUP) \<noteq> 0 then HangUp
      else if e AND EPOLLERR \<noteq> 0 then Error
      else if e AND EPOLLIN \<noteq> 0 then Readable
      else Writable)"

text \<open>
  \<open>wait\<close>: an error leaves the caller's vector \<open>out\<close> as it was.  Reading an event the kernel
  did not write has no defined result.
\<close>

fun wait_loop :: "nat \<Rightarrow> nat \<Rightarrow> epoll_event list \<Rightarrow> EventLoopEntry list \<Rightarrow> EventLoopEntry list option" where
  "wait_loop 0 i evs out = Some out"
| "wait_loop (Suc n) i evs out =
     (if i < length evs then
        wait_loop n (Suc i) evs
          (out @ [\<lparr>entry_socket = ev_fd (evs ! i), entry_event = classify (ev_events (evs ! i))\<rparr>])
      else None)"

definition Epoll_wait ::
  "'k epoll_wait \<Rightarrow> EpollEventLoop \<Rightarrow> EventLoopEntry list \<Rightarrow> 'k \<Rightarrow>
   ((int \<times> EventLoopEntry list) \<times> 'k) option" where
  "Epoll_wait epoll_wait l out k =
     (case epoll_wait (epollFd l) MAX_EVENTS 1000 k of
        ((numReady, evs), k') \<Rightarrow>
          if numReady = -1 then Some ((-1, out), k')
          else map_option (\<lambda>out'. ((numReady, out'), k')) (wait_loop (nat numReady) 0 evs []))"

subsection \<open>I/O completion ports\<close>

text \<open>
  A context is an object of its own; the kernel writes its \<open>OVERLAPPED\<close> when the posted
  receive completes.  \<open>live\<close> are the contexts that are allocated, \<open>posted\<close> the receives that
  have been posted and not completed.
\<close>

record IocpEventLoop =
  contexts :: "SocketType \<rightharpoonup> nat"
  live :: "nat set"
  next_context :: nat
  posted :: "(SocketType \<times> nat) list"

definition Iocp_new :: IocpEventLoop where
  "Iocp_new = \<lparr>contexts = Map.empty, live = {}, next_context = 0, posted = []\<rparr>"

text \<open>
  \<open>queued\<close> is what \<open>WSARecv\<close> answers: whether the receive was posted (it returned 0 or the
  error was \<open>WSA_IO_PENDING\<close>).  The code does not look at it.
\<close>

definition armRead :: "bool \<Rightarrow> SocketType \<Rightarrow> IocpEventLoop \<Rightarrow> IocpEventLoop" where
  "armRead queued sock l =
     (case contexts l sock of
        None \<Rightarrow> l
      | Some ctx \<Rightarrow> if queued then l\<lparr>posted := posted l @ [(sock, ctx)]\<rparr> else l)"

text \<open>Replacing or erasing a map entry frees the context the entry owned.\<close>

definition free_context :: "SocketType \<Rightarrow> IocpEventLoop \<Rightarrow> IocpEventLoop" where
  "free_context sock l =
     (case contexts l sock of None \<Rightarrow> l | Some ctx \<Rightarrow> l\<lparr>live := live l - {ctx}\<rparr>)"

definition Iocp_add :: "bool \<Rightarrow> SocketType \<Rightarrow> IocpEventLoop \<Rightarrow> IocpEventLoop" where
  "Iocp_add queued sock l =
     (let ctx = next_context l; l1 = free_context sock l;
          l2 = l1\<lparr>contexts := (contexts l1)(sock \<mapsto> ctx), live := insert ctx (live l1),
                  next_context := Suc ctx\<rparr> in
      armRead queued sock l2)"

definition Iocp_remove :: "SocketType \<Rightarrow> IocpEventLoop \<Rightarrow> IocpEventLoop" where
  "Iocp_remove sock l =
     (let l1 = free_context sock l in l1\<lparr>contexts := (contexts l1)(sock := None)\<rparr>)"

definition Iocp_rearm :: "bool \<Rightarrow> SocketType \<Rightarrow> IocpEventLoop \<Rightarrow> bool \<times> IocpEventLoop" where
  "Iocp_rearm queued sock l = (True, armRead queued sock l)"

text \<open>The destructor closes the port; the map frees its contexts.\<close>

definition Iocp_destroy :: "IocpEventLoop \<Rightarrow> IocpEventLoop" where
  "Iocp_destroy l = l\<lparr>contexts := Map.empty, live := live l - ran (contexts l)\<rparr>"

text \<open>
  \<open>GetQueuedCompletionStatus\<close> answers with its success flag, the completion key and the
  \<open>OVERLAPPED\<close> of a posted receive, or with no \<open>OVERLAPPED\<close> when it timed out.
\<close>

definition Iocp_wait ::
  "bool \<times> SocketType \<times> nat option \<Rightarrow> EventLoopEntry list \<Rightarrow> IocpEventLoop \<Rightarrow>
   (int \<times> EventLoopEntry list) \<times> IocpEventLoop" where
  "Iocp_wait status out l =
     (case status of (success, key, overlapped) \<Rightarrow>
        (case overlapped of
           None \<Rightarrow> ((-1, out), l)
         | Some ctx \<Rightarrow>
             ((1, [\<lparr>entry_socket = key, entry_event = if success then Readable else Error\<rparr>]),
              l\<lparr>posted := remove1 (key, ctx) (posted l)\<rparr>)))"

subsection \<open>Properties\<close>

lemma wait_loop_map:
  "i + n \<le> length evs \<Longrightarrow> wait_loop n i evs out =
   Some (out @ map (\<lambda>e. \<lparr>entry_socket = ev_fd e, entry_event = classify (ev_events e)\<rparr>)
     (take n (drop i evs)))"
proof (induction n arbitrary: i out)
  case (Suc n)
  then have "i < length evs" by simp
  then have "drop i evs = evs ! i # drop (Suc i) evs" by (simp add: Cons_nth_drop_Suc)
  with Suc show ?case by simp
qed simp

text \<open>
  \<open>EpollEventLoop::wait\<close> reports every event of the kernel, in order and
  once, and a hang-up wins over an error, an error over readable data: an event that
  carries both a hang-up and unread data is reported as a hang-up only.
\<close>

theorem Epoll_wait_reports:
  assumes "epoll_wait (epollFd l) 64 1000 k = ((int (length evs), evs), k')"
  shows "\<exists>es. Epoll_wait epoll_wait l out k = Some ((int (length evs), es), k') \<and>
     map entry_socket es = map ev_fd evs \<and>
     (\<forall>i < length evs. let e = ev_events (evs ! i) in
        entry_event (es ! i) =
          (if bit e 4 \<or> bit e 13 then HangUp else if bit e 3 then Error
           else if bit e 0 then Readable else Writable))"
proof -
  have m: "e AND 2 ^ n \<noteq> 0 \<longleftrightarrow> bit e n" if "n < 32" for e :: uint32 and n
    using that by (metis and_exp_eq_0_iff_not_bit)
  have f: "e AND EPOLLHUP \<noteq> 0 \<longleftrightarrow> bit e 4" "e AND EPOLLRDHUP \<noteq> 0 \<longleftrightarrow> bit e 13" for e
    using m[of 4 e] m[of 13 e] by (simp_all add: EPOLLHUP_def EPOLLRDHUP_def)
  have "e AND (EPOLLHUP OR EPOLLRDHUP) = (e AND EPOLLHUP) OR (e AND EPOLLRDHUP)" for e
    by (rule bit.conj_disj_distrib)
  then have h: "e AND (EPOLLHUP OR EPOLLRDHUP) \<noteq> 0 \<longleftrightarrow> bit e 4 \<or> bit e 13" for e
    using f[of e] by (simp add: or_eq_0_iff)
  have c: "classify e = (if bit e 4 \<or> bit e 13 then HangUp else if bit e 3 then Error
           else if bit e 0 then Readable else Writable)" for e
    using m[of 3 e] m[of 0 e] by (simp add: classify_def h EPOLLERR_def EPOLLIN_def)
  let ?es = "map (\<lambda>e. \<lparr>entry_socket = ev_fd e, entry_event = classify (ev_events e)\<rparr>) evs"
  have "Epoll_wait epoll_wait l out k = Some ((int (length evs), ?es), k')"
    using assms by (simp add: Epoll_wait_def MAX_EVENTS_def wait_loop_map)
  then show ?thesis
    by (intro exI[of _ ?es]) (simp add: c Let_def)
qed

theorem Epoll_wait_reports_witness:
  "\<exists>es. Epoll_wait (\<lambda>fd n t k. ((2, [\<lparr>ev_events = 0x11, ev_fd = 7\<rparr>, \<lparr>ev_events = 1, ev_fd = 9\<rparr>]), k))
      \<lparr>epollFd = 3\<rparr> [] () = Some ((2, es), ()) \<and>
     entry_event (es ! 0) = HangUp \<and> entry_event (es ! 1) = Readable"
proof -
  have b: "bit (0x11 :: uint32) 4" "\<not> bit (1 :: uint32) 4" "\<not> bit (1 :: uint32) 13"
    "\<not> bit (1 :: uint32) 3" "bit (1 :: uint32) 0" by code_simp+
  show ?thesis
    using Epoll_wait_reports[of "\<lambda>fd n t k. ((2, [\<lparr>ev_events = 0x11, ev_fd = 7\<rparr>, \<lparr>ev_events = 1, ev_fd = 9\<rparr>]), k)"
        "\<lparr>epollFd = 3\<rparr>" "()" "[\<lparr>ev_events = 0x11, ev_fd = 7\<rparr>, \<lparr>ev_events = 1, ev_fd = 9\<rparr>]" "()" "[]"] b
    by (auto simp: Let_def All_less_Suc numeral_2_eq_2)
qed

text \<open>Every receive the kernel may still complete refers to a context that is allocated.\<close>

definition Iocp_ok :: "IocpEventLoop \<Rightarrow> bool" where
  "Iocp_ok l \<longleftrightarrow> (\<forall>(sock, ctx) \<in> set (posted l). ctx \<in> live l)"

definition Iocp_inv :: "IocpEventLoop \<Rightarrow> bool" where
  "Iocp_inv l \<longleftrightarrow> ran (contexts l) \<subseteq> live l \<and> (\<forall>ctx \<in> live l. ctx < next_context l) \<and> inj_on (contexts l) (dom (contexts l))"

lemma Iocp_new_ok: "Iocp_inv Iocp_new \<and> Iocp_ok Iocp_new"
  by (simp add: Iocp_new_def Iocp_inv_def Iocp_ok_def)

lemma Iocp_add_ok:
  assumes "Iocp_inv l" and "Iocp_ok l" and "contexts l sock = None"
  shows "Iocp_inv (Iocp_add queued sock l) \<and> Iocp_ok (Iocp_add queued sock l)"
proof -
  have fresh: "next_context l \<notin> ran (contexts l)"
    using assms(1) by (auto simp: Iocp_inv_def)
  then have "inj_on ((contexts l)(sock \<mapsto> next_context l)) (insert sock (dom (contexts l)))"
    using assms(1) by (fastforce simp: Iocp_inv_def inj_on_def ran_def dom_def)
  moreover have "ran ((contexts l)(sock \<mapsto> next_context l)) = insert (next_context l) (ran (contexts l))"
    using assms(3) by simp
  ultimately show ?thesis
    using assms by (auto simp: Iocp_add_def free_context_def armRead_def Let_def Iocp_inv_def
        Iocp_ok_def less_Suc_eq)
qed

lemma Iocp_rearm_ok:
  assumes "Iocp_inv l" and "Iocp_ok l"
  shows "Iocp_inv (snd (Iocp_rearm queued sock l)) \<and> Iocp_ok (snd (Iocp_rearm queued sock l))"
  using assms by (auto simp: Iocp_rearm_def armRead_def Iocp_inv_def Iocp_ok_def ran_def
      split: option.split)

lemma Iocp_wait_ok:
  assumes "Iocp_inv l" and "Iocp_ok l"
  shows "Iocp_inv (snd (Iocp_wait status out l)) \<and> Iocp_ok (snd (Iocp_wait status out l))"
  using assms by (auto simp: Iocp_wait_def Iocp_inv_def Iocp_ok_def split: prod.split option.split
      dest: notin_set_remove1)

lemma Iocp_destroy_pending:
  "Iocp_ok l \<Longrightarrow> Iocp_ok (Iocp_destroy l) \<longleftrightarrow> snd ` set (posted l) \<inter> ran (contexts l) = {}"
  by (fastforce simp: Iocp_destroy_def Iocp_ok_def)

text \<open>
  A receive that \<open>WSARecv\<close> refuses at once never completes (no completion is queued for it),
  and \<open>rearm\<close> reports success: nothing is pending for the socket, and the server, told that it
  is armed, does not close it.
\<close>

theorem Iocp_rearm_forgets_refusal:
  assumes "\<forall>ctx. (sock, ctx) \<notin> set (posted l)"
  shows "fst (Iocp_rearm False sock l) \<and> (\<forall>ctx. (sock, ctx) \<notin> set (posted (snd (Iocp_rearm False sock l))))"
  using assms by (simp add: Iocp_rearm_def armRead_def split: option.split)

theorem Iocp_rearm_forgets_refusal_witness:
  "fst (Iocp_rearm False 5 (Iocp_add False 5 Iocp_new)) \<and> contexts (Iocp_add False 5 Iocp_new) 5 = Some 0"
proof -
  have "\<forall>ctx. (5, ctx) \<notin> set (posted (Iocp_add False 5 Iocp_new))"
    by (simp add: Iocp_add_def Iocp_new_def armRead_def free_context_def Let_def)
  from Iocp_rearm_forgets_refusal[OF this] show ?thesis
    by (simp add: Iocp_add_def Iocp_new_def armRead_def free_context_def Let_def)
qed

text \<open>
  On Windows, removing a socket frees the memory of its pending receive: while
  the receive that \<open>add\<close> or \<open>rearm\<close> posted has not completed, \<open>remove\<close> leaves the kernel a
  dangling \<open>OVERLAPPED\<close>; only a socket without a pending receive is removed safely.
\<close>

theorem Iocp_remove_pending:
  assumes "Iocp_inv l" and "Iocp_ok l" and "contexts l sock = Some ctx"
  shows "(Iocp_ok (Iocp_remove sock l) \<longleftrightarrow> ctx \<notin> snd ` set (posted l)) \<and>
     \<not> Iocp_ok (Iocp_remove sock (snd (Iocp_rearm True sock l)))"
  using assms
  by (force simp: Iocp_remove_def Iocp_rearm_def armRead_def free_context_def Iocp_ok_def Let_def)

theorem Iocp_remove_pending_witness:
  "Iocp_ok (Iocp_add True 5 Iocp_new) \<and> \<not> Iocp_ok (Iocp_remove 5 (Iocp_add True 5 Iocp_new))"
proof -
  have i: "Iocp_inv (Iocp_add True 5 Iocp_new)" "Iocp_ok (Iocp_add True 5 Iocp_new)"
    using Iocp_add_ok[of Iocp_new 5 True] Iocp_new_ok by (simp_all add: Iocp_new_def)
  have "contexts (Iocp_add True 5 Iocp_new) 5 = Some 0" and "0 \<in> snd ` set (posted (Iocp_add True 5 Iocp_new))"
    by (simp_all add: Iocp_add_def Iocp_new_def free_context_def armRead_def)
  with Iocp_remove_pending[OF i] i(2) show ?thesis by blast
qed

end
