(* ===== verification/Server.thy ===== *)
theory Server
  imports Database EventLoop Limiter
begin

text \<open>
  The server, \<open>src/Server/Server.h\<close>, \<open>src/Server/Server.cpp\<close> and
  \<open>src/UserSession/Connection.h\<close>: the connection table, the handler of a readable socket,
  the accept loop, the event loop's body, expiry and shutdown.

  \<^item> \<open>std::shared_ptr<Connection>\<close>: the table and the queued jobs refer to connection
    objects by number, so a job keeps its object when the table entry is erased.
  \<^item> What the operating system answers (\<open>recv\<close>, \<open>accept\<close>, the event loop's \<open>wait\<close> and
    \<open>rearm\<close>, the clock) is an argument; what the server asks of it is appended to \<open>calls\<close>.
  \<^item> A result \<open>None\<close> is undefined behaviour.
\<close>

subsection \<open>State\<close>

record Connection =
  conn_socket :: SocketType
  conn_sessionKey :: SessionKey
  commandBuffer :: string

datatype net_call =
    EL_Add SocketType
  | EL_Remove SocketType
  | EL_Rearm SocketType
  | Close SocketType
  | Send SocketType string

record Server =
  serverSocket :: SocketType
  running :: bool
  hashMap :: HashMap
  pers :: Persistence
  tpool_jobs :: "nat list"                  \<comment> \<open>connection objects of the jobs handed to the pool\<close>
  rt :: RateLimiter
  userSessionManager :: UserSessionManager
  conn_objects :: "Connection list"
  connections :: "SocketType \<rightharpoonup> nat"
  expiredSockets :: "SocketType list"
  calls :: "net_call list"

definition MAX_COMMAND_BUFFER_LENGTH :: nat where
  "MAX_COMMAND_BUFFER_LENGTH = 2024"

definition INVALID_SOCKET :: SocketType where
  "INVALID_SOCKET = -1"

definition log_call :: "net_call \<Rightarrow> Server \<Rightarrow> Server" where
  "log_call c S = S\<lparr>calls := calls S @ [c]\<rparr>"

subsection \<open>Closing and re-arming\<close>

definition closeConnection :: "SocketType \<Rightarrow> Server \<Rightarrow> Server" where
  "closeConnection sock S =
     (let S1 = log_call (EL_Remove sock) S;
          S2 = (case connections S1 sock of
                  None \<Rightarrow> S1
                | Some c \<Rightarrow> S1\<lparr>userSessionManager :=
                      remove_session (conn_sessionKey (conn_objects S1 ! c)) (userSessionManager S1),
                    connections := (connections S1)(sock := None)\<rparr>) in
      log_call (Close sock) S2)"

definition rearmSocket :: "bool \<Rightarrow> SocketType \<Rightarrow> Server \<Rightarrow> Server" where
  "rearmSocket rearmed clientSocket S =
     (let S1 = log_call (EL_Rearm clientSocket) S in
      if \<not> rearmed then closeConnection clientSocket S1 else S1)"

definition onSessionExpired :: "SocketType \<Rightarrow> Server \<Rightarrow> Server" where
  "onSessionExpired sock S = S\<lparr>expiredSockets := expiredSockets S @ [sock]\<rparr>"

subsection \<open>Commands\<close>

text \<open>
  From \<open>std::istringstream iss(message)\<close> to the last response.  The branch of an empty value
  re-arms and returns, as the end of the handler does.
\<close>

definition execute_command :: "string \<Rightarrow> db \<Rightarrow> (string \<times> db) option" where
  "execute_command message d =
     (let (command, s1) = read_word '''' (istringstream message);
          (key, s2) = read_word '''' s1 in
      if command = ''INSERT'' then
        let (val, s3) = read_word '''' s2 in
        if val = [] then Some (''Empty Value Recieved, Try again'' @ [newline], d)
        else map_option (\<lambda>d'. (''Insert command was successful'' @ [newline], d')) (db_insert key val d)
      else if command = ''GET'' then
        map_option (\<lambda>resultGet.
            (if resultGet \<noteq> [] then ''Get command was successful: '' @ resultGet @ [newline]
             else ''Get command was successful but key dont exist'' @ [newline], d))
          (HashMap_get (fst d) key)
      else if command = ''DELETE'' then
        map_option (\<lambda>d'. (''Delete command was successful'' @ [newline], d')) (db_delete key d)
      else Some (''No command was received'' @ [newline], d))"

text \<open>The answers of \<open>recv\<close>: bytes, an orderly close, nothing to read, an error.\<close>

datatype recv_result = Received string | Disconnected | WouldBlock | RecvError

definition set_buffer :: "nat \<Rightarrow> string \<Rightarrow> Server \<Rightarrow> Server" where
  "set_buffer c b S =
     S\<lparr>conn_objects := (conn_objects S)[c := (conn_objects S ! c)\<lparr>commandBuffer := b\<rparr>]\<rparr>"

definition messageHandler :: "recv_result \<Rightarrow> bool \<Rightarrow> int \<Rightarrow> nat \<Rightarrow> Server \<Rightarrow> Server option" where
  "messageHandler received rearmed now c S =
     (let clientConnection = conn_objects S ! c;
          clientSocket = conn_socket clientConnection in
      case received of
        Disconnected \<Rightarrow> Some (closeConnection clientSocket S)
      | WouldBlock \<Rightarrow> Some (rearmSocket rearmed clientSocket S)
      | RecvError \<Rightarrow> Some (closeConnection clientSocket S)
      | Received bytes \<Rightarrow>
          let buffer = commandBuffer clientConnection @ bytes;
              S1 = set_buffer c buffer S in
          if length buffer > MAX_COMMAND_BUFFER_LENGTH then Some (closeConnection clientSocket S1)
          else if newline \<notin> set buffer then Some (rearmSocket rearmed clientSocket S1)
          else
            let S2 = S1\<lparr>userSessionManager :=
                   update_activity (conn_sessionKey clientConnection) now (userSessionManager S1)\<rparr>;
                message = buffer;
                S3 = set_buffer c '''' S2 in
            map_option (\<lambda>(response, m, p).
                rearmSocket rearmed clientSocket
                  (log_call (Send clientSocket response) (S3\<lparr>hashMap := m, pers := p\<rparr>)))
              (execute_command message (hashMap S3, pers S3)))"

subsection \<open>Accepting\<close>

text \<open>
  One round of the accept loop.  The answers: the accepted socket and its address, the two
  clock readings of the limiter and the one of the session, whether the server still runs
  when that is tested again, and whether the socket could be made non-blocking.  The result
  tells whether the loop goes on.
\<close>

record accept_answers =
  acc_socket :: SocketType
  acc_addr :: sockaddr_in
  acc_now_global :: int
  acc_now_private :: int
  acc_still_running :: bool
  acc_now_session :: int
  acc_nonblocking :: bool

definition acceptClients_round :: "accept_answers \<Rightarrow> Server \<Rightarrow> Server \<times> bool" where
  "acceptClients_round a S =
     (if \<not> running S then (S, False)
      else if acc_socket a = INVALID_SOCKET then (S, False)
      else let (allowed, rt') = isAllowed (sin_addr (acc_addr a)) (acc_now_global a) (acc_now_private a) (rt S);
               S1 = S\<lparr>rt := rt'\<rparr> in
        if \<not> allowed then (log_call (Close (acc_socket a)) S1, True)
        else if \<not> acc_still_running a then (S1\<lparr>running := False\<rparr>, False)
        else let (active_key, usm) = add_session (acc_socket a) (acc_addr a) default_max_idle
                   (acc_now_session a) (userSessionManager S1);
                 S2 = S1\<lparr>userSessionManager := usm\<rparr> in
          if \<not> acc_nonblocking a then
            (log_call (Close (acc_socket a))
               (S2\<lparr>userSessionManager := remove_session active_key (userSessionManager S2)\<rparr>), True)
          else
            (log_call (EL_Add (acc_socket a))
               (S2\<lparr>conn_objects := conn_objects S2 @
                     [\<lparr>conn_socket = acc_socket a, conn_sessionKey = active_key, commandBuffer = ''''\<rparr>],
                   connections := (connections S2)(acc_socket a \<mapsto> length (conn_objects S2))\<rparr>), True))"

subsection \<open>The event loop's body, expiry and shutdown\<close>

definition close_expired :: "Server \<Rightarrow> Server" where
  "close_expired S =
     fold closeConnection (expiredSockets S) (S\<lparr>expiredSockets := []\<rparr>)"

definition dispatch_event :: "EventLoopEntry \<Rightarrow> Server \<Rightarrow> Server" where
  "dispatch_event e S =
     (if entry_event e = Readable then
        (case connections S (entry_socket e) of
           None \<Rightarrow> S
         | Some c \<Rightarrow> S\<lparr>tpool_jobs := tpool_jobs S @ [c]\<rparr>)
      else closeConnection (entry_socket e) S)"

text \<open>One round of the event loop; \<open>None\<close>: \<open>wait\<close> failed.\<close>

definition runEventLoop_round :: "EventLoopEntry list option \<Rightarrow> Server \<Rightarrow> Server" where
  "runEventLoop_round waited S =
     (if \<not> running S then S
      else let S1 = close_expired S in
        case waited of None \<Rightarrow> S1 | Some es \<Rightarrow> fold dispatch_event es S1)"

text \<open>The two loops, over the answers of their rounds.\<close>

fun acceptClients :: "accept_answers list \<Rightarrow> Server \<Rightarrow> Server" where
  "acceptClients [] S = S"
| "acceptClients (a # as) S =
     (case acceptClients_round a S of (S', goes_on) \<Rightarrow> if goes_on then acceptClients as S' else S')"

fun runEventLoop :: "EventLoopEntry list option list \<Rightarrow> Server \<Rightarrow> Server" where
  "runEventLoop [] S = S"
| "runEventLoop (w # ws) S = (if running S then runEventLoop ws (runEventLoop_round w S) else S)"

text \<open>The connection table is traversed in an order of its own.\<close>

definition Server_stop :: "SocketType list \<Rightarrow> Server \<Rightarrow> Server" where
  "Server_stop order S =
     (let S1 = fold (\<lambda>sock. log_call (Close sock)) order (S\<lparr>running := False\<rparr>) in
      log_call (Close (serverSocket S1))
        (S1\<lparr>connections := Map.empty,
            userSessionManager := close_all_sessions (userSessionManager S1)\<rparr>))"

definition Server_destroy :: "SocketType list \<Rightarrow> Server \<Rightarrow> Server" where
  "Server_destroy order S = Server_stop order S"

subsection \<open>Construction and start\<close>

datatype server_error = SocketError | BindError | ListenError | PersistenceError pers_error

definition Server_new ::
  "(nat \<Rightarrow> addr option) \<Rightarrow> Persistence \<Rightarrow> bool \<Rightarrow> int \<Rightarrow> SocketType \<Rightarrow> (server_error + Server) option" where
  "Server_new raw files can_open now sock =
     Option.bind (HashMap_new raw 100) (\<lambda>m.
     case Persistence_new can_open files of
       Inl e \<Rightarrow> Some (Inl (PersistenceError e))
     | Inr p \<Rightarrow>
         if sock = INVALID_SOCKET then Some (Inl SocketError)
         else Some (Inr \<lparr>serverSocket = sock, running = True, hashMap = m, pers = p, tpool_jobs = [],
                rt = RateLimiter_new now 10 5 1000, userSessionManager = UserSessionManager_new,
                conn_objects = [], connections = Map.empty, expiredSockets = [], calls = []\<rparr>))"

definition Server_start ::
  "bool \<Rightarrow> bool \<Rightarrow> bool \<Rightarrow> bool \<Rightarrow> Server \<Rightarrow> (server_error + Server) option" where
  "Server_start bind_ok listen_ok can_open_rdb can_open_aof S =
     (if \<not> bind_ok then Some (Inl BindError)
      else if \<not> listen_ok then Some (Inl ListenError)
      else map_option (\<lambda>r. case r of
             Inl e \<Rightarrow> Inl (PersistenceError e)
           | Inr m \<Rightarrow> Inr (S\<lparr>hashMap := m\<rparr>))
         (loadDataOnStartup can_open_rdb can_open_aof (pers S) (hashMap S)))"

subsection \<open>What the building blocks leave alone\<close>

lemma log_call_frame [frame_simps]:
  "serverSocket (log_call c S) = serverSocket S" "running (log_call c S) = running S"
  "hashMap (log_call c S) = hashMap S" "pers (log_call c S) = pers S"
  "tpool_jobs (log_call c S) = tpool_jobs S" "rt (log_call c S) = rt S"
  "userSessionManager (log_call c S) = userSessionManager S"
  "conn_objects (log_call c S) = conn_objects S" "connections (log_call c S) = connections S"
  "expiredSockets (log_call c S) = expiredSockets S" "calls (log_call c S) = calls S @ [c]"
  by (simp_all add: log_call_def)

lemma closeConnection_frame [frame_simps]:
  "hashMap (closeConnection s S) = hashMap S" "pers (closeConnection s S) = pers S"
  "tpool_jobs (closeConnection s S) = tpool_jobs S" "rt (closeConnection s S) = rt S"
  "running (closeConnection s S) = running S"
  "conn_objects (closeConnection s S) = conn_objects S"
  "expiredSockets (closeConnection s S) = expiredSockets S"
  "connections (closeConnection s S) = (connections S)(s := None)"
  "calls (closeConnection s S) = calls S @ [EL_Remove s, Close s]"
  by (auto simp: closeConnection_def frame_simps Let_def split: option.split)

lemma rearmSocket_frame [frame_simps]:
  "hashMap (rearmSocket r s S) = hashMap S" "pers (rearmSocket r s S) = pers S"
  "tpool_jobs (rearmSocket r s S) = tpool_jobs S" "rt (rearmSocket r s S) = rt S"
  "conn_objects (rearmSocket r s S) = conn_objects S"
  "connections (rearmSocket r s S) = (if r then connections S else (connections S)(s := None))"
  "calls (rearmSocket r s S) =
     calls S @ EL_Rearm s # (if r then [] else [EL_Remove s, Close s])"
  by (auto simp: rearmSocket_def frame_simps Let_def)

lemma set_buffer_frame [frame_simps]:
  "hashMap (set_buffer c b S) = hashMap S" "pers (set_buffer c b S) = pers S"
  "tpool_jobs (set_buffer c b S) = tpool_jobs S" "rt (set_buffer c b S) = rt S"
  "connections (set_buffer c b S) = connections S" "calls (set_buffer c b S) = calls S"
  "userSessionManager (set_buffer c b S) = userSessionManager S"
  "length (conn_objects (set_buffer c b S)) = length (conn_objects S)"
  "c' < length (conn_objects S) \<Longrightarrow> conn_socket (conn_objects (set_buffer c b S) ! c') = conn_socket (conn_objects S ! c')"
  "c' \<noteq> c \<Longrightarrow> conn_objects (set_buffer c b S) ! c' = conn_objects S ! c'"
  "c < length (conn_objects S) \<Longrightarrow> commandBuffer (conn_objects (set_buffer c b S) ! c) = b"
  by (cases "c < length (conn_objects S)"; auto simp: set_buffer_def nth_list_update)+

subsection \<open>The command protocol\<close>

text \<open>What the protocol promises of a message: the response and the new store.\<close>

definition respond :: "string \<Rightarrow> (string \<rightharpoonup> string) \<Rightarrow> string \<times> (string \<rightharpoonup> string)" where
  "respond message s =
     (case words3 message of (command, key, val) \<Rightarrow>
        if command = ''INSERT'' then
          (if val = [] then (''Empty Value Recieved, Try again'' @ [newline], s)
           else (''Insert command was successful'' @ [newline], s(key \<mapsto> val)))
        else if command = ''GET'' then
          (case s key of
             None \<Rightarrow> (''Get command was successful but key dont exist'' @ [newline], s)
           | Some v \<Rightarrow> (''Get command was successful: '' @ v @ [newline], s))
        else if command = ''DELETE'' then
          (''Delete command was successful'' @ [newline], s(key := None))
        else (''No command was received'' @ [newline], s))"

text \<open>What is read into an empty string is a word, or the stream has failed for good.\<close>

lemma read_word_cases:
  assumes "read_word '''' iss = (w, iss')"
  shows "word w \<or> w = '''' \<and> failbit iss'"
  using read_word_result[of "''''" iss] assms by auto

lemma words3_words:
  assumes "words3 m = (c, k, v)"
  shows "(word k \<or> k = []) \<and> (v = [] \<or> word k \<and> word v)"
proof -
  obtain s1 where 1: "read_word '''' (istringstream m) = (c, s1)"
    using assms by (auto simp: words3_def split: prod.splits)
  obtain s2 where 2: "read_word '''' s1 = (k, s2)"
    using assms 1 by (auto simp: words3_def split: prod.splits)
  obtain s3 where 3: "read_word '''' s2 = (v, s3)"
    using assms 1 2 by (auto simp: words3_def split: prod.splits)
  show ?thesis
  proof (cases "word k")
    case True
    then show ?thesis using read_word_cases[OF 3] by blast
  next
    case False
    then have "k = []" "failbit s2" using read_word_cases[OF 2] by auto
    then have "v = []" using 3 read_word_failed[of s2] by simp
    with \<open>k = []\<close> show ?thesis by simp
  qed
qed

lemma execute_command_words:
  "execute_command message d =
     (case words3 message of (command, key, val) \<Rightarrow>
        if command = ''INSERT'' then
          if val = [] then Some (''Empty Value Recieved, Try again'' @ [newline], d)
          else map_option (\<lambda>d'. (''Insert command was successful'' @ [newline], d')) (db_insert key val d)
        else if command = ''GET'' then
          map_option (\<lambda>r.
              (if r \<noteq> [] then ''Get command was successful: '' @ r @ [newline]
               else ''Get command was successful but key dont exist'' @ [newline], d))
            (HashMap_get (fst d) key)
        else if command = ''DELETE'' then
          map_option (\<lambda>d'. (''Delete command was successful'' @ [newline], d')) (db_delete key d)
        else Some (''No command was received'' @ [newline], d))"
  by (simp add: execute_command_def words3_def split_beta Let_def)

lemma execute_command_sim:
  assumes "db_inv d"
  shows "\<exists>d'. execute_command message d = Some (fst (respond message (db_store d)), d') \<and>
    db_inv d' \<and> db_store d' = snd (respond message (db_store d))"
proof -
  obtain c k v where w: "words3 message = (c, k, v)" by (cases "words3 message")
  have ok: "word k \<or> k = []" "v = [] \<or> word k \<and> word v" using words3_words[OF w] by auto
  obtain m p where d: "d = (m, p)" "HashMap_inv m" "clean_store (HashMap_map m)"
    using assms by (rule db_invE)
  have get: "HashMap_get (fst d) k = Some (value_or_empty (db_store d) k)"
    using hm.get[OF d(2)] by (simp add: d(1) db_store_def)
  have ne: "db_store d k \<noteq> Some []"
    using d(3) by (auto simp: d(1) db_store_def clean_store_def word_def)
  consider (ins) "c = ''INSERT''" | (get) "c = ''GET''" | (del) "c = ''DELETE''"
    | (other) "c \<notin> {''INSERT'', ''GET'', ''DELETE''}" by blast
  then show ?thesis
  proof cases
    case ins
    show ?thesis
    proof (cases "v = []")
      case True
      then show ?thesis using ins assms by (simp add: execute_command_words w respond_def)
    next
      case False
      then obtain d' where "db_insert k v d = Some d'" "db_inv d'" "db_store d' = (db_store d)(k \<mapsto> v)"
        using db_insert_sim[OF assms] ok by blast
      then show ?thesis using ins False by (simp add: execute_command_words w respond_def)
    qed
  next
    case get
    then show ?thesis using \<open>HashMap_get (fst d) k = _\<close> ne assms
      by (cases "db_store d k") (simp_all add: execute_command_words w respond_def value_or_empty_def)
  next
    case del
    obtain d' where "db_delete k d = Some d'" "db_inv d'" "db_store d' = (db_store d)(k := None)"
      using db_delete_sim[OF assms] ok by blast
    then show ?thesis using del by (simp add: execute_command_words w respond_def)
  next
    case other
    then show ?thesis using assms by (simp add: execute_command_words w respond_def)
  qed
qed

end
