(* ===== verification/Server_Correct.thy ===== *)
theory Server_Correct
  imports Server
begin

text \<open>
  What the server keeps and promises: the step relation whose steps are whole rounds of its
  threads (a handler, a snapshot, a round of a loop) and its invariant, the refinement of the command protocol by the handler, the fate of a socket
  on every path of the handler, fragmentation, and the reuse of a socket number.
\<close>

subsection \<open>The invariant\<close>

definition table_ok :: "Server \<Rightarrow> bool" where
  "table_ok S \<longleftrightarrow>
     (\<forall>s c. connections S s = Some c \<longrightarrow>
        c < length (conn_objects S) \<and> conn_socket (conn_objects S ! c) = s \<and>
        length (commandBuffer (conn_objects S ! c)) \<le> MAX_COMMAND_BUFFER_LENGTH \<and>
        newline \<notin> set (commandBuffer (conn_objects S ! c)))"

definition server_inv :: "Server \<Rightarrow> bool" where
  "server_inv S \<longleftrightarrow>
     db_inv (hashMap S, pers S) \<and> table_ok S \<and>
     (\<forall>c \<in> set (tpool_jobs S). c < length (conn_objects S))"

definition server_store :: "Server \<Rightarrow> string \<rightharpoonup> string" where
  "server_store S = db_store (hashMap S, pers S)"

lemma server_invE:
  assumes "server_inv S"
  obtains "db_inv (hashMap S, pers S)" "table_ok S" "\<forall>c \<in> set (tpool_jobs S). c < length (conn_objects S)"
  using assms by (simp add: server_inv_def)

lemma table_okD:
  assumes "table_ok S" and "connections S s = Some c"
  shows "c < length (conn_objects S)" "conn_socket (conn_objects S ! c) = s"
    "length (commandBuffer (conn_objects S ! c)) \<le> MAX_COMMAND_BUFFER_LENGTH"
    "newline \<notin> set (commandBuffer (conn_objects S ! c))"
  using assms by (auto simp: table_ok_def)

text \<open>Fewer connections over the same objects keep the table.\<close>

lemma table_ok_fewer:
  assumes "table_ok S" and "conn_objects S' = conn_objects S"
    and "\<And>s c. connections S' s = Some c \<Longrightarrow> connections S s = Some c"
  shows "table_ok S'"
  using assms unfolding table_ok_def by metis

lemma server_inv_fewer:
  assumes "server_inv S" and "conn_objects S' = conn_objects S"
    and "\<And>s c. connections S' s = Some c \<Longrightarrow> connections S s = Some c"
    and "db_inv (hashMap S', pers S')"
    and "set (tpool_jobs S') \<subseteq> set (tpool_jobs S)"
  shows "server_inv S'"
  using assms(1,2,4,5) table_ok_fewer[OF _ assms(2,3)] by (auto simp: server_inv_def)

lemma closeConnection_inv: "server_inv S \<Longrightarrow> server_inv (closeConnection s S)"
  by (rule server_inv_fewer) (auto simp: frame_simps server_inv_def split: if_splits)

lemma rearmSocket_inv: "server_inv S \<Longrightarrow> server_inv (rearmSocket r s S)"
  by (rule server_inv_fewer) (auto simp: frame_simps server_inv_def split: if_splits)

lemma log_call_inv: "server_inv S \<Longrightarrow> server_inv (log_call c S)"
  by (rule server_inv_fewer) (auto simp: frame_simps server_inv_def)

text \<open>A new buffer of a connection that the table accepts.\<close>

lemma set_buffer_inv:
  assumes "server_inv S" and "length b \<le> MAX_COMMAND_BUFFER_LENGTH" and "newline \<notin> set b"
  shows "server_inv (set_buffer c b S)"
proof -
  have "table_ok (set_buffer c b S)"
  proof (unfold table_ok_def, intro allI impI)
    fix s c' assume "connections (set_buffer c b S) s = Some c'"
    then have c': "connections S s = Some c'" by (simp add: frame_simps)
    note ok = table_okD[OF _ c']
    have t: "table_ok S" using assms(1) by (simp add: server_inv_def)
    show "c' < length (conn_objects (set_buffer c b S)) \<and>
        conn_socket (conn_objects (set_buffer c b S) ! c') = s \<and>
        length (commandBuffer (conn_objects (set_buffer c b S) ! c')) \<le> MAX_COMMAND_BUFFER_LENGTH \<and>
        newline \<notin> set (commandBuffer (conn_objects (set_buffer c b S) ! c'))"
      using ok[OF t] assms(2,3) by (cases "c' = c") (simp_all add: frame_simps)
  qed
  with assms(1) show ?thesis by (simp add: server_inv_def frame_simps)
qed

text \<open>The buffer of a connection that is closed at once may be anything.\<close>

lemma set_buffer_close_inv:
  assumes "server_inv S" and "c < length (conn_objects S)"
  shows "server_inv (closeConnection (conn_socket (conn_objects S ! c)) (set_buffer c b S))"
proof -
  let ?s = "conn_socket (conn_objects S ! c)"
  have t: "table_ok S" using assms(1) by (simp add: server_inv_def)
  have "table_ok (closeConnection ?s (set_buffer c b S))"
  proof (unfold table_ok_def, intro allI impI)
    fix s c' assume "connections (closeConnection ?s (set_buffer c b S)) s = Some c'"
    then have c': "connections S s = Some c'" "s \<noteq> ?s" by (auto simp: frame_simps split: if_splits)
    note ok = table_okD[OF t c'(1)]
    have "c' \<noteq> c" using ok(2) c'(2) by blast
    with ok show "c' < length (conn_objects (closeConnection ?s (set_buffer c b S))) \<and>
        conn_socket (conn_objects (closeConnection ?s (set_buffer c b S)) ! c') = s \<and>
        length (commandBuffer (conn_objects (closeConnection ?s (set_buffer c b S)) ! c'))
          \<le> MAX_COMMAND_BUFFER_LENGTH \<and>
        newline \<notin> set (commandBuffer (conn_objects (closeConnection ?s (set_buffer c b S)) ! c'))"
      by (simp add: frame_simps)
  qed
  with assms(1) show ?thesis by (simp add: server_inv_def frame_simps)
qed

subsection \<open>The handler\<close>

lemma set_buffer_twice: "set_buffer c b (set_buffer c b' S) = set_buffer c b S"
proof (cases "c < length (conn_objects S)")
  case True
  then show ?thesis by (simp add: set_buffer_def)
next
  case False
  then show ?thesis by (simp add: set_buffer_def list_update_beyond)
qed

text \<open>A complete message: the handler is the protocol.\<close>

lemma messageHandler_command:
  assumes "server_inv S" and "buffer = commandBuffer (conn_objects S ! c) @ bytes"
    and "length buffer \<le> MAX_COMMAND_BUFFER_LENGTH" and "newline \<in> set buffer"
  shows "\<exists>S'. messageHandler (Received bytes) rearmed now c S = Some S' \<and> server_inv S' \<and>
    server_store S' = snd (respond buffer (server_store S)) \<and>
    conn_objects S' = conn_objects (set_buffer c '''' S) \<and>
    connections S' = connections (rearmSocket rearmed (conn_socket (conn_objects S ! c)) S) \<and>
    calls S' = calls S @ Send (conn_socket (conn_objects S ! c)) (fst (respond buffer (server_store S)))
      # EL_Rearm (conn_socket (conn_objects S ! c))
      # (if rearmed then [] else [EL_Remove (conn_socket (conn_objects S ! c)),
           Close (conn_socket (conn_objects S ! c))])"
proof -
  let ?s = "conn_socket (conn_objects S ! c)" and ?k = "conn_sessionKey (conn_objects S ! c)"
  have d: "db_inv (hashMap S, pers S)" using assms(1) by (simp add: server_inv_def)
  obtain m p where e: "execute_command buffer (hashMap S, pers S)
        = Some (fst (respond buffer (server_store S)), m, p)" "db_inv (m, p)"
      "db_store (m, p) = snd (respond buffer (server_store S))"
    using execute_command_sim[OF d, of buffer] by (auto simp: server_store_def)
  let ?S3 = "set_buffer c '''' ((set_buffer c buffer S)\<lparr>userSessionManager :=
      update_activity ?k now (userSessionManager (set_buffer c buffer S))\<rparr>)"
  let ?S4 = "?S3\<lparr>hashMap := m, pers := p\<rparr>"
  let ?S' = "rearmSocket rearmed ?s (log_call (Send ?s (fst (respond buffer (server_store S)))) ?S4)"
  have h: "hashMap ?S3 = hashMap S" "pers ?S3 = pers S" by (simp_all add: frame_simps)
  have r: "messageHandler (Received bytes) rearmed now c S = Some ?S'"
    using assms(3,4) e(1) h by (simp add: messageHandler_def assms(2)[symmetric] Let_def not_less del: length_append set_append)
  have o: "conn_objects ?S4 = conn_objects (set_buffer c '''' S)"
    using arg_cong[OF set_buffer_twice[of c "''''" buffer S], of conn_objects]
    by (simp add: set_buffer_def)
  have "server_inv (set_buffer c '''' S)"
    by (rule set_buffer_inv[OF assms(1)]) simp_all
  then have "server_inv ?S4"
    by (rule server_inv_fewer) (use e(2) o in \<open>simp_all add: frame_simps\<close>)
  then have i: "server_inv ?S'" by (intro rearmSocket_inv log_call_inv)
  show ?thesis
    using r i e(3) o
    by (intro exI[of _ ?S']) (auto simp: frame_simps server_store_def db_store_def)
qed

lemma messageHandler_inv:
  assumes "server_inv S" and "c < length (conn_objects S)"
  shows "\<exists>S'. messageHandler received rearmed now c S = Some S' \<and> server_inv S'"
proof (cases received)
  case (Received bytes)
  let ?b = "commandBuffer (conn_objects S ! c) @ bytes"
  consider (long) "length ?b > MAX_COMMAND_BUFFER_LENGTH"
    | (part) "length ?b \<le> MAX_COMMAND_BUFFER_LENGTH" "newline \<notin> set ?b"
    | (full) "length ?b \<le> MAX_COMMAND_BUFFER_LENGTH" "newline \<in> set ?b" by linarith
  then show ?thesis
  proof cases
    case long
    then show ?thesis using set_buffer_close_inv[OF assms] Received
      by (simp add: messageHandler_def Let_def)
  next
    case part
    then show ?thesis using rearmSocket_inv[OF set_buffer_inv[OF assms(1) part]] Received
      by (simp add: messageHandler_def Let_def)
  next
    case full
    then show ?thesis using messageHandler_command[OF assms(1) refl full] Received by blast
  qed
qed (use closeConnection_inv[OF assms(1)] rearmSocket_inv[OF assms(1)] in \<open>simp_all add: messageHandler_def Let_def\<close>)

subsection \<open>The other steps\<close>

lemma fold_closeConnection_inv: "server_inv S \<Longrightarrow> server_inv (fold closeConnection ss S)"
  by (induction ss arbitrary: S) (simp_all add: closeConnection_inv)

lemma onSessionExpired_inv: "server_inv S \<Longrightarrow> server_inv (onSessionExpired s S)"
  by (rule server_inv_fewer) (auto simp: onSessionExpired_def server_inv_def)

lemma close_expired_inv: "server_inv S \<Longrightarrow> server_inv (close_expired S)"
  unfolding close_expired_def
  by (rule fold_closeConnection_inv, rule server_inv_fewer) (auto simp: server_inv_def)

lemma dispatch_event_inv:
  assumes "server_inv S"
  shows "server_inv (dispatch_event e S)"
proof (cases "entry_event e = Readable \<and> connections S (entry_socket e) \<noteq> None")
  case True
  then obtain c where c: "connections S (entry_socket e) = Some c" by blast
  have t: "table_ok S" using assms by (simp add: server_inv_def)
  have "table_ok (S\<lparr>tpool_jobs := tpool_jobs S @ [c]\<rparr>)"
    using t by (rule table_ok_fewer) simp_all
  then show ?thesis
    using assms True c table_okD(1)[OF t c] by (auto simp: dispatch_event_def server_inv_def)
next
  case False
  then show ?thesis using assms closeConnection_inv[OF assms]
    by (auto simp: dispatch_event_def split: option.split)
qed

lemma runEventLoop_round_inv:
  assumes "server_inv S"
  shows "server_inv (runEventLoop_round waited S)"
proof -
  have "server_inv (fold dispatch_event es S')" if "server_inv S'" for es S'
    using that by (induction es arbitrary: S') (simp_all add: dispatch_event_inv)
  then show ?thesis using close_expired_inv[OF assms] assms
    by (auto simp: runEventLoop_round_def Let_def split: option.split)
qed

lemma cleanup_inv:
  "server_inv (snd (cleanup_expired_sessions (Some onSessionExpired) order (M, S)))" if "server_inv S"
  using that
  by (induction "Some onSessionExpired" order "(M, S)" arbitrary: M S
      rule: cleanup_expired_sessions.induct)
     (auto simp: onSessionExpired_inv Let_def split: option.split)

lemma Server_stop_inv:
  assumes "server_inv S"
  shows "server_inv (Server_stop order S)"
proof -
  have f: "hashMap (fold (\<lambda>sock. log_call (Close sock)) order S') = hashMap S' \<and>
      pers (fold (\<lambda>sock. log_call (Close sock)) order S') = pers S' \<and>
      tpool_jobs (fold (\<lambda>sock. log_call (Close sock)) order S') = tpool_jobs S' \<and>
      conn_objects (fold (\<lambda>sock. log_call (Close sock)) order S') = conn_objects S'" for S'
    by (induction order arbitrary: S') (simp_all add: frame_simps)
  show ?thesis
    using assms
    by (intro server_inv_fewer[OF assms]) (auto simp: Server_stop_def frame_simps f Let_def server_inv_def)
qed

lemma table_ok_add:
  assumes "table_ok S" and "conn_objects S' = conn_objects S @ [conn]" and "conn_socket conn = s"
    and "commandBuffer conn = ''''" and "connections S' = (connections S)(s \<mapsto> length (conn_objects S))"
  shows "table_ok S'"
proof (unfold table_ok_def, intro allI impI)
  fix s' c assume "connections S' s' = Some c"
  then have "c = length (conn_objects S) \<and> s' = s \<or> connections S s' = Some c"
    using assms(5) by (auto split: if_splits)
  then show "c < length (conn_objects S') \<and> conn_socket (conn_objects S' ! c) = s' \<and>
      length (commandBuffer (conn_objects S' ! c)) \<le> MAX_COMMAND_BUFFER_LENGTH \<and>
      newline \<notin> set (commandBuffer (conn_objects S' ! c))"
    using table_okD[OF assms(1), of s' c] assms(2,3,4) by (auto simp: nth_append)
qed

lemma acceptClients_round_inv:
  assumes "server_inv S"
  shows "server_inv (fst (acceptClients_round a S))"
proof -
  have same: "server_inv S'"
    if "conn_objects S' = conn_objects S" "connections S' = connections S" "hashMap S' = hashMap S"
      "pers S' = pers S" "tpool_jobs S' = tpool_jobs S" for S'
    by (rule server_inv_fewer[OF assms that(1)]) (use assms that in \<open>simp_all add: server_inv_def\<close>)
  have new: "server_inv S'"
    if "conn_objects S' = conn_objects S @ [\<lparr>conn_socket = s, conn_sessionKey = k, commandBuffer = ''''\<rparr>]"
      "connections S' = (connections S)(s \<mapsto> length (conn_objects S))" "hashMap S' = hashMap S"
      "pers S' = pers S" "tpool_jobs S' = tpool_jobs S" for S' s k
    using assms that table_ok_add[of S S' _ s, OF _ that(1)] by (auto simp: server_inv_def)
  obtain allowed rt' where al: "isAllowed (sin_addr (acc_addr a)) (acc_now_global a)
      (acc_now_private a) (rt S) = (allowed, rt')" by (cases "isAllowed (sin_addr (acc_addr a))
      (acc_now_global a) (acc_now_private a) (rt S)")
  obtain k usm where us: "add_session (acc_socket a) (acc_addr a) default_max_idle
      (acc_now_session a) (userSessionManager S) = (k, usm)"
    by (cases "add_session (acc_socket a) (acc_addr a) default_max_idle
      (acc_now_session a) (userSessionManager S)")
  show ?thesis
  proof (cases "running S \<and> acc_socket a \<noteq> INVALID_SOCKET \<and> allowed \<and> acc_still_running a \<and> acc_nonblocking a")
    case True
    then show ?thesis
      by (intro new[where s = "acc_socket a" and k = k])
         (simp_all add: acceptClients_round_def al us frame_simps Let_def)
  next
    case False
    then show ?thesis
      by (intro same) (auto simp: acceptClients_round_def al us frame_simps Let_def)
  qed
qed

subsection \<open>The step relation\<close>

text \<open>
  The threads' actions, each taken as one step: a pool thread runs a queued job, the main
  thread accepts, the event-loop thread does a round, the background worker cleans up, the
  scheduler takes a snapshot, and the server is stopped.
\<close>

inductive server_step :: "Server \<Rightarrow> Server \<Rightarrow> bool" where
  step_job: "server_step S S'"
    if "c \<in> set (tpool_jobs S)"
      "messageHandler received rearmed now c (S\<lparr>tpool_jobs := remove1 c (tpool_jobs S)\<rparr>) = Some S'"
| step_accept: "server_step S (fst (acceptClients_round a S))"
| step_event_loop: "server_step S (runEventLoop_round waited S)"
| step_cleanup: "server_step S (S'\<lparr>userSessionManager := M\<rparr>)"
    if "cleanup_expired_sessions (Some onSessionExpired) order (userSessionManager S, S) = (M, S')"
| step_snapshot: "server_step S (S\<lparr>pers := p\<rparr>)"
    if "createSnapshot True True True (hashMap S) (pers S) = Some (p, None)"
| step_stop: "server_step S (Server_stop order S)"

inductive_cases server_stepE: "server_step S S'"

text \<open>The state after the constructor and \<open>start\<close> on files that a server left.\<close>

definition server_started :: "Server \<Rightarrow> bool" where
  "server_started S \<longleftrightarrow>
     (\<exists>raw files now sock S0. Server_new raw files True now sock = Some (Inr S0) \<and>
        clean_store (disk_store files) \<and>
        (case aof_file files of None \<Rightarrow> True | Some f \<Rightarrow> newline_ended f) \<and>
        Server_start True True True True S0 = Some (Inr S))"

lemma server_start_inv:
  assumes "Server_new raw files True now sock = Some (Inr S0)"
    and "clean_store (disk_store files)"
    and "case aof_file files of None \<Rightarrow> True | Some f \<Rightarrow> newline_ended f"
  shows "\<exists>S. Server_start True True True True S0 = Some (Inr S) \<and> server_inv S \<and>
    server_store S = disk_store files"
proof -
  obtain m where m: "HashMap_new raw 100 = Some m"
    using assms(1) by (auto simp: Server_new_def bind_eq_Some_conv)
  obtain p where p: "Persistence_new True files = Inr p"
    by (simp add: Persistence_new_def)
  have S0: "hashMap S0 = m" "pers S0 = p" "connections S0 = Map.empty" "tpool_jobs S0 = []"
    using assms(1) m p by (auto simp: Server_new_def split: if_splits)
  obtain d where "db_start raw 100 files = Some (Inr d)" "db_inv d" "db_store d = disk_store files"
    using db_start_store[OF _ assms(2,3), of 100 raw] by auto
  moreover from this(1) obtain r where "loadDataOnStartup True True p m = Some r"
      "map_sum (\<lambda>e. e) (\<lambda>m'. (m', p)) r = Inr d"
    using m p by (auto simp: db_start_def)
  ultimately obtain m' where "loadDataOnStartup True True p m = Some (Inr m')" "d = (m', p)"
      "db_inv d" "db_store d = disk_store files"
    by (cases r) auto
  then show ?thesis
    using S0
    by (auto simp: Server_start_def server_inv_def server_store_def table_ok_def)
qed

lemma Server_start_result:
  assumes "Server_start b l r a S0 = Some (Inr S)"
  shows "\<exists>m. S = S0\<lparr>hashMap := m\<rparr>"
proof -
  obtain x where "(case x of Inl e \<Rightarrow> Inl (PersistenceError e) | Inr m \<Rightarrow> Inr (S0\<lparr>hashMap := m\<rparr>)) = Inr S"
    using assms by (auto simp: Server_start_def split: if_splits)
  then show ?thesis by (cases x) auto
qed

lemma server_step_inv:
  assumes "server_step S S'" and "server_inv S"
  shows "server_inv S'"
  using assms(1)
proof cases
  case (step_job c received rearmed now)
  let ?S = "S\<lparr>tpool_jobs := remove1 c (tpool_jobs S)\<rparr>"
  have i: "server_inv ?S"
    by (rule server_inv_fewer[OF assms(2)])
       (use assms(2) in \<open>auto simp: server_inv_def dest: subsetD[OF set_remove1_subset]\<close>)
  have "c < length (conn_objects ?S)" using step_job(1) assms(2) by (simp add: server_inv_def)
  from messageHandler_inv[OF i this, of received rearmed now] step_job(2) show ?thesis by auto
next
  case (step_cleanup order M S1)
  have "server_inv S1" using cleanup_inv[OF assms(2), of order "userSessionManager S"] step_cleanup(2) by simp
  then show ?thesis unfolding step_cleanup(1)
    by (rule server_inv_fewer) (use \<open>server_inv S1\<close> in \<open>auto simp: server_inv_def\<close>)
next
  case (step_snapshot p)
  have "db_snapshot (hashMap S, pers S) = Some (hashMap S, p)"
    using step_snapshot(2) by (simp add: db_snapshot_def)
  then have "db_inv (hashMap S, p)"
    using db_snapshot_sim[of "(hashMap S, pers S)"] assms(2) by (auto simp: server_inv_def)
  then show ?thesis unfolding step_snapshot(1)
    by (intro server_inv_fewer[OF assms(2)]) simp_all
qed (use assms(2) in \<open>simp_all add: acceptClients_round_inv runEventLoop_round_inv Server_stop_inv\<close>)

lemma server_steps_inv: "server_step\<^sup>*\<^sup>* S S' \<Longrightarrow> server_inv S \<Longrightarrow> server_inv S'"
  by (induction rule: rtranclp_induct) (auto intro: server_step_inv)

lemma server_started_inv: "server_started S \<Longrightarrow> server_inv S"
  using server_start_inv by (fastforce simp: server_started_def)

lemma server_started_fresh:
  assumes "server_started S"
  shows "calls S = []" "conn_objects S = []" "tpool_jobs S = []" "connections S = Map.empty"
    "expiredSockets S = []" "users_sessions (userSessionManager S) = Map.empty"
proof -
  obtain raw files now sock S' where n: "Server_new raw files True now sock = Some (Inr S')"
      "Server_start True True True True S' = Some (Inr S)"
    using assms by (auto simp: server_started_def)
  obtain m where m: "S = S'\<lparr>hashMap := m\<rparr>" using Server_start_result[OF n(2)] by blast
  have "calls S' = [] \<and> conn_objects S' = [] \<and> tpool_jobs S' = [] \<and> connections S' = Map.empty \<and>
      expiredSockets S' = [] \<and> users_sessions (userSessionManager S') = Map.empty"
    using n(1) by (auto simp: Server_new_def Persistence_new_def UserSessionManager_new_def
        bind_eq_Some_conv split: if_splits)
  then show "calls S = []" "conn_objects S = []" "tpool_jobs S = []" "connections S = Map.empty"
    "expiredSockets S = []" "users_sessions (userSessionManager S) = Map.empty"
    by (simp_all add: m)
qed

text \<open>Files of a server, closed or not, are the start of the next.\<close>

lemma Server_new_ok: "sock \<noteq> -1 \<Longrightarrow> \<exists>S. Server_new raw files True now sock = Some (Inr S)"
  using HashMap_new_store[of 100 raw] by (auto simp: Server_new_def Persistence_new_def INVALID_SOCKET_def)

lemma server_starts_again:
  assumes i: "server_inv S" and "sock \<noteq> -1"
    and f: "disk_store files = disk_store (pers S)" "aof_file files = aof_file (pers S)"
  shows "\<exists>S1 S2. Server_new raw files True now sock = Some (Inr S1) \<and>
    Server_start True True True True S1 = Some (Inr S2) \<and> server_inv S2 \<and> server_store S2 = server_store S"
proof -
  have d: "db_inv (hashMap S, pers S)" using i by (rule server_invE)
  have ok: "clean_store (disk_store files)" "case aof_file files of None \<Rightarrow> True | Some g \<Rightarrow> newline_ended g"
    and m: "disk_store files = server_store S"
    using d f by (auto simp: db_inv_def server_store_def db_store_def elim!: pers_okE)
  obtain S1 where S1: "Server_new raw files True now sock = Some (Inr S1)"
    using Server_new_ok[OF assms(2)] by blast
  from server_start_inv[OF S1 ok] S1 m show ?thesis by auto
qed

subsection \<open>Properties\<close>

text \<open>
  In every state between whole rounds of the threads, memory and disk describe the same
  store, every connection in the table is found under its own socket, and its buffer holds
  at most 2024 bytes of an unfinished command.
\<close>

theorem server_reachable_inv:
  assumes "server_started S0" and "server_step\<^sup>*\<^sup>* S0 S"
  shows "disk_store (pers S) = HashMap_map (hashMap S) \<and> HashMap_inv (hashMap S) \<and>
    (\<forall>s c. connections S s = Some c \<longrightarrow> conn_socket (conn_objects S ! c) = s \<and>
       length (commandBuffer (conn_objects S ! c)) \<le> 2024 \<and>
       newline \<notin> set (commandBuffer (conn_objects S ! c)))"
proof -
  have i: "server_inv S" using server_steps_inv[OF assms(2)] server_started_inv[OF assms(1)] by blast
  have "table_ok S" using i by (simp add: server_inv_def)
  from table_okD(2-4)[OF this] i show ?thesis
    by (auto simp: server_inv_def db_inv_def MAX_COMMAND_BUFFER_LENGTH_def)
qed

text \<open>A server that has just started on an empty directory, for the examples.\<close>

lemma example_server:
  obtains S where "server_started S" "server_inv S" "server_store S = Map.empty"
    "running S" "connections S = Map.empty" "conn_objects S = []" "calls S = []"
    "userSessionManager S = UserSessionManager_new" "expiredSockets S = []"
    "rt S = RateLimiter_new 0 10 5 1000"
proof -
  let ?f = "\<lparr>aof_stream_open = False, aof_file = None, rdb_file = None\<rparr> :: Persistence"
  obtain m where m: "HashMap_new (\<lambda>_. None) 100 = Some m" using HashMap_new_store[of 100 "\<lambda>_. None"] by auto
  obtain p where p: "Persistence_new True ?f = Inr p" by (simp add: Persistence_new_def)
  let ?S0 = "\<lparr>serverSocket = 3, running = True, hashMap = m, pers = p, tpool_jobs = [],
      rt = RateLimiter_new 0 10 5 1000, userSessionManager = UserSessionManager_new,
      conn_objects = [], connections = Map.empty, expiredSockets = [], calls = []\<rparr>"
  have n: "Server_new (\<lambda>_. None) ?f True 0 3 = Some (Inr ?S0)"
    by (simp add: Server_new_def m p INVALID_SOCKET_def)
  have d: "disk_store ?f = Map.empty" by (simp add: disk_store_def file_ops_def)
  obtain S where S: "Server_start True True True True ?S0 = Some (Inr S)" "server_inv S"
      "server_store S = disk_store ?f"
    using server_start_inv[OF n] d by (auto simp: clean_store_def)
  then obtain m' where "S = ?S0\<lparr>hashMap := m'\<rparr>"
    using Server_start_result by blast
  moreover have "clean_store (disk_store ?f)" by (simp only: d clean_store_def) simp
  moreover have "case aof_file ?f of None \<Rightarrow> True | Some g \<Rightarrow> newline_ended g" by simp
  then have "server_started S"
    using n S(1) \<open>clean_store (disk_store ?f)\<close> unfolding server_started_def by blast
  ultimately show thesis using S d by (intro that[of S]) simp_all
qed

theorem server_reachable_inv_witness:
  "\<exists>S. server_started S \<and> disk_store (pers (runEventLoop_round None S))
     = HashMap_map (hashMap (runEventLoop_round None S))"
proof -
  obtain S where S: "server_started S" by (rule example_server)
  have "server_step\<^sup>*\<^sup>* S (runEventLoop_round None S)" by (intro r_into_rtranclp step_event_loop)
  from server_reachable_inv[OF S this] S show ?thesis by blast
qed

text \<open>
  The files of a server that has run any steps restart into a server that
  answers every lookup as the old one did.
\<close>

theorem server_restart_keeps_store:
  assumes "server_started S0" and "server_step\<^sup>*\<^sup>* S0 S" and "sock \<noteq> -1"
  shows "\<exists>S1 S2. Server_new raw (Persistence_destroy (pers S)) True now sock = Some (Inr S1) \<and>
    Server_start True True True True S1 = Some (Inr S2) \<and> server_inv S2 \<and>
    (\<forall>k. HashMap_get (hashMap S2) k = HashMap_get (hashMap S) k)"
proof -
  have i: "server_inv S" using server_steps_inv[OF assms(2)] server_started_inv[OF assms(1)] by blast
  have f: "disk_store (Persistence_destroy (pers S)) = disk_store (pers S)"
      "aof_file (Persistence_destroy (pers S)) = aof_file (pers S)"
    by (simp_all add: Persistence_destroy_def disk_store_def)
  obtain S1 S2 where S: "Server_new raw (Persistence_destroy (pers S)) True now sock = Some (Inr S1)"
      "Server_start True True True True S1 = Some (Inr S2)" "server_inv S2" "server_store S2 = server_store S"
    using server_starts_again[OF i assms(3) f] by blast
  have "HashMap_get (hashMap S2) k = HashMap_get (hashMap S) k" for k
    using hm.get[of "hashMap S2" k] hm.get[of "hashMap S" k] S(3,4) i
    by (simp add: server_inv_def db_inv_def server_store_def db_store_def)
  with S show ?thesis by blast
qed

theorem server_restart_keeps_store_witness:
  "\<exists>S S1 S2. server_started S \<and>
     Server_new (\<lambda>_. None) (Persistence_destroy (pers S)) True 0 3 = Some (Inr S1) \<and>
     Server_start True True True True S1 = Some (Inr S2)"
proof -
  obtain S where S: "server_started S" by (rule example_server)
  from server_restart_keeps_store[OF S rtranclp.rtrancl_refl, of 3] S show ?thesis by fastforce
qed

text \<open>
  C12 (refinement). When the bytes received complete a message, the handler sends the
  response the protocol promises for the store, makes the promised change in memory and on
  disk, empties the buffer and re-arms the socket.
\<close>

theorem handler_refines_protocol:
  assumes "server_inv S" and "c < length (conn_objects S)"
    and "buffer = commandBuffer (conn_objects S ! c) @ bytes"
    and "length buffer \<le> 2024" and "newline \<in> set buffer"
  shows "\<exists>S'. messageHandler (Received bytes) True now c S = Some S' \<and>
    server_store S' = snd (respond buffer (server_store S)) \<and>
    disk_store (pers S') = snd (respond buffer (server_store S)) \<and>
    commandBuffer (conn_objects S' ! c) = '''' \<and>
    calls S' = calls S @ [Send (conn_socket (conn_objects S ! c)) (fst (respond buffer (server_store S))),
      EL_Rearm (conn_socket (conn_objects S ! c))]"
proof -
  obtain S' where S': "messageHandler (Received bytes) True now c S = Some S'" "server_inv S'"
      "server_store S' = snd (respond buffer (server_store S))"
      "conn_objects S' = conn_objects (set_buffer c '''' S)"
      "calls S' = calls S @ [Send (conn_socket (conn_objects S ! c)) (fst (respond buffer (server_store S))),
         EL_Rearm (conn_socket (conn_objects S ! c))]"
    using messageHandler_command[OF assms(1,3), of True now] assms(4,5)
    by (auto simp: MAX_COMMAND_BUFFER_LENGTH_def)
  have "disk_store (pers S') = server_store S'"
    using S'(2) by (simp add: server_inv_def db_inv_def server_store_def db_store_def)
  then show ?thesis using S' assms(2) by (simp add: frame_simps)
qed

text \<open>The same server with one client on socket 7.\<close>

lemma example_client:
  obtains S where "server_inv S" "server_store S = Map.empty" "calls S = []"
    "conn_objects S = [\<lparr>conn_socket = 7, conn_sessionKey = \<lparr>raw_ip = 1, raw_port = 2\<rparr>, commandBuffer = ''''\<rparr>]"
    "connections S = [7 \<mapsto> 0]" "running S" "expiredSockets S = []" "rt S = RateLimiter_new 0 10 5 1000"
proof -
  let ?c = "\<lparr>conn_socket = 7, conn_sessionKey = \<lparr>raw_ip = 1, raw_port = 2\<rparr>, commandBuffer = ''''\<rparr>"
  obtain S where S: "server_inv S" "server_store S = Map.empty" "running S" "connections S = Map.empty"
      "conn_objects S = []" "calls S = []" "expiredSockets S = []" "rt S = RateLimiter_new 0 10 5 1000"
    by (rule example_server)
  let ?S = "S\<lparr>conn_objects := [?c], connections := [7 \<mapsto> 0]\<rparr>"
  have "table_ok ?S"
    by (rule table_ok_add[of S _ ?c 7]) (use S in \<open>simp_all add: server_inv_def\<close>)
  then have "server_inv ?S" using S(1,5) by (auto simp: server_inv_def)
  then show thesis using S(2,3,6,7,8) by (intro that[of ?S]) (simp_all add: server_store_def)
qed

lemma respond_insert:
  assumes "word k" and "word v"
  shows "respond (log_line ''INSERT'' k v @ newline # r) s
    = (''Insert command was successful'' @ [newline], s(k \<mapsto> v))"
proof -
  have "words3 (log_line ''INSERT'' k v @ newline # r) = (''INSERT'', k, v)"
  proof -
    have 1: "read_word '''' (istringstream (log_line ''INSERT'' k v @ newline # r))
        = (''INSERT'', \<lparr>rest = CHR '' '' # k @ CHR '' '' # v @ newline # r, eofbit = False, failbit = False\<rparr>)"
      using read_next_word(2)[OF word_literals(1), of "''''" "k @ CHR '' '' # v @ newline # r"]
      by (simp add: istringstream_def log_line_def)
    have 2: "read_word '''' \<lparr>rest = CHR '' '' # k @ CHR '' '' # v @ newline # r, eofbit = False, failbit = False\<rparr>
        = (k, \<lparr>rest = CHR '' '' # v @ newline # r, eofbit = False, failbit = False\<rparr>)"
      by (rule read_next_word(1)[OF assms(1)])
    have 3: "read_word '''' \<lparr>rest = CHR '' '' # v @ newline # r, eofbit = False, failbit = False\<rparr>
        = (v, \<lparr>rest = newline # r, eofbit = False, failbit = False\<rparr>)"
      using read_word_good[of "\<lparr>rest = CHR '' '' # v @ newline # r, eofbit = False, failbit = False\<rparr>" v "newline # r"]
      by (simp add: assms(2) skip_word)
    show ?thesis by (simp add: words3_def 1 2 3)
  qed
  moreover have "v \<noteq> []" using assms(2) by (simp add: word_def)
  ultimately show ?thesis by (simp add: respond_def)
qed

theorem handler_refines_protocol_witness:
  "\<exists>S S'. connections S = [7 \<mapsto> 0] \<and>
     messageHandler (Received (log_line ''INSERT'' ''a'' ''1'' @ [newline])) True 0 0 S = Some S' \<and>
     disk_store (pers S') = [''a'' \<mapsto> ''1''] \<and>
     calls S' = [Send 7 (''Insert command was successful'' @ [newline]), EL_Rearm 7]"
proof -
  obtain S where S: "server_inv S" "server_store S = Map.empty" "calls S = []"
    "conn_objects S = [\<lparr>conn_socket = 7, conn_sessionKey = \<lparr>raw_ip = 1, raw_port = 2\<rparr>, commandBuffer = ''''\<rparr>]"
    "connections S = [7 \<mapsto> 0]" by (rule example_client)
  let ?b = "log_line ''INSERT'' ''a'' ''1'' @ [newline]"
  have w: "word ''a''" "word ''1''" by code_simp+
  have "length ?b \<le> 2024" by (simp add: log_line_def)
  then obtain S' where "messageHandler (Received ?b) True 0 0 S = Some S'"
      "disk_store (pers S') = snd (respond ?b (server_store S))"
      "calls S' = calls S @ [Send 7 (fst (respond ?b (server_store S))), EL_Rearm 7]"
    using handler_refines_protocol[OF S(1), of 0 ?b ?b 0] S(4) by auto
  then show ?thesis using S respond_insert[OF w, of "[]"] by (intro exI[of _ S] exI[of _ S']) simp
qed

lemma handler_outcome:
  assumes "server_inv S" and "c < length (conn_objects S)"
    and "s = conn_socket (conn_objects S ! c)"
    and "gives_up \<longleftrightarrow> received = Disconnected \<or> received = RecvError \<or>
      (\<exists>bytes. received = Received bytes \<and> length (commandBuffer (conn_objects S ! c) @ bytes) > 2024)"
  shows "\<exists>S' sends. messageHandler received rearmed now c S = Some S' \<and>
     (sends = [] \<or> (\<exists>r. sends = [Send s r]) \<and> \<not> gives_up) \<and>
     calls S' = calls S @ sends @
       (if gives_up then [EL_Remove s, Close s]
        else if rearmed then [EL_Rearm s] else [EL_Rearm s, EL_Remove s, Close s]) \<and>
     connections S' = (if gives_up \<or> \<not> rearmed then (connections S)(s := None) else connections S)"
proof (cases received)
  case (Received bytes)
  let ?b = "commandBuffer (conn_objects S ! c) @ bytes"
  consider (long) "length ?b > 2024" | (part) "length ?b \<le> 2024" "newline \<notin> set ?b"
    | (full) "length ?b \<le> 2024" "newline \<in> set ?b" by linarith
  then show ?thesis
  proof cases
    case long
    then show ?thesis using assms(3,4) Received
      by (intro exI[of _ "[]"] exI[of _ "closeConnection s (set_buffer c ?b S)"])
         (auto simp: messageHandler_def Let_def frame_simps MAX_COMMAND_BUFFER_LENGTH_def)
  next
    case part
    then show ?thesis using assms(3,4) Received
      by (intro exI[of _ "[]"] exI[of _ "rearmSocket rearmed s (set_buffer c ?b S)"])
         (auto simp: messageHandler_def Let_def frame_simps MAX_COMMAND_BUFFER_LENGTH_def)
  next
    case full
    then obtain S' where "messageHandler (Received bytes) rearmed now c S = Some S'"
        "connections S' = connections (rearmSocket rearmed s S)"
        "calls S' = calls S @ Send s (fst (respond ?b (server_store S))) # EL_Rearm s
          # (if rearmed then [] else [EL_Remove s, Close s])"
      using messageHandler_command[OF assms(1) refl, of c bytes rearmed now] assms(3)
      by (auto simp: MAX_COMMAND_BUFFER_LENGTH_def)
    then show ?thesis using full Received assms(4)
      by (intro exI[of _ S'] exI[of _ "[Send s (fst (respond ?b (server_store S)))]"])
         (auto simp: frame_simps)
  qed
qed (use assms(3,4) in \<open>auto simp: messageHandler_def Let_def frame_simps\<close>)

lemma handler_calls_shape:
  assumes "messageHandler received rearmed now c S = Some S'" and "server_inv S" and "c < length (conn_objects S)"
  shows "\<exists>sends cs. calls S' = calls S @ sends @ cs \<and>
    (sends = [] \<or> (\<exists>r. sends = [Send (conn_socket (conn_objects S ! c)) r])) \<and>
    set cs \<subseteq> {EL_Rearm (conn_socket (conn_objects S ! c)), EL_Remove (conn_socket (conn_objects S ! c)),
      Close (conn_socket (conn_objects S ! c))}"
proof -
  let ?s = "conn_socket (conn_objects S ! c)"
  let ?g = "received = Disconnected \<or> received = RecvError \<or>
      (\<exists>bytes. received = Received bytes \<and> length (commandBuffer (conn_objects S ! c) @ bytes) > 2024)"
  have o: "\<exists>S' sends. messageHandler received rearmed now c S = Some S' \<and>
     (sends = [] \<or> (\<exists>r. sends = [Send ?s r]) \<and> \<not> ?g) \<and>
     calls S' = calls S @ sends @
       (if ?g then [EL_Remove ?s, Close ?s] else if rearmed then [EL_Rearm ?s] else [EL_Rearm ?s, EL_Remove ?s, Close ?s]) \<and>
     connections S' = (if ?g \<or> \<not> rearmed then (connections S)(?s := None) else connections S)"
    by (rule handler_outcome[OF assms(2,3) refl refl])
  define tail where "tail = (if ?g then [EL_Remove ?s, Close ?s]
     else if rearmed then [EL_Rearm ?s] else [EL_Rearm ?s, EL_Remove ?s, Close ?s])"
  have "set tail \<subseteq> {EL_Rearm ?s, EL_Remove ?s, Close ?s}" by (simp add: tail_def)
  moreover obtain sends where "sends = [] \<or> (\<exists>r. sends = [Send ?s r])" "calls S' = calls S @ sends @ tail"
    using o assms(1) unfolding tail_def[symmetric] by auto
  ultimately show ?thesis by blast
qed

text \<open>
  C26 (safety). Every path of the handler settles the fate of its socket, as the header asks
  of it: after at most one response it is re-armed, and when that fails, and on every path
  that gives the client up, it is unregistered, closed and taken out of the table: no path
  leaves a client muted.
\<close>

theorem handler_settles_socket:
  assumes "server_inv S" and "c < length (conn_objects S)"
    and "s = conn_socket (conn_objects S ! c)"
    and "gives_up \<longleftrightarrow> received = Disconnected \<or> received = RecvError \<or>
      (\<exists>bytes. received = Received bytes \<and> length (commandBuffer (conn_objects S ! c) @ bytes) > 2024)"
  shows "\<exists>S' sends. messageHandler received rearmed now c S = Some S' \<and>
     (sends = [] \<or> (\<exists>r. sends = [Send s r]) \<and> \<not> gives_up) \<and>
     calls S' = calls S @ sends @
       (if gives_up then [EL_Remove s, Close s]
        else if rearmed then [EL_Rearm s] else [EL_Rearm s, EL_Remove s, Close s]) \<and>
     connections S' = (if gives_up \<or> \<not> rearmed then (connections S)(s := None) else connections S)"
  by (rule handler_outcome[OF assms])

theorem handler_settles_socket_witness:
  "\<exists>S S'. connections S = [7 \<mapsto> 0] \<and> messageHandler Disconnected True 0 0 S = Some S' \<and>
     calls S' = [EL_Remove 7, Close 7] \<and> connections S' = Map.empty"
proof -
  obtain S where S: "server_inv S" "server_store S = Map.empty" "calls S = []"
    "conn_objects S = [\<lparr>conn_socket = 7, conn_sessionKey = \<lparr>raw_ip = 1, raw_port = 2\<rparr>, commandBuffer = ''''\<rparr>]"
    "connections S = [7 \<mapsto> 0]" by (rule example_client)
  have "0 < length (conn_objects S)" "7 = conn_socket (conn_objects S ! 0)" using S(4) by simp_all
  from handler_settles_socket[OF S(1) this, of True Disconnected True 0] S(3,5)
  obtain S' where "messageHandler Disconnected True 0 0 S = Some S'"
    "calls S' = [EL_Remove 7, Close 7]" "connections S' = (connections S)(7 := None)" by auto
  then show ?thesis using S(5) by (intro exI[of _ S] exI[of _ S']) simp
qed

subsection \<open>Fragments and several commands in one piece\<close>

definition receive :: "nat \<Rightarrow> string \<times> int \<Rightarrow> Server \<Rightarrow> Server option" where
  "receive c x S = (case x of (bytes, now) \<Rightarrow> messageHandler (Received bytes) True now c S)"

lemma receive_part:
  assumes "server_inv S" and "c < length (conn_objects S)"
    and "length (commandBuffer (conn_objects S ! c) @ bytes) \<le> 2024"
    and "newline \<notin> set (commandBuffer (conn_objects S ! c) @ bytes)"
  shows "\<exists>S'. receive c (bytes, now) S = Some S' \<and> server_inv S' \<and>
     server_store S' = server_store S \<and> length (conn_objects S') = length (conn_objects S) \<and>
     conn_socket (conn_objects S' ! c) = conn_socket (conn_objects S ! c) \<and>
     commandBuffer (conn_objects S' ! c) = commandBuffer (conn_objects S ! c) @ bytes \<and>
     calls S' = calls S @ [EL_Rearm (conn_socket (conn_objects S ! c))]"
proof -
  let ?b = "commandBuffer (conn_objects S ! c) @ bytes" and ?s = "conn_socket (conn_objects S ! c)"
  let ?S' = "rearmSocket True ?s (set_buffer c ?b S)"
  have "receive c (bytes, now) S = Some ?S'"
    using assms(3,4) by (simp add: receive_def messageHandler_def Let_def MAX_COMMAND_BUFFER_LENGTH_def)
  moreover have "server_inv ?S'"
    using rearmSocket_inv[OF set_buffer_inv[OF assms(1)]] assms(3,4)
    by (simp add: MAX_COMMAND_BUFFER_LENGTH_def)
  ultimately show ?thesis
    using assms(2)
    by (intro exI[of _ ?S']) (simp add: frame_simps server_store_def)
qed

lemma receive_parts:
  assumes "server_inv S" and "c < length (conn_objects S)"
    and "length (commandBuffer (conn_objects S ! c) @ concat (map fst xs)) \<le> 2024"
    and "newline \<notin> set (commandBuffer (conn_objects S ! c) @ concat (map fst xs))"
  shows "\<exists>S'. run_ops (receive c) xs S = Some S' \<and> server_inv S' \<and>
     server_store S' = server_store S \<and> length (conn_objects S') = length (conn_objects S) \<and>
     conn_socket (conn_objects S' ! c) = conn_socket (conn_objects S ! c) \<and>
     commandBuffer (conn_objects S' ! c) = commandBuffer (conn_objects S ! c) @ concat (map fst xs) \<and>
     calls S' = calls S @ replicate (length xs) (EL_Rearm (conn_socket (conn_objects S ! c)))"
  using assms
proof (induction xs arbitrary: S)
  case Nil
  then show ?case by simp
next
  case (Cons x xs)
  obtain bytes now where x: "x = (bytes, now)" by (cases x)
  obtain S1 where S1: "receive c (bytes, now) S = Some S1" "server_inv S1"
      "server_store S1 = server_store S" "length (conn_objects S1) = length (conn_objects S)"
      "conn_socket (conn_objects S1 ! c) = conn_socket (conn_objects S ! c)"
      "commandBuffer (conn_objects S1 ! c) = commandBuffer (conn_objects S ! c) @ bytes"
      "calls S1 = calls S @ [EL_Rearm (conn_socket (conn_objects S ! c))]"
    using receive_part[OF Cons.prems(1,2), of bytes now] Cons.prems(3,4) by (auto simp: x)
  have "\<exists>S'. run_ops (receive c) xs S1 = Some S' \<and> server_inv S' \<and>
     server_store S' = server_store S1 \<and> length (conn_objects S') = length (conn_objects S1) \<and>
     conn_socket (conn_objects S' ! c) = conn_socket (conn_objects S1 ! c) \<and>
     commandBuffer (conn_objects S' ! c) = commandBuffer (conn_objects S1 ! c) @ concat (map fst xs) \<and>
     calls S' = calls S1 @ replicate (length xs) (EL_Rearm (conn_socket (conn_objects S1 ! c)))"
    by (rule Cons.IH[OF S1(2)]) (use Cons.prems(2-4) S1 in \<open>auto simp: x\<close>)
  then show ?case using S1 by (auto simp: x)
qed

text \<open>
  However a message is split into pieces, the handler answers once, when
  the newline arrives, with the response to the whole message, and changes the store as if
  the message had arrived in one piece.
\<close>

theorem fragments_are_reassembled:
  assumes "server_inv S" and "c < length (conn_objects S)"
    and "message = commandBuffer (conn_objects S ! c) @ concat (map fst xs) @ last_piece"
    and "length message \<le> 2024" and "newline \<in> set last_piece"
    and "newline \<notin> set (commandBuffer (conn_objects S ! c) @ concat (map fst xs))"
  shows "\<exists>S'. run_ops (receive c) (xs @ [(last_piece, now)]) S = Some S' \<and>
     server_store S' = snd (respond message (server_store S)) \<and>
     commandBuffer (conn_objects S' ! c) = '''' \<and>
     calls S' = calls S @ replicate (length xs) (EL_Rearm (conn_socket (conn_objects S ! c))) @
       [Send (conn_socket (conn_objects S ! c)) (fst (respond message (server_store S))),
        EL_Rearm (conn_socket (conn_objects S ! c))]"
proof -
  obtain S1 where S1: "run_ops (receive c) xs S = Some S1" "server_inv S1"
      "server_store S1 = server_store S" "length (conn_objects S1) = length (conn_objects S)"
      "conn_socket (conn_objects S1 ! c) = conn_socket (conn_objects S ! c)"
      "commandBuffer (conn_objects S1 ! c) = commandBuffer (conn_objects S ! c) @ concat (map fst xs)"
      "calls S1 = calls S @ replicate (length xs) (EL_Rearm (conn_socket (conn_objects S ! c)))"
    using receive_parts[OF assms(1,2), of xs] assms(3,4,6) by auto
  have m: "message = commandBuffer (conn_objects S1 ! c) @ last_piece" using S1(6) assms(3) by simp
  obtain S' where S': "messageHandler (Received last_piece) True now c S1 = Some S'"
      "server_store S' = snd (respond message (server_store S1))"
      "conn_objects S' = conn_objects (set_buffer c '''' S1)"
      "calls S' = calls S1 @ [Send (conn_socket (conn_objects S1 ! c))
          (fst (respond message (server_store S1))), EL_Rearm (conn_socket (conn_objects S1 ! c))]"
    using messageHandler_command[OF S1(2) m, of True now] assms(3-5)
    by (auto simp: MAX_COMMAND_BUFFER_LENGTH_def)
  then have "commandBuffer (conn_objects S' ! c) = ''''"
    using assms(2) S1(4) by (simp add: frame_simps)
  then show ?thesis using S1 S' by (simp add: run_ops_append receive_def)
qed

theorem fragments_are_reassembled_witness:
  "\<exists>S S'. connections S = [7 \<mapsto> 0] \<and>
     run_ops (receive 0) [(''INSERT a'', 1), ('' 1'' @ [newline], 2)] S = Some S' \<and>
     server_store S' = [''a'' \<mapsto> ''1''] \<and>
     calls S' = [EL_Rearm 7, Send 7 (''Insert command was successful'' @ [newline]), EL_Rearm 7]"
proof -
  obtain S where S: "server_inv S" "server_store S = Map.empty" "calls S = []"
    "conn_objects S = [\<lparr>conn_socket = 7, conn_sessionKey = \<lparr>raw_ip = 1, raw_port = 2\<rparr>, commandBuffer = ''''\<rparr>]"
    "connections S = [7 \<mapsto> 0]" by (rule example_client)
  let ?m = "log_line ''INSERT'' ''a'' ''1'' @ [newline]"
  have w: "word ''a''" "word ''1''" by code_simp+
  have "?m = commandBuffer (conn_objects S ! 0) @ concat (map fst [(''INSERT a'', 1 :: int)]) @ '' 1'' @ [newline]"
    using S(4) by (simp add: log_line_def)
  from fragments_are_reassembled[OF S(1) _ this, of 2] S(4)
  obtain S' where "run_ops (receive 0) ([(''INSERT a'', 1)] @ [('' 1'' @ [newline], 2)]) S = Some S'"
      "server_store S' = snd (respond ?m (server_store S))"
      "calls S' = calls S @ replicate 1 (EL_Rearm 7) @ [Send 7 (fst (respond ?m (server_store S))), EL_Rearm 7]"
    by (auto simp: log_line_def newline_def)
  then show ?thesis using S(2,3,5) respond_insert[OF w, of "[]"]
    by (intro exI[of _ S] exI[of _ S']) simp
qed

text \<open>
  Commands that arrive together are not all executed: after the first line of
  an insert the rest of the buffer, whatever commands it holds, has no effect, gets no
  response and is discarded.
\<close>

theorem pipelined_commands_are_dropped:
  assumes "server_inv S" and "c < length (conn_objects S)"
    and "commandBuffer (conn_objects S ! c) = ''''" and "word k" and "word v"
    and "length (log_line ''INSERT'' k v @ newline # rest_of_input) \<le> 2024"
  shows "\<exists>S'. messageHandler (Received (log_line ''INSERT'' k v @ newline # rest_of_input)) True now c S
       = Some S' \<and>
     server_store S' = (server_store S)(k \<mapsto> v) \<and>
     commandBuffer (conn_objects S' ! c) = '''' \<and>
     calls S' = calls S @ [Send (conn_socket (conn_objects S ! c))
       (''Insert command was successful'' @ [newline]), EL_Rearm (conn_socket (conn_objects S ! c))]"
proof -
  let ?b = "log_line ''INSERT'' k v @ newline # rest_of_input"
  obtain S' where "messageHandler (Received ?b) True now c S = Some S'"
      "server_store S' = snd (respond ?b (server_store S))"
      "conn_objects S' = conn_objects (set_buffer c '''' S)"
      "calls S' = calls S @ [Send (conn_socket (conn_objects S ! c)) (fst (respond ?b (server_store S))),
        EL_Rearm (conn_socket (conn_objects S ! c))]"
    using messageHandler_command[OF assms(1), of ?b c ?b True now] assms(3,6)
    by (auto simp: MAX_COMMAND_BUFFER_LENGTH_def)
  then show ?thesis using assms(2) respond_insert[OF assms(4,5)] by (simp add: frame_simps)
qed

theorem pipelined_commands_are_dropped_witness:
  "\<exists>S S'. connections S = [7 \<mapsto> 0] \<and>
     messageHandler (Received (log_line ''INSERT'' ''a'' ''1'' @ newline # log_line ''INSERT'' ''b'' ''2'' @ [newline]))
       True 0 0 S = Some S' \<and>
     server_store S' ''b'' = None"
proof -
  obtain S where S: "server_inv S" "server_store S = Map.empty" "calls S = []"
    "conn_objects S = [\<lparr>conn_socket = 7, conn_sessionKey = \<lparr>raw_ip = 1, raw_port = 2\<rparr>, commandBuffer = ''''\<rparr>]"
    "connections S = [7 \<mapsto> 0]" by (rule example_client)
  have w: "word ''a''" "word ''1''" by code_simp+
  have "length (log_line ''INSERT'' ''a'' ''1'' @ newline # log_line ''INSERT'' ''b'' ''2'' @ [newline]) \<le> 2024"
    by (simp add: log_line_def)
  from pipelined_commands_are_dropped[OF S(1) _ _ w this, of 0 0] S(2,4,5)
  show ?thesis by auto
qed

subsection \<open>Accepting, and the reuse of a socket number\<close>

text \<open>
  What becomes of an accepted socket: refused by the limiter or impossible to
  make non-blocking, it is closed and leaves no trace in the tables; admitted, it is watched
  and registered under a new connection with an empty buffer and a session of its own; and
  when the server is stopped in between, it is neither closed nor registered.
\<close>

theorem accept_outcomes:
  assumes "running S" and "acc_socket a \<noteq> -1"
    and "key = \<lparr>raw_ip = sin_addr (acc_addr a), raw_port = sin_port (acc_addr a)\<rparr>"
    and "users_sessions (userSessionManager S) key = None"
    and "acceptClients_round a S = (S', goes_on)"
    and "allowed = fst (isAllowed (sin_addr (acc_addr a)) (acc_now_global a) (acc_now_private a) (rt S))"
  shows "(if allowed \<and> acc_still_running a \<and> acc_nonblocking a then
        goes_on \<and> calls S' = calls S @ [EL_Add (acc_socket a)] \<and>
        connections S' = (connections S)(acc_socket a \<mapsto> length (conn_objects S)) \<and>
        conn_objects S' = conn_objects S @
          [\<lparr>conn_socket = acc_socket a, conn_sessionKey = key, commandBuffer = ''''\<rparr>] \<and>
        users_sessions (userSessionManager S') = (users_sessions (userSessionManager S))
          (key \<mapsto> UserSession_new (acc_socket a) (acc_addr a) 240 (acc_now_session a))
      else
        calls S' = calls S @ (if allowed \<and> \<not> acc_still_running a then [] else [Close (acc_socket a)]) \<and>
        (goes_on \<longleftrightarrow> \<not> allowed \<or> acc_still_running a) \<and>
        connections S' = connections S \<and> conn_objects S' = conn_objects S \<and>
        users_sessions (userSessionManager S') = users_sessions (userSessionManager S))"
proof -
  obtain al rt' where al: "isAllowed (sin_addr (acc_addr a)) (acc_now_global a)
      (acc_now_private a) (rt S) = (al, rt')"
    by (cases "isAllowed (sin_addr (acc_addr a)) (acc_now_global a) (acc_now_private a) (rt S)")
  have "(users_sessions (userSessionManager S))(key := None) = users_sessions (userSessionManager S)"
    using assms(4) by (auto simp: fun_eq_iff)
  then show ?thesis
    using assms(1,2,3,4,5,6)
    by (cases al; cases "acc_still_running a"; cases "acc_nonblocking a")
       (auto simp: acceptClients_round_def al INVALID_SOCKET_def add_session_def remove_session_def
          default_max_idle_def Let_def frame_simps)
qed

lemma isAllowed_fresh: "fst (isAllowed ip tg tp (RateLimiter_new 0 10 5 1000))"
proof -
  let ?l = "snd (isAllowedGlobal tg (RateLimiter_new 0 10 5 1000))"
  have "is_double (10 :: rat)" using is_double_of_int[of 10] by simp
  then have "available ip tp ?l = 10"
    using available_fresh[of ?l ip tp] by (simp add: isAllowedGlobal_def RateLimiter_new_def Let_def)
  moreover have "fst (isAllowedGlobal tg (RateLimiter_new 0 10 5 1000))"
    by (simp add: isAllowedGlobal_def RateLimiter_new_def Let_def)
  ultimately show ?thesis by (simp add: isAllowed_cases isAllowedPrivate_available)
qed

definition example_answers :: "SocketType \<Rightarrow> accept_answers" where
  "example_answers sock =
     \<lparr>acc_socket = sock, acc_addr = \<lparr>sin_addr = 9, sin_port = 10\<rparr>, acc_now_global = 0,
      acc_now_private = 0, acc_still_running = True, acc_now_session = 0, acc_nonblocking = True\<rparr>"

theorem accept_outcomes_witness:
  "\<exists>S. server_started S \<and>
     connections (fst (acceptClients_round (example_answers 7) S)) = [7 \<mapsto> 0] \<and>
     calls (fst (acceptClients_round (example_answers 7) S)) = [EL_Add 7]"
proof -
  obtain S where S: "server_started S" "running S" "connections S = Map.empty" "conn_objects S = []"
      "calls S = []" "userSessionManager S = UserSessionManager_new" "rt S = RateLimiter_new 0 10 5 1000"
    by (rule example_server)
  obtain S' goes_on where r: "acceptClients_round (example_answers 7) S = (S', goes_on)"
    by (cases "acceptClients_round (example_answers 7) S")
  have "users_sessions (userSessionManager S) \<lparr>raw_ip = 9, raw_port = 10\<rparr> = None"
    using S(6) by (simp add: UserSessionManager_new_def)
  then show ?thesis
    using accept_outcomes[OF S(2) _ refl _ r refl] S r isAllowed_fresh[of 9 0 0]
    by (auto simp: example_answers_def)
qed

lemma fold_close_None: "sock \<in> set ss \<or> connections S sock = None \<Longrightarrow> connections (fold closeConnection ss S) sock = None"
  by (induction ss arbitrary: S) (auto simp: frame_simps)

lemma fold_close_calls:
  "calls (fold closeConnection ss S) = calls S @ concat (map (\<lambda>s. [EL_Remove s, Close s]) ss)"
  by (induction ss arbitrary: S) (simp_all add: frame_simps)

lemma fold_close_connections:
  "connections (fold closeConnection ss S) s = (if s \<in> set ss then None else connections S s)"
  by (induction ss arbitrary: S) (auto simp: frame_simps)

lemma running_rearm: "running (rearmSocket r s S) = running S"
  by (simp add: rearmSocket_def frame_simps Let_def)

lemma running_set_buffer: "running (set_buffer c b S) = running S"
  by (simp add: set_buffer_def)

lemma running_handler: "messageHandler received rearmed now c S = Some S' \<Longrightarrow> running S' = running S"
  by (cases received)
     (auto simp: messageHandler_def running_rearm running_set_buffer frame_simps Let_def split: if_splits)

lemma dispatch_events_None: "connections S sock = None \<Longrightarrow> connections (fold dispatch_event es S) sock = None"
  by (induction es arbitrary: S)
     (auto simp: dispatch_event_def frame_simps split: option.split if_splits)

lemma dispatch_events_calls: "\<exists>cs. calls (fold dispatch_event es S) = calls S @ cs"
proof (induction es arbitrary: S)
  case (Cons e es)
  have "\<exists>cs. calls (dispatch_event e S) = calls S @ cs"
    by (auto simp: dispatch_event_def frame_simps split: option.split)
  with Cons[of "dispatch_event e S"] show ?case by auto
qed simp

text \<open>
  A socket queued for expiry is closed by number: when a worker has closed it
  already and the system gives the number to a new client before the event loop runs, the
  next round closes the new client's connection.
\<close>

theorem stale_expiry_closes_new_client:
  assumes "sock \<in> set (expiredSockets S)" and "running S" and "sock \<noteq> -1"
    and "acc_socket a = sock" and "acc_still_running a" and "acc_nonblocking a"
    and "fst (isAllowed (sin_addr (acc_addr a)) (acc_now_global a) (acc_now_private a) (rt S))"
    and "S1 = fst (acceptClients_round a (closeConnection sock S))"
  shows "(\<exists>c. connections S1 sock = Some c) \<and>
    connections (runEventLoop_round waited S1) sock = None \<and>
    (\<exists>cs. calls (runEventLoop_round waited S1) = calls S1 @ cs \<and> Close sock \<in> set cs)"
proof -
  let ?S = "closeConnection sock S"
  obtain rt' where al: "isAllowed (sin_addr (acc_addr a)) (acc_now_global a) (acc_now_private a) (rt ?S)
      = (True, rt')"
    using assms(7) by (cases "isAllowed (sin_addr (acc_addr a)) (acc_now_global a) (acc_now_private a) (rt ?S)")
      (simp add: frame_simps)
  obtain k usm where us: "add_session (acc_socket a) (acc_addr a) default_max_idle
      (acc_now_session a) (userSessionManager ?S) = (k, usm)"
    by (cases "add_session (acc_socket a) (acc_addr a) default_max_idle
      (acc_now_session a) (userSessionManager ?S)")
  have S1: "\<exists>c. connections S1 sock = Some c" "expiredSockets S1 = expiredSockets S" "running S1"
    using assms(2-6) al us
    by (simp_all add: assms(8) acceptClients_round_def INVALID_SOCKET_def Let_def frame_simps)
  have e: "calls (close_expired S1) = calls S1 @ concat (map (\<lambda>s. [EL_Remove s, Close s]) (expiredSockets S1))"
    by (simp add: close_expired_def fold_close_calls)
  have n: "connections (close_expired S1) sock = None"
    using assms(1) S1(2) by (simp add: close_expired_def fold_close_None)
  obtain cs where cs: "calls (runEventLoop_round waited S1) = calls (close_expired S1) @ cs"
    using dispatch_events_calls[of _ "close_expired S1"]
    using S1(3) by (cases waited) (auto simp: runEventLoop_round_def Let_def)
  have "Close sock \<in> set (concat (map (\<lambda>s. [EL_Remove s, Close s]) (expiredSockets S1)))"
    using assms(1) S1(2) by auto
  then have "\<exists>cs. calls (runEventLoop_round waited S1) = calls S1 @ cs \<and> Close sock \<in> set cs"
    using cs e by auto
  moreover have "connections (runEventLoop_round waited S1) sock = None"
    using n S1(3) by (cases waited) (simp_all add: runEventLoop_round_def Let_def dispatch_events_None)
  ultimately show ?thesis using S1(1) by blast
qed

theorem stale_expiry_closes_new_client_witness:
  "\<exists>S S1. server_inv S \<and> connections S = [7 \<mapsto> 0] \<and>
     S1 = fst (acceptClients_round (example_answers 7) (closeConnection 7 (onSessionExpired 7 S))) \<and>
     connections S1 7 \<noteq> None \<and> connections (runEventLoop_round None S1) 7 = None"
proof -
  obtain S where S: "server_inv S" "connections S = [7 \<mapsto> 0]" "running S" "rt S = RateLimiter_new 0 10 5 1000"
    by (rule example_client)
  let ?S = "onSessionExpired 7 S" and ?a = "example_answers 7"
  have "7 \<in> set (expiredSockets ?S)" "running ?S" "rt ?S = rt S"
    using S(3) by (simp_all add: onSessionExpired_def)
  with stale_expiry_closes_new_client[of 7 ?S ?a _ None] S(4) isAllowed_fresh[of 9 0 0]
  have "connections (fst (acceptClients_round ?a (closeConnection 7 ?S))) 7 \<noteq> None \<and>
      connections (runEventLoop_round None (fst (acceptClients_round ?a (closeConnection 7 ?S)))) 7 = None"
    by (simp add: example_answers_def)
  with S(1,2) show ?thesis by blast
qed

end
