(* ===== verification/Linearize.thy ===== *)
theory Linearize
  imports Server_Correct
begin

text \<open>
  The server as a whole against the command protocol: the steps of \<open>Server_Correct\<close> as
  executable events, what each connection receives, how the handler cuts it into messages
  (\<open>frames\<close>), and the abstract server that answers one message after the other
  (\<open>respond_all\<close>).  An event here is a whole round of a thread: a handler from \<open>recv\<close> to the
  re-arming, a snapshot from the dump to the reset.  For runs of whole rounds, in any order, the
  responses sent are those of the abstract server on one sequence of the clients' messages.
  Rounds that interleave are the subject of \<open>Concurrent\<close>, \<open>System\<close> and \<open>Durable\<close>, which use what
  is shown here of one round, of the framing and of the protocol.
\<close>

subsection \<open>Events\<close>

datatype server_event =
    EvJob recv_result bool int nat
  | EvAccept accept_answers
  | EvRound "EventLoopEntry list option"
  | EvCleanup "(SessionKey \<times> int) list"
  | EvSnapshot
  | EvStop "SocketType list"

fun server_event_step :: "server_event \<Rightarrow> Server \<Rightarrow> Server option" where
  "server_event_step (EvJob received rearmed now c) S =
     (if c \<in> set (tpool_jobs S)
      then messageHandler received rearmed now c (S\<lparr>tpool_jobs := remove1 c (tpool_jobs S)\<rparr>)
      else None)"
| "server_event_step (EvAccept a) S = Some (fst (acceptClients_round a S))"
| "server_event_step (EvRound waited) S = Some (runEventLoop_round waited S)"
| "server_event_step (EvCleanup order) S =
     (case cleanup_expired_sessions (Some onSessionExpired) order (userSessionManager S, S) of
        (M, S') \<Rightarrow> Some (S'\<lparr>userSessionManager := M\<rparr>))"
| "server_event_step EvSnapshot S =
     (case createSnapshot True True True (hashMap S) (pers S) of
        Some (p, None) \<Rightarrow> Some (S\<lparr>pers := p\<rparr>)
      | _ \<Rightarrow> None)"
| "server_event_step (EvStop order) S = Some (Server_stop order S)"

text \<open>The events are the steps.\<close>

lemma server_event_step_sound:
  assumes "server_event_step e S = Some S'"
  shows "server_step S S'"
proof (cases e)
  case (EvJob received rearmed now c)
  then show ?thesis using assms by (auto split: if_splits intro: step_job)
next
  case (EvCleanup order)
  then show ?thesis using assms by (auto split: prod.splits intro: step_cleanup)
next
  case EvSnapshot
  then show ?thesis using assms by (auto split: option.splits intro: step_snapshot)
qed (use assms in \<open>auto intro: step_accept step_event_loop step_stop\<close>)

lemma server_event_step_complete:
  assumes "server_step S S'"
  shows "\<exists>e. server_event_step e S = Some S'"
  using assms
proof cases
  case (step_job c received rearmed now)
  then show ?thesis by (intro exI[of _ "EvJob received rearmed now c"]) simp
next
  case (step_accept a)
  then show ?thesis by (intro exI[of _ "EvAccept a"]) simp
next
  case (step_event_loop waited)
  then show ?thesis by (intro exI[of _ "EvRound waited"]) simp
next
  case (step_cleanup order M S1)
  then show ?thesis by (intro exI[of _ "EvCleanup order"]) simp
next
  case (step_snapshot p)
  then show ?thesis by (intro exI[of _ EvSnapshot]) simp
next
  case (step_stop order)
  then show ?thesis by (intro exI[of _ "EvStop order"]) simp
qed

subsection \<open>Messages and responses\<close>

text \<open>What the handler receives on connection \<open>c\<close>, in order.\<close>

fun received_by :: "nat \<Rightarrow> server_event \<Rightarrow> string list" where
  "received_by c (EvJob (Received bytes) rearmed now c') = (if c' = c then [bytes] else [])"
| "received_by c _ = []"

definition pieces :: "nat \<Rightarrow> server_event list \<Rightarrow> string list" where
  "pieces c es = concat (map (received_by c) es)"

text \<open>
  How a connection's pieces become messages: a buffer with a newline is a message as a
  whole; one that is too long is given up.
\<close>

fun frames :: "string \<Rightarrow> string list \<Rightarrow> string list" where
  "frames b [] = []"
| "frames b (p # ps) =
     (if length (b @ p) > MAX_COMMAND_BUFFER_LENGTH \<or> newline \<notin> set (b @ p) then frames (b @ p) ps
      else (b @ p) # frames '''' ps)"

text \<open>The abstract server: one message after the other.\<close>

fun respond_all :: "string list \<Rightarrow> (string \<rightharpoonup> string) \<Rightarrow> string list \<times> (string \<rightharpoonup> string)" where
  "respond_all [] s = ([], s)"
| "respond_all (m # ms) s =
     (case respond m s of (r, s') \<Rightarrow> case respond_all ms s' of (rs, s'') \<Rightarrow> (r # rs, s''))"

fun sent :: "net_call list \<Rightarrow> (SocketType \<times> string) list" where
  "sent [] = []"
| "sent (Send s r # cs) = (s, r) # sent cs"
| "sent (_ # cs) = sent cs"

lemma sent_append: "sent (cs @ cs') = sent cs @ sent cs'"
  by (induction cs rule: sent.induct) auto

lemma sent_none: "list_all (\<lambda>c. \<forall>s r. c \<noteq> Send s r) cs \<Longrightarrow> sent cs = []"
  by (induction cs rule: sent.induct) auto

lemma respond_all_append:
  "respond_all (ms @ ms') s =
     (case respond_all ms s of (rs, s') \<Rightarrow> case respond_all ms' s' of (rs', s'') \<Rightarrow> (rs @ rs', s''))"
  by (induction ms arbitrary: s) (auto split: prod.splits)

lemma length_responses: "length (fst (respond_all ms s)) = length ms"
  by (induction ms arbitrary: s) (simp_all add: split_beta)

lemma frames_append_quiet:
  "length (b @ p) > MAX_COMMAND_BUFFER_LENGTH \<or> newline \<notin> set (b @ p) \<Longrightarrow>
   frames b (p # ps) = frames (b @ p) ps"
  by simp

definition buffer_of :: "Server \<Rightarrow> nat \<Rightarrow> string" where
  "buffer_of S c = (if c < length (conn_objects S) then commandBuffer (conn_objects S ! c) else '''')"

subsection \<open>One event\<close>

text \<open>The messages \<open>new\<close> an event executes, and what it does with them.\<close>

definition answers :: "server_event \<Rightarrow> Server \<Rightarrow> Server \<Rightarrow> (nat \<times> string) list \<Rightarrow> bool" where
  "answers e S S' new \<longleftrightarrow>
     (\<forall>(c, m) \<in> set new. c < length (conn_objects S)) \<and>
     (\<forall>c ps. map snd (filter (\<lambda>x. fst x = c) new) @ frames (buffer_of S' c) ps
        = frames (buffer_of S c) (received_by c e @ ps)) \<and>
     sent (calls S') = sent (calls S) @
       zip (map (\<lambda>x. conn_socket (conn_objects S ! fst x)) new)
         (fst (respond_all (map snd new) (server_store S))) \<and>
     server_store S' = snd (respond_all (map snd new) (server_store S)) \<and>
     length (conn_objects S) \<le> length (conn_objects S') \<and>
     (\<forall>c < length (conn_objects S). conn_socket (conn_objects S' ! c) = conn_socket (conn_objects S ! c))"

lemma answers_quiet:
  assumes "calls S' = calls S @ cs" and "sent cs = []"
    and "hashMap S' = hashMap S"
    and "conn_objects S' = conn_objects S @ new_objects"
    and "\<forall>x \<in> set new_objects. commandBuffer x = ''''"
    and "\<And>c. received_by c e = []"
  shows "answers e S S' []"
proof -
  have "buffer_of S' c = buffer_of S c" for c
    using assms(4,5) by (auto simp: buffer_of_def nth_append)
  then show ?thesis
    using assms by (auto simp: answers_def sent_append server_store_def db_store_def nth_append)
qed

lemma server_store_fewer_jobs [simp]: "server_store (S\<lparr>tpool_jobs := js\<rparr>) = server_store S"
  by (simp add: server_store_def)

lemma answers_fewer_jobs: "answers e (S\<lparr>tpool_jobs := js\<rparr>) S' new = answers e S S' new"
proof -
  have "buffer_of (S\<lparr>tpool_jobs := js\<rparr>) = buffer_of S" by (simp add: fun_eq_iff buffer_of_def)
  then show ?thesis by (simp add: answers_def)
qed

lemma answers_job:
  assumes "server_inv S" and "c < length (conn_objects S)"
    and "messageHandler received rearmed now c S = Some S'"
  shows "\<exists>new. answers (EvJob received rearmed now c) S S' new"
proof (cases "\<exists>bytes. received = Received bytes")
  case False
  then have q: "calls S' = calls S @ EL_Rearm (conn_socket (conn_objects S ! c)) #
        (if rearmed then [] else [EL_Remove (conn_socket (conn_objects S ! c)), Close (conn_socket (conn_objects S ! c))])
      \<or> calls S' = calls S @ [EL_Remove (conn_socket (conn_objects S ! c)), Close (conn_socket (conn_objects S ! c))]"
    "hashMap S' = hashMap S" "conn_objects S' = conn_objects S"
    using assms(3) by (auto simp: messageHandler_def Let_def frame_simps split: recv_result.splits)
  have "answers (EvJob received rearmed now c) S S' []" if "calls S' = calls S @ cs" "sent cs = []" for cs
    by (rule answers_quiet[OF that q(2)]) (use q(3) False in \<open>cases received; auto\<close>)+
  with q(1) show ?thesis by (auto split: if_splits)
next
  case True
  then obtain bytes where r: "received = Received bytes" by blast
  let ?s = "conn_socket (conn_objects S ! c)" and ?b = "commandBuffer (conn_objects S ! c) @ bytes"
  have b: "buffer_of S c = commandBuffer (conn_objects S ! c)" using assms(2) by (simp add: buffer_of_def)
  show ?thesis
  proof (cases "length ?b > MAX_COMMAND_BUFFER_LENGTH \<or> newline \<notin> set ?b")
    case True
    then have S': "S' = closeConnection ?s (set_buffer c ?b S) \<or> S' = rearmSocket rearmed ?s (set_buffer c ?b S)"
      using assms(3) by (auto simp: messageHandler_def r Let_def split: if_splits)
    then have st: "server_store S' = server_store S" "conn_objects S' = conn_objects (set_buffer c ?b S)"
      by (auto simp: server_store_def db_store_def frame_simps)
    have "sent (calls S') = sent (calls S)"
      using S' by (auto simp: frame_simps sent_append)
    moreover have "buffer_of S' c' = (if c' = c then ?b else buffer_of S c')" for c'
      using st(2) assms(2) by (auto simp: buffer_of_def frame_simps)
    ultimately have "answers (EvJob received rearmed now c) S S' []"
      using st True b assms(2) by (auto simp: answers_def r frame_simps)
    then show ?thesis by blast
  next
    case False
    then obtain S1 where S1: "messageHandler received rearmed now c S = Some S1"
        "server_store S1 = snd (respond ?b (server_store S))"
        "conn_objects S1 = conn_objects (set_buffer c '''' S)"
        "calls S1 = calls S @ Send ?s (fst (respond ?b (server_store S))) # EL_Rearm ?s
           # (if rearmed then [] else [EL_Remove ?s, Close ?s])"
      using messageHandler_command[OF assms(1) refl, of c bytes rearmed now] r by auto
    have eq: "S' = S1" using S1(1) assms(3) by simp
    have "buffer_of S' c' = (if c' = c then '''' else buffer_of S c')" for c'
      using S1(3) eq assms(2) by (auto simp: buffer_of_def frame_simps)
    then have "answers (EvJob received rearmed now c) S S' [(c, ?b)]"
      using S1(2-4) eq False b assms(2)
      by (auto simp: answers_def r frame_simps sent_append split_beta)
    then show ?thesis by blast
  qed
qed

lemma cleanup_quiet:
  assumes "cleanup_expired_sessions (Some onSessionExpired) order (M0, S) = (M, S')"
  shows "calls S' = calls S \<and> hashMap S' = hashMap S \<and> conn_objects S' = conn_objects S"
  using assms
  by (induction "Some onSessionExpired" order "(M0, S)" arbitrary: M0 S
      rule: cleanup_expired_sessions.induct)
     (auto simp: onSessionExpired_def Let_def split: option.splits if_splits)

lemma accept_quiet:
  "\<exists>cs new. calls (fst (acceptClients_round a S)) = calls S @ cs \<and> sent cs = [] \<and>
     hashMap (fst (acceptClients_round a S)) = hashMap S \<and>
     conn_objects (fst (acceptClients_round a S)) = conn_objects S @ new \<and>
     (\<forall>x \<in> set new. commandBuffer x = '''')"
proof -
  obtain al rt' where al: "isAllowed (sin_addr (acc_addr a)) (acc_now_global a)
      (acc_now_private a) (rt S) = (al, rt')"
    by (cases "isAllowed (sin_addr (acc_addr a)) (acc_now_global a) (acc_now_private a) (rt S)")
  obtain k usm where us: "add_session (acc_socket a) (acc_addr a) default_max_idle
      (acc_now_session a) (userSessionManager S) = (k, usm)"
    by (cases "add_session (acc_socket a) (acc_addr a) default_max_idle
      (acc_now_session a) (userSessionManager S)")
  show ?thesis
    by (cases "running S"; cases "acc_socket a = INVALID_SOCKET"; cases al;
        cases "acc_still_running a"; cases "acc_nonblocking a")
       (auto simp: acceptClients_round_def al us frame_simps Let_def)
qed

lemma fold_close_quiet:
  "\<exists>cs. calls (fold closeConnection ss S) = calls S @ cs \<and> sent cs = [] \<and>
     hashMap (fold closeConnection ss S) = hashMap S \<and>
     conn_objects (fold closeConnection ss S) = conn_objects S"
proof (induction ss arbitrary: S)
  case (Cons s ss)
  from Cons[of "closeConnection s S"] show ?case by (auto simp: frame_simps sent_append)
qed (auto intro!: exI[of _ "[]"])

lemma dispatch_quiet:
  "\<exists>cs. calls (fold dispatch_event es S) = calls S @ cs \<and> sent cs = [] \<and>
     hashMap (fold dispatch_event es S) = hashMap S \<and>
     conn_objects (fold dispatch_event es S) = conn_objects S"
proof (induction es arbitrary: S)
  case (Cons e es)
  have "\<exists>cs. calls (dispatch_event e S) = calls S @ cs \<and> sent cs = [] \<and>
     hashMap (dispatch_event e S) = hashMap S \<and> conn_objects (dispatch_event e S) = conn_objects S"
    by (auto simp: dispatch_event_def frame_simps split: option.split)
  then show ?case using Cons[of "dispatch_event e S"] by (auto simp: sent_append)
qed (auto intro!: exI[of _ "[]"])

lemma round_quiet:
  "\<exists>cs. calls (runEventLoop_round waited S) = calls S @ cs \<and> sent cs = [] \<and>
     hashMap (runEventLoop_round waited S) = hashMap S \<and>
     conn_objects (runEventLoop_round waited S) = conn_objects S"
proof (cases "running S")
  case True
  obtain cs where cs: "calls (close_expired S) = calls S @ cs" "sent cs = []"
      "hashMap (close_expired S) = hashMap S" "conn_objects (close_expired S) = conn_objects S"
    using fold_close_quiet[of "expiredSockets S" "S\<lparr>expiredSockets := []\<rparr>"] by (auto simp: close_expired_def)
  show ?thesis
  proof (cases waited)
    case None
    then show ?thesis using True cs by (simp add: runEventLoop_round_def Let_def)
  next
    case (Some es)
    then show ?thesis using True cs dispatch_quiet[of es "close_expired S"]
      by (auto simp: runEventLoop_round_def Let_def sent_append)
  qed
qed (auto simp: runEventLoop_round_def intro!: exI[of _ "[]"])

lemma stop_quiet:
  "\<exists>cs. calls (Server_stop order S) = calls S @ cs \<and> sent cs = [] \<and>
     hashMap (Server_stop order S) = hashMap S \<and> conn_objects (Server_stop order S) = conn_objects S"
proof -
  have "\<exists>cs. calls (fold (\<lambda>sock. log_call (Close sock)) order S') = calls S' @ cs \<and> sent cs = [] \<and>
     hashMap (fold (\<lambda>sock. log_call (Close sock)) order S') = hashMap S' \<and>
     serverSocket (fold (\<lambda>sock. log_call (Close sock)) order S') = serverSocket S' \<and>
     conn_objects (fold (\<lambda>sock. log_call (Close sock)) order S') = conn_objects S'" for S'
  proof (induction order arbitrary: S')
    case (Cons s ss)
    from Cons[of "log_call (Close s) S'"] show ?case by (auto simp: frame_simps sent_append)
  qed (auto intro!: exI[of _ "[]"])
  from this[of "S\<lparr>running := False\<rparr>"] show ?thesis
    by (auto simp: Server_stop_def Let_def frame_simps sent_append)
qed

lemma event_answers:
  assumes "server_inv S" and "server_event_step e S = Some S'"
  shows "\<exists>new. answers e S S' new"
proof (cases e)
  case (EvJob received rearmed now c)
  let ?S = "S\<lparr>tpool_jobs := remove1 c (tpool_jobs S)\<rparr>"
  have c: "c \<in> set (tpool_jobs S)" and h: "messageHandler received rearmed now c ?S = Some S'"
    using assms(2) EvJob by (auto split: if_splits)
  have "server_inv ?S"
    by (rule server_inv_fewer[OF assms(1)])
       (use assms(1) in \<open>auto simp: server_inv_def dest: subsetD[OF set_remove1_subset]\<close>)
  moreover have "c < length (conn_objects ?S)" using c assms(1) by (simp add: server_inv_def)
  ultimately obtain new where "answers e ?S S' new" using answers_job[OF _ _ h] EvJob by blast
  then show ?thesis by (auto simp: answers_fewer_jobs)
next
  case (EvAccept a)
  then show ?thesis using accept_quiet[of a S] assms(2)
    by (auto intro!: exI[of _ "[]"] intro: answers_quiet)
next
  case (EvRound waited)
  then show ?thesis using round_quiet[of waited S] assms(2)
    by (auto intro!: exI[of _ "[]"] answers_quiet[where new_objects = "[]"])
next
  case (EvCleanup order)
  then show ?thesis using cleanup_quiet[of order "userSessionManager S" S] assms(2)
    by (auto split: prod.splits intro!: exI[of _ "[]"] answers_quiet[where new_objects = "[]" and cs = "[]"])
next
  case EvSnapshot
  then show ?thesis using assms(2)
    by (auto split: option.splits intro!: exI[of _ "[]"] answers_quiet[where new_objects = "[]" and cs = "[]"])
next
  case (EvStop order)
  then show ?thesis using stop_quiet[of order S] assms(2)
    by (auto intro!: exI[of _ "[]"] answers_quiet[where new_objects = "[]"])
qed

subsection \<open>Runs\<close>

lemma answers_inv: "server_inv S \<Longrightarrow> server_event_step e S = Some S' \<Longrightarrow> server_inv S'"
  using server_event_step_sound server_step_inv by blast

lemma zip_respond_all_append:
  "zip (xs @ ys) (fst (respond_all (ms @ ms') s)) =
     zip xs (fst (respond_all ms s)) @ zip ys (fst (respond_all ms' (snd (respond_all ms s))))"
  if "length xs = length ms"
  using that by (simp add: respond_all_append split_beta length_responses)

lemma run_answers:
  assumes "server_inv S" and "run_ops server_event_step es S = Some S'"
  shows "\<exists>msgs. (\<forall>(c, m) \<in> set msgs. c < length (conn_objects S')) \<and>
     (\<forall>c ps. map snd (filter (\<lambda>x. fst x = c) msgs) @ frames (buffer_of S' c) ps
        = frames (buffer_of S c) (pieces c es @ ps)) \<and>
     sent (calls S') = sent (calls S) @
       zip (map (\<lambda>x. conn_socket (conn_objects S' ! fst x)) msgs)
         (fst (respond_all (map snd msgs) (server_store S))) \<and>
     server_store S' = snd (respond_all (map snd msgs) (server_store S)) \<and>
     length (conn_objects S) \<le> length (conn_objects S') \<and>
     (\<forall>c < length (conn_objects S). conn_socket (conn_objects S' ! c) = conn_socket (conn_objects S ! c))"
  using assms
proof (induction es arbitrary: S)
  case Nil
  then show ?case by (auto simp: pieces_def intro!: exI[of _ "[]"])
next
  case (Cons e es)
  obtain S1 where S1: "server_event_step e S = Some S1" "run_ops server_event_step es S1 = Some S'"
    using Cons.prems(2) by (auto split: option.splits)
  have i: "server_inv S1" using answers_inv[OF Cons.prems(1) S1(1)] .
  obtain new where new: "\<forall>(c, m) \<in> set new. c < length (conn_objects S)"
     "\<And>c ps. map snd (filter (\<lambda>x. fst x = c) new) @ frames (buffer_of S1 c) ps
        = frames (buffer_of S c) (received_by c e @ ps)"
     "sent (calls S1) = sent (calls S) @
       zip (map (\<lambda>x. conn_socket (conn_objects S ! fst x)) new)
         (fst (respond_all (map snd new) (server_store S)))"
     "server_store S1 = snd (respond_all (map snd new) (server_store S))"
     "length (conn_objects S) \<le> length (conn_objects S1)"
     "\<forall>c < length (conn_objects S). conn_socket (conn_objects S1 ! c) = conn_socket (conn_objects S ! c)"
    using event_answers[OF Cons.prems(1) S1(1)] unfolding answers_def by (elim exE conjE) metis
  obtain msgs where msgs: "\<forall>(c, m) \<in> set msgs. c < length (conn_objects S')"
     "\<And>c ps. map snd (filter (\<lambda>x. fst x = c) msgs) @ frames (buffer_of S' c) ps
        = frames (buffer_of S1 c) (pieces c es @ ps)"
     "sent (calls S') = sent (calls S1) @
       zip (map (\<lambda>x. conn_socket (conn_objects S' ! fst x)) msgs)
         (fst (respond_all (map snd msgs) (server_store S1)))"
     "server_store S' = snd (respond_all (map snd msgs) (server_store S1))"
     "length (conn_objects S1) \<le> length (conn_objects S')"
     "\<forall>c < length (conn_objects S1). conn_socket (conn_objects S' ! c) = conn_socket (conn_objects S1 ! c)"
    using Cons.IH[OF i S1(2)] by (elim exE conjE) metis
  have n: "fst x < length (conn_objects S)" if "x \<in> set new" for x using new(1) that by auto
  have socks: "map (\<lambda>x. conn_socket (conn_objects S ! fst x)) new
      = map (\<lambda>x. conn_socket (conn_objects S' ! fst x)) new"
    by (rule map_cong) (use n new(5,6) msgs(6) in fastforce)+
  have "\<forall>(c, m) \<in> set (new @ msgs). c < length (conn_objects S')"
    using n new(5) msgs(1,5) by fastforce
  moreover have "map snd (filter (\<lambda>x. fst x = c) (new @ msgs)) @ frames (buffer_of S' c) ps
      = frames (buffer_of S c) (pieces c (e # es) @ ps)" for c ps
    using msgs(2)[of c ps] new(2)[of c "pieces c es @ ps"] by (simp add: pieces_def)
  moreover have "sent (calls S') = sent (calls S) @
       zip (map (\<lambda>x. conn_socket (conn_objects S' ! fst x)) (new @ msgs))
         (fst (respond_all (map snd (new @ msgs)) (server_store S)))"
    using new(3,4) msgs(3) socks by (simp add: zip_respond_all_append)
  moreover have "server_store S' = snd (respond_all (map snd (new @ msgs)) (server_store S))"
    using new(4) msgs(4) by (simp add: respond_all_append split_beta)
  ultimately show ?case using new(5,6) msgs(5,6) by (intro exI[of _ "new @ msgs"]) auto
qed

subsection \<open>Properties\<close>

lemma run_events_inv:
  "run_ops server_event_step es S = Some S' \<Longrightarrow> server_inv S \<Longrightarrow> server_inv S'"
  by (induction es arbitrary: S) (auto split: option.splits intro: answers_inv)

lemma started_run_answers:
  assumes "server_started S0" and "run_ops server_event_step es S0 = Some S"
  shows "\<exists>msgs. (\<forall>c. map snd (filter (\<lambda>x. fst x = c) msgs) = frames '''' (pieces c es)) \<and>
     sent (calls S) = zip (map (\<lambda>x. conn_socket (conn_objects S ! fst x)) msgs)
       (fst (respond_all (map snd msgs) (HashMap_map (hashMap S0)))) \<and>
     HashMap_map (hashMap S) = snd (respond_all (map snd msgs) (HashMap_map (hashMap S0))) \<and>
     disk_store (pers S) = HashMap_map (hashMap S)"
proof -
  have i: "server_inv S0" using assms(1) by (rule server_started_inv)
  note f = server_started_fresh[OF assms(1)]
  have b: "buffer_of S0 c = ''''" for c using f(2) by (simp add: buffer_of_def)
  obtain msgs where msgs:
     "\<forall>c ps. map snd (filter (\<lambda>x. fst x = c) msgs) @ frames (buffer_of S c) ps
        = frames (buffer_of S0 c) (pieces c es @ ps)"
     "sent (calls S) = sent (calls S0) @
       zip (map (\<lambda>x. conn_socket (conn_objects S ! fst x)) msgs)
         (fst (respond_all (map snd msgs) (server_store S0)))"
     "server_store S = snd (respond_all (map snd msgs) (server_store S0))"
    using run_answers[OF i assms(2)] by blast
  have "map snd (filter (\<lambda>x. fst x = c) msgs) = frames '''' (pieces c es)" for c
    using msgs(1)[rule_format, of c "[]"] b by simp
  moreover have "disk_store (pers S) = HashMap_map (hashMap S)"
    using run_events_inv[OF assms(2) i] by (simp add: server_inv_def db_inv_def)
  ultimately show ?thesis using msgs(2,3) f(1)
    by (intro exI[of _ msgs]) (simp add: server_store_def db_store_def)
qed

text \<open>
  Linearizability of runs in which handlers and snapshots run whole, none within another,
  in any order with the rounds of the accept loop, the event loop, the cleanup and the
  shutdown: there is one sequence of messages, containing each connection's messages in the
  order it sent them, such that the responses sent, in order, are those of the abstract server on
  that sequence, and memory and disk hold the store it ends with.
\<close>

theorem server_linearizable:
  assumes "server_started S0" and "run_ops server_event_step es S0 = Some S"
  shows "\<exists>msgs. (\<forall>c. map snd (filter (\<lambda>x. fst x = c) msgs) = frames '''' (pieces c es)) \<and>
     sent (calls S) = zip (map (\<lambda>x. conn_socket (conn_objects S ! fst x)) msgs)
       (fst (respond_all (map snd msgs) (HashMap_map (hashMap S0)))) \<and>
     HashMap_map (hashMap S) = snd (respond_all (map snd msgs) (HashMap_map (hashMap S0))) \<and>
     disk_store (pers S) = HashMap_map (hashMap S)"
  using assms by (rule started_run_answers)

text \<open>A client connects on socket 7, becomes readable, and sends one insert.\<close>

definition client_events :: "string \<Rightarrow> server_event list" where
  "client_events message =
     [EvAccept (example_answers 7),
      EvRound (Some [\<lparr>entry_socket = 7, entry_event = Readable\<rparr>]),
      EvJob (Received message) True 0 0]"

abbreviation example_events :: "server_event list" where
  "example_events \<equiv> client_events (log_line ''INSERT'' ''a'' ''1'' @ [newline])"

lemma client_events_run:
  assumes "server_inv S0" and "running S0" and "connections S0 = Map.empty" and "conn_objects S0 = []"
    and "expiredSockets S0 = []" and "rt S0 = RateLimiter_new 0 10 5 1000"
  shows "\<exists>S. run_ops server_event_step (client_events message) S0 = Some S \<and>
    conn_objects S \<noteq> [] \<and> conn_socket (conn_objects S ! 0) = 7"
proof -
  let ?S1 = "fst (acceptClients_round (example_answers 7) S0)"
  let ?S2 = "runEventLoop_round (Some [\<lparr>entry_socket = 7, entry_event = Readable\<rparr>]) ?S1"
  obtain rt' where al: "isAllowed 9 0 0 (rt S0) = (True, rt')"
    using isAllowed_fresh[of 9 0 0] assms(6) by (cases "isAllowed 9 0 0 (rt S0)") simp
  obtain k usm where us: "add_session 7 \<lparr>sin_addr = 9, sin_port = 10\<rparr> default_max_idle 0
      (userSessionManager S0) = (k, usm)"
    by (cases "add_session 7 \<lparr>sin_addr = 9, sin_port = 10\<rparr> default_max_idle 0 (userSessionManager S0)")
  have S1: "connections ?S1 = [7 \<mapsto> 0]" "length (conn_objects ?S1) = 1" "running ?S1"
      "expiredSockets ?S1 = []" "conn_socket (conn_objects ?S1 ! 0) = 7"
    using assms(2-5) al us
    by (simp_all add: acceptClients_round_def example_answers_def INVALID_SOCKET_def frame_simps)
  have S2: "0 \<in> set (tpool_jobs ?S2)" "conn_objects ?S2 = conn_objects ?S1"
    using S1 by (simp_all add: runEventLoop_round_def close_expired_def dispatch_event_def)
  have i2: "server_inv ?S2" by (intro runEventLoop_round_inv acceptClients_round_inv assms(1))
  let ?S3 = "?S2\<lparr>tpool_jobs := remove1 0 (tpool_jobs ?S2)\<rparr>"
  have i3: "server_inv ?S3"
    by (rule server_inv_fewer[OF i2])
       (use i2 in \<open>auto simp: server_inv_def dest: subsetD[OF set_remove1_subset]\<close>)
  obtain S where S: "messageHandler (Received message) True 0 0 ?S3 = Some S"
    using messageHandler_inv[OF i3, of 0] S1(2) S2(2) by fastforce
  have r: "run_ops server_event_step (client_events message) S0 = Some S"
    using S2(1) S by (simp add: client_events_def)
  have "1 \<le> length (conn_objects S)" "conn_socket (conn_objects S ! 0) = 7"
    using answers_job[OF i3 _ S] S1(2,5) S2(2) by (auto simp: answers_def)
  with r show ?thesis by (intro exI[of _ S]) auto
qed

lemma example_events_run:
  obtains S0 S where "server_started S0" "server_store S0 = Map.empty"
    "run_ops server_event_step example_events S0 = Some S"
    "conn_objects S \<noteq> []" "conn_socket (conn_objects S ! 0) = 7"
proof -
  obtain S0 where S0: "server_started S0" "server_inv S0" "server_store S0 = Map.empty" "running S0"
      "connections S0 = Map.empty" "conn_objects S0 = []" "expiredSockets S0 = []"
      "rt S0 = RateLimiter_new 0 10 5 1000"
    by (rule example_server)
  from client_events_run[OF S0(2,4-8)] S0(1,3) that show thesis by blast
qed

lemma client_pieces: "pieces c (client_events message) = (if c = 0 then [message] else [])"
  by (simp add: pieces_def client_events_def)

theorem server_linearizable_witness:
  "\<exists>S0 S. server_started S0 \<and> run_ops server_event_step example_events S0 = Some S \<and>
     disk_store (pers S) = HashMap_map (hashMap S) \<and>
     (\<exists>msgs. map snd (filter (\<lambda>x. fst x = 0) msgs) = [log_line ''INSERT'' ''a'' ''1'' @ [newline]] \<and>
        sent (calls S) = zip (map (\<lambda>x. conn_socket (conn_objects S ! fst x)) msgs)
          (fst (respond_all (map snd msgs) Map.empty)))"
proof -
  obtain S0 S where S: "server_started S0" "server_store S0 = Map.empty"
      "run_ops server_event_step example_events S0 = Some S" by (rule example_events_run)
  have e: "HashMap_map (hashMap S0) = Map.empty" using S(2) by (simp add: server_store_def db_store_def)
  obtain msgs where msgs: "\<forall>c. map snd (filter (\<lambda>x. fst x = c) msgs) = frames '''' (pieces c example_events)"
     "sent (calls S) = zip (map (\<lambda>x. conn_socket (conn_objects S ! fst x)) msgs)
       (fst (respond_all (map snd msgs) (HashMap_map (hashMap S0))))"
     "disk_store (pers S) = HashMap_map (hashMap S)"
    using server_linearizable[OF S(1,3)] by (elim exE conjE) (rule that)
  have "frames '''' (pieces 0 example_events) = [log_line ''INSERT'' ''a'' ''1'' @ [newline]]"
    by (simp add: client_pieces log_line_def MAX_COMMAND_BUFFER_LENGTH_def)
  then have "map snd (filter (\<lambda>x. fst x = 0) msgs) = [log_line ''INSERT'' ''a'' ''1'' @ [newline]]"
    using msgs(1) by simp
  with msgs(2,3) e show ?thesis
    by (intro exI[of _ S0] exI[of _ S] conjI S(1,3) exI[of _ msgs]) simp_all
qed

text \<open>The pieces of one line: only the last has the newline.\<close>

definition fragmented :: "string list \<Rightarrow> bool" where
  "fragmented parts \<longleftrightarrow> parts \<noteq> [] \<and> newline \<in> set (last parts) \<and>
     newline \<notin> set (concat (butlast parts)) \<and> length (concat parts) \<le> MAX_COMMAND_BUFFER_LENGTH"

lemma frames_one:
  assumes "fragmented parts"
  shows "frames '''' (parts @ ps) = concat parts # frames '''' ps"
proof -
  obtain xs p where parts: "parts = xs @ [p]" "newline \<in> set p" "newline \<notin> set (concat xs)"
      "length (concat parts) \<le> MAX_COMMAND_BUFFER_LENGTH"
    using assms unfolding fragmented_def
    by (metis append_butlast_last_id)
  have "frames b (xs @ [p] @ ps) = (b @ concat xs @ p) # frames '''' ps"
    if "newline \<notin> set b" "length (b @ concat xs @ p) \<le> MAX_COMMAND_BUFFER_LENGTH" for b
    using that parts(2,3) by (induction xs arbitrary: b) auto
  from this[of "''''"] parts(1,4) show ?thesis by simp
qed

lemma frames_lines:
  "list_all fragmented partss \<Longrightarrow> frames '''' (concat partss) = map concat partss"
  by (induction partss) (simp_all add: frames_one)

text \<open>
  C19 (equivalence). In runs of whole rounds, a client that sends its commands one at a time is
  served as if each arrived in one piece, however the network splits them and whatever the other
  clients do:
  its messages are exactly its lines, in order, each answered in the sequence that the
  abstract server answers.
\<close>

theorem fragmented_client_served:
  assumes "server_started S0" and "run_ops server_event_step es S0 = Some S"
    and "pieces c es = concat partss" and "list_all fragmented partss"
  shows "\<exists>msgs. map snd (filter (\<lambda>x. fst x = c) msgs) = map concat partss \<and>
     sent (calls S) = zip (map (\<lambda>x. conn_socket (conn_objects S ! fst x)) msgs)
       (fst (respond_all (map snd msgs) (HashMap_map (hashMap S0))))"
  using started_run_answers[OF assms(1,2)] frames_lines[OF assms(4)] assms(3) by metis

theorem fragmented_client_served_witness:
  "\<exists>S0 S msgs. server_started S0 \<and> run_ops server_event_step example_events S0 = Some S \<and>
     map snd (filter (\<lambda>x. fst x = 0) msgs) = [log_line ''INSERT'' ''a'' ''1'' @ [newline]] \<and>
     sent (calls S) = zip (map (\<lambda>x. conn_socket (conn_objects S ! fst x)) msgs)
       (fst (respond_all (map snd msgs) (HashMap_map (hashMap S0))))"
proof -
  obtain S0 S where S: "server_started S0" "run_ops server_event_step example_events S0 = Some S"
    by (rule example_events_run)
  let ?partss = "[[log_line ''INSERT'' ''a'' ''1'' @ [newline]]]"
  have p: "pieces 0 example_events = concat ?partss" by (simp add: client_pieces)
  have f: "list_all fragmented ?partss"
    by (simp add: fragmented_def log_line_def MAX_COMMAND_BUFFER_LENGTH_def)
  have c: "map concat ?partss = [log_line ''INSERT'' ''a'' ''1'' @ [newline]]" by simp
  from fragmented_client_served[OF S p f, unfolded c] show ?thesis
    by (elim exE, intro exI conjI) (rule S, rule S, erule conjunct1, erule conjunct2)
qed

text \<open>
  Progress and preservation of whole rounds: in a state that such a run reaches no round is
  stuck or undefined, a queued job can always be handled, whatever is received, and the state it
  leads to is well-formed again.  The accesses of concurrent rounds to the unlocked table are
  taken one after the other here (\<open>Locks\<close> shows that nothing orders them).
\<close>

theorem server_never_stuck:
  assumes "server_started S0" and "run_ops server_event_step es S0 = Some S"
    and "case e of EvJob received rearmed now c \<Rightarrow> c \<in> set (tpool_jobs S) | _ \<Rightarrow> True"
  shows "\<exists>S'. server_event_step e S = Some S' \<and> server_inv S'"
proof -
  have i: "server_inv S" using run_events_inv[OF assms(2)] server_started_inv[OF assms(1)] by blast
  have "\<exists>S'. server_event_step e S = Some S'"
  proof (cases e)
    case (EvJob received rearmed now c)
    have "server_inv (S\<lparr>tpool_jobs := remove1 c (tpool_jobs S)\<rparr>)"
      by (rule server_inv_fewer[OF i])
         (use i in \<open>auto simp: server_inv_def dest: subsetD[OF set_remove1_subset]\<close>)
    from messageHandler_inv[OF this, of c received rearmed now] i assms(3) EvJob
    show ?thesis by (auto simp: server_inv_def)
  next
    case EvSnapshot
    have "db_inv (hashMap S, pers S)" using i by (simp add: server_inv_def)
    then have "HashMap_inv (hashMap S) \<and> pers_ok (pers S)" by (simp add: db_inv_def)
    then show ?thesis using EvSnapshot
      by (auto simp: createSnapshot_ok HashMap_forEach_entries elim!: pers_okE)
  qed (auto split: prod.split)
  then show ?thesis using answers_inv[OF i] by blast
qed

theorem server_never_stuck_witness:
  "\<exists>S0 S S'. server_started S0 \<and> run_ops server_event_step example_events S0 = Some S \<and>
     server_event_step EvSnapshot S = Some S' \<and> server_inv S'"
proof -
  obtain S0 S where S: "server_started S0" "run_ops server_event_step example_events S0 = Some S"
    by (rule example_events_run)
  from server_never_stuck[OF S, of EvSnapshot] S show ?thesis by auto
qed

end
