(* ===== verification/Concurrent.thy ===== *)
theory Concurrent
  imports Races Linearize
begin

text \<open>
  Handlers that run at the same time.  \<open>Linearize\<close> takes a whole \<open>messageHandler\<close> as one
  step; in the code the workers interleave, and what is atomic is one critical section: the
  operation on the map under its lock, the record appended under the log's lock
  (\<open>src/Server/Server.cpp\<close> lines 267 to 327).  Here each handler is a thread of such sections,
  any number of them runs at once among the sections of snapshots, and the invocations and
  responses they leave in the history are shown to be linearizable.
\<close>

subsection \<open>The sections of a handler\<close>

text \<open>Where a handler with a complete message stands.\<close>

datatype handler_pc =
    Parsing string                 \<comment> \<open>before its operation on the map\<close>
  | LoggingInsert string string    \<comment> \<open>between \<open>hashMap.insert\<close> and \<open>pers.appendToLog\<close>\<close>
  | LoggingDelete string
  | Answering string               \<comment> \<open>before \<open>send\<close>\<close>
  | Answered string

fun handler_section :: "handler_pc \<Rightarrow> db \<Rightarrow> (handler_pc \<times> db) option" where
  "handler_section (Parsing message) d =
     (let (command, s1) = read_word '''' (istringstream message);
          (key, s2) = read_word '''' s1 in
      if command = ''INSERT'' then
        let (val, s3) = read_word '''' s2 in
        if val = [] then Some (Answering (''Empty Value Recieved, Try again'' @ [newline]), d)
        else map_option (\<lambda>d'. (LoggingInsert key val, d')) (db_event_step (InsertMem key val) d)
      else if command = ''GET'' then
        map_option (\<lambda>resultGet.
            (Answering (if resultGet \<noteq> [] then ''Get command was successful: '' @ resultGet @ [newline]
                        else ''Get command was successful but key dont exist'' @ [newline]), d))
          (HashMap_get (fst d) key)
      else if command = ''DELETE'' then
        map_option (\<lambda>d'. (LoggingDelete key, d')) (db_event_step (DeleteMem key) d)
      else Some (Answering (''No command was received'' @ [newline]), d))"
| "handler_section (LoggingInsert key val) d =
     map_option (\<lambda>d'. (Answering (''Insert command was successful'' @ [newline]), d'))
       (db_event_step (InsertLog key val) d)"
| "handler_section (LoggingDelete key) d =
     map_option (\<lambda>d'. (Answering (''Delete command was successful'' @ [newline]), d'))
       (db_event_step (DeleteLog key) d)"
| "handler_section (Answering response) d = Some (Answered response, d)"
| "handler_section (Answered response) d = None"

text \<open>A handler that is not interrupted does what \<open>execute_command\<close> does.\<close>

fun to_answer :: "nat \<Rightarrow> handler_pc \<times> db \<Rightarrow> (string \<times> db) option" where
  "to_answer n (Answering response, d) = Some (response, d)"
| "to_answer 0 (pc, d) = None"
| "to_answer (Suc n) (pc, d) = Option.bind (handler_section pc d) (to_answer n)"

lemma uninterrupted_handler:
  "to_answer 2 (Parsing message, d) = execute_command message d"
proof -
  have i: "db_insert k v d = Option.bind (db_event_step (InsertMem k v) d) (db_event_step (InsertLog k v))"
    and x: "db_delete k d = Option.bind (db_event_step (DeleteMem k) d) (db_event_step (DeleteLog k))" for k v
    by (simp_all add: uninterrupted[symmetric] split: option.split bind_splits)
  show ?thesis
    unfolding execute_command_def
    by (simp add: numeral_2_eq_2 i x split_beta Let_def map_option_case bind_eq_Some_conv
        split: option.split bind_splits)
qed

subsection \<open>Threads and their history\<close>

datatype handler_event = Invoked nat string | Responded nat string

text \<open>
  \<open>handlers ! i\<close> is the handler of the message invoked as number \<open>i\<close>.  \<open>points\<close> is a history
  variable: the messages in the order of their sections on the map, with their responses.
\<close>

record Concurrent =
  shared :: db
  handlers :: "handler_pc list"
  history :: "handler_event list"
  points :: "(nat \<times> string \<times> string) list"

fun promised :: "handler_pc \<Rightarrow> string option" where
  "promised (Parsing message) = None"
| "promised (LoggingInsert key val) = Some (''Insert command was successful'' @ [newline])"
| "promised (LoggingDelete key) = Some (''Delete command was successful'' @ [newline])"
| "promised (Answering response) = Some response"
| "promised (Answered response) = Some response"

definition new_point :: "nat \<Rightarrow> handler_pc \<Rightarrow> handler_pc \<Rightarrow> (nat \<times> string \<times> string) list" where
  "new_point i pc pc' = (case pc of Parsing message \<Rightarrow> [(i, message, the (promised pc'))] | _ \<Rightarrow> [])"

definition new_response :: "nat \<Rightarrow> handler_pc \<Rightarrow> handler_event list" where
  "new_response i pc' = (case pc' of Answered response \<Rightarrow> [Responded i response] | _ \<Rightarrow> [])"

inductive concurrent_step :: "Concurrent \<Rightarrow> Concurrent \<Rightarrow> bool" where
  conc_invoke: "concurrent_step x (x\<lparr>handlers := handlers x @ [Parsing message],
     history := history x @ [Invoked (length (handlers x)) message]\<rparr>)"
| conc_section: "concurrent_step x (x\<lparr>shared := d, handlers := (handlers x)[i := pc'],
     history := history x @ new_response i pc', points := points x @ new_point i (handlers x ! i) pc'\<rparr>)"
    if "i < length (handlers x)" "handler_section (handlers x ! i) (shared x) = Some (pc', d)"
| conc_snapshot: "concurrent_step x (x\<lparr>shared := d\<rparr>)"
    if "e \<in> {SnapDump, SnapReset}" "db_event_step e (shared x) = Some d"

definition Concurrent_start :: "db \<Rightarrow> Concurrent" where
  "Concurrent_start d = \<lparr>shared = d, handlers = [], history = [], points = []\<rparr>"

subsection \<open>What a section does\<close>

fun pc_ok :: "handler_pc \<Rightarrow> bool" where
  "pc_ok (LoggingInsert key val) = (word key \<and> word val)"
| "pc_ok (LoggingDelete key) = (word key \<or> key = '''')"
| "pc_ok _ = True"

lemma handler_section_words:
  "handler_section (Parsing message) d =
     (case words3 message of (command, key, val) \<Rightarrow>
        if command = ''INSERT'' then
          if val = [] then Some (Answering (''Empty Value Recieved, Try again'' @ [newline]), d)
          else map_option (\<lambda>d'. (LoggingInsert key val, d')) (db_event_step (InsertMem key val) d)
        else if command = ''GET'' then
          map_option (\<lambda>r. (Answering (if r \<noteq> [] then ''Get command was successful: '' @ r @ [newline]
               else ''Get command was successful but key dont exist'' @ [newline]), d))
            (HashMap_get (fst d) key)
        else if command = ''DELETE'' then
          map_option (\<lambda>d'. (LoggingDelete key, d')) (db_event_step (DeleteMem key) d)
        else Some (Answering (''No command was received'' @ [newline]), d))"
  by (simp add: words3_def split_beta Let_def)

declare handler_section.simps(1) [simp del]

lemma event_store:
  assumes "race_inv d" and "event_ok e"
  obtains d' where "db_event_step e d = Some d'" "race_inv d'"
    "db_store d' = fst (shadow_step e (shadow d))"
  using db_event_sim[OF assms] shadow_mem by metis

lemma shadow_mem_step:
  "fst (shadow_step (InsertMem k v) (shadow d)) = (db_store d)(k \<mapsto> v)"
  "fst (shadow_step (DeleteMem k) (shadow d)) = (db_store d)(k := None)"
  "fst (shadow_step (InsertLog k v) (shadow d)) = db_store d"
  "fst (shadow_step (DeleteLog k) (shadow d)) = db_store d"
  "fst (shadow_step SnapDump (shadow d)) = db_store d"
  "fst (shadow_step SnapReset (shadow d)) = db_store d"
  using shadow_mem[of d] by (cases "shadow d"; simp)+

lemma parsing_section:
  assumes "race_inv d"
  obtains pc' d' where "handler_section (Parsing message) d = Some (pc', d')" "race_inv d'" "pc_ok pc'"
    "promised pc' = Some (fst (respond message (db_store d)))" "db_store d' = snd (respond message (db_store d))"
    "\<forall>r. pc' \<noteq> Answered r"
proof -
  obtain c k v where w: "words3 message = (c, k, v)" by (cases "words3 message")
  have ok: "word k \<or> k = []" "v = [] \<or> word k \<and> word v" using words3_words[OF w] by auto
  have inv: "HashMap_inv (fst d)" "clean_store (db_store d)"
    using assms by (simp_all add: race_inv_def db_store_def split_beta)
  have get: "HashMap_get (fst d) k = Some (value_or_empty (db_store d) k)"
    using hm.get[OF inv(1)] by (simp add: db_store_def)
  have ne: "db_store d k \<noteq> Some []" using inv(2) by (auto simp: clean_store_def word_def)
  consider (ins) "c = ''INSERT''" "v \<noteq> []" | (empty) "c = ''INSERT''" "v = []" | (get) "c = ''GET''"
    | (del) "c = ''DELETE''" | (other) "c \<notin> {''INSERT'', ''GET'', ''DELETE''}" by blast
  then show thesis
  proof cases
    case ins
    obtain d' where "db_event_step (InsertMem k v) d = Some d'" "race_inv d'"
        "db_store d' = fst (shadow_step (InsertMem k v) (shadow d))"
      using event_store[OF assms, of "InsertMem k v"] ok(2) ins(2) by auto
    then show thesis using ins ok(2) that[of "LoggingInsert k v" d']
      by (simp add: handler_section_words w respond_def shadow_mem_step)
  next
    case empty
    then show thesis using that[of _ d] assms by (simp add: handler_section_words w respond_def)
  next
    case get
    then show thesis using \<open>HashMap_get (fst d) k = _\<close> ne assms that[of _ d]
      by (cases "db_store d k") (simp_all add: handler_section_words w respond_def value_or_empty_def)
  next
    case del
    obtain d' where "db_event_step (DeleteMem k) d = Some d'" "race_inv d'"
        "db_store d' = fst (shadow_step (DeleteMem k) (shadow d))"
      using event_store[OF assms, of "DeleteMem k"] ok(1) by auto
    then show thesis using del ok(1) that[of "LoggingDelete k" d']
      by (simp add: handler_section_words w respond_def shadow_mem_step)
  next
    case other
    then show thesis using that[of _ d] assms by (simp add: handler_section_words w respond_def)
  qed
qed

lemma later_section:
  assumes "race_inv d" and "pc_ok pc" and "\<And>m. pc \<noteq> Parsing m" and "handler_section pc d = Some (pc', d')"
  shows "race_inv d'" and "pc_ok pc'" and "promised pc' = promised pc" and "db_store d' = db_store d"
    and "\<And>m. pc' \<noteq> Parsing m" and "\<And>r. pc \<noteq> Answered r"
proof -
  have "race_inv d' \<and> pc_ok pc' \<and> promised pc' = promised pc \<and> db_store d' = db_store d \<and>
      (\<forall>m. pc' \<noteq> Parsing m) \<and> (\<forall>r. pc \<noteq> Answered r)"
  proof (cases pc)
    case (LoggingInsert k v)
    obtain d2 where "db_event_step (InsertLog k v) d = Some d2" "race_inv d2"
        "db_store d2 = fst (shadow_step (InsertLog k v) (shadow d))"
      using event_store[OF assms(1), of "InsertLog k v"] assms(2) LoggingInsert by auto
    then show ?thesis using assms(4) LoggingInsert by (auto simp: shadow_mem_step)
  next
    case (LoggingDelete k)
    obtain d2 where "db_event_step (DeleteLog k) d = Some d2" "race_inv d2"
        "db_store d2 = fst (shadow_step (DeleteLog k) (shadow d))"
      using event_store[OF assms(1), of "DeleteLog k"] assms(2) LoggingDelete by auto
    then show ?thesis using assms(4) LoggingDelete by (auto simp: shadow_mem_step)
  qed (use assms in auto)
  then show "race_inv d'" "pc_ok pc'" "promised pc' = promised pc" "db_store d' = db_store d"
    "\<And>m. pc' \<noteq> Parsing m" "\<And>r. pc \<noteq> Answered r" by simp_all
qed

subsection \<open>Linearizability\<close>

definition before :: "'a \<Rightarrow> 'a \<Rightarrow> 'a list \<Rightarrow> bool" where
  "before a b xs \<longleftrightarrow> (\<exists>us vs. xs = us @ vs \<and> a \<in> set us \<and> b \<in> set vs)"

text \<open>Every response precedes, in the order \<open>ns\<close>, what was invoked after it.\<close>

definition real_time :: "handler_event list \<Rightarrow> nat list \<Rightarrow> bool" where
  "real_time h ns \<longleftrightarrow> (\<forall>h1 h2 a r b m. h = h1 @ h2 \<longrightarrow> Responded a r \<in> set h1 \<longrightarrow>
     Invoked b m \<in> set h2 \<longrightarrow> b \<in> set ns \<longrightarrow> before a b ns)"

text \<open>
  A history is linearizable from the store \<open>s0\<close> to \<open>s\<close>: some invoked messages, all that were
  answered among them, each once, in an order that respects real time, give on the abstract
  server the responses of the history and the store \<open>s\<close>.
\<close>

definition linearizable ::
  "handler_event list \<Rightarrow> (string \<rightharpoonup> string) \<Rightarrow> (string \<rightharpoonup> string) \<Rightarrow> bool" where
  "linearizable h s0 s \<longleftrightarrow> (\<exists>ops.
     distinct (map fst ops) \<and> (\<forall>(i, m, r) \<in> set ops. Invoked i m \<in> set h) \<and>
     (\<forall>i r. Responded i r \<in> set h \<longrightarrow> (\<exists>m. (i, m, r) \<in> set ops)) \<and>
     real_time h (map fst ops) \<and>
     respond_all (map (\<lambda>x. fst (snd x)) ops) s0 = (map (\<lambda>x. snd (snd x)) ops, s))"

lemma before_append: "before a b xs \<Longrightarrow> before a b (xs @ ys)"
  unfolding before_def by (metis UnCI append.assoc set_append)

lemma before_last: "a \<in> set xs \<Longrightarrow> before a b (xs @ [b])"
  unfolding before_def by (intro exI[of _ xs] exI[of _ "[b]"]) simp

lemma real_timeD:
  "real_time (h1 @ h2) ns \<Longrightarrow> Responded a r \<in> set h1 \<Longrightarrow> Invoked b m \<in> set h2 \<Longrightarrow> b \<in> set ns \<Longrightarrow>
   before a b ns"
  unfolding real_time_def by blast

lemma real_time_event:
  assumes "real_time h ns" and "\<And>n m. e = Invoked n m \<Longrightarrow> n \<notin> set ns"
  shows "real_time (h @ [e]) ns"
  unfolding real_time_def
proof (intro allI impI)
  fix h1 h2 a r b m
  assume h: "h @ [e] = h1 @ h2" and a: "Responded a r \<in> set h1" and b: "Invoked b m \<in> set h2"
    and n: "b \<in> set ns"
  obtain h2' where h2: "h2 = h2' @ [e]" "h = h1 @ h2'"
    using h b by (cases h2 rule: rev_cases) auto
  have "Invoked b m \<in> set h2'" using b h2(1) assms(2)[of b m] n by auto
  with a n show "before a b ns" using real_timeD assms(1) h2(2) by blast
qed

lemma real_time_point:
  assumes "real_time h ns" and "\<And>a r. Responded a r \<in> set h \<Longrightarrow> a \<in> set ns"
  shows "real_time h (ns @ [n])"
  unfolding real_time_def
proof (intro allI impI)
  fix h1 h2 a r b m
  assume h: "h = h1 @ h2" and a: "Responded a r \<in> set h1" and b: "Invoked b m \<in> set h2"
    and n: "b \<in> set (ns @ [n])"
  show "before a b (ns @ [n])"
  proof (cases "b \<in> set ns")
    case True
    then have "before a b ns" using real_timeD a b assms(1) h by blast
    then show ?thesis by (rule before_append)
  next
    case False
    then show ?thesis using n assms(2)[of a r] h a by (auto intro: before_last)
  qed
qed

text \<open>The messages that passed the map are those of \<open>points\<close>, and each keeps its response.\<close>

definition concurrent_inv :: "(string \<rightharpoonup> string) \<Rightarrow> Concurrent \<Rightarrow> bool" where
  "concurrent_inv s0 x \<longleftrightarrow>
     race_inv (shared x) \<and> list_all pc_ok (handlers x) \<and> distinct (map fst (points x)) \<and>
     respond_all (map (\<lambda>p. fst (snd p)) (points x)) s0 =
       (map (\<lambda>p. snd (snd p)) (points x), db_store (shared x)) \<and>
     real_time (history x) (map fst (points x)) \<and>
     (\<forall>(i, m, r) \<in> set (points x). i < length (handlers x) \<and> Invoked i m \<in> set (history x) \<and>
        promised (handlers x ! i) = Some r) \<and>
     (\<forall>i < length (handlers x). i \<notin> fst ` set (points x) \<longrightarrow>
        (\<exists>m. handlers x ! i = Parsing m \<and> Invoked i m \<in> set (history x))) \<and>
     (\<forall>i r. Responded i r \<in> set (history x) \<longrightarrow>
        i < length (handlers x) \<and> handlers x ! i = Answered r)"

lemma concurrent_inv_linearizable:
  assumes "concurrent_inv s0 x"
  shows "linearizable (history x) s0 (db_store (shared x))"
proof -
  have inv: "distinct (map fst (points x))" "real_time (history x) (map fst (points x))"
      "\<forall>(i, m, r) \<in> set (points x). i < length (handlers x) \<and> Invoked i m \<in> set (history x) \<and>
        promised (handlers x ! i) = Some r"
      "\<forall>i < length (handlers x). i \<notin> fst ` set (points x) \<longrightarrow>
        (\<exists>m. handlers x ! i = Parsing m \<and> Invoked i m \<in> set (history x))"
      "\<forall>i r. Responded i r \<in> set (history x) \<longrightarrow> i < length (handlers x) \<and> handlers x ! i = Answered r"
      "respond_all (map (\<lambda>p. fst (snd p)) (points x)) s0 =
        (map (\<lambda>p. snd (snd p)) (points x), db_store (shared x))"
    using assms unfolding concurrent_inv_def by blast+
  have "\<exists>m. (i, m, r) \<in> set (points x)" if "Responded i r \<in> set (history x)" for i r
  proof -
    have i: "i < length (handlers x)" "handlers x ! i = Answered r" using inv(5) that by blast+
    then have "i \<in> fst ` set (points x)" using inv(4) by force
    then obtain m r' where p: "(i, m, r') \<in> set (points x)" by force
    then have "promised (handlers x ! i) = Some r'" using inv(3) by blast
    with i p show ?thesis by auto
  qed
  moreover have "\<forall>(i, m, r) \<in> set (points x). Invoked i m \<in> set (history x)" using inv(3) by blast
  ultimately show ?thesis unfolding linearizable_def using inv(1,2,6) by blast
qed

lemma list_all_update: "list_all P xs \<Longrightarrow> P y \<Longrightarrow> list_all P (xs[i := y])"
  using set_update_subset_insert[of xs i y] by (auto simp: list_all_iff)

lemma invoke_inv:
  assumes "concurrent_inv s0 x"
  shows "concurrent_inv s0 (x\<lparr>handlers := handlers x @ [Parsing message],
     history := history x @ [Invoked (length (handlers x)) message]\<rparr>)"
proof -
  have "length (handlers x) \<notin> set (map fst (points x))"
    using assms by (auto simp: concurrent_inv_def)
  then have "real_time (history x @ [Invoked (length (handlers x)) message]) (map fst (points x))"
    using assms by (intro real_time_event) (auto simp: concurrent_inv_def)
  then show ?thesis using assms
    by (fastforce simp: concurrent_inv_def nth_append less_Suc_eq)
qed

text \<open>The first section of a handler is its point; the later ones change neither store nor response.\<close>

lemma parse_inv:
  assumes "concurrent_inv s0 x" and "i < length (handlers x)" and "handlers x ! i = Parsing message"
    and "handler_section (Parsing message) (shared x) = Some (pc', d)"
  shows "concurrent_inv s0 (x\<lparr>shared := d, handlers := (handlers x)[i := pc'],
     history := history x @ new_response i pc', points := points x @ new_point i (Parsing message) pc'\<rparr>)"
proof -
  have "race_inv (shared x)" using assms(1) by (simp add: concurrent_inv_def)
  then obtain pc2 d2 where "handler_section (Parsing message) (shared x) = Some (pc2, d2)" "race_inv d2"
      "pc_ok pc2" "promised pc2 = Some (fst (respond message (db_store (shared x))))"
      "db_store d2 = snd (respond message (db_store (shared x)))"
      "\<forall>r. pc2 \<noteq> Answered r"
    by (rule parsing_section[where message = message])
  then have p: "race_inv d" "pc_ok pc'" "promised pc' = Some (fst (respond message (db_store (shared x))))"
      "db_store d = snd (respond message (db_store (shared x)))" "\<forall>r. pc' \<noteq> Answered r"
    using assms(4) by auto
  have new: "i \<notin> fst ` set (points x)"
    using assms(1,3) by (fastforce simp: concurrent_inv_def)
  have inv: "Invoked i message \<in> set (history x)"
    using assms(1-3) new by (auto simp: concurrent_inv_def)
  have none: "new_response i pc' = []" using p(5) by (cases pc') (auto simp: new_response_def)
  have resp: "a \<in> set (map fst (points x))" if "Responded a r \<in> set (history x)" for a r
  proof -
    have "a < length (handlers x)" "handlers x ! a = Answered r"
      using assms(1) that by (auto simp: concurrent_inv_def)
    then show ?thesis using assms(1) by (fastforce simp: concurrent_inv_def)
  qed
  have rt: "real_time (history x) (map fst (points x) @ [i])"
    using assms(1) resp by (intro real_time_point) (auto simp: concurrent_inv_def)
  have run: "respond_all (map (\<lambda>p. fst (snd p)) (points x) @ [message]) s0 =
      (map (\<lambda>p. snd (snd p)) (points x) @ [fst (respond message (db_store (shared x)))], db_store d)"
    using assms(1) p(4) by (simp add: respond_all_append concurrent_inv_def split_beta)
  have rest: "\<forall>r. Responded i r \<notin> set (history x)" "\<forall>m r. (i, m, r) \<notin> set (points x)"
    using assms(1,3) new by (auto simp: concurrent_inv_def image_iff)
  have i: "list_all pc_ok (handlers x)" "distinct (map fst (points x))"
      "\<forall>(i, m, r) \<in> set (points x). i < length (handlers x) \<and> Invoked i m \<in> set (history x) \<and>
        promised (handlers x ! i) = Some r"
      "\<forall>i < length (handlers x). i \<notin> fst ` set (points x) \<longrightarrow>
        (\<exists>m. handlers x ! i = Parsing m \<and> Invoked i m \<in> set (history x))"
      "\<forall>i r. Responded i r \<in> set (history x) \<longrightarrow> i < length (handlers x) \<and> handlers x ! i = Answered r"
    using assms(1) unfolding concurrent_inv_def by blast+
  have pt: "new_point i (Parsing message) pc' = [(i, message, fst (respond message (db_store (shared x))))]"
    by (simp add: new_point_def p(3))
  show ?thesis
    unfolding concurrent_inv_def none pt
  proof (simp add: p(1,2) list_all_update[OF i(1)] i(2) new rt run, intro conjI)
    show "i < length (handlers x)" "Invoked i message \<in> set (history x)" using assms(2) inv by simp_all
  qed (use i assms(2) p(3) rest in \<open>auto simp: nth_list_update\<close>)
qed

lemma later_inv:
  assumes "concurrent_inv s0 x" and "i < length (handlers x)" and "\<And>m. handlers x ! i \<noteq> Parsing m"
    and "handler_section (handlers x ! i) (shared x) = Some (pc', d)"
  shows "concurrent_inv s0 (x\<lparr>shared := d, handlers := (handlers x)[i := pc'],
     history := history x @ new_response i pc', points := points x @ new_point i (handlers x ! i) pc'\<rparr>)"
proof -
  have ok: "race_inv (shared x)" "pc_ok (handlers x ! i)"
    using assms(1,2) by (auto simp: concurrent_inv_def list_all_length)
  note l = later_section[OF ok assms(3,4)]
  have none: "new_point i (handlers x ! i) pc' = []"
    using assms(3) by (cases "handlers x ! i") (auto simp: new_point_def)
  have "Responded i r \<notin> set (history x)" for r
    using assms(1) l(6)[of r] by (auto simp: concurrent_inv_def)
  then have old: "\<forall>r. Responded i r \<notin> set (history x)" by blast
  have rt: "real_time (history x @ new_response i pc') (map fst (points x))"
  proof (cases pc')
    case (Answered r)
    then show ?thesis using assms(1)
      by (auto simp: new_response_def concurrent_inv_def intro: real_time_event)
  qed (use assms(1) in \<open>simp_all add: new_response_def concurrent_inv_def\<close>)
  have resp: "Responded j r \<in> set (new_response i pc') \<longleftrightarrow> j = i \<and> pc' = Answered r" for j r
    by (cases pc') (auto simp: new_response_def)
  have inv: "Invoked j m \<in> set (new_response i pc') \<longleftrightarrow> False" for j m
    by (cases pc') (auto simp: new_response_def)
  have pt: "i \<in> fst ` set (points x)"
    using assms(1,2) assms(3) unfolding concurrent_inv_def by blast
  show ?thesis
    using assms(1,2) l(1-4) none rt old pt
    by (auto simp: concurrent_inv_def nth_list_update list_all_update resp inv)
qed

lemma snapshot_inv:
  assumes "concurrent_inv s0 x" and "e \<in> {SnapDump, SnapReset}" and "db_event_step e (shared x) = Some d"
  shows "concurrent_inv s0 (x\<lparr>shared := d\<rparr>)"
proof -
  have "race_inv (shared x)" "event_ok e" using assms(1,2) by (auto simp: concurrent_inv_def)
  then obtain d' where "db_event_step e (shared x) = Some d'" "race_inv d'"
      "db_store d' = fst (shadow_step e (shadow (shared x)))"
    by (rule event_store)
  then show ?thesis using assms by (auto simp: concurrent_inv_def shadow_mem_step)
qed

lemma concurrent_step_inv: "concurrent_step x y \<Longrightarrow> concurrent_inv s0 x \<Longrightarrow> concurrent_inv s0 y"
proof (induction rule: concurrent_step.induct)
  case (conc_section i x pc' d)
  then show ?case
    using parse_inv[of s0 x i _ pc' d] later_inv[of s0 x i pc' d] by (cases "handlers x ! i") auto
qed (rule invoke_inv snapshot_inv; assumption)+

lemma concurrent_reachable:
  assumes "db_inv d" and "concurrent_step\<^sup>*\<^sup>* (Concurrent_start d) x"
  shows "concurrent_inv (db_store d) x"
  using assms(2)
proof (induction rule: rtranclp_induct)
  case base
  then show ?case using db_inv_race_inv[OF assms(1)]
    by (simp add: Concurrent_start_def concurrent_inv_def real_time_def)
qed (rule concurrent_step_inv)

subsection \<open>Progress\<close>

fun sections_left :: "handler_pc \<Rightarrow> nat" where
  "sections_left (Parsing message) = 3"
| "sections_left (LoggingInsert key val) = 2"
| "sections_left (LoggingDelete key) = 2"
| "sections_left (Answering response) = 1"
| "sections_left (Answered response) = 0"

lemma section_progress:
  assumes "race_inv d" and "pc_ok pc" and "sections_left pc \<noteq> 0"
  shows "\<exists>pc' d'. handler_section pc d = Some (pc', d') \<and> sections_left pc' < sections_left pc"
proof (cases pc)
  case (Parsing message)
  obtain pc' d' where "handler_section (Parsing message) d = Some (pc', d')" "promised pc' \<noteq> None"
    using parsing_section[OF assms(1), of message] by (metis option.discI)
  then show ?thesis using Parsing by (cases pc') auto
next
  case (LoggingInsert k v)
  obtain d2 where "db_event_step (InsertLog k v) d = Some d2"
    using event_store[OF assms(1), of "InsertLog k v"] assms(2) LoggingInsert
    by (metis event_ok.simps(2) pc_ok.simps(1))
  then show ?thesis using LoggingInsert by auto
next
  case (LoggingDelete k)
  obtain d2 where "db_event_step (DeleteLog k) d = Some d2"
    using event_store[OF assms(1), of "DeleteLog k"] assms(2) LoggingDelete
    by (metis event_ok.simps(4) pc_ok.simps(2))
  then show ?thesis using LoggingDelete by auto
qed (use assms(3) in simp_all)

lemma answered_is_recorded:
  assumes "concurrent_step x y" and "\<forall>i r. i < length (handlers x) \<longrightarrow> handlers x ! i = Answered r \<longrightarrow>
      Responded i r \<in> set (history x)"
  shows "\<forall>i r. i < length (handlers y) \<longrightarrow> handlers y ! i = Answered r \<longrightarrow> Responded i r \<in> set (history y)"
  using assms(1)
proof cases
  case (conc_section i pc' d)
  then show ?thesis using assms(2) by (auto simp: nth_list_update new_response_def)
qed (use assms(2) in \<open>auto simp: nth_append less_Suc_eq\<close>)

lemma handler_runs:
  assumes "concurrent_inv s0 x" and "i < length (handlers x)"
    and "\<forall>i r. i < length (handlers x) \<longrightarrow> handlers x ! i = Answered r \<longrightarrow> Responded i r \<in> set (history x)"
  shows "\<exists>n y r. (concurrent_step ^^ n) x y \<and> n \<le> sections_left (handlers x ! i) \<and>
    handlers y ! i = Answered r \<and> Responded i r \<in> set (history y)"
  using assms
proof (induction "sections_left (handlers x ! i)" arbitrary: x rule: less_induct)
  case less
  show ?case
  proof (cases "sections_left (handlers x ! i) = 0")
    case True
    then obtain r where "handlers x ! i = Answered r" by (cases "handlers x ! i") auto
    then show ?thesis using less.prems(2,3) by (intro exI[of _ "0::nat"] exI[of _ x] exI[of _ r]) simp
  next
    case False
    have "race_inv (shared x)" "pc_ok (handlers x ! i)"
      using less.prems(1,2) by (auto simp: concurrent_inv_def list_all_length)
    then obtain pc' d where s: "handler_section (handlers x ! i) (shared x) = Some (pc', d)"
        "sections_left pc' < sections_left (handlers x ! i)"
      using section_progress False by blast
    let ?y = "x\<lparr>shared := d, handlers := (handlers x)[i := pc'],
       history := history x @ new_response i pc', points := points x @ new_point i (handlers x ! i) pc'\<rparr>"
    have st: "concurrent_step x ?y" by (rule conc_section[OF less.prems(2) s(1)])
    have "sections_left (handlers ?y ! i) < sections_left (handlers x ! i)" "i < length (handlers ?y)"
      using s(2) less.prems(2) by simp_all
    from less.hyps[OF this(1) concurrent_step_inv[OF st less.prems(1)] this(2)
        answered_is_recorded[OF st less.prems(3)]]
    obtain n y r where n: "(concurrent_step ^^ n) ?y y" "n \<le> sections_left (handlers ?y ! i)"
        "handlers y ! i = Answered r" "Responded i r \<in> set (history y)" by blast
    have "(concurrent_step ^^ Suc n) x y" using st n(1) by (rule relpowp_Suc_I2)
    then show ?thesis using n(2-4) s(2) less.prems(2)
      by (intro exI[of _ "Suc n"] exI[of _ y] exI[of _ r]) simp
  qed
qed

subsection \<open>Properties\<close>

text \<open>
  C5 (refinement). Linearizability at the granularity of the locks: however the sections of
  any number of concurrent handlers interleave, with each other and with snapshots, the
  responses are those of the abstract server on some order of the messages in which a message
  answered before another arrived comes first, and memory holds the store of that order.
\<close>

theorem handlers_linearizable:
  assumes "db_inv d" and "concurrent_step\<^sup>*\<^sup>* (Concurrent_start d) x"
  shows "linearizable (history x) (db_store d) (db_store (shared x))"
  by (rule concurrent_inv_linearizable[OF concurrent_reachable[OF assms]])

text \<open>An insert is visible to a concurrent lookup before it is logged and answered.\<close>

lemma example_run:
  obtains d x where "db_inv d" "db_store d = Map.empty" "concurrent_step\<^sup>*\<^sup>* (Concurrent_start d) x"
    "handlers x = [LoggingInsert ''a'' ''1'', Answered (''Get command was successful: 1'' @ [newline])]"
    "history x = [Invoked 0 (''INSERT a 1'' @ [newline]), Invoked 1 (''GET a'' @ [newline]),
       Responded 1 (''Get command was successful: 1'' @ [newline])]"
    "db_store (shared x) = [''a'' \<mapsto> ''1'']"
proof -
  obtain d where d: "db_inv d" "db_store d = Map.empty" by (rule example_db)
  let ?m1 = "''INSERT a 1'' @ [newline]" and ?m2 = "''GET a'' @ [newline]"
    and ?r = "''Get command was successful: 1'' @ [newline]"
  have w: "words3 ?m1 = (''INSERT'', ''a'', ''1'')" "words3 ?m2 = (''GET'', ''a'', '''')" "word ''a''" "word ''1''"
    by code_simp+
  obtain d1 where d1: "db_event_step (InsertMem ''a'' ''1'') d = Some d1" "race_inv d1"
      "db_store d1 = fst (shadow_step (InsertMem ''a'' ''1'') (shadow d))"
    using event_store[OF db_inv_race_inv[OF d(1)], of "InsertMem ''a'' ''1''"] w(3,4)
    by (metis event_ok.simps(1))
  have st: "db_store d1 = [''a'' \<mapsto> ''1'']" using d1(3) d(2) by (simp only: shadow_mem_step)
  have g: "HashMap_get (fst d1) ''a'' = Some ''1''"
    using hm.get[of "fst d1" "''a''"] d1(2) st by (simp add: race_inv_def split_beta db_store_def value_or_empty_def)
  have p1: "handler_section (Parsing ?m1) d = Some (LoggingInsert ''a'' ''1'', d1)"
    unfolding handler_section_words w using d1(1) by simp
  have p2: "handler_section (Parsing ?m2) d1 = Some (Answering ?r, d1)"
    unfolding handler_section_words w using g by simp
  define x1 where "x1 = (Concurrent_start d)\<lparr>handlers := [Parsing ?m1], history := [Invoked 0 ?m1]\<rparr>"
  define x2 where "x2 = x1\<lparr>shared := d1, handlers := [LoggingInsert ''a'' ''1''],
      points := [(0, ?m1, ''Insert command was successful'' @ [newline])]\<rparr>"
  define x3 where "x3 = x2\<lparr>handlers := [LoggingInsert ''a'' ''1'', Parsing ?m2],
      history := [Invoked 0 ?m1, Invoked 1 ?m2]\<rparr>"
  define x4 where "x4 = x3\<lparr>handlers := [LoggingInsert ''a'' ''1'', Answering ?r],
      points := points x3 @ [(1, ?m2, ?r)]\<rparr>"
  define x5 where "x5 = x4\<lparr>handlers := [LoggingInsert ''a'' ''1'', Answered ?r],
      history := [Invoked 0 ?m1, Invoked 1 ?m2, Responded 1 ?r]\<rparr>"
  note defs = Concurrent_start_def x1_def x2_def x3_def x4_def x5_def
  have "concurrent_step (Concurrent_start d) x1"
    using conc_invoke[of "Concurrent_start d" ?m1] by (simp add: defs)
  moreover have "concurrent_step x1 x2"
    using conc_section[of 0 x1 "LoggingInsert ''a'' ''1''" d1] p1
    by (simp add: defs new_response_def new_point_def)
  moreover have "concurrent_step x2 x3" using conc_invoke[of x2 ?m2] by (simp add: defs)
  moreover have "concurrent_step x3 x4"
    using conc_section[of 1 x3 "Answering ?r" d1] p2 by (simp add: defs new_response_def new_point_def)
  moreover have "concurrent_step x4 x5"
    using conc_section[of 1 x4 "Answered ?r" d1] by (simp add: defs new_response_def new_point_def)
  ultimately have "concurrent_step\<^sup>*\<^sup>* (Concurrent_start d) x5"
    by (meson converse_rtranclp_into_rtranclp rtranclp.rtrancl_refl)
  then show thesis by (rule that[OF d]) (simp_all add: defs st)
qed

theorem handlers_linearizable_witness:
  "\<exists>d (x :: Concurrent). db_inv d \<and> db_store d = Map.empty \<and>
     handlers x ! 0 = LoggingInsert ''a'' ''1'' \<and>
     Responded 1 (''Get command was successful: 1'' @ [newline]) \<in> set (history x) \<and>
     linearizable (history x) Map.empty [''a'' \<mapsto> ''1'']"
proof -
  obtain d x where x: "db_inv d" "db_store d = Map.empty" "concurrent_step\<^sup>*\<^sup>* (Concurrent_start d) x"
      "handlers x = [LoggingInsert ''a'' ''1'', Answered (''Get command was successful: 1'' @ [newline])]"
      "history x = [Invoked 0 (''INSERT a 1'' @ [newline]), Invoked 1 (''GET a'' @ [newline]),
         Responded 1 (''Get command was successful: 1'' @ [newline])]"
      "db_store (shared x) = [''a'' \<mapsto> ''1'']"
    by (rule example_run)
  have "linearizable (history x) Map.empty [''a'' \<mapsto> ''1'']"
    using handlers_linearizable[OF x(1,3)] unfolding x(2,6) .
  moreover have "Responded 1 (''Get command was successful: 1'' @ [newline]) \<in> set (history x)"
    unfolding x(5) by simp
  moreover have "handlers x ! 0 = LoggingInsert ''a'' ''1''" unfolding x(4) by simp
  ultimately show ?thesis using x(1,2) by blast
qed

text \<open>
  No handler can be blocked by the others: from every reachable state it
  answers within three sections of its own.
\<close>

theorem handlers_answer:
  assumes "db_inv d" and "concurrent_step\<^sup>*\<^sup>* (Concurrent_start d) x" and "i < length (handlers x)"
  shows "\<exists>n y r. (concurrent_step ^^ n) x y \<and> n \<le> 3 \<and>
    handlers y ! i = Answered r \<and> Responded i r \<in> set (history y)"
proof -
  have "\<forall>i r. i < length (handlers x) \<longrightarrow> handlers x ! i = Answered r \<longrightarrow> Responded i r \<in> set (history x)"
    using assms(2)
    by (induction rule: rtranclp_induct) (simp add: Concurrent_start_def, rule answered_is_recorded)
  from handler_runs[OF concurrent_reachable[OF assms(1,2)] assms(3) this]
  obtain n y r where "(concurrent_step ^^ n) x y" "n \<le> sections_left (handlers x ! i)"
      "handlers y ! i = Answered r" "Responded i r \<in> set (history y)" by blast
  moreover have "sections_left (handlers x ! i) \<le> 3" by (cases "handlers x ! i") simp_all
  ultimately show ?thesis by (meson order_trans)
qed

theorem handlers_answer_witness:
  "\<exists>x n y r. handlers x ! 0 = LoggingInsert ''a'' ''1'' \<and> (concurrent_step ^^ n) x y \<and> n \<le> 3 \<and>
     handlers y ! 0 = Answered r"
proof -
  obtain d x where x: "db_inv d" "concurrent_step\<^sup>*\<^sup>* (Concurrent_start d) x"
      "handlers x = [LoggingInsert ''a'' ''1'', Answered (''Get command was successful: 1'' @ [newline])]"
    by (rule example_run)
  from handlers_answer[OF x(1,2), of 0] x(3) show ?thesis
    by (intro exI[of _ x]) auto
qed

end
