(* ===== verification/OneShot.thy ===== *)
theory OneShot
  imports Server_Correct
begin

text \<open>
  The server with a one-shot event loop: which sockets the kernel watches (\<open>armed\<close>) is
  carried along, \<open>add\<close> and \<open>rearm\<close> arm a socket, a report, a removal and a close disarm it.
  The laws of the kernel are premises of the steps: it reports armed sockets only, each once
  in a call, and \<open>accept\<close> does not return the number of a socket that is still open (the
  sockets of the connection table are).  The question is whether two jobs for one connection
  can be queued at the same time, which would let two threads use one command buffer.

  One thing the program does itself gets in the way: the event loop closes the socket of an
  expired session without looking whether a job for it is queued or running
  (\<open>src/Server/Server.cpp\<close>, lines 165 to 175), and \<open>accept\<close> may then return its number.
  \<open>spares_jobs\<close> is the condition that a step does not close a socket in this way, \<open>sparing\<close> the
  steps that meet it; what can happen otherwise is \<open>stale_job_serves_new_client\<close> below.
\<close>

subsection \<open>The armed sockets\<close>

fun arm_call :: "net_call \<Rightarrow> SocketType set \<Rightarrow> SocketType set" where
  "arm_call (EL_Add s) A = insert s A"
| "arm_call (EL_Rearm s) A = insert s A"
| "arm_call (EL_Remove s) A = A - {s}"
| "arm_call (Close s) A = A - {s}"
| "arm_call (Send s r) A = A"

definition arm :: "net_call list \<Rightarrow> SocketType set \<Rightarrow> SocketType set" where
  "arm cs A = fold arm_call cs A"

lemma arm_append: "arm (cs @ cs') A = arm cs' (arm cs A)"
  by (simp add: arm_def)

definition new_calls :: "Server \<Rightarrow> Server \<Rightarrow> net_call list" where
  "new_calls S S' = drop (length (calls S)) (calls S')"

lemma new_calls_append: "calls S' = calls S @ cs \<Longrightarrow> new_calls S S' = cs"
  by (simp add: new_calls_def)

definition job_sockets :: "Server \<Rightarrow> SocketType list" where
  "job_sockets S = map (\<lambda>c. conn_socket (conn_objects S ! c)) (tpool_jobs S)"

subsection \<open>Steps\<close>

inductive io_step :: "Server \<times> SocketType set \<Rightarrow> Server \<times> SocketType set \<Rightarrow> bool" where
  io_job: "io_step (S, A) (S', arm (new_calls S S') A)"
    if "c \<in> set (tpool_jobs S)"
      "messageHandler received rearmed now c (S\<lparr>tpool_jobs := remove1 c (tpool_jobs S)\<rparr>) = Some S'"
| io_accept: "io_step (S, A) (S', arm (new_calls S S') A)"
    if "S' = fst (acceptClients_round a S)" "connections S (acc_socket a) = None"
| io_round: "io_step (S, A) (S', arm (new_calls S1 S') (arm (new_calls S S1) A - set (map entry_socket es)))"
    if "running S" "S1 = close_expired S" "S' = runEventLoop_round (Some es) S"
      "distinct (map entry_socket es)" "set (map entry_socket es) \<subseteq> arm (new_calls S S1) A"
| io_round_failed: "io_step (S, A) (S', arm (new_calls S S') A)"
    if "S' = runEventLoop_round None S"
| io_cleanup: "io_step (S, A) (S'\<lparr>userSessionManager := M\<rparr>, A)"
    if "cleanup_expired_sessions (Some onSessionExpired) order (userSessionManager S, S) = (M, S')"
| io_snapshot: "io_step (S, A) (S\<lparr>pers := p\<rparr>, A)"
    if "createSnapshot True True True (hashMap S) (pers S) = Some (p, None)"
| io_stop: "io_step (S, A) (S', arm (new_calls S S') A)"
    if "S' = Server_stop order S" "distinct order" "set order = dom (connections S)"

text \<open>A socket that the step takes from the queue of expired ones has no job.\<close>

definition spares_jobs :: "Server \<Rightarrow> Server \<Rightarrow> bool" where
  "spares_jobs S S' \<longleftrightarrow>
     (\<forall>s \<in> set (expiredSockets S). s \<in> set (expiredSockets S') \<or> s \<notin> set (job_sockets S))"

definition sparing :: "('s \<Rightarrow> Server) \<Rightarrow> ('s \<Rightarrow> 's \<Rightarrow> bool) \<Rightarrow> 's \<Rightarrow> 's \<Rightarrow> bool" where
  "sparing get step x x' \<longleftrightarrow> step x x' \<and> spares_jobs (get x) (get x')"

lemma sparing_steps: "(sparing get step)\<^sup>*\<^sup>* x x' \<Longrightarrow> step\<^sup>*\<^sup>* x x'"
  by (erule rtranclp_mono[THEN predicate2D, rotated]) (auto simp: sparing_def)

lemma spares_same: "expiredSockets S' = expiredSockets S \<Longrightarrow> spares_jobs S S'"
  by (simp add: spares_jobs_def)

text \<open>Every such step is a step of the server.\<close>

lemma io_step_server_step: "io_step (S, A) (S', A') \<Longrightarrow> server_step S S'"
  by (induction "(S, A)" "(S', A')" rule: io_step.induct)
     (auto intro: server_step.intros)

text \<open>While the server runs, what has a job or is watched is in the table, so its number is taken.\<close>

definition open_inv :: "Server \<Rightarrow> SocketType set \<Rightarrow> bool" where
  "open_inv S X \<longleftrightarrow> (running S \<longrightarrow> set (job_sockets S) \<union> X \<subseteq> dom (connections S))"

definition one_job_inv :: "Server \<times> SocketType set \<Rightarrow> bool" where
  "one_job_inv x \<longleftrightarrow> (case x of (S, A) \<Rightarrow>
     server_inv S \<and> distinct (job_sockets S) \<and> set (job_sockets S) \<inter> A = {} \<and> open_inv S A)"

subsection \<open>The steps keep the invariant\<close>

lemma handler_calls:
  assumes "messageHandler received rearmed now c S = Some S'" and "server_inv S" and "c < length (conn_objects S)"
  shows "\<exists>cs. calls S' = calls S @ cs \<and> arm cs A \<subseteq> insert (conn_socket (conn_objects S ! c)) A"
proof -
  obtain sends cs where "calls S' = calls S @ sends @ cs"
      "sends = [] \<or> (\<exists>r. sends = [Send (conn_socket (conn_objects S ! c)) r])"
      "set cs \<subseteq> {EL_Rearm (conn_socket (conn_objects S ! c)), EL_Remove (conn_socket (conn_objects S ! c)),
         Close (conn_socket (conn_objects S ! c))}"
    using handler_calls_shape[OF assms] by blast
  moreover have "arm cs B \<subseteq> insert s B" if "set cs \<subseteq> {EL_Rearm s, EL_Remove s, Close s}" for cs B s
    using that
  proof (induction cs arbitrary: B)
    case (Cons x cs)
    then have "arm cs (arm_call x B) \<subseteq> insert s (arm_call x B)" by simp
    moreover have "insert s (arm_call x B) \<subseteq> insert s B" using Cons.prems by auto
    ultimately have "arm cs (arm_call x B) \<subseteq> insert s B" by (rule order_trans)
    then show ?case by (simp add: arm_def)
  qed (auto simp: arm_def)
  moreover from calculation(2) have "arm (sends @ cs) A = arm cs A" by (auto simp: arm_append arm_def)
  ultimately show ?thesis
    by (intro exI[of _ "sends @ cs"]) simp
qed

lemma handler_table:
  assumes "messageHandler received rearmed now c S = Some S'" and "server_inv S" and "c < length (conn_objects S)"
    and "s = conn_socket (conn_objects S ! c)"
  shows "connections S' = connections S \<or>
    connections S' = (connections S)(s := None) \<and> arm (new_calls S S') A \<subseteq> A - {s}"
proof -
  let ?g = "received = Disconnected \<or> received = RecvError \<or>
      (\<exists>bytes. received = Received bytes \<and> length (commandBuffer (conn_objects S ! c) @ bytes) > 2024)"
  obtain sends where h: "sends = [] \<or> (\<exists>r. sends = [Send s r])"
      "calls S' = calls S @ sends @
         (if ?g then [EL_Remove s, Close s] else if rearmed then [EL_Rearm s] else [EL_Rearm s, EL_Remove s, Close s])"
      "connections S' = (if ?g \<or> \<not> rearmed then (connections S)(s := None) else connections S)"
    using handler_outcome[OF assms(2,3,4) refl, of received rearmed now] assms(1) by auto
  show ?thesis
  proof (cases "?g \<or> \<not> rearmed")
    case True
    then have "arm (new_calls S S') A \<subseteq> A - {s}"
      using h(1) unfolding new_calls_append[OF h(2)] by (auto simp: arm_def)
    then show ?thesis using True h(3) by auto
  next
    case False
    then show ?thesis using h(3) by auto
  qed
qed

lemma handler_frame:
  assumes "messageHandler received rearmed now c S = Some S'"
  shows "tpool_jobs S' = tpool_jobs S \<and> length (conn_objects S') = length (conn_objects S) \<and>
    (\<forall>c' < length (conn_objects S). conn_socket (conn_objects S' ! c') = conn_socket (conn_objects S ! c'))"
  using assms
  by (auto simp: messageHandler_def Let_def frame_simps split: recv_result.splits if_splits)

lemma job_sockets_same:
  assumes "tpool_jobs S' = tpool_jobs S" and "\<forall>c \<in> set (tpool_jobs S). c < length (conn_objects S)"
    and "\<forall>c < length (conn_objects S). conn_socket (conn_objects S' ! c) = conn_socket (conn_objects S ! c)"
  shows "job_sockets S' = job_sockets S"
  using assms by (simp add: job_sockets_def)

lemma close_expired_frame:
  "tpool_jobs (close_expired S) = tpool_jobs S" "conn_objects (close_expired S) = conn_objects S"
  "arm (new_calls S (close_expired S)) A = A - set (expiredSockets S)"
  "connections (close_expired S) s = (if s \<in> set (expiredSockets S) then None else connections S s)"
  "running (close_expired S) = running S" "expiredSockets (close_expired S) = []"
proof -
  have f: "tpool_jobs (fold closeConnection ss T) = tpool_jobs T \<and>
      conn_objects (fold closeConnection ss T) = conn_objects T \<and> running (fold closeConnection ss T) = running T \<and>
      expiredSockets (fold closeConnection ss T) = expiredSockets T" for ss T
    by (induction ss arbitrary: T) (simp_all add: frame_simps)
  show "tpool_jobs (close_expired S) = tpool_jobs S" "conn_objects (close_expired S) = conn_objects S"
    "running (close_expired S) = running S" "expiredSockets (close_expired S) = []"
    "connections (close_expired S) s = (if s \<in> set (expiredSockets S) then None else connections S s)"
    by (simp_all add: close_expired_def f fold_close_connections)
  have "new_calls S (close_expired S) = concat (map (\<lambda>s. [EL_Remove s, Close s]) (expiredSockets S))"
    by (rule new_calls_append) (simp add: close_expired_def fold_close_calls)
  moreover have "arm (concat (map (\<lambda>s. [EL_Remove s, Close s]) ss)) B = B - set ss" for ss B
    by (induction ss arbitrary: B) (auto simp: arm_def)
  ultimately show "arm (new_calls S (close_expired S)) A = A - set (expiredSockets S)" by simp
qed

text \<open>One reported event: a new job, nothing, or a close.\<close>

lemma dispatch_event_cases:
  assumes "server_inv S"
  obtains (ignored) "dispatch_event e S = S" "entry_event e = Readable" "connections S (entry_socket e) = None"
  | (job) c where "connections S (entry_socket e) = Some c" "entry_event e = Readable"
      "dispatch_event e S = S\<lparr>tpool_jobs := tpool_jobs S @ [c]\<rparr>"
      "job_sockets (dispatch_event e S) = job_sockets S @ [entry_socket e]"
  | (closed) "dispatch_event e S = closeConnection (entry_socket e) S" "entry_event e \<noteq> Readable"
      "job_sockets (dispatch_event e S) = job_sockets S"
      "calls (dispatch_event e S) = calls S @ [EL_Remove (entry_socket e), Close (entry_socket e)]"
proof -
  have t: "table_ok S" using assms by (simp add: server_inv_def)
  show thesis
  proof (cases "entry_event e = Readable")
    case True
    show thesis
    proof (cases "connections S (entry_socket e)")
      case None
      then show thesis using True ignored by (simp add: dispatch_event_def)
    next
      case (Some c)
      then show thesis using True job table_okD(2)[OF t Some]
        by (simp add: dispatch_event_def job_sockets_def)
    qed
  next
    case False
    then show thesis using closed by (simp add: dispatch_event_def job_sockets_def frame_simps)
  qed
qed

lemma dispatch_event_frame:
  "running (dispatch_event e S) = running S" "expiredSockets (dispatch_event e S) = expiredSockets S"
  by (simp_all add: dispatch_event_def frame_simps split: option.split)

lemma dispatch_events_one_job:
  assumes "server_inv S" and "distinct (job_sockets S)" and "distinct (map entry_socket es)"
    and "set (job_sockets S) \<inter> (B \<union> set (map entry_socket es)) = {}"
    and "B \<inter> set (map entry_socket es) = {}" and "open_inv S B"
  shows "\<exists>cs. calls (fold dispatch_event es S) = calls S @ cs \<and>
    distinct (job_sockets (fold dispatch_event es S)) \<and>
    set (job_sockets (fold dispatch_event es S)) \<inter> arm cs B = {} \<and> open_inv (fold dispatch_event es S) (arm cs B)"
  using assms
proof (induction es arbitrary: S B)
  case Nil
  then show ?case by (simp add: arm_def)
next
  case (Cons e es)
  let ?s = "entry_socket e" and ?S = "dispatch_event e S"
  have inv: "server_inv ?S" using Cons.prems(1) by (rule dispatch_event_inv)
  from Cons.prems(1) show ?case
  proof (cases rule: dispatch_event_cases[of S e])
    case ignored
    then show ?thesis using Cons.IH[of S B] Cons.prems by auto
  next
    case (job c)
    note js = job(4)
    have o: "open_inv ?S B" using Cons.prems(6) js job(1,3) by (auto simp: open_inv_def)
    have "\<exists>cs. calls (fold dispatch_event es ?S) = calls ?S @ cs \<and>
        distinct (job_sockets (fold dispatch_event es ?S)) \<and>
        set (job_sockets (fold dispatch_event es ?S)) \<inter> arm cs B = {} \<and> open_inv (fold dispatch_event es ?S) (arm cs B)"
      by (rule Cons.IH[OF inv]) (use Cons.prems js o in auto)
    then show ?thesis using job(3) by simp
  next
    case closed
    note js = closed(3) and c = closed(4)
    have o: "open_inv ?S (B - {?s})"
      using Cons.prems(4,6) js closed(1) by (auto simp: open_inv_def frame_simps)
    have "\<exists>cs. calls (fold dispatch_event es ?S) = calls ?S @ cs \<and>
        distinct (job_sockets (fold dispatch_event es ?S)) \<and>
        set (job_sockets (fold dispatch_event es ?S)) \<inter> arm cs (B - {?s}) = {} \<and>
        open_inv (fold dispatch_event es ?S) (arm cs (B - {?s}))"
      by (rule Cons.IH[OF inv]) (use Cons.prems js o in auto)
    then obtain cs where "calls (fold dispatch_event es ?S) = calls ?S @ cs"
        "distinct (job_sockets (fold dispatch_event es ?S))"
        "set (job_sockets (fold dispatch_event es ?S)) \<inter> arm cs (B - {?s}) = {}"
        "open_inv (fold dispatch_event es ?S) (arm cs (B - {?s}))" by blast
    moreover have "arm ([EL_Remove ?s, Close ?s] @ cs) B = arm cs (B - {?s})"
      by (simp add: arm_def)
    ultimately show ?thesis using c by (intro exI[of _ "[EL_Remove ?s, Close ?s] @ cs"]) simp
  qed
qed

lemma cleanup_frame:
  assumes "cleanup_expired_sessions (Some onSessionExpired) order (M0, S) = (M, S')"
  shows "tpool_jobs S' = tpool_jobs S \<and> conn_objects S' = conn_objects S \<and> connections S' = connections S \<and>
    running S' = running S \<and> set (expiredSockets S) \<subseteq> set (expiredSockets S')"
  using assms
  by (induction "Some onSessionExpired" order "(M0, S)" arbitrary: M0 S
      rule: cleanup_expired_sessions.induct)
     (auto simp: onSessionExpired_def Let_def split: option.splits if_splits)

lemma accept_calls:
  "\<exists>cs. calls (fst (acceptClients_round a S)) = calls S @ cs \<and>
     arm cs A \<subseteq> insert (acc_socket a) A \<and>
     tpool_jobs (fst (acceptClients_round a S)) = tpool_jobs S \<and>
     (\<exists>new. conn_objects (fst (acceptClients_round a S)) = conn_objects S @ new)"
proof -
  obtain al rt' where al: "isAllowed (sin_addr (acc_addr a)) (acc_now_global a)
      (acc_now_private a) (rt S) = (al, rt')"
    by (cases "isAllowed (sin_addr (acc_addr a)) (acc_now_global a) (acc_now_private a) (rt S)")
  obtain k usm where us: "add_session (acc_socket a) (acc_addr a) default_max_idle
      (acc_now_session a) (userSessionManager S) = (k, usm)"
    by (cases "add_session (acc_socket a) (acc_addr a) default_max_idle
      (acc_now_session a) (userSessionManager S)")
  show ?thesis
    by (cases "running S"; cases "acc_socket a = INVALID_SOCKET"; cases al;
        cases "acc_still_running a"; cases "acc_nonblocking a")
       (auto simp: acceptClients_round_def al us frame_simps Let_def arm_def)
qed

text \<open>The table and the watched sockets change together.\<close>

lemma accept_table:
  assumes "S' = fst (acceptClients_round a S)"
  obtains (same) "connections S' = connections S" "arm (new_calls S S') A \<subseteq> A" "running S' \<longrightarrow> running S"
  | (added) c where "connections S' = (connections S)(acc_socket a \<mapsto> c)" "arm (new_calls S S') A = insert (acc_socket a) A"
      "running S"
proof -
  obtain al rt' where al: "isAllowed (sin_addr (acc_addr a)) (acc_now_global a)
      (acc_now_private a) (rt S) = (al, rt')"
    by (cases "isAllowed (sin_addr (acc_addr a)) (acc_now_global a) (acc_now_private a) (rt S)")
  obtain k usm where us: "add_session (acc_socket a) (acc_addr a) default_max_idle
      (acc_now_session a) (userSessionManager S) = (k, usm)"
    by (cases "add_session (acc_socket a) (acc_addr a) default_max_idle
      (acc_now_session a) (userSessionManager S)")
  show thesis
  proof (cases "running S \<and> acc_socket a \<noteq> INVALID_SOCKET \<and> al \<and> acc_still_running a \<and> acc_nonblocking a")
    case True
    then show thesis using al us
      by (intro added[of "length (conn_objects S)"])
         (simp_all add: assms acceptClients_round_def frame_simps Let_def arm_def new_calls_def)
  next
    case False
    have "connections S' = connections S \<and> arm (new_calls S S') A \<subseteq> A \<and> (running S' \<longrightarrow> running S)"
      using False unfolding assms
      by (cases "running S"; cases "acc_socket a = INVALID_SOCKET"; cases al;
          cases "acc_still_running a"; cases "acc_nonblocking a")
         (auto simp: acceptClients_round_def al us frame_simps Let_def arm_def new_calls_def)
    then show thesis using same by blast
  qed
qed

lemma accept_expired: "expiredSockets (fst (acceptClients_round a S)) = expiredSockets S"
  by (auto simp: acceptClients_round_def Let_def frame_simps split: prod.splits)

text \<open>\<open>stop\<close> empties the table, and closes what was in it.\<close>

lemma stop_sockets:
  assumes "S' = Server_stop order S"
  shows "tpool_jobs S' = tpool_jobs S" and "job_sockets S' = job_sockets S" and "\<not> running S'"
    and "arm (new_calls S S') A \<subseteq> A" and "expiredSockets S' = expiredSockets S"
proof -
  let ?T = "fold (\<lambda>sock. log_call (Close sock)) order (S\<lparr>running := False\<rparr>)"
  have f: "tpool_jobs (fold (\<lambda>sock. log_call (Close sock)) ss T) = tpool_jobs T \<and>
      conn_objects (fold (\<lambda>sock. log_call (Close sock)) ss T) = conn_objects T \<and>
      running (fold (\<lambda>sock. log_call (Close sock)) ss T) = running T \<and>
      expiredSockets (fold (\<lambda>sock. log_call (Close sock)) ss T) = expiredSockets T \<and>
      calls (fold (\<lambda>sock. log_call (Close sock)) ss T) = calls T @ map Close ss" for ss T
    by (induction ss arbitrary: T) (simp_all add: frame_simps)
  show "tpool_jobs S' = tpool_jobs S" "job_sockets S' = job_sockets S" "\<not> running S'"
    "expiredSockets S' = expiredSockets S"
    by (simp_all add: assms Server_stop_def Let_def frame_simps f job_sockets_def)
  have "new_calls S S' = map Close order @ [Close (serverSocket ?T)]"
    by (rule new_calls_append) (simp add: assms Server_stop_def Let_def frame_simps f)
  moreover have "arm (map Close ss @ [Close t]) B \<subseteq> B" for ss t B
  proof (induction ss arbitrary: B)
    case (Cons s ss)
    from Cons.IH[of "B - {s}"] show ?case by (auto simp: arm_def)
  qed (auto simp: arm_def)
  ultimately show "arm (new_calls S S') A \<subseteq> A" by simp
qed

text \<open>A handled job: its socket leaves the queue and may be watched again.\<close>

lemma handle_sockets:
  assumes "server_inv S" and "distinct (job_sockets S)" and "c \<in> set (tpool_jobs S)"
    and "messageHandler received rearmed now c (S\<lparr>tpool_jobs := remove1 c (tpool_jobs S)\<rparr>) = Some S2"
  shows "server_inv S2"
    and "job_sockets S2 = remove1 (conn_socket (conn_objects S ! c)) (job_sockets S)"
    and "arm (new_calls S S2) A \<subseteq> insert (conn_socket (conn_objects S ! c)) A"
    and "tpool_jobs S2 = remove1 c (tpool_jobs S)"
proof -
  let ?S = "S\<lparr>tpool_jobs := remove1 c (tpool_jobs S)\<rparr>" and ?s = "conn_socket (conn_objects S ! c)"
  have jl: "\<forall>c \<in> set (tpool_jobs S). c < length (conn_objects S)"
    using assms(1) by (simp add: server_inv_def)
  have c: "c < length (conn_objects S)" using assms(3) jl by blast
  have inv': "server_inv ?S"
    by (rule server_inv_fewer[OF assms(1)])
       (use assms(1) in \<open>auto simp: server_inv_def dest: subsetD[OF set_remove1_subset]\<close>)
  show "server_inv S2" using messageHandler_inv[OF inv', of c received rearmed now] c assms(4) by auto
  obtain cs where cs: "calls S2 = calls S @ cs" "arm cs A \<subseteq> insert ?s A"
    using handler_calls[OF assms(4) inv', of A] c by auto
  then show "arm (new_calls S S2) A \<subseteq> insert ?s A" by (simp add: new_calls_append)
  have "job_sockets S2 = job_sockets ?S"
    by (rule job_sockets_same) (use handler_frame[OF assms(4)] jl in \<open>auto dest: subsetD[OF set_remove1_subset]\<close>)
  also have "\<dots> = remove1 ?s (job_sockets S)"
    using assms(2,3) unfolding job_sockets_def by (simp add: map_remove1_distinct)
  finally show "job_sockets S2 = remove1 ?s (job_sockets S)" .
  show "tpool_jobs S2 = remove1 c (tpool_jobs S)" using handler_frame[OF assms(4)] by simp
qed

lemma accept_sockets:
  assumes "server_inv S" and "S2 = fst (acceptClients_round a S)"
  shows "job_sockets S2 = job_sockets S" and "tpool_jobs S2 = tpool_jobs S"
    and "arm (new_calls S S2) A \<subseteq> insert (acc_socket a) A"
proof -
  obtain cs new where cs: "calls S2 = calls S @ cs" "arm cs A \<subseteq> insert (acc_socket a) A"
      "tpool_jobs S2 = tpool_jobs S" "conn_objects S2 = conn_objects S @ new"
    using accept_calls[of a S A] assms(2) by auto
  then show "tpool_jobs S2 = tpool_jobs S" "arm (new_calls S S2) A \<subseteq> insert (acc_socket a) A"
    by (simp_all add: new_calls_append)
  have "\<forall>c \<in> set (tpool_jobs S). c < length (conn_objects S)"
    using assms(1) by (simp add: server_inv_def)
  then show "job_sockets S2 = job_sockets S"
    by (intro job_sockets_same) (use cs(3,4) in \<open>auto simp: nth_append\<close>)
qed

text \<open>\<open>T\<close> are further sockets of the table: those of events still to be looked at.\<close>

lemma handle_open:
  assumes "server_inv S" and "distinct (job_sockets S)" and "c \<in> set (tpool_jobs S)"
    and "messageHandler received rearmed now c (S\<lparr>tpool_jobs := remove1 c (tpool_jobs S)\<rparr>) = Some S2"
    and "open_inv S (A \<union> T)" and "set (job_sockets S) \<inter> T = {}"
  shows "open_inv S2 (arm (new_calls S S2) A \<union> T)"
proof -
  let ?S = "S\<lparr>tpool_jobs := remove1 c (tpool_jobs S)\<rparr>" and ?s = "conn_socket (conn_objects S ! c)"
  note h = handle_sockets(2,3)[OF assms(1-4)]
  have inv: "server_inv ?S"
    by (rule server_inv_fewer[OF assms(1)])
       (use assms(1) in \<open>auto simp: server_inv_def dest: subsetD[OF set_remove1_subset]\<close>)
  have c: "c < length (conn_objects ?S)" using assms(1,3) by (simp add: server_inv_def)
  have s: "?s \<in> set (job_sockets S)" using assms(3) by (auto simp: job_sockets_def)
  have t: "connections S2 = connections S \<or> connections S2 = (connections S)(?s := None) \<and> arm (new_calls S S2) A \<subseteq> A - {?s}"
    using handler_table[OF assms(4) inv c, of ?s A] by (simp add: new_calls_def)
  have r: "running S2 = running S" using running_handler[OF assms(4)] by simp
  have js: "set (job_sockets S2) = set (job_sockets S) - {?s}" using assms(2) by (simp add: h(1) set_remove1_eq)
  show ?thesis unfolding open_inv_def r
  proof
    assume "running S"
    then have o: "set (job_sockets S) \<union> (A \<union> T) \<subseteq> dom (connections S)" using assms(5) by (simp add: open_inv_def)
    from t show "set (job_sockets S2) \<union> (arm (new_calls S S2) A \<union> T) \<subseteq> dom (connections S2)"
    proof
      assume "connections S2 = connections S"
      moreover have "insert ?s A \<union> T \<subseteq> dom (connections S)" "set (job_sockets S2) \<subseteq> dom (connections S)"
        using o s js by blast+
      ultimately show ?thesis using h(2)[of A] by (metis le_sup_iff order_trans)
    next
      assume d: "connections S2 = (connections S)(?s := None) \<and> arm (new_calls S S2) A \<subseteq> A - {?s}"
      have "?s \<notin> T" using s assms(6) by blast
      then show ?thesis using d o js by auto
    qed
  qed
qed

lemma accept_open:
  assumes "S' = fst (acceptClients_round a S)" and "server_inv S" and "connections S (acc_socket a) = None"
    and "open_inv S (A \<union> T)"
  shows "open_inv S' (arm (new_calls S S') A \<union> T)"
    and "arm (new_calls S S') A \<subseteq> A \<or>
      arm (new_calls S S') A = insert (acc_socket a) A \<and> acc_socket a \<notin> set (job_sockets S) \<union> A \<union> T"
proof -
  note js = accept_sockets(1)[OF assms(2,1)]
  have "open_inv S' (arm (new_calls S S') A \<union> T) \<and> (arm (new_calls S S') A \<subseteq> A \<or>
      arm (new_calls S S') A = insert (acc_socket a) A \<and> acc_socket a \<notin> set (job_sockets S) \<union> A \<union> T)"
    using assms(1)
  proof (cases rule: accept_table[of S' a S A])
    case same
    then show ?thesis using assms(4) js by (auto simp: open_inv_def)
  next
    case (added c)
    then have o: "set (job_sockets S) \<union> (A \<union> T) \<subseteq> dom (connections S)"
      using assms(4) by (simp add: open_inv_def)
    then have "acc_socket a \<notin> set (job_sockets S) \<union> A \<union> T" using assms(3) by auto
    then show ?thesis using added o js by (auto simp: open_inv_def)
  qed
  then show "open_inv S' (arm (new_calls S S') A \<union> T)"
    and "arm (new_calls S S') A \<subseteq> A \<or>
      arm (new_calls S S') A = insert (acc_socket a) A \<and> acc_socket a \<notin> set (job_sockets S) \<union> A \<union> T" by simp_all
qed

lemma close_expired_open:
  assumes "open_inv S A" and "spares_jobs S (close_expired S)"
  shows "open_inv (close_expired S) (arm (new_calls S (close_expired S)) A)"
proof -
  have "job_sockets (close_expired S) = job_sockets S" by (simp add: job_sockets_def close_expired_frame)
  moreover have "set (expiredSockets S) \<inter> set (job_sockets S) = {}"
    using assms(2) by (auto simp: spares_jobs_def close_expired_frame)
  ultimately show ?thesis
    using assms(1) unfolding open_inv_def close_expired_frame(3,5)
    by (auto simp: dom_def close_expired_frame(4) split: if_splits)
qed

lemma open_inv_close:
  assumes "open_inv S X" and "s \<notin> set (job_sockets S) \<union> X"
  shows "open_inv (closeConnection s S) X"
proof -
  have "job_sockets (closeConnection s S) = job_sockets S" by (simp add: job_sockets_def closeConnection_frame)
  then show ?thesis using assms unfolding open_inv_def closeConnection_frame dom_fun_upd by (simp add: subset_Diff_insert)
qed

lemma dispatch_events_expired: "expiredSockets (fold dispatch_event es S) = expiredSockets S"
  by (induction es arbitrary: S) (simp_all add: dispatch_event_frame)

lemma io_step_inv:
  assumes "sparing fst io_step x x'" and "one_job_inv x"
  shows "one_job_inv x'"
proof -
  obtain S A S2 A2 where x: "x = (S, A)" "x' = (S2, A2)" by (cases x; cases x')
  have step: "io_step (S, A) (S2, A2)" and spares: "spares_jobs S S2"
    using assms(1) by (simp_all add: sparing_def x)
  have inv: "server_inv S" and d: "distinct (job_sockets S)" and dj: "set (job_sockets S) \<inter> A = {}"
    and o: "open_inv S A"
    using assms(2) by (simp_all add: x one_job_inv_def)
  have inv2: "server_inv S2" using server_step_inv[OF io_step_server_step inv] step by blast
  have closed: "job_sockets (close_expired S) = job_sockets S" by (simp add: job_sockets_def close_expired_frame)
  from step have "distinct (job_sockets S2) \<and> set (job_sockets S2) \<inter> A2 = {} \<and> open_inv S2 A2"
  proof cases
    case (io_job c received rearmed now)
    have "open_inv S2 A2" using handle_open[OF inv d io_job(2,3), of A "{}"] o io_job(1) by simp
    then show ?thesis using handle_sockets(2,3)[OF inv d io_job(2,3)] d dj io_job(1)
      by (fastforce simp: set_remove1_eq)
  next
    case (io_accept a)
    have "open_inv S A \<Longrightarrow> open_inv S (A \<union> {})" by simp
    from accept_open[OF io_accept(2) inv io_accept(3) this[OF o]] show ?thesis
      using accept_sockets(1)[OF inv io_accept(2)] d dj io_accept(1) by auto
  next
    case (io_round S1 es)
    have S2: "S2 = fold dispatch_event es S1" using io_round(2,3,4) by (simp add: runEventLoop_round_def Let_def)
    let ?A1 = "arm (new_calls S S1) A"
    have "open_inv S1 ?A1" unfolding io_round(3)
      by (rule close_expired_open[OF o]) (use spares in \<open>simp add: S2 io_round(3) spares_jobs_def dispatch_events_expired\<close>)
    then have "open_inv S1 (?A1 - set (map entry_socket es))" by (auto simp: open_inv_def)
    moreover have "server_inv S1" unfolding io_round(3) using inv by (rule close_expired_inv)
    moreover have "?A1 \<subseteq> A" "job_sockets S1 = job_sockets S" using closed by (simp_all add: io_round(3) close_expired_frame)
    ultimately have "\<exists>cs. calls (fold dispatch_event es S1) = calls S1 @ cs \<and>
        distinct (job_sockets (fold dispatch_event es S1)) \<and>
        set (job_sockets (fold dispatch_event es S1)) \<inter> arm cs (?A1 - set (map entry_socket es)) = {} \<and>
        open_inv (fold dispatch_event es S1) (arm cs (?A1 - set (map entry_socket es)))"
      by (intro dispatch_events_one_job) (use d dj io_round(5,6) in auto)
    then show ?thesis using S2 io_round(1) by (auto simp: new_calls_append)
  next
    case io_round_failed
    show ?thesis
    proof (cases "running S")
      case True
      then have S2: "S2 = close_expired S" using io_round_failed(2) by (simp add: runEventLoop_round_def)
      then have "open_inv S2 A2" using close_expired_open[OF o] spares io_round_failed(1) by simp
      then show ?thesis using d dj closed S2 io_round_failed(1) by (auto simp: close_expired_frame)
    next
      case False
      then show ?thesis using io_round_failed d dj o
        by (simp add: runEventLoop_round_def new_calls_def arm_def)
    qed
  next
    case (io_cleanup order M S')
    then show ?thesis using cleanup_frame[OF io_cleanup(3)] d dj o by (simp add: job_sockets_def open_inv_def)
  next
    case io_snapshot
    then show ?thesis using d dj o by (simp add: job_sockets_def open_inv_def)
  next
    case (io_stop order)
    have "A2 \<subseteq> A" using stop_sockets(4)[OF io_stop(2)] io_stop(1) by simp
    then show ?thesis using stop_sockets(2,3)[OF io_stop(2)] d dj by (auto simp: open_inv_def)
  qed
  with inv2 show ?thesis by (simp add: x one_job_inv_def)
qed

subsection \<open>Properties\<close>

text \<open>
  With a one-shot event loop, and as long as no session expires while a job of its connection
  is queued, at most one job per connection is queued at any time, so no two threads work on
  one command buffer.
\<close>

theorem one_job_per_connection:
  assumes "server_started S0" and "(sparing fst io_step)\<^sup>*\<^sup>* (S0, {}) (S, A)"
  shows "distinct (tpool_jobs S) \<and> distinct (job_sockets S) \<and> set (job_sockets S) \<inter> A = {}"
proof -
  have "one_job_inv (S0, {})"
    using server_started_inv[OF assms(1)] server_started_fresh(3)[OF assms(1)]
    by (simp add: one_job_inv_def job_sockets_def open_inv_def)
  with assms(2) have "one_job_inv (S, A)"
    by (induction rule: rtranclp_induct) (auto intro: io_step_inv)
  then show ?thesis by (auto simp: one_job_inv_def job_sockets_def distinct_map)
qed

theorem one_job_per_connection_witness:
  "\<exists>S S1. server_started S \<and> S1 = runEventLoop_round None S \<and> distinct (job_sockets S1)"
proof -
  obtain S where S: "server_started S" by (rule example_server)
  let ?S1 = "runEventLoop_round None S"
  have "io_step (S, {}) (?S1, arm (new_calls S ?S1) {})" by (rule io_round_failed) simp
  moreover have "spares_jobs S ?S1"
    using server_started_fresh(3)[OF S] by (simp add: spares_jobs_def job_sockets_def)
  ultimately have "(sparing fst io_step)\<^sup>*\<^sup>* (S, {}) (?S1, arm (new_calls S ?S1) {})"
    by (intro r_into_rtranclp) (simp add: sparing_def)
  from one_job_per_connection[OF S this] S show ?thesis by blast
qed

text \<open>
  C39 (safety). The condition on expiry is needed: when the session of a client
  expires while a job of it is queued, and its socket number goes to a new client, the job
  of the old connection receives the new client's bytes, completes the old client's
  unfinished command with them, executes it, and sends the response to the new client.
\<close>

theorem stale_job_serves_new_client:
  assumes "server_inv S" and "connections S sock = Some c" and "c \<in> set (tpool_jobs S)"
    and "sock \<in> set (expiredSockets S)" and "running S" and "sock \<noteq> -1"
    and "acc_socket a = sock" and "acc_still_running a" and "acc_nonblocking a"
    and "fst (isAllowed (sin_addr (acc_addr a)) (acc_now_global a) (acc_now_private a) (rt S))"
    and "S2 = fst (acceptClients_round a (runEventLoop_round None S))"
    and "buffer = commandBuffer (conn_objects S ! c) @ bytes"
    and "length buffer \<le> 2024" and "newline \<in> set bytes"
  shows "\<exists>c' S3. connections S2 sock = Some c' \<and> c' \<noteq> c \<and>
    messageHandler (Received bytes) True now c S2 = Some S3 \<and>
    server_store S3 = snd (respond buffer (server_store S)) \<and>
    calls S3 = calls S2 @ [Send sock (fst (respond buffer (server_store S))), EL_Rearm sock]"
proof -
  let ?S1 = "runEventLoop_round None S"
  have t: "table_ok S" using assms(1) by (simp add: server_inv_def)
  note c = table_okD[OF t assms(2)]
  have S1: "?S1 = close_expired S" using assms(5) by (simp add: runEventLoop_round_def)
  have fr: "rt (fold closeConnection ss T) = rt T \<and> running (fold closeConnection ss T) = running T \<and>
      hashMap (fold closeConnection ss T) = hashMap T \<and> pers (fold closeConnection ss T) = pers T" for ss T
    by (induction ss arbitrary: T) (simp_all add: frame_simps)
  have f: "rt ?S1 = rt S" "running ?S1" "server_store ?S1 = server_store S" "conn_objects ?S1 = conn_objects S"
    using assms(5) close_expired_frame(2)[of S]
    by (simp_all add: S1) (simp_all add: close_expired_def fr server_store_def)
  obtain rt' where al: "isAllowed (sin_addr (acc_addr a)) (acc_now_global a) (acc_now_private a) (rt ?S1)
      = (True, rt')"
    using assms(10) f(1)
    by (cases "isAllowed (sin_addr (acc_addr a)) (acc_now_global a) (acc_now_private a) (rt ?S1)") simp
  obtain k usm where us: "add_session (acc_socket a) (acc_addr a) default_max_idle
      (acc_now_session a) (userSessionManager ?S1) = (k, usm)"
    by (cases "add_session (acc_socket a) (acc_addr a) default_max_idle
      (acc_now_session a) (userSessionManager ?S1)")
  have S2: "connections S2 sock = Some (length (conn_objects S))" "server_store S2 = server_store S"
      "conn_objects S2 ! c = conn_objects S ! c"
    using assms(6-9) al us f c(1)
    by (simp_all add: assms(11) acceptClients_round_def INVALID_SOCKET_def Let_def frame_simps
        server_store_def nth_append)
  have inv2: "server_inv S2"
    unfolding assms(11) by (intro acceptClients_round_inv runEventLoop_round_inv assms(1))
  have b: "buffer = commandBuffer (conn_objects S2 ! c) @ bytes" using assms(12) S2(3) by simp
  obtain S3 where "messageHandler (Received bytes) True now c S2 = Some S3"
      "server_store S3 = snd (respond buffer (server_store S))"
      "calls S3 = calls S2 @ [Send sock (fst (respond buffer (server_store S))), EL_Rearm sock]"
    using messageHandler_command[OF inv2 b, of True now] assms(12-14) S2(2,3) c(2)
    by (auto simp: MAX_COMMAND_BUFFER_LENGTH_def)
  then show ?thesis using S2(1) c(1) by (intro exI[of _ "length (conn_objects S)"] exI[of _ S3]) simp
qed

theorem stale_job_serves_new_client_witness:
  "\<exists>S S2 S3. server_inv S \<and> connections S = [7 \<mapsto> 0] \<and>
     S2 = fst (acceptClients_round (example_answers 7) (runEventLoop_round None S)) \<and>
     messageHandler (Received (log_line ''INSERT'' ''a'' ''1'' @ [newline])) True 0 0 S2 = Some S3 \<and>
     calls S3 = calls S2 @ [Send 7 (''Insert command was successful'' @ [newline]), EL_Rearm 7]"
proof -
  obtain S where S: "server_inv S" "server_store S = Map.empty"
    "conn_objects S = [\<lparr>conn_socket = 7, conn_sessionKey = \<lparr>raw_ip = 1, raw_port = 2\<rparr>, commandBuffer = ''''\<rparr>]"
    "connections S = [7 \<mapsto> 0]" "running S" "rt S = RateLimiter_new 0 10 5 1000" by (rule example_client)
  let ?S = "S\<lparr>tpool_jobs := [0], expiredSockets := [7]\<rparr>" and ?b = "log_line ''INSERT'' ''a'' ''1'' @ [newline]"
  let ?S2 = "fst (acceptClients_round (example_answers 7) (runEventLoop_round None ?S))"
  have "table_ok ?S" by (rule table_ok_fewer[of S]) (use S(1) in \<open>simp_all add: server_inv_def\<close>)
  then have i: "server_inv ?S" using S(1,3) by (simp add: server_inv_def)
  have w: "word ''a''" "word ''1''" by code_simp+
  have "\<exists>c' S3. connections ?S2 7 = Some c' \<and> c' \<noteq> 0 \<and>
    messageHandler (Received ?b) True 0 0 ?S2 = Some S3 \<and>
    server_store S3 = snd (respond ?b (server_store ?S)) \<and>
    calls S3 = calls ?S2 @ [Send 7 (fst (respond ?b (server_store ?S))), EL_Rearm 7]"
    by (rule stale_job_serves_new_client[OF i, where a = "example_answers 7"])
       (use S isAllowed_fresh[of 9 0 0] in \<open>simp_all add: example_answers_def log_line_def\<close>)
  then obtain S3 where "messageHandler (Received ?b) True 0 0 ?S2 = Some S3"
      "calls S3 = calls ?S2 @ [Send 7 (fst (respond ?b (server_store ?S))), EL_Rearm 7]" by blast
  then show ?thesis using i S(4) respond_insert[OF w, of "[]"]
    by (intro exI[of _ ?S] exI[of _ ?S2] exI[of _ S3]) simp
qed

end
