(* ===== verification/Readiness.thy ===== *)
theory Readiness
  imports OneShot
begin

text \<open>
  The interface between the server and its event loop (\<open>src/Networking/EventLoop.h\<close>), as the
  locale \<open>readiness_loop\<close>: which sockets a loop watches after the calls the server makes of it,
  and that it reports watched sockets only, each once, and watches them no longer.  \<open>OneShot\<close>
  takes this contract as a premise; here \<open>EpollEventLoop\<close> is shown to meet it on any kernel that
  behaves as \<open>epoll_ctl(2)\<close> and \<open>epoll(7)\<close> say (locale \<open>epoll_kernel\<close>), so that the result on
  jobs holds of the server with the epoll loop, and \<open>IocpEventLoop\<close> is shown to break it.
\<close>

subsection \<open>The contract\<close>

lemma arm_call_mono: "A \<subseteq> B \<Longrightarrow> arm_call c A \<subseteq> arm_call c B"
  by (cases c) auto

lemma arm_mono: "A \<subseteq> B \<Longrightarrow> arm cs A \<subseteq> arm cs B"
proof (induction cs arbitrary: A B)
  case (Cons c cs)
  then show ?case using arm_call_mono[of A B c] by (simp add: arm_def)
qed (simp add: arm_def)

text \<open>The server's threads and a loop of any kind; a negative count is a failed \<open>wait\<close>.\<close>

inductive loop_server_step ::
  "(net_call \<Rightarrow> 'l \<Rightarrow> 'l) \<Rightarrow> ('l \<Rightarrow> ((int \<times> EventLoopEntry list) \<times> 'l) option) \<Rightarrow>
   Server \<times> 'l \<Rightarrow> Server \<times> 'l \<Rightarrow> bool" for perform wait where
  loop_job: "loop_server_step perform wait (S, l) (S', fold perform (new_calls S S') l)"
    if "c \<in> set (tpool_jobs S)"
      "messageHandler received rearmed now c (S\<lparr>tpool_jobs := remove1 c (tpool_jobs S)\<rparr>) = Some S'"
| loop_accept: "loop_server_step perform wait (S, l) (S', fold perform (new_calls S S') l)"
    if "S' = fst (acceptClients_round a S)" "connections S (acc_socket a) = None"
| loop_round: "loop_server_step perform wait (S, l) (S', fold perform (new_calls S1 S') l2)"
    if "running S" "S1 = close_expired S" "wait (fold perform (new_calls S S1) l) = Some ((n, es), l2)"
      "S' = runEventLoop_round (if n = -1 then None else Some es) S"
| loop_cleanup: "loop_server_step perform wait (S, l) (S'\<lparr>userSessionManager := M\<rparr>, l)"
    if "cleanup_expired_sessions (Some onSessionExpired) order (userSessionManager S, S) = (M, S')"
| loop_snapshot: "loop_server_step perform wait (S, l) (S\<lparr>pers := p\<rparr>, l)"
    if "createSnapshot True True True (hashMap S) (pers S) = Some (p, None)"
| loop_stop: "loop_server_step perform wait (S, l) (S', fold perform (new_calls S S') l)"
    if "S' = Server_stop order S" "distinct order" "set order = dom (connections S)"

locale readiness_loop =
  fixes perform :: "net_call \<Rightarrow> 'l \<Rightarrow> 'l"
    and wait :: "'l \<Rightarrow> ((int \<times> EventLoopEntry list) \<times> 'l) option"
    and watched :: "'l \<Rightarrow> SocketType set"
    and inv :: "'l \<Rightarrow> bool"
  assumes perform: "inv l \<Longrightarrow> inv (perform c l) \<and> watched (perform c l) \<subseteq> arm_call c (watched l)"
    and wait_reports: "inv l \<Longrightarrow> wait l = Some ((n, es), l') \<Longrightarrow> n \<noteq> -1 \<Longrightarrow>
      inv l' \<and> distinct (map entry_socket es) \<and> set (map entry_socket es) \<subseteq> watched l \<and>
      watched l' \<subseteq> watched l - set (map entry_socket es)"
    and wait_fails: "inv l \<Longrightarrow> wait l = Some ((-1, es), l') \<Longrightarrow> inv l' \<and> watched l' \<subseteq> watched l"
begin

lemma performs:
  "inv l \<Longrightarrow> watched l \<subseteq> A \<Longrightarrow> inv (fold perform cs l) \<and> watched (fold perform cs l) \<subseteq> arm cs A"
proof (induction cs arbitrary: l A)
  case (Cons c cs)
  have "inv (perform c l)" "watched (perform c l) \<subseteq> arm_call c A"
    using perform[OF Cons.prems(1), of c] arm_call_mono[OF Cons.prems(2), of c] by auto
  from Cons.IH[OF this] show ?case by (simp add: arm_def)
qed (simp add: arm_def)

text \<open>What the server does with the loop is what it does with the set of watched sockets.\<close>

lemma step_simulated:
  assumes "loop_server_step perform wait (S, l) (S', l')" and "inv l" and "watched l \<subseteq> A"
  shows "inv l' \<and> (\<exists>A'. io_step (S, A) (S', A') \<and> watched l' \<subseteq> A')"
  using assms(1)
proof cases
  case (loop_job c received rearmed now)
  then show ?thesis using performs[OF assms(2,3), of "new_calls S S'"] io_job[of c S received rearmed now S' A]
    by blast
next
  case (loop_accept a)
  then show ?thesis using performs[OF assms(2,3), of "new_calls S S'"] io_accept[of S' a S A] by blast
next
  case (loop_round S1 n es l2)
  let ?l1 = "fold perform (new_calls S S1) l" and ?A1 = "arm (new_calls S S1) A"
  have 1: "inv ?l1" "watched ?l1 \<subseteq> ?A1" using performs[OF assms(2,3)] by simp_all
  show ?thesis
  proof (cases "n = -1")
    case True
    then have 2: "inv l2" "watched l2 \<subseteq> ?A1" using wait_fails[OF 1(1)] loop_round(4) 1(2) by auto
    have S': "S' = S1" using True loop_round(2,3,5) by (simp add: runEventLoop_round_def)
    have "io_step (S, A) (S', ?A1)"
      using io_round_failed[of S' S A] True loop_round(5) S' by simp
    then show ?thesis using 2 loop_round(1) S' by (auto simp: new_calls_def)
  next
    case False
    have w: "inv l2" "distinct (map entry_socket es)" "set (map entry_socket es) \<subseteq> watched ?l1"
        "watched l2 \<subseteq> watched ?l1 - set (map entry_socket es)"
      using wait_reports[OF 1(1) loop_round(4) False] by simp_all
    then have s: "io_step (S, A) (S', arm (new_calls S1 S') (?A1 - set (map entry_socket es)))"
      using io_round[of S S1 S' es A] loop_round(2,3,5) False 1(2) by simp
    have "watched l2 \<subseteq> ?A1 - set (map entry_socket es)" using w(4) 1(2) by blast
    from performs[OF w(1) this, of "new_calls S1 S'"] s show ?thesis unfolding loop_round(1) by blast
  qed
next
  case (loop_cleanup order M T)
  then show ?thesis using io_cleanup[of order S M T A] assms(2,3) by blast
next
  case (loop_snapshot p)
  then show ?thesis using io_snapshot[of S p A] assms(2,3) by blast
next
  case (loop_stop order)
  then show ?thesis using performs[OF assms(2,3), of "new_calls S S'"] io_stop[of S' order S A] by blast
qed

lemma steps_simulated:
  assumes "(sparing fst (loop_server_step perform wait))\<^sup>*\<^sup>* (S0, l0) x" and "inv l0" and "one_job_inv (S0, watched l0)"
  shows "inv (snd x) \<and> (\<exists>A. one_job_inv (fst x, A) \<and> watched (snd x) \<subseteq> A)"
  using assms(1)
proof (induction rule: rtranclp_induct)
  case base
  then show ?case using assms(2,3) by auto
next
  case (step x y)
  obtain A where A: "inv (snd x)" "one_job_inv (fst x, A)" "watched (snd x) \<subseteq> A" using step.IH by blast
  have "loop_server_step perform wait (fst x, snd x) (fst y, snd y)" and s: "spares_jobs (fst x) (fst y)"
    using step.hyps(2) by (simp_all add: sparing_def)
  from step_simulated[OF this(1) A(1,3)] obtain A' where
    A': "inv (snd y)" "io_step (fst x, A) (fst y, A')" "watched (snd y) \<subseteq> A'" by blast
  then have "sparing fst io_step (fst x, A) (fst y, A')" using s by (simp add: sparing_def)
  then show ?case using io_step_inv[OF _ A(2)] A' by blast
qed

lemma one_job:
  assumes "server_started S0" and "inv l0" and "watched l0 = {}"
    and "(sparing fst (loop_server_step perform wait))\<^sup>*\<^sup>* (S0, l0) (S, l)"
  shows "distinct (job_sockets S) \<and> set (job_sockets S) \<inter> watched l = {}"
proof -
  have "one_job_inv (S0, watched l0)"
    using server_started_inv[OF assms(1)] server_started_fresh(3)[OF assms(1)]
    using assms(3) by (simp add: one_job_inv_def job_sockets_def open_inv_def)
  from steps_simulated[OF assms(4,2) this] show ?thesis by (auto simp: one_job_inv_def)
qed

end

subsection \<open>epoll\<close>

text \<open>
  The kernel as the manual pages describe it: \<open>interest fd k\<close> are the sockets that the
  instance \<open>fd\<close> watches and has not disabled, each with the event it was registered with.
  A call may fail and change nothing; closing a descriptor takes it out of the list; what
  \<open>epoll_wait\<close> reports are entries of the list, each once and with its own data, and reporting
  an entry registered with \<open>EPOLLONESHOT\<close> (bit 30) disables it.
\<close>

locale epoll_kernel =
  fixes epoll_ctl :: "'k epoll_ctl"
    and epoll_wait :: "'k epoll_wait"
    and close_fd :: "SocketType \<Rightarrow> 'k \<Rightarrow> 'k"
    and interest :: "int \<Rightarrow> 'k \<Rightarrow> SocketType \<rightharpoonup> epoll_event"
  assumes ctl_set: "op \<noteq> EPOLL_CTL_DEL \<Longrightarrow> interest fd (snd (epoll_ctl fd op s (Some ev) k)) \<in>
      {interest fd k, (interest fd k)(s \<mapsto> ev)}"
    and ctl_del: "interest fd (snd (epoll_ctl fd EPOLL_CTL_DEL s None k)) = (interest fd k)(s := None)"
    and close: "interest fd (close_fd s k) \<subseteq>\<^sub>m (interest fd k)(s := None)"
    and waits: "epoll_wait fd n t k = ((r, evs), k') \<Longrightarrow> r \<noteq> -1 \<Longrightarrow>
      \<exists>fds. distinct fds \<and> set fds \<subseteq> dom (interest fd k) \<and>
        map ev_fd evs = map (\<lambda>s. ev_fd (the (interest fd k s))) fds \<and> length evs = nat r \<and>
        interest fd k' \<subseteq>\<^sub>m interest fd k \<and>
        (\<forall>s \<in> set fds. bit (ev_events (the (interest fd k s))) 30 \<longrightarrow> interest fd k' s = None)"
    and wait_fails: "epoll_wait fd n t k = ((-1, evs), k') \<Longrightarrow> interest fd k' \<subseteq>\<^sub>m interest fd k"

text \<open>The server's calls, made of the loop \<open>l\<close> over the kernel.\<close>

fun epoll_perform ::
  "'k epoll_ctl \<Rightarrow> (SocketType \<Rightarrow> 'k \<Rightarrow> 'k) \<Rightarrow> EpollEventLoop \<Rightarrow> net_call \<Rightarrow> 'k \<Rightarrow> 'k" where
  "epoll_perform epoll_ctl close_fd l (EL_Add s) k = Epoll_add epoll_ctl l s k"
| "epoll_perform epoll_ctl close_fd l (EL_Rearm s) k = snd (Epoll_rearm epoll_ctl l s k)"
| "epoll_perform epoll_ctl close_fd l (EL_Remove s) k = Epoll_remove epoll_ctl l s k"
| "epoll_perform epoll_ctl close_fd l (Close s) k = close_fd s k"
| "epoll_perform epoll_ctl close_fd l (Send s r) k = k"

text \<open>Every watched socket is registered as the loop registers it.\<close>

definition one_shot :: "(SocketType \<rightharpoonup> epoll_event) \<Rightarrow> bool" where
  "one_shot m \<longleftrightarrow> (\<forall>s ev. m s = Some ev \<longrightarrow> ev_fd ev = s \<and> bit (ev_events ev) 30)"

lemma one_shot_less: "m \<subseteq>\<^sub>m m' \<Longrightarrow> one_shot m' \<Longrightarrow> one_shot m"
  by (fastforce simp: one_shot_def map_le_def dom_def)

lemma map_le_dom: "m \<subseteq>\<^sub>m m' \<Longrightarrow> dom m \<subseteq> dom m'"
  by (rule map_le_implies_dom_le)

lemma one_shot_update:
  "one_shot m \<Longrightarrow> one_shot (m(s \<mapsto> \<lparr>ev_events = EPOLLIN OR EPOLLONESHOT, ev_fd = s\<rparr>))"
proof -
  have "bit (EPOLLIN OR EPOLLONESHOT) 30" by code_simp
  then show "one_shot m \<Longrightarrow> ?thesis" by (simp add: one_shot_def)
qed

lemma one_shot_delete: "one_shot m \<Longrightarrow> one_shot (m(s := None))"
  by (simp add: one_shot_def)

context epoll_kernel
begin

lemma perform_ok:
  assumes "one_shot (interest (epollFd l) k)"
  shows "one_shot (interest (epollFd l) (epoll_perform epoll_ctl close_fd l c k)) \<and>
    dom (interest (epollFd l) (epoll_perform epoll_ctl close_fd l c k)) \<subseteq>
      arm_call c (dom (interest (epollFd l) k))"
proof (cases c)
  case (EL_Add s)
  show ?thesis
    using ctl_set[of EPOLL_CTL_ADD "epollFd l" s "\<lparr>ev_events = EPOLLIN OR EPOLLONESHOT, ev_fd = s\<rparr>" k]
      assms one_shot_update[OF assms, of s] EL_Add by (auto simp: Epoll_add_def)
next
  case (EL_Rearm s)
  show ?thesis
    using ctl_set[of EPOLL_CTL_MOD "epollFd l" s "\<lparr>ev_events = EPOLLIN OR EPOLLONESHOT, ev_fd = s\<rparr>" k]
      assms one_shot_update[OF assms, of s] EL_Rearm
    by (auto simp: Epoll_rearm_def split: prod.split)
next
  case (EL_Remove s)
  then show ?thesis using ctl_del[of "epollFd l" s k] one_shot_delete[OF assms, of s]
    by (simp add: Epoll_remove_def)
next
  case (Close s)
  then show ?thesis using one_shot_less[OF close one_shot_delete[OF assms]] map_le_dom[OF close] by simp
next
  case (Send s r)
  then show ?thesis using assms by simp
qed

lemma entries_of_wait:
  assumes "Epoll_wait epoll_wait l out k = Some ((n, es), k')" and "n \<noteq> -1"
  obtains evs where "epoll_wait (epollFd l) 64 1000 k = ((n, evs), k')"
    and "map entry_socket es = take (nat n) (map ev_fd evs)"
proof -
  obtain r evs k1 where w: "epoll_wait (epollFd l) 64 1000 k = ((r, evs), k1)"
    by (metis prod.exhaust)
  have r: "r \<noteq> -1" using assms w by (auto simp: Epoll_wait_def MAX_EVENTS_def)
  have "nat r \<le> length evs" using waits[OF w r] by auto
  then show thesis
    using that[of evs] assms w r by (auto simp: Epoll_wait_def MAX_EVENTS_def wait_loop_map take_map comp_def)
qed

lemma wait_ok:
  assumes "one_shot (interest (epollFd l) k)" and "Epoll_wait epoll_wait l out k = Some ((n, es), k')"
    and "n \<noteq> -1"
  shows "one_shot (interest (epollFd l) k') \<and> distinct (map entry_socket es) \<and>
    set (map entry_socket es) \<subseteq> dom (interest (epollFd l) k) \<and>
    dom (interest (epollFd l) k') \<subseteq> dom (interest (epollFd l) k) - set (map entry_socket es)"
proof -
  obtain evs where w: "epoll_wait (epollFd l) 64 1000 k = ((n, evs), k')"
      and es: "map entry_socket es = take (nat n) (map ev_fd evs)"
    using entries_of_wait[OF assms(2,3)] .
  obtain fds where f: "distinct fds" "set fds \<subseteq> dom (interest (epollFd l) k)" "length evs = nat n"
      "map ev_fd evs = map (\<lambda>s. ev_fd (the (interest (epollFd l) k s))) fds"
      "interest (epollFd l) k' \<subseteq>\<^sub>m interest (epollFd l) k"
      "\<forall>s \<in> set fds. bit (ev_events (the (interest (epollFd l) k s))) 30 \<longrightarrow> interest (epollFd l) k' s = None"
    using waits[OF w assms(3)] by blast
  have o: "\<forall>s \<in> set fds. ev_fd (the (interest (epollFd l) k s)) = s \<and>
      bit (ev_events (the (interest (epollFd l) k s))) 30"
    using assms(1) f(2) by (auto simp: one_shot_def)
  then have "map ev_fd evs = fds" unfolding f(4) by (simp add: map_idI)
  then have "map entry_socket es = fds" using es f(3) by (metis length_map take_all order_refl)
  then show ?thesis using f(1,2,5,6) o one_shot_less[OF f(5) assms(1)] map_le_dom[OF f(5)] by auto
qed

lemma failed_wait_ok:
  assumes "one_shot (interest (epollFd l) k)" and "Epoll_wait epoll_wait l out k = Some ((-1, es), k')"
  shows "one_shot (interest (epollFd l) k') \<and> dom (interest (epollFd l) k') \<subseteq> dom (interest (epollFd l) k)"
proof -
  obtain r evs k1 where w: "epoll_wait (epollFd l) 64 1000 k = ((r, evs), k1)"
    by (metis prod.exhaust)
  then have "epoll_wait (epollFd l) 64 1000 k = ((-1, evs), k')"
    using assms(2) by (auto simp: Epoll_wait_def MAX_EVENTS_def split: if_splits option.splits)
  from wait_fails[OF this] show ?thesis using one_shot_less assms(1) map_le_dom by blast
qed

end

sublocale epoll_kernel \<subseteq> on_epoll: readiness_loop "epoll_perform epoll_ctl close_fd l" "Epoll_wait epoll_wait l []"
    "\<lambda>k. dom (interest (epollFd l) k)" "\<lambda>k. one_shot (interest (epollFd l) k)" for l
proof unfold_locales
  show "one_shot (interest (epollFd l) (epoll_perform epoll_ctl close_fd l c k)) \<and>
      dom (interest (epollFd l) (epoll_perform epoll_ctl close_fd l c k)) \<subseteq>
        arm_call c (dom (interest (epollFd l) k))"
    if "one_shot (interest (epollFd l) k)" for c k using that by (rule perform_ok)
qed (erule (2) wait_ok, erule (1) failed_wait_ok)

context epoll_kernel
begin

lemma one_job_on_epoll:
  assumes "server_started S0" and "interest (epollFd l) k0 = Map.empty"
    and "(sparing fst (loop_server_step (epoll_perform epoll_ctl close_fd l) (Epoll_wait epoll_wait l [])))\<^sup>*\<^sup>* (S0, k0) (S, k)"
  shows "distinct (job_sockets S) \<and> set (job_sockets S) \<inter> dom (interest (epollFd l) k) = {}"
  by (rule on_epoll.one_job[OF assms(1) _ _ assms(3)]) (simp_all add: assms(2) one_shot_def)

end

subsection \<open>A kernel that meets the description\<close>

text \<open>
  An interest list with an enabled flag per entry and the sockets with something to report;
  registering twice and changing what is not registered fail, as \<open>epoll_ctl\<close> does.
\<close>

record Kernel =
  registered :: "int \<Rightarrow> SocketType \<rightharpoonup> epoll_event \<times> bool"
  activity :: "(SocketType \<times> uint32) list"

definition kernel_interest :: "int \<Rightarrow> Kernel \<Rightarrow> SocketType \<rightharpoonup> epoll_event" where
  "kernel_interest fd k s =
     (case registered k fd s of Some (ev, True) \<Rightarrow> Some ev | _ \<Rightarrow> None)"

definition set_entry :: "int \<Rightarrow> SocketType \<Rightarrow> (epoll_event \<times> bool) option \<Rightarrow> Kernel \<Rightarrow> Kernel" where
  "set_entry fd s x k = k\<lparr>registered := (registered k)(fd := (registered k fd)(s := x))\<rparr>"

definition kernel_ctl :: "Kernel epoll_ctl" where
  "kernel_ctl fd op s ev k =
     (case op of
        EPOLL_CTL_ADD \<Rightarrow> (case (registered k fd s, ev) of
            (None, Some e) \<Rightarrow> (0, set_entry fd s (Some (e, True)) k) | _ \<Rightarrow> (-1, k))
      | EPOLL_CTL_MOD \<Rightarrow> (case (registered k fd s, ev) of
            (Some _, Some e) \<Rightarrow> (0, set_entry fd s (Some (e, True)) k) | _ \<Rightarrow> (-1, k))
      | EPOLL_CTL_DEL \<Rightarrow> (case registered k fd s of
            Some _ \<Rightarrow> (0, set_entry fd s None k) | None \<Rightarrow> (-1, k)))"

definition reportable :: "int \<Rightarrow> Kernel \<Rightarrow> SocketType list" where
  "reportable fd k = filter (\<lambda>s. case kernel_interest fd k s of
       None \<Rightarrow> False
     | Some e \<Rightarrow> the (map_of (activity k) s) AND (ev_events e OR EPOLLERR OR EPOLLHUP) \<noteq> 0)
     (remdups (map fst (activity k)))"

definition disable :: "int \<Rightarrow> SocketType \<Rightarrow> Kernel \<Rightarrow> Kernel" where
  "disable fd s k = (case registered k fd s of
       Some (e, True) \<Rightarrow> if bit (ev_events e) 30 then set_entry fd s (Some (e, False)) k else k
     | _ \<Rightarrow> k)"

definition kernel_wait :: "Kernel epoll_wait" where
  "kernel_wait fd n t k =
     (if n \<le> 0 then ((-1, []), k)
      else let fds = take (nat n) (reportable fd k) in
        ((int (length fds),
          map (\<lambda>s. let e = the (kernel_interest fd k s) in
             e\<lparr>ev_events := the (map_of (activity k) s) AND (ev_events e OR EPOLLERR OR EPOLLHUP)\<rparr>) fds),
         fold (disable fd) fds k))"

definition kernel_close :: "SocketType \<Rightarrow> Kernel \<Rightarrow> Kernel" where
  "kernel_close s k = k\<lparr>registered := (\<lambda>fd. (registered k fd)(s := None)),
     activity := filter (\<lambda>p. fst p \<noteq> s) (activity k)\<rparr>"

lemma interest_set_entry:
  "kernel_interest fd (set_entry fd' s x k) = (if fd = fd'
     then (kernel_interest fd k)(s := (case x of Some (ev, True) \<Rightarrow> Some ev | _ \<Rightarrow> None))
     else kernel_interest fd k)"
  by (rule ext) (simp add: kernel_interest_def set_entry_def)

lemma interest_disable:
  "kernel_interest fd (disable fd s k) = (case kernel_interest fd k s of
     Some e \<Rightarrow> if bit (ev_events e) 30 then (kernel_interest fd k)(s := None) else kernel_interest fd k
   | None \<Rightarrow> kernel_interest fd k)"
  by (auto simp: disable_def interest_set_entry kernel_interest_def
      split: option.splits prod.splits bool.splits)

lemma interest_disables:
  "kernel_interest fd (fold (disable fd) ss k) \<subseteq>\<^sub>m kernel_interest fd k \<and>
   (\<forall>s \<in> set ss. bit (ev_events (the (kernel_interest fd k s))) 30 \<longrightarrow>
      kernel_interest fd (fold (disable fd) ss k) s = None)"
proof (induction ss arbitrary: k)
  case (Cons s ss)
  let ?k = "disable fd s k"
  have d: "kernel_interest fd ?k \<subseteq>\<^sub>m kernel_interest fd k"
    by (auto simp: interest_disable map_le_def split: option.split)
  have le: "kernel_interest fd (fold (disable fd) ss ?k) \<subseteq>\<^sub>m kernel_interest fd ?k"
    using Cons.IH by blast
  have off: "kernel_interest fd (fold (disable fd) ss ?k) x = None" if "kernel_interest fd ?k x = None" for x
    using le that by (metis domIff map_le_def)
  have "kernel_interest fd (fold (disable fd) ss ?k) x = None"
    if "x \<in> set (s # ss)" "bit (ev_events (the (kernel_interest fd k x))) 30" for x
  proof (cases "kernel_interest fd ?k x")
    case None
    then show ?thesis by (rule off)
  next
    case (Some e)
    then have "kernel_interest fd k x = Some e" using d by (metis domI map_le_def)
    with Some that have "x \<in> set ss" by (auto simp: interest_disable split: option.splits if_splits)
    moreover have "bit (ev_events (the (kernel_interest fd ?k x))) 30"
      using Some that(2) \<open>kernel_interest fd k x = Some e\<close> by simp
    ultimately show ?thesis using Cons.IH by blast
  qed
  then show ?case using map_le_trans[OF le d] by auto
qed simp

lemma reportable_ok: "distinct (reportable fd k)" "set (reportable fd k) \<subseteq> dom (kernel_interest fd k)"
  by (auto simp: reportable_def split: option.splits)

interpretation kernel: epoll_kernel kernel_ctl kernel_wait kernel_close kernel_interest
proof unfold_locales
  fix op fd s ev k
  assume "op \<noteq> EPOLL_CTL_DEL"
  then show "kernel_interest fd (snd (kernel_ctl fd op s (Some ev) k)) \<in>
      {kernel_interest fd k, (kernel_interest fd k)(s \<mapsto> ev)}"
    by (cases op) (auto simp: kernel_ctl_def interest_set_entry split: option.split)
next
  fix fd s k
  show "kernel_interest fd (snd (kernel_ctl fd EPOLL_CTL_DEL s None k)) = (kernel_interest fd k)(s := None)"
    by (auto simp: kernel_ctl_def set_entry_def kernel_interest_def fun_eq_iff split: option.split)
next
  fix fd s k
  show "kernel_interest fd (kernel_close s k) \<subseteq>\<^sub>m (kernel_interest fd k)(s := None)"
    by (auto simp: kernel_close_def kernel_interest_def map_le_def)
next
  fix fd n t k r evs k'
  assume w: "kernel_wait fd n t k = ((r, evs), k')" and "r \<noteq> -1"
  let ?fds = "take (nat n) (reportable fd k)"
  have k': "k' = fold (disable fd) ?fds k" "r = int (length ?fds)"
      "map ev_fd evs = map (\<lambda>s. ev_fd (the (kernel_interest fd k s))) ?fds" "length evs = nat r"
    using w \<open>r \<noteq> -1\<close> by (auto simp: kernel_wait_def Let_def split: if_splits)
  have "distinct ?fds" "set ?fds \<subseteq> dom (kernel_interest fd k)"
    using reportable_ok[of fd k] set_take_subset[of "nat n" "reportable fd k"] by auto
  then show "\<exists>fds. distinct fds \<and> set fds \<subseteq> dom (kernel_interest fd k) \<and>
      map ev_fd evs = map (\<lambda>s. ev_fd (the (kernel_interest fd k s))) fds \<and> length evs = nat r \<and>
      kernel_interest fd k' \<subseteq>\<^sub>m kernel_interest fd k \<and>
      (\<forall>s \<in> set fds. bit (ev_events (the (kernel_interest fd k s))) 30 \<longrightarrow> kernel_interest fd k' s = None)"
    using k' interest_disables[of fd ?fds k] by blast
next
  fix fd n t k evs k'
  assume "kernel_wait fd n t k = ((-1, evs), k')"
  then show "kernel_interest fd k' \<subseteq>\<^sub>m kernel_interest fd k"
    by (auto simp: kernel_wait_def Let_def split: if_splits)
qed

subsection \<open>Properties\<close>


text \<open>A client connects and is watched.\<close>

lemma example_accepted:
  obtains S where "running S" "connections S = [7 \<mapsto> 0]" "calls S = [EL_Add 7]" "expiredSockets S = []"
    "tpool_jobs S = []" "conn_socket (conn_objects S ! 0) = 7"
    and "\<exists>S0. server_started S0 \<and> S = fst (acceptClients_round (example_answers 7) S0) \<and>
      connections S0 = Map.empty \<and> calls S0 = [] \<and> job_sockets S0 = []"
proof -
  obtain S where S: "server_started S" "running S" "connections S = Map.empty" "conn_objects S = []"
      "calls S = []" "rt S = RateLimiter_new 0 10 5 1000" "expiredSockets S = []"
    by (rule example_server)
  have j: "tpool_jobs S = []" by (rule server_started_fresh(3)[OF S(1)])
  let ?S = "fst (acceptClients_round (example_answers 7) S)"
  obtain r where "isAllowed 9 0 0 (rt S) = (True, r)"
    using isAllowed_fresh[of 9 0 0] S(6) by (metis prod.collapse)
  moreover obtain key usm where "add_session 7 \<lparr>sin_addr = 9, sin_port = 10\<rparr> default_max_idle 0
      (userSessionManager S) = (key, usm)"
    by (metis prod.exhaust)
  ultimately have "running ?S \<and> connections ?S = [7 \<mapsto> 0] \<and> calls ?S = [EL_Add 7] \<and> expiredSockets ?S = [] \<and>
      tpool_jobs ?S = [] \<and> conn_socket (conn_objects ?S ! 0) = 7"
    using S j
    by (simp add: acceptClients_round_def example_answers_def INVALID_SOCKET_def Let_def frame_simps)
  then show thesis using that[of ?S] S(1,3,5) j by (simp add: job_sockets_def) blast
qed


subsection \<open>I/O completion ports\<close>

fun iocp_perform :: "(SocketType \<Rightarrow> bool) \<Rightarrow> net_call \<Rightarrow> IocpEventLoop \<Rightarrow> IocpEventLoop" where
  "iocp_perform queued (EL_Add s) l = Iocp_add (queued s) s l"
| "iocp_perform queued (EL_Rearm s) l = snd (Iocp_rearm (queued s) s l)"
| "iocp_perform queued (EL_Remove s) l = Iocp_remove s l"
| "iocp_perform queued (Close s) l = l"
| "iocp_perform queued (Send s r) l = l"

lemma iocp_keeps_posted: "x \<in> set (posted l) \<Longrightarrow> x \<in> set (posted (iocp_perform queued c l))"
  by (cases c) (auto simp: Iocp_add_def Iocp_rearm_def Iocp_remove_def armRead_def free_context_def Let_def
      split: option.split)

lemma iocp_performs_keep_posted: "x \<in> set (posted l) \<Longrightarrow> x \<in> set (posted (fold (iocp_perform queued) cs l))"
  by (induction cs arbitrary: l) (auto intro: iocp_keeps_posted)

text \<open>
  On Windows a closed connection is reported once more: the receive that was
  pending when the socket was closed completes with an error, under the old socket number,
  although \<open>remove\<close> was called.  The server then closes that number a second time; when the
  system has given it to a client that connected in between, that client is disconnected.
\<close>

theorem iocp_closes_reused_socket:
  assumes "(sock, ctx) \<in> set (posted l)" and "running S" and "sock \<noteq> -1"
    and "S1 = closeConnection sock S" and "l1 = fold (iocp_perform queued) (new_calls S S1) l"
    and "acc_socket a = sock" and "acc_still_running a" and "acc_nonblocking a"
    and "fst (isAllowed (sin_addr (acc_addr a)) (acc_now_global a) (acc_now_private a) (rt S))"
    and "S2 = fst (acceptClients_round a S1)" and "l2 = fold (iocp_perform queued) (new_calls S1 S2) l1"
  shows "connections S1 sock = None \<and> connections S2 sock \<noteq> None \<and> (sock, ctx) \<in> set (posted l2) \<and>
    (\<exists>es l3. Iocp_wait (False, sock, Some ctx) [] l2 = ((1, es), l3) \<and>
      connections (fold dispatch_event es S2) sock = None \<and>
      calls (fold dispatch_event es S2) = calls S2 @ [EL_Remove sock, Close sock])"
proof -
  have S1: "connections S1 sock = None" "running S1" "rt S1 = rt S"
    using assms(2) by (simp_all add: assms(4) frame_simps)
  obtain rt' where al: "isAllowed (sin_addr (acc_addr a)) (acc_now_global a) (acc_now_private a) (rt S1)
      = (True, rt')"
    using assms(9) S1(3) by (metis prod.collapse)
  obtain k usm where us: "add_session (acc_socket a) (acc_addr a) default_max_idle
      (acc_now_session a) (userSessionManager S1) = (k, usm)"
    by (metis prod.exhaust)
  have "connections S2 sock \<noteq> None"
    using assms(3,6-8) al us S1(2)
    by (simp add: assms(10) acceptClients_round_def INVALID_SOCKET_def Let_def frame_simps)
  moreover have "(sock, ctx) \<in> set (posted l2)"
    unfolding assms(5,11) by (intro iocp_performs_keep_posted assms(1))
  ultimately show ?thesis
    using S1(1) by (simp add: Iocp_wait_def dispatch_event_def frame_simps)
qed

theorem iocp_closes_reused_socket_witness:
  "\<exists>S. server_inv S \<and> connections S = [7 \<mapsto> 0] \<and> posted (Iocp_add True 7 Iocp_new) = [(7, 0)] \<and>
     connections (fst (acceptClients_round (example_answers 7) (closeConnection 7 S))) 7 \<noteq> None \<and>
     connections (dispatch_event \<lparr>entry_socket = 7, entry_event = Error\<rparr>
       (fst (acceptClients_round (example_answers 7) (closeConnection 7 S)))) 7 = None"
proof -
  obtain S where S: "server_inv S" "connections S = [7 \<mapsto> 0]" "running S" "rt S = RateLimiter_new 0 10 5 1000"
    by (rule example_client)
  have p: "posted (Iocp_add True 7 Iocp_new) = [(7, 0)]"
    by (simp add: Iocp_add_def Iocp_new_def armRead_def free_context_def Let_def)
  then have "(7, 0) \<in> set (posted (Iocp_add True 7 Iocp_new))" by simp
  from iocp_closes_reused_socket[OF this S(3) _ refl refl _ _ _ _ refl refl, of "example_answers 7"] p S
  show ?thesis
    using isAllowed_fresh[of 9 0 0]
    by (intro exI[of _ S]) (auto simp: example_answers_def Iocp_wait_def)
qed

end
