(* ===== verification/ThreadPool.thy ===== *)
theory ThreadPool
  imports Prelude "HOL-Library.Multiset"
begin

text \<open>
  The thread pool, \<open>src/Worker/ThreadPool.h\<close> and \<open>src/Worker/ThreadPool.cpp\<close>, as the
  interleaving of its threads: the workers, each with a program counter in the loop of the
  constructor's lambda, the thread that calls \<open>acceptJob\<close>, and the thread that runs the
  destructor.  The mutex has an owner; \<open>cv.wait(lock, pred)\<close> is the standard's loop
  \<open>while (!pred()) wait(lock)\<close>, with the test and the blocking as separate actions, because
  the destructor does not hold the mutex when it clears \<open>active\<close>.

  \<open>accepted\<close>, \<open>started\<close> and \<open>finished\<close> are history, not part of the code's state.
\<close>

subsection \<open>State\<close>

datatype 'j worker =
    AtLock          \<comment> \<open>line 17, before the lock is held, also after a wake-up\<close>
  | AtTest          \<comment> \<open>line 21, holds the lock, the predicate is to be evaluated\<close>
  | AtBlock         \<comment> \<open>line 21, holds the lock, the predicate was false\<close>
  | Asleep          \<comment> \<open>blocked on the condition variable, the lock is released\<close>
  | AtTake          \<comment> \<open>line 24, holds the lock, the predicate was true\<close>
  | Running 'j      \<comment> \<open>line 37, outside the lock\<close>
  | Exited

datatype owner = NoOwner | Worker nat

datatype destructor_pc = NotCalled | Deactivated | Notified

record 'j ThreadPool =
  jobs :: "'j list"
  workers :: "'j worker list"
  mutex_owner :: owner
  active :: bool
  destructor :: destructor_pc
  terminated :: bool           \<comment> \<open>\<open>std::terminate\<close>: an exception left a thread function\<close>
  accepted :: "'j list"
  started :: "'j list"
  finished :: "'j list"

datatype job_outcome = Returns | ThrowsStdException | ThrowsOther

definition ThreadPool_new :: "nat \<Rightarrow> 'j ThreadPool" where
  "ThreadPool_new n =
     \<lparr>jobs = [], workers = replicate n AtLock, mutex_owner = NoOwner, active = True,
      destructor = NotCalled, terminated = False, accepted = [], started = [], finished = []\<rparr>"

subsection \<open>Actions\<close>

text \<open>The next action of worker \<open>i\<close>; \<open>None\<close> when it has none.\<close>

definition worker_action :: "nat \<Rightarrow> job_outcome \<Rightarrow> 'j ThreadPool \<Rightarrow> 'j ThreadPool option" where
  "worker_action i outcome s =
     (if terminated s \<or> length (workers s) \<le> i then None
      else case workers s ! i of
        AtLock \<Rightarrow>
          if mutex_owner s = NoOwner
          then Some (s\<lparr>mutex_owner := Worker i, workers := (workers s)[i := AtTest]\<rparr>) else None
      | AtTest \<Rightarrow>
          Some (s\<lparr>workers := (workers s)[i := if jobs s \<noteq> [] \<or> \<not> active s then AtTake else AtBlock]\<rparr>)
      | AtBlock \<Rightarrow>
          Some (s\<lparr>mutex_owner := NoOwner, workers := (workers s)[i := Asleep]\<rparr>)
      | Asleep \<Rightarrow> None
      | AtTake \<Rightarrow>
          (case jobs s of
             [] \<Rightarrow> if active s then None
                   else Some (s\<lparr>mutex_owner := NoOwner, workers := (workers s)[i := Exited]\<rparr>)
           | job # js \<Rightarrow>
               Some (s\<lparr>jobs := js, mutex_owner := NoOwner, workers := (workers s)[i := Running job],
                       started := started s @ [job]\<rparr>))
      | Running job \<Rightarrow>
          (case outcome of
             ThrowsOther \<Rightarrow> Some (s\<lparr>terminated := True\<rparr>)
           | _ \<Rightarrow> Some (s\<lparr>workers := (workers s)[i := AtLock], finished := finished s @ [job]\<rparr>))
      | Exited \<Rightarrow> None)"

text \<open>\<open>notify_one\<close> wakes worker \<open>w\<close> if one sleeps; which one is the system's choice.\<close>

definition wake :: "'j worker \<Rightarrow> 'j worker" where
  "wake p = (case p of Asleep \<Rightarrow> AtLock | _ \<Rightarrow> p)"

definition notify_one_choice :: "'j worker list \<Rightarrow> nat option \<Rightarrow> bool" where
  "notify_one_choice ws w \<longleftrightarrow>
     (case w of None \<Rightarrow> \<not> list_ex (\<lambda>p. p = Asleep) ws | Some i \<Rightarrow> i < length ws \<and> ws ! i = Asleep)"

text \<open>\<open>acceptJob\<close> holds the mutex from the push to the notification, so it is one action.\<close>

definition acceptJob :: "'j \<Rightarrow> nat option \<Rightarrow> 'j ThreadPool \<Rightarrow> 'j ThreadPool option" where
  "acceptJob job w s =
     (if terminated s \<or> mutex_owner s \<noteq> NoOwner \<or> destructor s \<noteq> NotCalled
         \<or> \<not> notify_one_choice (workers s) w then None
      else Some (s\<lparr>jobs := jobs s @ [job], accepted := accepted s @ [job],
             workers := (case w of None \<Rightarrow> workers s | Some i \<Rightarrow> (workers s)[i := AtLock])\<rparr>))"

text \<open>
  The destructor up to the joins: it never takes the mutex.  The joins return when every
  worker has left its loop.
\<close>

definition destructor_action :: "'j ThreadPool \<Rightarrow> 'j ThreadPool option" where
  "destructor_action s =
     (if terminated s then None
      else case destructor s of
        NotCalled \<Rightarrow> Some (s\<lparr>active := False, destructor := Deactivated\<rparr>)
      | Deactivated \<Rightarrow> Some (s\<lparr>workers := map wake (workers s), destructor := Notified\<rparr>)
      | Notified \<Rightarrow> None)"

definition joins_return :: "'j ThreadPool \<Rightarrow> bool" where
  "joins_return s \<longleftrightarrow> destructor s = Notified \<and> list_all (\<lambda>p. p = Exited) (workers s)"

subsection \<open>Runs\<close>

inductive pool_step :: "'j ThreadPool \<Rightarrow> 'j ThreadPool \<Rightarrow> bool" where
  step_worker: "worker_action i outcome s = Some s' \<Longrightarrow> pool_step s s'"
| step_acceptJob: "acceptJob job w s = Some s' \<Longrightarrow> pool_step s s'"
| step_destructor: "destructor_action s = Some s' \<Longrightarrow> pool_step s s'"

text \<open>The standard allows a sleeping thread to wake up without a notification.\<close>

inductive spurious_step :: "'j ThreadPool \<Rightarrow> 'j ThreadPool \<Rightarrow> bool" where
  step_spurious: "i < length (workers s) \<Longrightarrow> workers s ! i = Asleep \<Longrightarrow>
    spurious_step s (s\<lparr>workers := (workers s)[i := AtLock]\<rparr>)"

definition any_step :: "'j ThreadPool \<Rightarrow> 'j ThreadPool \<Rightarrow> bool" where
  "any_step s s' \<longleftrightarrow> pool_step s s' \<or> spurious_step s s'"

definition reachable :: "nat \<Rightarrow> 'j ThreadPool \<Rightarrow> bool" where
  "reachable n s \<longleftrightarrow> any_step\<^sup>*\<^sup>* (ThreadPool_new n) s"

subsection \<open>Invariants\<close>

definition holds_lock :: "'j worker \<Rightarrow> bool" where
  "holds_lock p \<longleftrightarrow> p = AtTest \<or> p = AtBlock \<or> p = AtTake"

definition awake :: "'j worker \<Rightarrow> bool" where
  "awake p \<longleftrightarrow> p \<noteq> Asleep \<and> p \<noteq> Exited"

text \<open>The jobs in execution: one per running worker.\<close>

definition job_of :: "'j worker \<Rightarrow> 'j multiset" where
  "job_of p = (case p of Running j \<Rightarrow> {#j#} | _ \<Rightarrow> {#})"

definition in_execution :: "'j worker list \<Rightarrow> 'j multiset" where
  "in_execution ws = sum_list (map job_of ws)"

definition mutex_inv :: "'j ThreadPool \<Rightarrow> bool" where
  "mutex_inv s \<longleftrightarrow>
     (\<forall>i. mutex_owner s = Worker i \<longleftrightarrow> i < length (workers s) \<and> holds_lock (workers s ! i))"

definition queue_inv :: "'j ThreadPool \<Rightarrow> bool" where
  "queue_inv s \<longleftrightarrow> accepted s = started s @ jobs s \<and>
     mset (started s) = mset (finished s) + in_execution (workers s)"

definition wakeup_inv :: "'j ThreadPool \<Rightarrow> bool" where
  "wakeup_inv s \<longleftrightarrow>
     (\<forall>p \<in> set (workers s). p = AtBlock \<longrightarrow> jobs s = []) \<and>
     (\<forall>p \<in> set (workers s). p = AtTake \<longrightarrow> jobs s \<noteq> [] \<or> \<not> active s) \<and>
     (\<forall>p \<in> set (workers s). p = Exited \<longrightarrow> \<not> active s) \<and>
     (active s \<longleftrightarrow> destructor s = NotCalled) \<and>
     (jobs s \<noteq> [] \<longrightarrow> workers s = [] \<or> (\<exists>p \<in> set (workers s). awake p))"

definition pool_inv :: "'j ThreadPool \<Rightarrow> bool" where
  "pool_inv s \<longleftrightarrow> mutex_inv s \<and> queue_inv s \<and> wakeup_inv s"

lemmas pool_defs = mutex_inv_def queue_inv_def wakeup_inv_def holds_lock_def awake_def

lemma in_execution_update:
  "i < length ws \<Longrightarrow> in_execution (ws[i := p]) + job_of (ws ! i) = in_execution ws + job_of p"
  by (induction ws arbitrary: i) (auto simp: in_execution_def ac_simps split: nat.split)

lemma in_execution_idle:
  "i < length ws \<Longrightarrow> job_of (ws ! i) = {#} \<Longrightarrow> job_of p = {#} \<Longrightarrow> in_execution (ws[i := p]) = in_execution ws"
  using in_execution_update[of i ws p] by simp

text \<open>What a worker's action can be.\<close>

lemma worker_action_cases:
  assumes "worker_action i outcome s = Some s'"
  obtains
    (lock) "i < length (workers s)" "workers s ! i = AtLock" "mutex_owner s = NoOwner"
      "s' = s\<lparr>mutex_owner := Worker i, workers := (workers s)[i := AtTest]\<rparr>"
  | (test_true) "i < length (workers s)" "workers s ! i = AtTest" "jobs s \<noteq> [] \<or> \<not> active s"
      "s' = s\<lparr>workers := (workers s)[i := AtTake]\<rparr>"
  | (test_false) "i < length (workers s)" "workers s ! i = AtTest" "jobs s = []" "active s"
      "s' = s\<lparr>workers := (workers s)[i := AtBlock]\<rparr>"
  | (block) "i < length (workers s)" "workers s ! i = AtBlock"
      "s' = s\<lparr>mutex_owner := NoOwner, workers := (workers s)[i := Asleep]\<rparr>"
  | (leave) "i < length (workers s)" "workers s ! i = AtTake" "jobs s = []" "\<not> active s"
      "s' = s\<lparr>mutex_owner := NoOwner, workers := (workers s)[i := Exited]\<rparr>"
  | (take) job js where "i < length (workers s)" "workers s ! i = AtTake" "jobs s = job # js"
      "s' = s\<lparr>jobs := js, mutex_owner := NoOwner, workers := (workers s)[i := Running job],
              started := started s @ [job]\<rparr>"
  | (finish) job where "i < length (workers s)" "workers s ! i = Running job"
      "s' = s\<lparr>workers := (workers s)[i := AtLock], finished := finished s @ [job]\<rparr>"
  | (terminate) job where "i < length (workers s)" "workers s ! i = Running job"
      "s' = s\<lparr>terminated := True\<rparr>"
  using assms
  by (cases "workers s ! i")
     (auto simp: worker_action_def split: if_splits list.splits job_outcome.splits)

lemma in_update: "p \<in> set (xs[i := x]) \<Longrightarrow> p = x \<or> p \<in> set xs"
  using set_update_subset_insert[of xs i x] by blast

lemma lock_owner:
  "mutex_inv s \<Longrightarrow> i < length (workers s) \<Longrightarrow> holds_lock (workers s ! i) \<Longrightarrow> mutex_owner s = Worker i"
  by (simp add: mutex_inv_def)

lemma mutex_inv_release:
  assumes "mutex_inv s" and "i < length (workers s)" and "holds_lock (workers s ! i)"
    and "\<not> holds_lock p" and "workers s' = (workers s)[i := p]" and "mutex_owner s' = NoOwner"
  shows "mutex_inv s'"
proof -
  have "mutex_owner s = Worker i" using lock_owner assms(1-3) by blast
  then show ?thesis using assms by (auto simp: mutex_inv_def nth_list_update)
qed

text \<open>\<open>wakeup_inv\<close> when one worker changes and the queue does not grow.\<close>

lemma wakeup_inv_update:
  assumes "wakeup_inv s" and "i < length (workers s)"
    and "workers s' = (workers s)[i := p]" and "active s' = active s" and "destructor s' = destructor s"
    and "jobs s' = jobs s \<or> (jobs s' = tl (jobs s) \<and> mutex_inv s \<and> workers s ! i = AtTake)"
    and "p = AtBlock \<longrightarrow> jobs s = []" and "p = AtTake \<longrightarrow> jobs s' \<noteq> [] \<or> \<not> active s"
    and "p = Exited \<longrightarrow> \<not> active s" and "jobs s \<noteq> [] \<longrightarrow> awake p"
  shows "wakeup_inv s'"
proof -
  have other: "q = p \<or> (q \<in> set (workers s) \<and> (jobs s' = jobs s \<or> q \<noteq> AtTake \<or> \<not> active s))"
    if "q \<in> set (workers s')" for q
  proof (cases "jobs s' = jobs s")
    case True
    then show ?thesis using that in_update assms(3) by fastforce
  next
    case False
    then have m: "mutex_inv s" "workers s ! i = AtTake" using assms(6) by auto
    obtain j where j: "j < length (workers s)" "q = (workers s)[i := p] ! j"
      using \<open>q \<in> set (workers s')\<close> assms(3) by (auto simp: in_set_conv_nth)
    show ?thesis
    proof (cases "j = i")
      case True
      then show ?thesis using j by simp
    next
      case False
      then have q: "q = workers s ! j" using j by simp
      have "q \<noteq> AtTake"
        using lock_owner[OF m(1) assms(2)] lock_owner[OF m(1) j(1)] m(2) q False
        by (auto simp: holds_lock_def)
      then show ?thesis using q j(1) by auto
    qed
  qed
  have "jobs s' \<noteq> [] \<Longrightarrow> jobs s \<noteq> []" using assms(6) by auto
  then have "jobs s' \<noteq> [] \<longrightarrow> (\<exists>q \<in> set (workers s'). awake q)"
    using assms(2,3,10) by (auto intro!: bexI[of _ p] set_update_memI)
  moreover have "jobs s = [] \<longrightarrow> jobs s' = []" using assms(6) by auto
  moreover have "q = AtBlock \<longrightarrow> jobs s' = []" "q = AtTake \<longrightarrow> jobs s' \<noteq> [] \<or> \<not> active s"
      "q = Exited \<longrightarrow> \<not> active s" if "q \<in> set (workers s')" for q
    using other[OF that] assms(1,7,8,9) \<open>jobs s = [] \<longrightarrow> jobs s' = []\<close>
    by (auto simp: wakeup_inv_def)
  ultimately show ?thesis
    using assms(1,4,5) by (auto simp: wakeup_inv_def)
qed

lemma worker_action_inv:
  assumes "worker_action i outcome s = Some s'" and "pool_inv s"
  shows "pool_inv s'"
proof -
  have m: "mutex_inv s" and q: "queue_inv s" and w: "wakeup_inv s"
    using assms(2) by (simp_all add: pool_inv_def)
  from assms(1) show ?thesis
  proof (cases rule: worker_action_cases)
    case lock
    have "mutex_inv s'" using lock m by (auto simp: mutex_inv_def holds_lock_def nth_list_update)
    moreover have "queue_inv s'" using lock q
      by (simp add: queue_inv_def in_execution_idle job_of_def)
    moreover have "wakeup_inv s'"
      by (rule wakeup_inv_update[OF w lock(1), where p = AtTest]) (use lock in \<open>simp_all add: awake_def\<close>)
    ultimately show ?thesis by (simp add: pool_inv_def)
  next
    case test_true
    have "mutex_inv s'" using test_true m by (auto simp: mutex_inv_def holds_lock_def nth_list_update)
    moreover have "queue_inv s'" using test_true q
      by (simp add: queue_inv_def in_execution_idle job_of_def)
    moreover have "wakeup_inv s'"
      by (rule wakeup_inv_update[OF w test_true(1), where p = AtTake]) (use test_true in \<open>simp_all add: awake_def\<close>)
    ultimately show ?thesis by (simp add: pool_inv_def)
  next
    case test_false
    have "mutex_inv s'" using test_false m by (auto simp: mutex_inv_def holds_lock_def nth_list_update)
    moreover have "queue_inv s'" using test_false q
      by (simp add: queue_inv_def in_execution_idle job_of_def)
    moreover have "wakeup_inv s'"
      by (rule wakeup_inv_update[OF w test_false(1), where p = AtBlock]) (use test_false in \<open>simp_all add: awake_def\<close>)
    ultimately show ?thesis by (simp add: pool_inv_def)
  next
    case block
    have "AtBlock \<in> set (workers s)" using block(1,2) by (metis nth_mem)
    then have e: "jobs s = []" using w by (auto simp: wakeup_inv_def)
    have "mutex_inv s'"
      by (rule mutex_inv_release[OF m block(1), where p = Asleep]) (use block in \<open>simp_all add: holds_lock_def\<close>)
    moreover have "queue_inv s'" using block q
      by (simp add: queue_inv_def in_execution_idle job_of_def)
    moreover have "wakeup_inv s'"
      by (rule wakeup_inv_update[OF w block(1), where p = Asleep]) (use block e in \<open>simp_all add: awake_def\<close>)
    ultimately show ?thesis by (simp add: pool_inv_def)
  next
    case leave
    have "mutex_inv s'"
      by (rule mutex_inv_release[OF m leave(1), where p = Exited]) (use leave in \<open>simp_all add: holds_lock_def\<close>)
    moreover have "queue_inv s'" using leave q
      by (simp add: queue_inv_def in_execution_idle job_of_def)
    moreover have "wakeup_inv s'"
      by (rule wakeup_inv_update[OF w leave(1), where p = Exited]) (use leave in \<open>simp_all add: awake_def\<close>)
    ultimately show ?thesis by (simp add: pool_inv_def)
  next
    case (take job js)
    have "mutex_inv s'"
      by (rule mutex_inv_release[OF m take(1), where p = "Running job"]) (use take in \<open>simp_all add: holds_lock_def\<close>)
    moreover have "queue_inv s'" using take q in_execution_update[of i "workers s" "Running job"]
      by (simp add: queue_inv_def job_of_def)
    moreover have "wakeup_inv s'"
      by (rule wakeup_inv_update[OF w take(1), where p = "Running job"]) (use take m in \<open>simp_all add: awake_def\<close>)
    ultimately show ?thesis by (simp add: pool_inv_def)
  next
    case (finish job)
    have "mutex_inv s'" using finish m by (auto simp: mutex_inv_def holds_lock_def nth_list_update)
    moreover have "queue_inv s'" using finish q in_execution_update[of i "workers s" AtLock]
      by (simp add: queue_inv_def job_of_def)
    moreover have "wakeup_inv s'"
      by (rule wakeup_inv_update[OF w finish(1), where p = AtLock]) (use finish in \<open>simp_all add: awake_def\<close>)
    ultimately show ?thesis by (simp add: pool_inv_def)
  next
    case terminate
    then show ?thesis using m q w
      by (auto simp: pool_inv_def mutex_inv_def queue_inv_def wakeup_inv_def)
  qed
qed

lemma no_lock_holder:
  assumes "mutex_inv s" and "mutex_owner s = NoOwner" and "p \<in> set (workers s)"
  shows "\<not> holds_lock p"
  using assms by (auto simp: mutex_inv_def in_set_conv_nth)

lemma acceptJob_inv:
  assumes "acceptJob job w s = Some s'" and "pool_inv s"
  shows "pool_inv s'"
proof -
  have m: "mutex_inv s" and q: "queue_inv s" and wk: "wakeup_inv s"
    using assms(2) by (simp_all add: pool_inv_def)
  have a: "mutex_owner s = NoOwner" "destructor s = NotCalled" "notify_one_choice (workers s) w"
    "s' = s\<lparr>jobs := jobs s @ [job], accepted := accepted s @ [job],
       workers := (case w of None \<Rightarrow> workers s | Some i \<Rightarrow> (workers s)[i := AtLock])\<rparr>"
    using assms(1) by (auto simp: acceptJob_def split: if_splits)
  have act: "active s" using a(2) wk by (simp add: wakeup_inv_def)
  have free: "p \<noteq> AtBlock" "p \<noteq> Exited" if "p \<in> set (workers s)" for p
    using no_lock_holder[OF m a(1) that] wk act that by (auto simp: holds_lock_def wakeup_inv_def)
  show ?thesis
  proof (cases w)
    case None
    then have "p \<noteq> Asleep" if "p \<in> set (workers s)" for p
      using a(3) that by (auto simp: notify_one_choice_def list_ex_iff)
    then have "workers s = [] \<or> (\<exists>p \<in> set (workers s). awake p)"
      using free(2) by (cases "workers s") (auto simp: awake_def)
    then have "wakeup_inv s'" using a(2,4) None free act by (auto simp: wakeup_inv_def)
    moreover have "mutex_inv s'" "queue_inv s'" using m q a(4) None
      by (simp_all add: mutex_inv_def queue_inv_def)
    ultimately show ?thesis by (simp add: pool_inv_def)
  next
    case (Some i)
    then have i: "i < length (workers s)" "workers s ! i = Asleep"
      using a(3) by (auto simp: notify_one_choice_def)
    have ws: "workers s' = (workers s)[i := AtLock]" using a(4) Some by simp
    have "AtLock \<in> set (workers s')" unfolding ws using i(1) by (rule set_update_memI)
    then have "\<exists>p \<in> set (workers s'). awake p" by (auto simp: awake_def intro!: bexI[of _ AtLock])
    moreover have "p \<noteq> AtBlock \<and> p \<noteq> Exited" if "p \<in> set (workers s')" for p
      using that free in_update[of p "workers s" i AtLock] unfolding ws by auto
    ultimately have "wakeup_inv s'" using a(2,4) act by (auto simp: wakeup_inv_def)
    moreover have "mutex_inv s'" using m a(1,4) i ws
      by (auto simp: mutex_inv_def holds_lock_def nth_list_update)
    moreover have "queue_inv s'" using q a(4) Some i
      by (simp add: queue_inv_def in_execution_idle job_of_def)
    ultimately show ?thesis by (simp add: pool_inv_def)
  qed
qed

lemma wake_simps [simp]:
  "holds_lock (wake p) = holds_lock p" "job_of (wake p) = job_of p"
  "wake p = AtBlock \<longleftrightarrow> p = AtBlock" "wake p = AtTake \<longleftrightarrow> p = AtTake" "wake p = Exited \<longleftrightarrow> p = Exited"
  "awake p \<Longrightarrow> awake (wake p)" "wake p \<noteq> Asleep"
  by (cases p; simp add: wake_def holds_lock_def job_of_def awake_def)+

lemma destructor_action_inv:
  assumes "destructor_action s = Some s'" and "pool_inv s"
  shows "pool_inv s'"
proof -
  have m: "mutex_inv s" and q: "queue_inv s" and wk: "wakeup_inv s"
    using assms(2) by (simp_all add: pool_inv_def)
  consider (off) "s' = s\<lparr>active := False, destructor := Deactivated\<rparr>"
    | (notify) "destructor s = Deactivated" "s' = s\<lparr>workers := map wake (workers s), destructor := Notified\<rparr>"
    using assms(1) by (auto simp: destructor_action_def split: if_splits destructor_pc.splits)
  then show ?thesis
  proof cases
    case off
    then show ?thesis using m q wk
      by (auto simp: pool_inv_def mutex_inv_def queue_inv_def wakeup_inv_def)
  next
    case notify
    have "map job_of (map wake (workers s)) = map job_of (workers s)" by simp
    then have "queue_inv s'" using q notify(2) by (simp add: queue_inv_def in_execution_def comp_def)
    moreover have "mutex_inv s'"
    proof -
      have "i < length (workers s') \<and> holds_lock (workers s' ! i) \<longleftrightarrow>
          i < length (workers s) \<and> holds_lock (workers s ! i)" for i
        by (cases "i < length (workers s)") (simp_all add: notify(2))
      then show ?thesis using m by (simp only: mutex_inv_def notify(2)) simp
    qed
    moreover have "wakeup_inv s'"
    proof -
      have keep: "q \<in> wake ` S \<longleftrightarrow> q \<in> S" if "\<And>p. wake p = q \<longleftrightarrow> p = q" for q :: "'a worker" and S
        using that by (metis image_iff)
      have eq: "AtBlock \<in> set (map wake (workers s)) \<longleftrightarrow> AtBlock \<in> set (workers s)"
        "AtTake \<in> set (map wake (workers s)) \<longleftrightarrow> AtTake \<in> set (workers s)"
        "Exited \<in> set (map wake (workers s)) \<longleftrightarrow> Exited \<in> set (workers s)"
        by (simp_all add: keep)
      have "(\<exists>p \<in> set (workers s). awake p) \<Longrightarrow> \<exists>p \<in> set (map wake (workers s)). awake p"
        using wake_simps(6) by auto
      then show ?thesis using wk notify eq by (auto simp: wakeup_inv_def)
    qed
    ultimately show ?thesis by (simp add: pool_inv_def)
  qed
qed

lemma spurious_step_inv:
  assumes "spurious_step s s'" and "pool_inv s"
  shows "pool_inv s'"
  using assms(1)
proof cases
  case (step_spurious i)
  have m: "mutex_inv s" and q: "queue_inv s" and w: "wakeup_inv s"
    using assms(2) by (simp_all add: pool_inv_def)
  have "wakeup_inv s'"
    by (rule wakeup_inv_update[OF w step_spurious(2), where p = AtLock])
       (use step_spurious in \<open>simp_all add: awake_def\<close>)
  moreover have "mutex_inv s'" using m step_spurious
    by (auto simp: mutex_inv_def holds_lock_def nth_list_update)
  moreover have "queue_inv s'" using q step_spurious
    by (simp add: queue_inv_def in_execution_idle job_of_def)
  ultimately show ?thesis by (simp add: pool_inv_def)
qed

lemma pool_step_inv: "pool_step s s' \<Longrightarrow> pool_inv s \<Longrightarrow> pool_inv s'"
  by (induction rule: pool_step.induct) (auto intro: worker_action_inv acceptJob_inv destructor_action_inv)

lemma ThreadPool_new_inv: "pool_inv (ThreadPool_new n)"
proof -
  have "in_execution (replicate n AtLock) = {#}"
    by (induction n) (simp_all add: in_execution_def job_of_def)
  then show ?thesis
    by (simp add: ThreadPool_new_def pool_inv_def mutex_inv_def queue_inv_def wakeup_inv_def holds_lock_def)
qed

lemma reachable_inv:
  assumes "reachable n s"
  shows "pool_inv s"
  using assms unfolding reachable_def
proof (induction rule: rtranclp_induct)
  case base
  show ?case by (rule ThreadPool_new_inv)
next
  case (step s s')
  then show ?case using pool_step_inv spurious_step_inv by (auto simp: any_step_def)
qed

subsection \<open>Worker actions come to an end\<close>

definition worker_step :: "'j ThreadPool \<Rightarrow> 'j ThreadPool \<Rightarrow> bool" where
  "worker_step s s' \<longleftrightarrow> (\<exists>i outcome. worker_action i outcome s = Some s')"

definition idle :: "'j ThreadPool \<Rightarrow> bool" where
  "idle s \<longleftrightarrow> (\<forall>i outcome. worker_action i outcome s = None)"

fun pc_weight :: "'j worker \<Rightarrow> nat" where
  "pc_weight (Running j) = 5"
| "pc_weight AtLock = 4"
| "pc_weight AtTest = 3"
| "pc_weight AtTake = 2"
| "pc_weight AtBlock = 1"
| "pc_weight Asleep = 0"
| "pc_weight Exited = 0"

definition weight :: "'j ThreadPool \<Rightarrow> nat" where
  "weight s = 6 * length (jobs s) + sum_list (map pc_weight (workers s)) + (if terminated s then 0 else 1)"

lemma sum_weight_update:
  "i < length ws \<Longrightarrow> sum_list (map pc_weight (ws[i := p])) + pc_weight (ws ! i)
     = sum_list (map pc_weight ws) + pc_weight p"
  by (induction ws arbitrary: i) (auto split: nat.split)

lemma worker_action_weight:
  assumes "worker_action i outcome s = Some s'"
  shows "weight s' < weight s"
proof -
  have t: "\<not> terminated s" using assms by (auto simp: worker_action_def)
  from assms show ?thesis
  proof (cases rule: worker_action_cases)
    case lock
    then show ?thesis using sum_weight_update[OF lock(1), of AtTest] by (simp add: weight_def)
  next
    case test_true
    then show ?thesis using sum_weight_update[OF test_true(1), of AtTake] by (simp add: weight_def)
  next
    case test_false
    then show ?thesis using sum_weight_update[OF test_false(1), of AtBlock] by (simp add: weight_def)
  next
    case block
    then show ?thesis using sum_weight_update[OF block(1), of Asleep] by (simp add: weight_def)
  next
    case leave
    then show ?thesis using sum_weight_update[OF leave(1), of Exited] by (simp add: weight_def)
  next
    case (take job js)
    then show ?thesis using sum_weight_update[OF take(1), of "Running job"] by (simp add: weight_def)
  next
    case (finish job)
    then show ?thesis using sum_weight_update[OF finish(1), of AtLock] by (simp add: weight_def)
  next
    case terminate
    then show ?thesis using t by (simp add: weight_def)
  qed
qed

lemma worker_steps_bounded: "(worker_step ^^ k) s s' \<Longrightarrow> weight s' + k \<le> weight s"
proof (induction k arbitrary: s')
  case (Suc k)
  then obtain t where "(worker_step ^^ k) s t" "worker_step t s'" by auto
  then show ?case using Suc.IH[of t] worker_action_weight by (fastforce simp: worker_step_def)
qed simp

lemma worker_steps_inv: "worker_step\<^sup>*\<^sup>* s s' \<Longrightarrow> pool_inv s \<Longrightarrow> pool_inv s'"
  by (induction rule: rtranclp_induct) (auto simp: worker_step_def intro: worker_action_inv)

lemma worker_steps_workers: "worker_step\<^sup>*\<^sup>* s s' \<Longrightarrow> length (workers s') = length (workers s)"
proof (induction rule: rtranclp_induct)
  case (step t u)
  then obtain i outcome where "worker_action i outcome t = Some u" by (auto simp: worker_step_def)
  then have "length (workers u) = length (workers t)" by (cases rule: worker_action_cases) auto
  with step show ?case by simp
qed simp

lemma in_execution_none: "(\<And>p. p \<in> set ws \<Longrightarrow> job_of p = {#}) \<Longrightarrow> in_execution ws = {#}"
  by (induction ws) (simp_all add: in_execution_def)

text \<open>When no worker can act, all sleep or have left, and the queue is empty.\<close>

lemma idle_state:
  assumes "pool_inv s" and "idle s" and "\<not> terminated s" and "workers s \<noteq> []"
  shows "jobs s = []" "\<forall>p \<in> set (workers s). p = Asleep \<or> p = Exited"
    "mset (finished s) = mset (accepted s)"
proof -
  have m: "mutex_inv s" and q: "queue_inv s" and w: "wakeup_inv s"
    using assms(1) by (simp_all add: pool_inv_def)
  have stuck: "worker_action i Returns s = None" for i using assms(2) by (simp add: idle_def)
  have no_lock: "\<not> holds_lock (workers s ! i)" if "i < length (workers s)" for i
  proof
    assume h: "holds_lock (workers s ! i)"
    have "AtTake \<in> set (workers s) \<longrightarrow> jobs s \<noteq> [] \<or> \<not> active s"
      using w by (auto simp: wakeup_inv_def)
    moreover have "workers s ! i \<in> set (workers s)" using that by (rule nth_mem)
    ultimately show False
      using h stuck[of i] that assms(3)
      by (cases "workers s ! i") (auto simp: worker_action_def holds_lock_def split: list.splits if_splits)
  qed
  then have "mutex_owner s = NoOwner" using m by (cases "mutex_owner s") (auto simp: mutex_inv_def)
  then have pcs: "workers s ! i = Asleep \<or> workers s ! i = Exited" if "i < length (workers s)" for i
    using stuck[of i] no_lock[OF that] that assms(3)
    by (cases "workers s ! i") (auto simp: worker_action_def holds_lock_def)
  then show all: "\<forall>p \<in> set (workers s). p = Asleep \<or> p = Exited"
    by (metis in_set_conv_nth)
  then show "jobs s = []" using w assms(4) by (auto simp: wakeup_inv_def awake_def)
  moreover have "in_execution (workers s) = {#}"
    by (rule in_execution_none) (use all in \<open>auto simp: job_of_def\<close>)
  ultimately show "mset (finished s) = mset (accepted s)" using q by (simp add: queue_inv_def)
qed

subsection \<open>Properties\<close>

text \<open>
  C10 (safety). At every moment of every run, the jobs started so far are the first ones
  accepted, in their order, each taken by one worker only; every accepted job is finished,
  in execution or still queued, exactly once.
\<close>

theorem jobs_run_exactly_once:
  assumes "reachable n s"
  shows "accepted s = started s @ jobs s \<and>
    mset (accepted s) = mset (finished s) + in_execution (workers s) + mset (jobs s) \<and>
    (\<forall>i j. i < length (workers s) \<and> j < length (workers s) \<and>
       holds_lock (workers s ! i) \<and> holds_lock (workers s ! j) \<longrightarrow> i = j)"
proof -
  have i: "mutex_inv s" "queue_inv s" using reachable_inv[OF assms] by (simp_all add: pool_inv_def)
  have "i = j" if "i < length (workers s)" "j < length (workers s)" "holds_lock (workers s ! i)"
    "holds_lock (workers s ! j)" for i j
    using lock_owner[OF i(1) that(1,3)] lock_owner[OF i(1) that(2,4)] by simp
  with i(2) show ?thesis by (auto simp: queue_inv_def)
qed

lemma reachable_workers:
  assumes "reachable n s"
  shows "length (workers s) = n"
  using assms unfolding reachable_def
proof (induction rule: rtranclp_induct)
  case (step t u)
  have "length (workers u) = length (workers t)" using step(2)
    by (auto simp: any_step_def destructor_action_def acceptJob_def
        elim!: pool_step.cases spurious_step.cases worker_action_cases
        split: if_splits destructor_pc.splits option.splits)
  with step show ?case by simp
qed (simp add: ThreadPool_new_def)

text \<open>A pool of one worker with one job, and the same pool when the worker is about to block.\<close>

lemma step_anyI: "pool_step s s' \<Longrightarrow> any_step s s'"
  by (simp add: any_step_def)

lemma reachable_new: "reachable n (ThreadPool_new n)"
  by (simp add: reachable_def)

lemma reachable_step: "reachable n s \<Longrightarrow> pool_step s s' \<Longrightarrow> reachable n s'"
  unfolding reachable_def by (rule rtranclp.rtrancl_into_rtrancl) (auto intro: step_anyI)

definition pool_with_job :: "nat ThreadPool" where
  "pool_with_job = (ThreadPool_new 1)\<lparr>jobs := [7], accepted := [7]\<rparr>"

lemma pool_with_job_reachable: "reachable 1 pool_with_job"
proof (rule reachable_step[OF reachable_new])
  have "acceptJob 7 None (ThreadPool_new 1) = Some pool_with_job"
    by (simp add: acceptJob_def ThreadPool_new_def notify_one_choice_def pool_with_job_def)
  then show "pool_step (ThreadPool_new 1) pool_with_job" by (rule step_acceptJob)
qed

theorem jobs_run_exactly_once_witness:
  "accepted pool_with_job = [7] \<and>
   mset (accepted pool_with_job) = mset (finished pool_with_job) +
     in_execution (workers pool_with_job) + mset (jobs pool_with_job)"
  using jobs_run_exactly_once[OF pool_with_job_reachable] by (simp add: pool_with_job_def)

text \<open>
  C24 (termination). No wake-up is lost while the pool is in use: from every reachable
  state the workers' own actions end after at most \<open>weight s\<close> steps, and where they end
  every accepted job has been finished, unless a job terminated the process with an
  exception that is not a \<open>std::exception\<close>.
\<close>

theorem pool_drains:
  assumes "reachable n s" and "0 < n" and "(worker_step ^^ k) s s'"
  shows "k \<le> weight s \<and>
    (idle s' \<and> \<not> terminated s' \<longrightarrow> jobs s' = [] \<and> mset (finished s') = mset (accepted s'))"
proof -
  have st: "worker_step\<^sup>*\<^sup>* s s'" using assms(3) by (rule relpowp_imp_rtranclp)
  have "workers s' \<noteq> []" using worker_steps_workers[OF st] reachable_workers[OF assms(1)] assms(2) by auto
  moreover have "pool_inv s'" using worker_steps_inv[OF st reachable_inv[OF assms(1)]] .
  ultimately show ?thesis using idle_state[of s'] worker_steps_bounded[OF assms(3)] by auto
qed

theorem pool_drains_witness:
  "\<exists>s'. (worker_step ^^ 1) pool_with_job s' \<and> 1 \<le> weight pool_with_job"
proof -
  have "worker_action 0 Returns pool_with_job =
      Some (pool_with_job\<lparr>mutex_owner := Worker 0, workers := [AtTest]\<rparr>)"
    by (simp add: worker_action_def pool_with_job_def ThreadPool_new_def)
  then have "(worker_step ^^ 1) pool_with_job (pool_with_job\<lparr>mutex_owner := Worker 0, workers := [AtTest]\<rparr>)"
    by (auto simp: worker_step_def OO_def)
  from pool_drains[OF pool_with_job_reachable _ this] this show ?thesis by auto
qed

lemma worker_action_shape:
  assumes "worker_action i outcome s = Some s'"
  shows "workers s ! i \<noteq> Asleep \<and> destructor s' = destructor s \<and> active s' = active s \<and>
    (\<exists>p. workers s' = (workers s)[i := p] \<and> (active s \<or> p \<noteq> AtBlock \<and> (p = Asleep \<longrightarrow> workers s ! i = AtBlock) \<or> p = workers s ! i))"
  using assms
proof (cases rule: worker_action_cases)
  case terminate
  then show ?thesis using list_update_id[of "workers s" i]
    by (intro conjI exI[of _ "workers s ! i"]) simp_all
qed (auto intro: exI)

lemma asleep_stays:
  assumes "pool_step s s'" and "destructor s = Notified" and "workers s \<noteq> []" and "hd (workers s) = Asleep"
  shows "destructor s' = Notified \<and> workers s' \<noteq> [] \<and> hd (workers s') = Asleep"
  using assms(1)
proof cases
  case (step_worker i outcome)
  obtain p where p: "workers s ! i \<noteq> Asleep" "destructor s' = destructor s"
      "workers s' = (workers s)[i := p]"
    using worker_action_shape[OF step_worker] by blast
  have "workers s ! 0 = Asleep" using assms(3,4) by (simp add: hd_conv_nth)
  with p(1) have "i \<noteq> 0" by metis
  with p assms(2-4) show ?thesis by (cases "workers s"; cases i) auto
next
  case step_acceptJob
  then show ?thesis using assms(2) by (auto simp: acceptJob_def split: if_splits)
next
  case step_destructor
  then show ?thesis using assms(2) by (auto simp: destructor_action_def split: if_splits)
qed

text \<open>
  C27 (safety). The destructor can wait forever: it clears \<open>active\<close> and notifies without
  holding the mutex, so a worker that has just found the queue empty and the pool active
  misses the notification and sleeps; after that no action of any thread lets the joins
  return.  This holds for every pool that has a worker.
\<close>

theorem shutdown_can_hang:
  assumes "0 < n"
  shows "\<exists>s. reachable n s \<and> destructor s = Notified \<and> \<not> terminated s \<and> jobs s = [] \<and>
    (\<forall>s'. pool_step\<^sup>*\<^sup>* s s' \<longrightarrow> \<not> joins_return s')"
proof -
  let ?s0 = "ThreadPool_new n :: 'a ThreadPool"
  let ?rest = "replicate (n - 1) AtLock"
  have n: "replicate n AtLock = AtLock # ?rest" using assms by (cases n) simp_all
  let ?s1 = "?s0\<lparr>mutex_owner := Worker 0, workers := AtTest # ?rest\<rparr>"
  let ?s2 = "?s1\<lparr>workers := AtBlock # ?rest\<rparr>"
  let ?s3 = "?s2\<lparr>active := False, destructor := Deactivated\<rparr>"
  let ?s4 = "?s3\<lparr>workers := AtBlock # ?rest, destructor := Notified\<rparr>"
  let ?s5 = "?s4\<lparr>mutex_owner := NoOwner, workers := Asleep # ?rest\<rparr>"
  have a1: "worker_action 0 Returns ?s0 = Some ?s1" using assms
    by (simp add: worker_action_def ThreadPool_new_def n)
  have a2: "worker_action 0 Returns ?s1 = Some ?s2"
    by (simp add: worker_action_def ThreadPool_new_def)
  have a3: "destructor_action ?s2 = Some ?s3"
    by (simp add: destructor_action_def ThreadPool_new_def)
  have a4: "destructor_action ?s3 = Some ?s4"
    by (simp add: destructor_action_def ThreadPool_new_def wake_def)
  have a5: "worker_action 0 Returns ?s4 = Some ?s5"
    by (simp add: worker_action_def ThreadPool_new_def)
  have "reachable n ?s1" by (rule reachable_step[OF reachable_new step_worker[OF a1]])
  then have "reachable n ?s2" by (rule reachable_step[OF _ step_worker[OF a2]])
  then have "reachable n ?s3" by (rule reachable_step[OF _ step_destructor[OF a3]])
  then have "reachable n ?s4" by (rule reachable_step[OF _ step_destructor[OF a4]])
  then have r: "reachable n ?s5" by (rule reachable_step[OF _ step_worker[OF a5]])
  have stays: "destructor s' = Notified \<and> workers s' \<noteq> [] \<and> hd (workers s') = Asleep"
    if "pool_step\<^sup>*\<^sup>* ?s5 s'" for s'
    using that by (induction rule: rtranclp_induct) (use asleep_stays in auto)
  have "\<not> joins_return s'" if "pool_step\<^sup>*\<^sup>* ?s5 s'" for s'
    using stays[OF that] by (cases "workers s'") (auto simp: joins_return_def)
  with r show ?thesis
    by (intro exI[of _ ?s5]) (simp add: ThreadPool_new_def)
qed

theorem shutdown_can_hang_witness:
  "\<exists>s :: nat ThreadPool. reachable 3 s \<and> destructor s = Notified \<and>
     (\<forall>s'. pool_step\<^sup>*\<^sup>* s s' \<longrightarrow> \<not> joins_return s')"
  using shutdown_can_hang[of 3, where 'a = nat] by auto

definition none_blocking :: "'j ThreadPool \<Rightarrow> bool" where
  "none_blocking s \<longleftrightarrow> destructor s = Notified \<and> \<not> active s \<and> (\<forall>p \<in> set (workers s). p \<noteq> Asleep \<and> p \<noteq> AtBlock)"

lemma none_blocking_step:
  assumes "worker_step s s'" and "none_blocking s"
  shows "none_blocking s'"
proof -
  obtain i outcome where a: "worker_action i outcome s = Some s'"
    using assms(1) by (auto simp: worker_step_def)
  obtain p where p: "destructor s' = destructor s" "active s' = active s" "workers s' = (workers s)[i := p]"
      "p \<noteq> AtBlock \<and> (p = Asleep \<longrightarrow> workers s ! i = AtBlock) \<or> p = workers s ! i"
    using worker_action_shape[OF a] assms(2) by (auto simp: none_blocking_def)
  have "i < length (workers s)" using a by (auto simp: worker_action_def split: if_splits)
  then have "workers s ! i \<noteq> Asleep \<and> workers s ! i \<noteq> AtBlock"
    using assms(2) by (simp add: none_blocking_def)
  with p(4) have "p \<noteq> Asleep \<and> p \<noteq> AtBlock" by auto
  then show ?thesis using p(1-3) assms(2) in_update by (fastforce simp: none_blocking_def)
qed

text \<open>
  C28 (liveness). Otherwise shutdown works: if no worker had decided to block when the
  destructor notified, then wherever the workers' actions end the joins return, and every
  accepted job has been finished.
\<close>

theorem shutdown_completes:
  assumes "reachable n s" and "0 < n" and "destructor s = Notified"
    and "\<forall>p \<in> set (workers s). p \<noteq> Asleep \<and> p \<noteq> AtBlock"
    and "worker_step\<^sup>*\<^sup>* s s'" and "idle s'" and "\<not> terminated s'"
  shows "joins_return s' \<and> jobs s' = [] \<and> mset (finished s') = mset (accepted s')"
proof -
  have i: "pool_inv s" using reachable_inv[OF assms(1)] .
  then have "\<not> active s" using assms(3) by (simp add: pool_inv_def wakeup_inv_def)
  then have "none_blocking s" using assms(3,4) by (simp add: none_blocking_def)
  with assms(5) have b: "none_blocking s'"
    by (induction rule: rtranclp_induct) (auto intro: none_blocking_step)
  have i': "pool_inv s'" using worker_steps_inv[OF assms(5) i] .
  show ?thesis
  proof (cases "workers s' = []")
    case False
    from idle_state[OF i' assms(6,7) False] b show ?thesis
      by (auto simp: joins_return_def none_blocking_def list_all_iff)
  next
    case True
    then have "workers s = []" using worker_steps_workers[OF assms(5)] by simp
    then show ?thesis using reachable_workers[OF assms(1)] assms(2) by simp
  qed
qed

definition pool_stopped :: "nat ThreadPool" where
  "pool_stopped = (ThreadPool_new 1)\<lparr>active := False, destructor := Notified\<rparr>"

theorem shutdown_completes_witness:
  "\<exists>s'. worker_step\<^sup>*\<^sup>* pool_stopped s' \<and> joins_return s'"
proof -
  let ?d = "(ThreadPool_new 1)\<lparr>active := False, destructor := Deactivated\<rparr> :: nat ThreadPool"
  have d: "destructor_action (ThreadPool_new 1) = Some ?d" "destructor_action ?d = Some pool_stopped"
    by (simp_all add: destructor_action_def ThreadPool_new_def pool_stopped_def wake_def)
  have r: "reachable 1 pool_stopped"
    by (rule reachable_step[OF reachable_step[OF reachable_new step_destructor[OF d(1)]] step_destructor[OF d(2)]])
  let ?s1 = "pool_stopped\<lparr>mutex_owner := Worker 0, workers := [AtTest]\<rparr>"
  let ?s2 = "?s1\<lparr>workers := [AtTake]\<rparr>"
  let ?s3 = "?s2\<lparr>mutex_owner := NoOwner, workers := [Exited]\<rparr>"
  have "worker_action 0 Returns pool_stopped = Some ?s1" "worker_action 0 Returns ?s1 = Some ?s2"
    "worker_action 0 Returns ?s2 = Some ?s3"
    by (simp_all add: worker_action_def pool_stopped_def ThreadPool_new_def)
  then have w: "worker_step pool_stopped ?s1" "worker_step ?s1 ?s2" "worker_step ?s2 ?s3"
    unfolding worker_step_def by blast+
  have st: "worker_step\<^sup>*\<^sup>* pool_stopped ?s3"
    by (rule rtranclp.rtrancl_into_rtrancl[where b = ?s2], rule rtranclp.rtrancl_into_rtrancl[where b = ?s1],
        rule rtranclp.rtrancl_into_rtrancl[where b = pool_stopped], rule rtranclp.rtrancl_refl,
        rule w(1), rule w(2), rule w(3))
  have "worker_action i outcome ?s3 = None" for i outcome
    by (cases i) (simp_all add: worker_action_def pool_stopped_def ThreadPool_new_def)
  then have e: "idle ?s3" by (simp add: idle_def)
  have t: "\<not> terminated ?s3" "destructor pool_stopped = Notified"
    "\<forall>p \<in> set (workers pool_stopped). p \<noteq> Asleep \<and> p \<noteq> AtBlock"
    by (simp_all add: pool_stopped_def ThreadPool_new_def)
  have "joins_return ?s3 \<and> jobs ?s3 = [] \<and> mset (finished ?s3) = mset (accepted ?s3)"
    by (rule shutdown_completes[OF r _ t(2,3) st e t(1)]) simp
  with st show ?thesis by (intro exI[of _ ?s3]) simp
qed

end
