(* ===== verification/Dispatch.thy ===== *)
theory Dispatch
  imports OneShot ThreadPool
begin

text \<open>
  The server and its pool together: the event-loop thread takes one reported event at a time
  and hands the readable connection to \<open>ThreadPool::acceptJob\<close>
  (\<open>src/Server/Server.cpp\<close>, lines 177 to 195), and the three workers of
  \<open>src/Worker/ThreadPool.cpp\<close> run \<open>messageHandler\<close>, with every action of the two components in
  any order, until and after \<open>stop\<close>.  \<open>todo\<close> are the events of the current \<open>wait\<close> that are
  still to be looked at; \<open>armed\<close> are the sockets the kernel watches, with its laws as premises
  of the steps (\<open>OneShot\<close>): it reports what it watches, and \<open>accept\<close> returns a number that is
  not open.  The jobs of the pool are connection objects.  An operation on the connection table
  is one step; the code does not lock the table (\<open>Locks.connections_race\<close>).
\<close>

subsection \<open>State and steps\<close>

record Dispatch =
  srv :: Server
  armed :: "SocketType set"
  todo :: "EventLoopEntry list"
  pool :: "nat ThreadPool"

definition todo_sockets :: "Dispatch \<Rightarrow> SocketType set" where
  "todo_sockets x = set (map entry_socket (todo x))"

text \<open>The job a reported event leads to.\<close>

definition job_for :: "EventLoopEntry \<Rightarrow> Server \<Rightarrow> nat option" where
  "job_for e S = (if entry_event e = Readable then connections S (entry_socket e) else None)"

definition after_calls :: "Server \<Rightarrow> Dispatch \<Rightarrow> Dispatch" where
  "after_calls S' x = x\<lparr>srv := S', armed := arm (new_calls (srv x) S') (armed x)\<rparr>"

definition running_job :: "Dispatch \<Rightarrow> nat \<Rightarrow> nat \<Rightarrow> bool" where
  "running_job x i c \<longleftrightarrow> i < length (workers (pool x)) \<and> workers (pool x) ! i = Running c"

text \<open>The workers: actions outside a job, and the handler with the end of its job.\<close>

inductive work_step :: "Dispatch \<Rightarrow> Dispatch \<Rightarrow> bool" where
  work_pool: "work_step x (x\<lparr>pool := p\<rparr>)"
    if "worker_action i outcome (pool x) = Some p" "\<And>c. \<not> running_job x i c"
| work_handle: "work_step x (after_calls S' (x\<lparr>pool := p\<rparr>))"
    if "running_job x i c" "worker_action i Returns (pool x) = Some p"
      "messageHandler received rearmed now c
         ((srv x)\<lparr>tpool_jobs := remove1 c (tpool_jobs (srv x))\<rparr>) = Some S'"

inductive dispatch_step :: "Dispatch \<Rightarrow> Dispatch \<Rightarrow> bool" where
  dispatch_work: "work_step x x' \<Longrightarrow> dispatch_step x x'"
| dispatch_spurious: "dispatch_step x (x\<lparr>pool := p\<rparr>)"
    if "spurious_step (pool x) p"
| dispatch_accept: "dispatch_step x (after_calls S' x)"
    if "S' = fst (acceptClients_round a (srv x))" "connections (srv x) (acc_socket a) = None"
| dispatch_wait: "dispatch_step x ((after_calls S1 x)
        \<lparr>armed := armed (after_calls S1 x) - set (map entry_socket es), todo := es\<rparr>)"
    if "todo x = []" "running (srv x)" "S1 = close_expired (srv x)"
      "distinct (map entry_socket es)" "set (map entry_socket es) \<subseteq> armed (after_calls S1 x)"
| dispatch_wait_failed: "dispatch_step x (after_calls S' x)"
    if "todo x = []" "S' = runEventLoop_round None (srv x)"
| dispatch_entry: "dispatch_step x ((after_calls S' x)\<lparr>todo := es, pool := p\<rparr>)"
    if "todo x = e # es" "S' = dispatch_event e (srv x)"
      "case job_for e (srv x) of None \<Rightarrow> p = pool x | Some c \<Rightarrow> acceptJob c w (pool x) = Some p"
| dispatch_cleanup: "dispatch_step x (x\<lparr>srv := S'\<lparr>userSessionManager := M\<rparr>\<rparr>)"
    if "cleanup_expired_sessions (Some onSessionExpired) order (userSessionManager (srv x), srv x) = (M, S')"
| dispatch_snapshot: "dispatch_step x (x\<lparr>srv := (srv x)\<lparr>pers := p\<rparr>\<rparr>)"
    if "createSnapshot True True True (hashMap (srv x)) (pers (srv x)) = Some (p, None)"
| dispatch_stop: "dispatch_step x (after_calls S' x)"
    if "S' = Server_stop order (srv x)" "distinct order" "set order = dom (connections (srv x))"

definition Dispatch_new :: "Server \<Rightarrow> Dispatch" where
  "Dispatch_new S = \<lparr>srv = S, armed = {}, todo = [], pool = ThreadPool_new 3\<rparr>"

subsection \<open>Invariant\<close>

text \<open>The pool holds the server's jobs, and a socket is at one place only.\<close>

definition jobs_inv :: "Dispatch \<Rightarrow> bool" where
  "jobs_inv x \<longleftrightarrow> pool_inv (pool x) \<and>
     mset (tpool_jobs (srv x)) = in_execution (workers (pool x)) + mset (jobs (pool x))"

definition sockets_inv :: "Dispatch \<Rightarrow> bool" where
  "sockets_inv x \<longleftrightarrow> server_inv (srv x) \<and> distinct (job_sockets (srv x)) \<and>
     distinct (map entry_socket (todo x)) \<and>
     set (job_sockets (srv x)) \<inter> (armed x \<union> todo_sockets x) = {} \<and>
     armed x \<inter> todo_sockets x = {} \<and> open_inv (srv x) (armed x \<union> todo_sockets x)"

definition dispatch_inv :: "Dispatch \<Rightarrow> bool" where
  "dispatch_inv x \<longleftrightarrow> jobs_inv x \<and> sockets_inv x"

text \<open>An action of a worker outside a job keeps the pool's jobs.\<close>

lemma worker_action_jobs:
  assumes "worker_action i outcome p = Some p'" and "\<And>c. workers p ! i \<noteq> Running c"
  shows "in_execution (workers p') + mset (jobs p') = in_execution (workers p) + mset (jobs p)"
  using assms(1)
proof (cases rule: worker_action_cases)
  case (take job js)
  then show ?thesis using in_execution_update[of i "workers p" "Running job"] by (simp add: job_of_def)
qed (use assms(2) in \<open>auto simp: in_execution_idle job_of_def\<close>)

lemma worker_action_finish:
  assumes "worker_action i Returns p = Some p'" and "i < length (workers p)" and "workers p ! i = Running c"
  shows "in_execution (workers p) + mset (jobs p) = {#c#} + in_execution (workers p') + mset (jobs p')"
proof -
  have "p' = p\<lparr>workers := (workers p)[i := AtLock], finished := finished p @ [c]\<rparr>"
    using assms by (auto simp: worker_action_def split: if_splits)
  then show ?thesis using in_execution_update[of i "workers p" AtLock] assms(2,3) by (simp add: job_of_def)
qed

lemma acceptJob_jobs:
  assumes "acceptJob c w p = Some p'"
  shows "in_execution (workers p') + mset (jobs p') = in_execution (workers p) + mset (jobs p) + {#c#}"
  using assms
  by (cases w) (auto simp: acceptJob_def notify_one_choice_def in_execution_idle job_of_def
      split: if_splits)

lemma spurious_jobs:
  assumes "spurious_step p p'"
  shows "in_execution (workers p') + mset (jobs p') = in_execution (workers p) + mset (jobs p)"
  using assms by cases (simp add: in_execution_idle job_of_def)

lemma in_execution_member:
  assumes "i < length ws" and "ws ! i = Running c"
  shows "in_execution ws = {#c#} + in_execution (ws[i := AtLock])"
  using in_execution_update[OF assms(1), of AtLock] assms(2) by (simp add: job_of_def)

lemma running_job_queued:
  assumes "jobs_inv x" and "running_job x i c"
  shows "c \<in> set (tpool_jobs (srv x))"
proof -
  have "c \<in># in_execution (workers (pool x))"
    using assms(2) in_execution_member by (fastforce simp: running_job_def)
  then have "c \<in># mset (tpool_jobs (srv x))" using assms(1) by (simp add: jobs_inv_def)
  then show ?thesis by simp
qed

lemma after_calls_simps [simp]:
  "srv (after_calls S x) = S" "armed (after_calls S x) = arm (new_calls (srv x) S) (armed x)"
  "todo (after_calls S x) = todo x" "pool (after_calls S x) = pool x"
  by (simp_all add: after_calls_def)

subsection \<open>Every step keeps the invariant\<close>

lemma sockets_inv_pool [simp]: "sockets_inv (x\<lparr>pool := p\<rparr>) = sockets_inv x"
  by (simp add: sockets_inv_def todo_sockets_def)

lemma todo_sockets_simps [simp]:
  "todo_sockets (after_calls S x) = todo_sockets x" "todo_sockets (x\<lparr>pool := p\<rparr>) = todo_sockets x"
  by (simp_all add: todo_sockets_def)

lemma work_step_inv:
  assumes "work_step x x'" and "dispatch_inv x"
  shows "dispatch_inv x'"
  using assms(1)
proof cases
  case (work_pool i outcome p)
  have p: "pool_inv p" using worker_action_inv[OF work_pool(2)] assms(2)
    by (simp add: dispatch_inv_def jobs_inv_def)
  have "in_execution (workers p) + mset (jobs p)
      = in_execution (workers (pool x)) + mset (jobs (pool x))"
  proof (rule worker_action_jobs[OF work_pool(2)])
    show "workers (pool x) ! i \<noteq> Running c" for c
      using work_pool(2,3) by (auto simp: running_job_def worker_action_def split: if_splits)
  qed
  then show ?thesis using p assms(2) work_pool(1) by (simp add: dispatch_inv_def jobs_inv_def)
next
  case (work_handle i c p received rearmed now S')
  let ?s = "conn_socket (conn_objects (srv x) ! c)"
  have j: "jobs_inv x" and s: "sockets_inv x" using assms(2) by (simp_all add: dispatch_inv_def)
  have c: "c \<in> set (tpool_jobs (srv x))" using running_job_queued[OF j work_handle(2)] .
  have "server_inv (srv x)" "distinct (job_sockets (srv x))" using s by (simp_all add: sockets_inv_def)
  note h = handle_sockets[OF this c work_handle(4)]
  have "in_execution (workers (pool x)) + mset (jobs (pool x))
      = {#c#} + in_execution (workers p) + mset (jobs p)"
    using worker_action_finish[OF work_handle(3)] work_handle(2) by (auto simp: running_job_def)
  then have "mset (tpool_jobs S') = in_execution (workers p) + mset (jobs p)"
    using j c h(4) by (simp add: jobs_inv_def)
  moreover have "pool_inv p" using worker_action_inv[OF work_handle(3)] j by (simp add: jobs_inv_def)
  ultimately have "jobs_inv x'" using work_handle(1) by (simp add: jobs_inv_def)
  moreover have "?s \<in> set (job_sockets (srv x))" using c by (auto simp: job_sockets_def)
  moreover have "open_inv S' (arm (new_calls (srv x) S') (armed x) \<union> todo_sockets x)"
    by (rule handle_open[OF _ _ c work_handle(4)]) (use s in \<open>auto simp: sockets_inv_def\<close>)
  ultimately have "jobs_inv x' \<and> sockets_inv x'"
    using s h(1,2) h(3)[of "armed x"] work_handle(1)
    by (auto simp: sockets_inv_def)
  then show ?thesis by (simp add: dispatch_inv_def)
qed

lemma entry_step_inv:
  assumes "dispatch_inv x" and "todo x = e # es" and "S' = dispatch_event e (srv x)"
    and "case job_for e (srv x) of None \<Rightarrow> p = pool x | Some c \<Rightarrow> acceptJob c w (pool x) = Some p"
  shows "dispatch_inv ((after_calls S' x)\<lparr>todo := es, pool := p\<rparr>)"
proof -
  have j: "jobs_inv x" and s: "sockets_inv x" using assms(1) by (simp_all add: dispatch_inv_def)
  have inv: "server_inv (srv x)" using s by (simp add: sockets_inv_def)
  have i: "server_inv S'" unfolding assms(3) using inv by (rule dispatch_event_inv)
  from inv show ?thesis
  proof (cases rule: dispatch_event_cases[of "srv x" e])
    case ignored
    then have "p = pool x" using assms(4) by (simp add: job_for_def)
    then show ?thesis using j s ignored(1) assms(2,3)
      by (auto simp: dispatch_inv_def jobs_inv_def sockets_inv_def todo_sockets_def new_calls_def arm_def open_inv_def)
  next
    case (job c)
    then have a: "acceptJob c w (pool x) = Some p" using assms(4) by (simp add: job_for_def)
    have "jobs_inv ((after_calls S' x)\<lparr>todo := es, pool := p\<rparr>)"
      using acceptJob_inv[OF a] acceptJob_jobs[OF a] j job(3) assms(3)
      by (simp add: jobs_inv_def ac_simps)
    moreover have "open_inv S' (armed x \<union> set (map entry_socket es))"
      using s job(1,3,4) assms(2,3) by (auto simp: sockets_inv_def todo_sockets_def open_inv_def)
    then have "sockets_inv ((after_calls S' x)\<lparr>todo := es, pool := p\<rparr>)"
      using s i job(3,4) assms(2,3)
      by (auto simp: sockets_inv_def todo_sockets_def new_calls_def arm_def)
    ultimately show ?thesis by (simp add: dispatch_inv_def)
  next
    case closed
    then have p: "p = pool x" using assms(4) by (simp add: job_for_def)
    have "arm (new_calls (srv x) S') (armed x) = armed x - {entry_socket e}"
      using closed(4) assms(3) by (simp add: new_calls_append arm_def)
    moreover have "open_inv S' ((armed x - {entry_socket e}) \<union> set (map entry_socket es))"
    proof -
      have "entry_socket e \<notin> entry_socket ` set es" using s assms(2) by (simp add: sockets_inv_def)
      then have "entry_socket e \<notin> set (job_sockets (srv x)) \<union> ((armed x - {entry_socket e}) \<union> entry_socket ` set es)"
        using s assms(2) by (auto simp: sockets_inv_def todo_sockets_def)
      moreover have "open_inv (srv x) ((armed x - {entry_socket e}) \<union> entry_socket ` set es)"
        using s assms(2) by (auto simp: sockets_inv_def todo_sockets_def open_inv_def)
      ultimately show ?thesis using closed(1) assms(3) open_inv_close by simp
    qed
    ultimately have "sockets_inv ((after_calls S' x)\<lparr>todo := es, pool := p\<rparr>)"
      using s i closed(3) assms(2,3) p by (auto simp: sockets_inv_def todo_sockets_def)
    moreover have "jobs_inv ((after_calls S' x)\<lparr>todo := es, pool := p\<rparr>)"
      using j p closed(1) assms(3) by (simp add: jobs_inv_def frame_simps)
    ultimately show ?thesis by (simp add: dispatch_inv_def)
  qed
qed

lemma close_expired_sockets:
  "job_sockets (close_expired S) = job_sockets S" "tpool_jobs (close_expired S) = tpool_jobs S"
  using close_expired_frame[of S] by (simp_all add: job_sockets_def)

lemma dispatch_step_inv:
  assumes "sparing srv dispatch_step x x'" and "dispatch_inv x"
  shows "dispatch_inv x'"
proof -
  have step: "dispatch_step x x'" and spares: "spares_jobs (srv x) (srv x')"
    using assms(1) by (simp_all add: sparing_def)
  have j: "jobs_inv x" and s: "sockets_inv x" using assms(2) by (simp_all add: dispatch_inv_def)
  have inv: "server_inv (srv x)" and o: "open_inv (srv x) (armed x \<union> todo_sockets x)"
    using s by (simp_all add: sockets_inv_def)
  have a: "arm (new_calls (srv x) (close_expired (srv x))) (armed x) \<subseteq> armed x"
    by (simp add: close_expired_frame)
  from step show ?thesis
  proof cases
    case dispatch_work
    then show ?thesis using work_step_inv assms(2) by blast
  next
    case (dispatch_spurious p)
    then show ?thesis using spurious_step_inv spurious_jobs j s
      by (fastforce simp: dispatch_inv_def jobs_inv_def)
  next
    case (dispatch_accept S' a)
    have "server_inv S'" unfolding dispatch_accept(2) using inv by (rule acceptClients_round_inv)
    then have "sockets_inv x'"
      using s accept_sockets(1)[OF inv dispatch_accept(2)] accept_open[OF dispatch_accept(2) inv dispatch_accept(3) o]
        dispatch_accept(1) by (auto simp: sockets_inv_def)
    then show ?thesis using j accept_sockets(2)[OF inv dispatch_accept(2)] dispatch_accept(1)
      by (simp add: dispatch_inv_def jobs_inv_def)
  next
    case (dispatch_wait S1 es)
    have "server_inv S1" unfolding dispatch_wait(4) using inv by (rule close_expired_inv)
    moreover have "open_inv S1 (armed (after_calls S1 x))"
      using close_expired_open[of "srv x" "armed x"] o spares dispatch_wait(1,2,4) by (simp add: todo_sockets_def)
    ultimately have "sockets_inv x'"
      using s a dispatch_wait close_expired_sockets(1)[of "srv x"]
      by (auto simp: sockets_inv_def todo_sockets_def open_inv_def)
    then show ?thesis using j dispatch_wait(1,4) by (simp add: dispatch_inv_def jobs_inv_def close_expired_sockets)
  next
    case (dispatch_wait_failed S')
    have i: "server_inv S'" unfolding dispatch_wait_failed(3) using inv by (rule runEventLoop_round_inv)
    show ?thesis
    proof (cases "running (srv x)")
      case True
      then have S': "S' = close_expired (srv x)" using dispatch_wait_failed(3) by (simp add: runEventLoop_round_def)
      have "open_inv S' (arm (new_calls (srv x) S') (armed x))"
        using close_expired_open[of "srv x" "armed x"] o spares dispatch_wait_failed(1,2) S' by (simp add: todo_sockets_def)
      then have "sockets_inv x'" using s a i S' dispatch_wait_failed(1,2) close_expired_sockets(1)[of "srv x"]
        by (auto simp: sockets_inv_def todo_sockets_def)
      then show ?thesis using j dispatch_wait_failed(1) S' by (simp add: dispatch_inv_def jobs_inv_def close_expired_sockets)
    next
      case False
      then have "after_calls S' x = x"
        using dispatch_wait_failed(3) by (simp add: runEventLoop_round_def after_calls_def new_calls_def arm_def)
      then show ?thesis using assms(2) dispatch_wait_failed(1) by simp
    qed
  next
    case (dispatch_entry e es S' p w)
    then show ?thesis using entry_step_inv[OF assms(2)] by blast
  next
    case (dispatch_cleanup order M S')
    have st: "server_step (srv x) (S'\<lparr>userSessionManager := M\<rparr>)"
      using dispatch_cleanup(2) by (rule step_cleanup)
    have "job_sockets (S'\<lparr>userSessionManager := M\<rparr>) = job_sockets (srv x)" "tpool_jobs S' = tpool_jobs (srv x)"
        "connections S' = connections (srv x)" "running S' = running (srv x)"
      using cleanup_frame[OF dispatch_cleanup(2)] by (simp_all add: job_sockets_def)
    then show ?thesis using j s server_step_inv[OF st inv] dispatch_cleanup(1)
      by (simp add: dispatch_inv_def jobs_inv_def sockets_inv_def todo_sockets_def open_inv_def)
  next
    case (dispatch_snapshot p)
    have st: "server_step (srv x) ((srv x)\<lparr>pers := p\<rparr>)"
      using dispatch_snapshot(2) by (rule step_snapshot)
    then show ?thesis using j s server_step_inv[OF st inv] dispatch_snapshot(1)
      by (simp add: dispatch_inv_def jobs_inv_def sockets_inv_def todo_sockets_def job_sockets_def open_inv_def)
  next
    case (dispatch_stop S' order)
    note st = stop_sockets[OF dispatch_stop(2)]
    have "sockets_inv x'" using s st(2,3) st(4)[of "armed x"] Server_stop_inv[OF inv, of order] dispatch_stop(1,2)
      by (auto simp: sockets_inv_def open_inv_def)
    then show ?thesis using j st(1) dispatch_stop(1) by (simp add: dispatch_inv_def jobs_inv_def)
  qed
qed

lemma Dispatch_new_inv:
  assumes "server_started S"
  shows "dispatch_inv (Dispatch_new S)"
proof -
  have "tpool_jobs S = []" using assms by (rule server_started_fresh)
  moreover have "in_execution (workers (ThreadPool_new 3)) = {#}" "jobs (ThreadPool_new 3) = []"
    by (auto simp: ThreadPool_new_def job_of_def intro!: in_execution_none)
  ultimately show ?thesis
    using server_started_inv[OF assms] ThreadPool_new_inv[of 3]
    by (simp add: Dispatch_new_def dispatch_inv_def jobs_inv_def sockets_inv_def job_sockets_def
        todo_sockets_def open_inv_def)
qed

lemma dispatch_steps_inv: "(sparing srv dispatch_step)\<^sup>*\<^sup>* x x' \<Longrightarrow> dispatch_inv x \<Longrightarrow> dispatch_inv x'"
  by (induction rule: rtranclp_induct) (auto intro: dispatch_step_inv)

subsection \<open>Handled jobs\<close>

text \<open>No job throws in these runs, so the pool lives and has its three workers.\<close>

definition pool_alive :: "Dispatch \<Rightarrow> bool" where
  "pool_alive x \<longleftrightarrow> \<not> terminated (pool x) \<and> length (workers (pool x)) = 3"

lemma worker_action_alive:
  assumes "worker_action i outcome p = Some p'" and "(\<forall>c. workers p ! i \<noteq> Running c) \<or> outcome = Returns"
  shows "terminated p' = terminated p \<and> length (workers p') = length (workers p)"
  using assms by (auto simp: worker_action_def split: if_splits worker.splits list.splits)

lemma work_step_alive:
  assumes "work_step x x'" and "pool_alive x"
  shows "pool_alive x'"
  using assms(1)
proof cases
  case (work_pool i outcome p)
  have "workers (pool x) ! i \<noteq> Running c" for c
    using work_pool(2,3) by (auto simp: running_job_def worker_action_def split: if_splits)
  then show ?thesis using worker_action_alive[OF work_pool(2)] work_pool(1) assms(2)
    by (simp add: pool_alive_def)
next
  case (work_handle i c p received rearmed now S')
  then show ?thesis using worker_action_alive[OF work_handle(3)] assms(2) by (simp add: pool_alive_def)
qed

lemma dispatch_step_alive:
  assumes "dispatch_step x x'" and "pool_alive x"
  shows "pool_alive x'"
  using assms
proof cases
  case dispatch_work
  then show ?thesis using work_step_alive assms(2) by blast
next
  case (dispatch_spurious p)
  then show ?thesis using assms(2) by (auto simp: pool_alive_def elim!: spurious_step.cases)
next
  case (dispatch_entry e es S' p w)
  then show ?thesis using assms(2)
    by (auto simp: pool_alive_def acceptJob_def split: option.splits if_splits)
qed (use assms(2) in \<open>auto simp: pool_alive_def\<close>)

lemma dispatch_steps_alive: "dispatch_step\<^sup>*\<^sup>* x x' \<Longrightarrow> pool_alive x \<Longrightarrow> pool_alive x'"
  by (induction rule: rtranclp_induct) (auto intro: dispatch_step_alive)

lemma Dispatch_new_alive: "pool_alive (Dispatch_new S)"
  by (simp add: pool_alive_def Dispatch_new_def ThreadPool_new_def)

lemma work_step_weight: "work_step x x' \<Longrightarrow> weight (pool x') < weight (pool x)"
  by (induction rule: work_step.induct) (auto dest: worker_action_weight)

lemma work_steps_bounded: "(work_step ^^ k) x y \<Longrightarrow> weight (pool y) + k \<le> weight (pool x)"
proof (induction k arbitrary: y)
  case (Suc k)
  then obtain z where "(work_step ^^ k) x z" "work_step z y" by auto
  then show ?case using Suc.IH[of z] work_step_weight by fastforce
qed simp

text \<open>A worker in a job can always finish it: the handler has a defined result.\<close>

lemma running_job_handled:
  assumes "dispatch_inv x" and "pool_alive x" and "running_job x i c"
  shows "\<exists>x'. work_step x x'"
proof -
  have j: "jobs_inv x" and inv: "server_inv (srv x)"
    using assms(1) by (simp_all add: dispatch_inv_def sockets_inv_def)
  have c: "c \<in> set (tpool_jobs (srv x))" using running_job_queued[OF j assms(3)] .
  let ?S = "(srv x)\<lparr>tpool_jobs := remove1 c (tpool_jobs (srv x))\<rparr>"
  have "server_inv ?S"
    by (rule server_inv_fewer[OF inv])
       (use inv in \<open>auto simp: server_inv_def dest: subsetD[OF set_remove1_subset]\<close>)
  moreover have "c < length (conn_objects ?S)" using c inv by (simp add: server_inv_def)
  ultimately obtain S' where "messageHandler RecvError False 0 c ?S = Some S'"
    using messageHandler_inv by blast
  moreover have "\<exists>p. worker_action i Returns (pool x) = Some p"
    using assms(2,3) by (simp add: worker_action_def running_job_def pool_alive_def)
  ultimately show ?thesis using assms(3) work_handle by blast
qed

lemma no_work_left:
  assumes "dispatch_inv x" and "pool_alive x" and "\<nexists>x'. work_step x x'"
  shows "tpool_jobs (srv x) = []"
proof -
  have j: "jobs_inv x" using assms(1) by (simp add: dispatch_inv_def)
  have nr: "\<not> running_job x i c" for i c using running_job_handled[OF assms(1,2)] assms(3) by blast
  have "idle (pool x)"
    unfolding idle_def
  proof (intro allI)
    fix i outcome
    show "worker_action i outcome (pool x) = None"
      using work_pool[of i outcome x] nr assms(3) by (cases "worker_action i outcome (pool x)") auto
  qed
  moreover have "workers (pool x) \<noteq> []" "\<not> terminated (pool x)"
    using assms(2) by (auto simp: pool_alive_def)
  ultimately have e: "jobs (pool x) = []" "\<forall>p \<in> set (workers (pool x)). p = Asleep \<or> p = Exited"
    using idle_state j by (auto simp: jobs_inv_def)
  then have "in_execution (workers (pool x)) = {#}"
    by (intro in_execution_none) (auto simp: job_of_def)
  then show ?thesis using j e(1) by (simp add: jobs_inv_def)
qed

subsection \<open>Properties\<close>

lemma two_running:
  assumes "i < length ws" and "j < length ws" and "i \<noteq> j" and "ws ! i = Running c" and "ws ! j = Running d"
  shows "\<exists>r. in_execution ws = {#c#} + {#d#} + r"
proof -
  have "in_execution (ws[i := AtLock]) = {#d#} + in_execution (ws[i := AtLock, j := AtLock])"
    by (rule in_execution_member) (use assms in simp_all)
  then show ?thesis using in_execution_member[OF assms(1,4)] by (simp add: ac_simps)
qed

lemma distinct_sockets_of:
  assumes "distinct (job_sockets S)" and "mset (tpool_jobs S) = {#c#} + {#d#} + r"
  shows "conn_socket (conn_objects S ! c) \<noteq> conn_socket (conn_objects S ! d)"
proof
  let ?f = "\<lambda>c. conn_socket (conn_objects S ! c)"
  assume e: "?f c = ?f d"
  have "mset (job_sockets S) = image_mset ?f (mset (tpool_jobs S))" by (simp add: job_sockets_def)
  also have "\<dots> = {#?f c#} + {#?f d#} + image_mset ?f r" by (simp add: assms(2))
  finally have "count (mset (job_sockets S)) (?f c) \<ge> 2" using e by simp
  with assms(1) show False by (simp add: distinct_count_atmost_1 split: if_splits)
qed


text \<open>
  A client on socket 7 has sent something, and worker 0 is in its job; up to there no job has
  run and nothing was written.
\<close>

definition plain_step :: "Dispatch \<Rightarrow> Dispatch \<Rightarrow> bool" where
  "plain_step x x' \<longleftrightarrow> sparing srv dispatch_step x x' \<and> pers (srv x') = pers (srv x) \<and> (\<forall>i c. \<not> running_job x i c)"

lemma plain_steps: "plain_step\<^sup>*\<^sup>* x x' \<Longrightarrow> (sparing srv dispatch_step)\<^sup>*\<^sup>* x x'"
  by (erule rtranclp_mono[THEN predicate2D, rotated]) (auto simp: plain_step_def)

lemma example_plain:
  obtains S0 x where "server_started S0" "plain_step\<^sup>*\<^sup>* (Dispatch_new S0) x" "running_job x 0 0"
    "conn_socket (conn_objects (srv x) ! 0) = 7" "commandBuffer (conn_objects (srv x) ! 0) = ''''"
    "HashMap_map (hashMap (srv x)) = Map.empty" "hashMap S0 = hashMap (srv x)" "workers (pool x) ! 0 = Running 0"
proof -
  obtain S0 where S0: "server_started S0" "running S0" "connections S0 = Map.empty" "conn_objects S0 = []"
      "calls S0 = []" "userSessionManager S0 = UserSessionManager_new" "expiredSockets S0 = []"
      "rt S0 = RateLimiter_new 0 10 5 1000" "server_store S0 = Map.empty"
    by (rule example_server)
  let ?e = "\<lparr>entry_socket = 7, entry_event = Readable\<rparr>"
  let ?S1 = "fst (acceptClients_round (example_answers 7) S0)"
  obtain rt' where al: "isAllowed 9 0 0 (rt S0) = (True, rt')"
    using isAllowed_fresh[of 9 0 0] S0(8) by (cases "isAllowed 9 0 0 (rt S0)") simp
  obtain k usm where us: "add_session 7 \<lparr>sin_addr = 9, sin_port = 10\<rparr> default_max_idle 0
      (userSessionManager S0) = (k, usm)"
    by (cases "add_session 7 \<lparr>sin_addr = 9, sin_port = 10\<rparr> default_max_idle 0 (userSessionManager S0)")
  have S1: "connections ?S1 = [7 \<mapsto> 0]" "running ?S1" "expiredSockets ?S1 = []"
      "conn_socket (conn_objects ?S1 ! 0) = 7" "calls ?S1 = [EL_Add 7]"
      "commandBuffer (conn_objects ?S1 ! 0) = ''''" "hashMap ?S1 = hashMap S0" "pers ?S1 = pers S0"
    using S0(2-7) al us
    by (simp_all add: acceptClients_round_def example_answers_def INVALID_SOCKET_def frame_simps)
  let ?x0 = "Dispatch_new S0"
  let ?x1 = "after_calls ?S1 ?x0"
  let ?x2 = "(after_calls ?S1 ?x1)\<lparr>armed := armed (after_calls ?S1 ?x1) - set (map entry_socket [?e]), todo := [?e]\<rparr>"
  let ?S3 = "dispatch_event ?e ?S1"
  let ?p0 = "ThreadPool_new 3 :: nat ThreadPool"
  let ?p1 = "?p0\<lparr>jobs := [0], accepted := [0]\<rparr>"
  let ?x3 = "(after_calls ?S3 ?x2)\<lparr>todo := [], pool := ?p1\<rparr>"
  let ?p2 = "?p1\<lparr>mutex_owner := Worker 0, workers := [AtTest, AtLock, AtLock]\<rparr>"
  let ?p3 = "?p2\<lparr>workers := [AtTake, AtLock, AtLock]\<rparr>"
  let ?p4 = "?p3\<lparr>jobs := [], mutex_owner := NoOwner, workers := [Running 0, AtLock, AtLock], started := [0]\<rparr>"
  have a: "armed ?x1 = {7}" using S0(5) S1(5) by (simp add: Dispatch_new_def new_calls_def arm_def)
  have d1: "dispatch_step ?x0 ?x1"
    by (rule dispatch_accept[of _ "example_answers 7"])
       (use S0(3) in \<open>simp_all add: Dispatch_new_def example_answers_def\<close>)
  have d2: "dispatch_step ?x1 ?x2"
    by (rule dispatch_wait)
       (use S1(2,3) a in \<open>simp_all add: Dispatch_new_def close_expired_def new_calls_def arm_def\<close>)
  have d3: "dispatch_step ?x2 ?x3"
    by (rule dispatch_entry[where e = ?e and w = None])
       (use S1(1) in \<open>simp_all add: Dispatch_new_def job_for_def acceptJob_def ThreadPool_new_def
          notify_one_choice_def numeral_3_eq_3\<close>)
  have p: "worker_action 0 Returns ?p1 = Some ?p2" "worker_action 0 Returns ?p2 = Some ?p3"
      "worker_action 0 Returns ?p3 = Some ?p4"
    by (simp_all add: worker_action_def ThreadPool_new_def numeral_3_eq_3)
  have nr: "\<not> running_job x i c" if "workers (pool x) = ws" "list_all (\<lambda>w. \<forall>c. w \<noteq> Running c) ws" for x i c ws
    using that by (auto simp: running_job_def list_all_length)
  have w: "plain_step (?x3\<lparr>pool := q\<rparr>) (?x3\<lparr>pool := q'\<rparr>)"
    if "worker_action 0 Returns q = Some q'" "list_all (\<lambda>w. \<forall>c. w \<noteq> Running c) (workers q)" for q q'
    using dispatch_work[OF work_pool[of 0 Returns "?x3\<lparr>pool := q\<rparr>" q']] that nr[of "?x3\<lparr>pool := q\<rparr>"]
    by (simp add: plain_step_def sparing_def spares_same)
  have "plain_step ?x3 (?x3\<lparr>pool := ?p2\<rparr>)" "plain_step (?x3\<lparr>pool := ?p2\<rparr>) (?x3\<lparr>pool := ?p3\<rparr>)"
      "plain_step (?x3\<lparr>pool := ?p3\<rparr>) (?x3\<lparr>pool := ?p4\<rparr>)"
    using w[OF p(1)] w[OF p(2)] w[OF p(3)] by (simp_all add: ThreadPool_new_def numeral_3_eq_3)
  moreover have "plain_step ?x0 ?x1" "plain_step ?x1 ?x2" "plain_step ?x2 ?x3"
    using d1 d2 d3 S0(7) S1(3,8) nr[of _ "replicate 3 AtLock"]
    by (simp_all add: plain_step_def sparing_def spares_jobs_def Dispatch_new_def ThreadPool_new_def list_all_length
        dispatch_event_def split: option.split)
  ultimately have "plain_step\<^sup>*\<^sup>* ?x0 (?x3\<lparr>pool := ?p4\<rparr>)"
    by (meson converse_rtranclp_into_rtranclp rtranclp.rtrancl_refl)
  moreover have "running_job (?x3\<lparr>pool := ?p4\<rparr>) 0 0" by (simp add: running_job_def)
  moreover have "conn_socket (conn_objects (srv (?x3\<lparr>pool := ?p4\<rparr>)) ! 0) = 7"
    "commandBuffer (conn_objects (srv (?x3\<lparr>pool := ?p4\<rparr>)) ! 0) = ''''"
    "hashMap (srv (?x3\<lparr>pool := ?p4\<rparr>)) = hashMap S0"
    using S1(1,4,6,7) by (simp_all add: dispatch_event_def)
  moreover have "HashMap_map (hashMap S0) = Map.empty" using S0(9) by (simp add: server_store_def db_store_def)
  ultimately show thesis using that[OF S0(1)] by simp
qed

lemma example_dispatch:
  obtains S0 x where "server_started S0" "(sparing srv dispatch_step)\<^sup>*\<^sup>* (Dispatch_new S0) x" "running_job x 0 0"
    "conn_socket (conn_objects (srv x) ! 0) = 7"
  using example_plain plain_steps by metis


text \<open>
  Every event that was handed to the pool is handled: from any reachable state
  the workers' actions alone come to an end, after at most \<open>weight\<close> of them, whatever the
  handlers receive, and where they end no job is left.
\<close>

theorem dispatched_jobs_are_handled:
  assumes "server_started S0" and "(sparing srv dispatch_step)\<^sup>*\<^sup>* (Dispatch_new S0) x"
  shows "(\<forall>k y. (work_step ^^ k) x y \<longrightarrow> k \<le> weight (pool x)) \<and>
     (\<forall>y. work_step\<^sup>*\<^sup>* x y \<longrightarrow> (\<nexists>z. work_step y z) \<longrightarrow> tpool_jobs (srv y) = [])"
proof -
  have inv: "dispatch_inv x" "pool_alive x"
    using dispatch_steps_inv[OF assms(2)] dispatch_steps_alive[OF sparing_steps[OF assms(2)]] Dispatch_new_inv[OF assms(1)]
      Dispatch_new_alive by blast+
  have "tpool_jobs (srv y) = []" if "work_step\<^sup>*\<^sup>* x y" "\<nexists>z. work_step y z" for y
  proof -
    have "dispatch_inv y \<and> pool_alive y"
      using that(1) inv by (induction rule: rtranclp_induct) (auto intro: work_step_inv work_step_alive)
    then show ?thesis using no_work_left that(2) by blast
  qed
  then show ?thesis using work_steps_bounded by fastforce
qed

theorem dispatched_jobs_are_handled_witness:
  "\<exists>S0 x. server_started S0 \<and> (sparing srv dispatch_step)\<^sup>*\<^sup>* (Dispatch_new S0) x \<and> running_job x 0 0 \<and>
     (\<forall>k y. (work_step ^^ k) x y \<longrightarrow> k \<le> weight (pool x))"
proof -
  obtain S0 x where x: "server_started S0" "(sparing srv dispatch_step)\<^sup>*\<^sup>* (Dispatch_new S0) x" "running_job x 0 0"
    by (rule example_dispatch)
  from dispatched_jobs_are_handled[OF x(1,2)] x show ?thesis by blast
qed

end
