(* ===== verification/Expiry.thy ===== *)
theory Expiry
  imports Linearize
begin

text \<open>
  Sessions and connections together: \<open>UserSessionManager\<close>, the connection table and the
  queue of expired sockets (\<open>src/Server/Server.cpp\<close>, lines 108 to 130, 165 to 175, 200 to 212
  and 341 to 346; \<open>src/UserSession/UserSession.cpp\<close>).  As long as \<open>accept\<close> returns fresh socket
  numbers and the addresses of connected clients differ, every connection has its own session
  or is queued for closing, no session outlives its connection, and a client is disconnected
  by the first cleanup after its idle limit and the next round of the event loop.  The events
  are whole rounds of the threads (\<open>Linearize\<close>).
\<close>

subsection \<open>The invariant\<close>

definition key_of :: "Server \<Rightarrow> nat \<Rightarrow> SessionKey" where
  "key_of S c = conn_sessionKey (conn_objects S ! c)"

text \<open>
  \<open>M\<close> is the session table; the sockets in \<open>P\<close> are about to be closed.
\<close>

definition tracked :: "SocketType set \<Rightarrow> UserSessionManager \<Rightarrow> Server \<Rightarrow> bool" where
  "tracked P M S \<longleftrightarrow>
     (\<forall>s c. connections S s = Some c \<longrightarrow> s \<in> P \<or> s \<in> set (expiredSockets S) \<or>
        (\<exists>ses. users_sessions M (key_of S c) = Some ses \<and> user_socket ses = s \<and>
           session_maximum_idle_time ses = 240)) \<and>
     (\<forall>k ses. users_sessions M k = Some ses \<longrightarrow>
        (\<exists>c. connections S (user_socket ses) = Some c \<and> key_of S c = k)) \<and>
     (\<forall>s s' c c'. connections S s = Some c \<longrightarrow> connections S s' = Some c' \<longrightarrow>
        key_of S c = key_of S c' \<longrightarrow> s = s')"

definition expiry_inv :: "Server \<Rightarrow> bool" where
  "expiry_inv S \<longleftrightarrow> server_inv S \<and> tracked {} (userSessionManager S) S"

text \<open>
  The runs that are looked at.  The system promises that \<open>accept\<close> returns no number of an open
  socket.  That no connection of the table has the remote address and port of the new one is a
  condition on the clients, not a promise: a connection whose peer is gone stays in the table
  until the server notices, and its client may come back from the same port meanwhile
  (\<open>reconnect_gets_no_session\<close>).
\<close>

definition fresh_accept :: "server_event \<Rightarrow> Server \<Rightarrow> bool" where
  "fresh_accept e S \<longleftrightarrow>
     (case e of
        EvAccept a \<Rightarrow> connections S (acc_socket a) = None \<and>
          (\<forall>s c. connections S s = Some c \<longrightarrow>
             key_of S c \<noteq> \<lparr>raw_ip = sin_addr (acc_addr a), raw_port = sin_port (acc_addr a)\<rparr>)
      | _ \<Rightarrow> True)"

lemma trackedD:
  assumes "tracked P M S"
  shows "connections S s = Some c \<Longrightarrow> s \<in> P \<or> s \<in> set (expiredSockets S) \<or>
      (\<exists>ses. users_sessions M (key_of S c) = Some ses \<and> user_socket ses = s \<and> session_maximum_idle_time ses = 240)"
    and "users_sessions M k = Some ses \<Longrightarrow> \<exists>c. connections S (user_socket ses) = Some c \<and> key_of S c = k"
    and "connections S s = Some c \<Longrightarrow> connections S s' = Some c' \<Longrightarrow> key_of S c = key_of S c' \<Longrightarrow> s = s'"
  using assms unfolding tracked_def by (blast, blast, metis)

lemma trackedI:
  assumes "\<And>s c. connections S s = Some c \<Longrightarrow> s \<in> P \<or> s \<in> set (expiredSockets S) \<or>
      (\<exists>ses. users_sessions M (key_of S c) = Some ses \<and> user_socket ses = s \<and> session_maximum_idle_time ses = 240)"
    and "\<And>k ses. users_sessions M k = Some ses \<Longrightarrow> \<exists>c. connections S (user_socket ses) = Some c \<and> key_of S c = k"
    and "\<And>s s' c c'. connections S s = Some c \<Longrightarrow> connections S s' = Some c' \<Longrightarrow> key_of S c = key_of S c' \<Longrightarrow> s = s'"
  shows "tracked P M S"
  using assms unfolding tracked_def by blast

lemma tracked_cong:
  assumes "tracked P M S" and "connections S' = connections S"
    and "\<And>s c. connections S s = Some c \<Longrightarrow> key_of S' c = key_of S c"
    and "P \<union> set (expiredSockets S) \<subseteq> P' \<union> set (expiredSockets S')"
  shows "tracked P' M S'"
proof -
  have "s \<in> P' \<or> s \<in> set (expiredSockets S') \<or>
      (\<exists>ses. users_sessions M (key_of S' c) = Some ses \<and> user_socket ses = s \<and> session_maximum_idle_time ses = 240)"
    if "connections S' s = Some c" for s c
  proof -
    have c: "connections S s = Some c" using that assms(2) by simp
    from trackedD(1)[OF assms(1) c] assms(3)[OF c] assms(4) show ?thesis by auto
  qed
  moreover have "\<exists>c. connections S' (user_socket ses) = Some c \<and> key_of S' c = k"
    if "users_sessions M k = Some ses" for k ses
    using trackedD(2)[OF assms(1) that] assms(2,3) by auto
  moreover have "s = s'" if "connections S' s = Some c" "connections S' s' = Some c'" "key_of S' c = key_of S' c'"
    for s s' c c'
    using trackedD(3)[OF assms(1)] that assms(2,3) by metis
  ultimately show ?thesis by (rule trackedI)
qed

text \<open>Closing a connection takes its session along, and no other.\<close>

lemma userSessionManager_close:
  "userSessionManager (closeConnection s S) =
     (case connections S s of None \<Rightarrow> userSessionManager S
      | Some c \<Rightarrow> remove_session (key_of S c) (userSessionManager S))"
  by (auto simp: closeConnection_def key_of_def log_call_def Let_def split: option.split)

lemma key_of_close [simp]: "key_of (closeConnection s S) c = key_of S c"
  by (simp add: key_of_def frame_simps)

lemma tracked_close:
  assumes "tracked P (userSessionManager S) S"
  shows "tracked (P - {s}) (userSessionManager (closeConnection s S)) (closeConnection s S)"
proof (rule trackedI)
  note t = trackedD[OF assms]
  fix s' c' assume c': "connections (closeConnection s S) s' = Some c'"
  then have n: "s' \<noteq> s" "connections S s' = Some c'" by (auto simp: frame_simps split: if_splits)
  have "key_of S c \<noteq> key_of S c'" if "connections S s = Some c" for c
    using t(3)[OF that n(2)] n(1) by blast
  then show "s' \<in> P - {s} \<or> s' \<in> set (expiredSockets (closeConnection s S)) \<or>
      (\<exists>ses. users_sessions (userSessionManager (closeConnection s S)) (key_of (closeConnection s S) c') = Some ses \<and>
         user_socket ses = s' \<and> session_maximum_idle_time ses = 240)"
    using t(1)[OF n(2)] n(1)
    by (cases "connections S s") (auto simp: userSessionManager_close remove_session_def frame_simps)
next
  note t = trackedD[OF assms]
  fix k ses assume k: "users_sessions (userSessionManager (closeConnection s S)) k = Some ses"
  then have "users_sessions (userSessionManager S) k = Some ses"
    by (auto simp: userSessionManager_close remove_session_def split: option.splits if_splits)
  from t(2)[OF this] obtain c where c: "connections S (user_socket ses) = Some c" "key_of S c = k" by blast
  moreover have "user_socket ses \<noteq> s"
  proof
    assume "user_socket ses = s"
    then have "userSessionManager (closeConnection s S) = remove_session k (userSessionManager S)"
      using c by (simp add: userSessionManager_close)
    then show False using k by (simp add: remove_session_def)
  qed
  ultimately show "\<exists>c. connections (closeConnection s S) (user_socket ses) = Some c \<and> key_of (closeConnection s S) c = k"
    by (simp add: frame_simps)
next
  fix s1 s2 c1 c2
  assume "connections (closeConnection s S) s1 = Some c1" "connections (closeConnection s S) s2 = Some c2"
    "key_of (closeConnection s S) c1 = key_of (closeConnection s S) c2"
  then show "s1 = s2" using trackedD(3)[OF assms, of s1 c1 s2 c2] by (auto simp: frame_simps split: if_splits)
qed

lemma tracked_fold_close:
  "tracked (set ss) (userSessionManager S) S \<Longrightarrow>
   tracked {} (userSessionManager (fold closeConnection ss S)) (fold closeConnection ss S)"
proof (induction ss arbitrary: S)
  case (Cons s ss)
  have "tracked (set (s # ss) - {s}) (userSessionManager (closeConnection s S)) (closeConnection s S)"
    using Cons.prems by (rule tracked_close)
  then have "tracked (set ss) (userSessionManager (closeConnection s S)) (closeConnection s S)"
    by (rule tracked_cong) auto
  from Cons.IH[OF this] show ?case by simp
qed simp

lemma tracked_rearm:
  assumes "tracked {} (userSessionManager S) S"
  shows "tracked {} (userSessionManager (rearmSocket r s S)) (rearmSocket r s S)"
proof -
  have l: "tracked {} (userSessionManager (log_call c S)) (log_call c S)" for c
    by (rule tracked_cong[of "{}" _ S]) (use assms in \<open>simp_all add: frame_simps key_of_def\<close>)
  show ?thesis
    using l tracked_close[of "{}" "log_call (EL_Rearm s) S" s]
    by (simp add: rearmSocket_def Let_def)
qed

text \<open>Activity changes neither the socket nor the limit of a session.\<close>

lemma update_activity_sessions:
  "users_sessions (update_activity key now M) k =
     map_option (\<lambda>ses. if k = key then update_last_activity_time now ses else ses) (users_sessions M k)"
  by (cases "users_sessions M k"; cases "users_sessions M key") (auto simp: update_activity_def)

lemma tracked_activity:
  assumes "tracked P M S"
  shows "tracked P (update_activity key now M) S"
proof (rule trackedI)
  let ?u = "\<lambda>k ses. if k = key then update_last_activity_time now ses else ses"
  have u: "user_socket (?u k ses) = user_socket ses"
      "session_maximum_idle_time (?u k ses) = session_maximum_idle_time ses" for k ses
    by (simp_all add: update_last_activity_time_def)
  show "s \<in> P \<or> s \<in> set (expiredSockets S) \<or>
      (\<exists>ses. users_sessions (update_activity key now M) (key_of S c) = Some ses \<and> user_socket ses = s \<and>
         session_maximum_idle_time ses = 240)" if "connections S s = Some c" for s c
  proof -
    have "(\<exists>ses. users_sessions M (key_of S c) = Some ses \<and> user_socket ses = s \<and>
          session_maximum_idle_time ses = 240) \<longrightarrow>
        (\<exists>ses. users_sessions (update_activity key now M) (key_of S c) = Some ses \<and> user_socket ses = s \<and>
          session_maximum_idle_time ses = 240)"
    proof (intro impI, elim exE conjE)
      fix ses assume "users_sessions M (key_of S c) = Some ses" "user_socket ses = s"
        "session_maximum_idle_time ses = 240"
      then show "\<exists>ses. users_sessions (update_activity key now M) (key_of S c) = Some ses \<and>
          user_socket ses = s \<and> session_maximum_idle_time ses = 240"
        using u by (intro exI[of _ "?u (key_of S c) ses"]) (simp add: update_activity_sessions)
    qed
    with trackedD(1)[OF assms that] show ?thesis by blast
  qed
  show "\<exists>c. connections S (user_socket ses) = Some c \<and> key_of S c = k"
    if k: "users_sessions (update_activity key now M) k = Some ses" for k ses
  proof -
    obtain ses0 where "users_sessions M k = Some ses0" "ses = ?u k ses0"
      using k unfolding update_activity_sessions by auto
    moreover from this(2) have "user_socket ses = user_socket ses0" by (simp only: u)
    ultimately show ?thesis using trackedD(2)[OF assms, of k ses0] by simp
  qed
qed (use trackedD(3)[OF assms] in blast)

subsection \<open>Every event keeps it\<close>

lemma key_of_same:
  "conn_objects S' = conn_objects S @ new \<Longrightarrow> c < length (conn_objects S) \<Longrightarrow> key_of S' c = key_of S c"
  by (simp add: key_of_def nth_append)

lemma key_of_set_buffer [simp]: "key_of (set_buffer c b S) c' = key_of S c'"
  by (cases "c < length (conn_objects S)"; cases "c = c'")
     (simp_all add: key_of_def set_buffer_def list_update_beyond)

lemma tracked_handler:
  assumes "tracked {} (userSessionManager S) S" and "messageHandler received rearmed now c S = Some S'"
  shows "tracked {} (userSessionManager S') S'"
proof -
  let ?s = "conn_socket (conn_objects S ! c)" and ?k = "conn_sessionKey (conn_objects S ! c)"
  have close: "tracked {} (userSessionManager (closeConnection ?s T)) (closeConnection ?s T)"
    if "tracked {} (userSessionManager T) T" for T
    using tracked_close[OF that, of ?s] by simp
  have b: "tracked {} M (set_buffer c b T)" if "tracked {} M T" for M b T
    by (rule tracked_cong[OF that]) (simp_all add: frame_simps, simp_all add: set_buffer_def)
  show ?thesis
  proof (cases received)
    case (Received bytes)
    let ?b = "commandBuffer (conn_objects S ! c) @ bytes"
    let ?S2 = "(set_buffer c ?b S)\<lparr>userSessionManager :=
         update_activity ?k now (userSessionManager (set_buffer c ?b S))\<rparr>"
    have "tracked {} (userSessionManager ?S2) (set_buffer c ?b S)"
      using tracked_activity[OF b[OF assms(1)]] by (simp add: frame_simps)
    then have "tracked {} (userSessionManager ?S2) ?S2"
      by (rule tracked_cong) (simp_all add: key_of_def)
    then have "tracked {} (userSessionManager ?S2) (set_buffer c '''' ?S2)" by (rule b)
    then have "tracked {} (userSessionManager ?S2) (log_call (Send ?s r)
        ((set_buffer c '''' ?S2)\<lparr>hashMap := m, pers := p\<rparr>))" for r m p
      by (rule tracked_cong) (simp_all add: key_of_def frame_simps)
    then have full: "tracked {} (userSessionManager (log_call (Send ?s r)
        ((set_buffer c '''' ?S2)\<lparr>hashMap := m, pers := p\<rparr>))) (log_call (Send ?s r)
        ((set_buffer c '''' ?S2)\<lparr>hashMap := m, pers := p\<rparr>))" for r m p
      by (simp add: frame_simps)
    have part: "tracked {} (userSessionManager (set_buffer c ?b S)) (set_buffer c ?b S)"
      using b[OF assms(1)] by (simp add: frame_simps)
    from assms(2) Received consider
        (long) "S' = closeConnection ?s (set_buffer c ?b S)"
      | (part) "S' = rearmSocket rearmed ?s (set_buffer c ?b S)"
      | (full) r m p where "S' = rearmSocket rearmed ?s (log_call (Send ?s r)
          ((set_buffer c '''' ?S2)\<lparr>hashMap := m, pers := p\<rparr>))"
      by (auto simp: messageHandler_def Let_def split: if_splits)
    then show ?thesis using close[OF part] tracked_rearm[OF part] tracked_rearm[OF full]
      by cases simp_all
  qed (use assms close tracked_rearm in \<open>auto simp: messageHandler_def Let_def\<close>)
qed

lemma tracked_accept:
  assumes "server_inv S" and "tracked {} (userSessionManager S) S" and "fresh_accept (EvAccept a) S"
    and "S' = fst (acceptClients_round a S)"
  shows "tracked {} (userSessionManager S') S'"
proof -
  let ?k = "\<lparr>raw_ip = sin_addr (acc_addr a), raw_port = sin_port (acc_addr a)\<rparr>"
  have nc: "connections S (acc_socket a) = None" and nk: "\<And>s c. connections S s = Some c \<Longrightarrow> key_of S c \<noteq> ?k"
    using assms(3) by (auto simp: fresh_accept_def)
  have ns: "users_sessions (userSessionManager S) ?k = None"
    using trackedD(2)[OF assms(2), of ?k] nk by (cases "users_sessions (userSessionManager S) ?k") auto
  have t: "table_ok S" using assms(1) by (simp add: server_inv_def)
  have same: "tracked {} (userSessionManager T) T"
    if "conn_objects T = conn_objects S" "connections T = connections S" "expiredSockets T = expiredSockets S"
      "users_sessions (userSessionManager T) = users_sessions (userSessionManager S)" for T
  proof -
    have "userSessionManager T = userSessionManager S" using that(4) by simp
    then show ?thesis
      using tracked_cong[OF assms(2), of T "{}"] that(1-3) by (simp add: key_of_def)
  qed
  obtain al rt' where al: "isAllowed (sin_addr (acc_addr a)) (acc_now_global a) (acc_now_private a) (rt S) = (al, rt')"
    by (cases "isAllowed (sin_addr (acc_addr a)) (acc_now_global a) (acc_now_private a) (rt S)")
  have rm: "(users_sessions (userSessionManager S))(?k := None) = users_sessions (userSessionManager S)"
    using ns by (auto simp: fun_eq_iff)
  show ?thesis
  proof (cases "running S \<and> acc_socket a \<noteq> INVALID_SOCKET \<and> al \<and> acc_still_running a \<and> acc_nonblocking a")
    case False
    then show ?thesis
      by (intro same) (use ns rm in \<open>auto simp: assms(4) acceptClients_round_def al add_session_def
          remove_session_def frame_simps Let_def\<close>)
  next
    case True
    let ?ses = "UserSession_new (acc_socket a) (acc_addr a) 240 (acc_now_session a)"
    have new: "conn_objects S' = conn_objects S @ [\<lparr>conn_socket = acc_socket a, conn_sessionKey = ?k, commandBuffer = ''''\<rparr>]"
      "connections S' = (connections S)(acc_socket a \<mapsto> length (conn_objects S))"
      "expiredSockets S' = expiredSockets S"
      "users_sessions (userSessionManager S') = (users_sessions (userSessionManager S))(?k \<mapsto> ?ses)"
      using True ns by (simp_all add: assms(4) acceptClients_round_def al add_session_def default_max_idle_def
          frame_simps Let_def)
    have old: "key_of S' c = key_of S c" if "connections S s = Some c" for s c
      using key_of_same[OF new(1)] table_okD(1)[OF t that] by blast
    have k: "key_of S' (length (conn_objects S)) = ?k" by (simp add: key_of_def new(1))
    show ?thesis
    proof (rule trackedI)
      fix s c assume c: "connections S' s = Some c"
      show "s \<in> {} \<or> s \<in> set (expiredSockets S') \<or> (\<exists>ses. users_sessions (userSessionManager S') (key_of S' c) = Some ses \<and>
          user_socket ses = s \<and> session_maximum_idle_time ses = 240)"
      proof (cases "s = acc_socket a")
        case True
        then show ?thesis using c k by (auto simp: new UserSession_new_def)
      next
        case False
        then have "connections S s = Some c" using c by (simp add: new(2))
        with trackedD(1)[OF assms(2) this] old[OF this] nk[OF this] show ?thesis by (auto simp: new(3,4))
      qed
    next
      fix k' ses assume s: "users_sessions (userSessionManager S') k' = Some ses"
      show "\<exists>c. connections S' (user_socket ses) = Some c \<and> key_of S' c = k'"
      proof (cases "k' = ?k")
        case True
        then show ?thesis using s k by (auto simp: new UserSession_new_def)
      next
        case False
        then obtain c where c: "connections S (user_socket ses) = Some c" "key_of S c = k'"
          using s trackedD(2)[OF assms(2), of k' ses] by (auto simp: new(4))
        then have "user_socket ses \<noteq> acc_socket a" using nc by auto
        then show ?thesis using c old[OF c(1)] by (simp add: new(2))
      qed
    next
      fix s s' c c' assume "connections S' s = Some c" "connections S' s' = Some c'" "key_of S' c = key_of S' c'"
      then show "s = s'"
        using trackedD(3)[OF assms(2), of s c s' c'] old nk k by (auto simp: new(2) split: if_splits)
    qed
  qed
qed

lemma tracked_round:
  assumes "tracked {} (userSessionManager S) S"
  shows "tracked {} (userSessionManager (runEventLoop_round waited S)) (runEventLoop_round waited S)"
proof -
  let ?S = "S\<lparr>expiredSockets := []\<rparr>"
  have "tracked (set (expiredSockets S)) (userSessionManager ?S) ?S"
    using assms by (simp, elim tracked_cong) (simp_all add: key_of_def)
  then have ce: "tracked {} (userSessionManager (close_expired S)) (close_expired S)"
    unfolding close_expired_def by (rule tracked_fold_close)
  have "tracked {} (userSessionManager (dispatch_event e T)) (dispatch_event e T)"
    if t: "tracked {} (userSessionManager T) T" for e T
  proof -
    have "tracked {} (userSessionManager T) (T\<lparr>tpool_jobs := js\<rparr>)" for js
      using t by (rule tracked_cong) (simp_all add: key_of_def)
    then show ?thesis using t tracked_close[OF t, of "entry_socket e"]
      by (auto simp: dispatch_event_def split: option.split)
  qed
  then have "tracked {} (userSessionManager (fold dispatch_event es T)) (fold dispatch_event es T)"
    if "tracked {} (userSessionManager T) T" for es T
    using that by (induction es arbitrary: T) simp_all
  then show ?thesis using ce assms
    by (auto simp: runEventLoop_round_def Let_def split: option.split)
qed

lemma fold_onSessionExpired:
  "fold onSessionExpired xs S = S\<lparr>expiredSockets := expiredSockets S @ xs\<rparr>"
  by (induction xs arbitrary: S) (simp_all add: onSessionExpired_def)

lemma tracked_cleanup:
  assumes "tracked {} M S" and "cleanup_expired_sessions (Some onSessionExpired) order (M, S) = (M', S')"
  shows "tracked {} M' S'"
  using assms
proof (induction "Some onSessionExpired" order "(M, S)" arbitrary: M S rule: cleanup_expired_sessions.induct)
  case (2 key now order M S)
  note t = trackedD[OF 2(4)] and run = 2(5)
  show ?case
  proof (cases "\<exists>ses. users_sessions M key = Some ses \<and> is_expired now ses")
    case True
    then obtain ses where ses: "users_sessions M key = Some ses" "is_expired now ses" by blast
    let ?M = "M\<lparr>users_sessions := (users_sessions M)(key := None)\<rparr>"
    have "tracked {} ?M (onSessionExpired (user_socket ses) S)"
    proof (rule trackedI)
      fix s c assume c: "connections (onSessionExpired (user_socket ses) S) s = Some c"
      then have c': "connections S s = Some c" by (simp add: onSessionExpired_def)
      show "s \<in> {} \<or> s \<in> set (expiredSockets (onSessionExpired (user_socket ses) S)) \<or>
          (\<exists>ses'. users_sessions ?M (key_of (onSessionExpired (user_socket ses) S) c) = Some ses' \<and>
             user_socket ses' = s \<and> session_maximum_idle_time ses' = 240)"
        using t(1)[OF c'] ses(1)
        by (cases "key_of S c = key") (auto simp: onSessionExpired_def key_of_def)
    next
      fix k ses' assume "users_sessions ?M k = Some ses'"
      then have "users_sessions M k = Some ses'" by (simp split: if_splits)
      from t(2)[OF this]
      show "\<exists>c. connections (onSessionExpired (user_socket ses) S) (user_socket ses') = Some c \<and>
          key_of (onSessionExpired (user_socket ses) S) c = k"
        by (simp add: onSessionExpired_def key_of_def)
    next
      fix s s' c c'
      assume "connections (onSessionExpired (user_socket ses) S) s = Some c"
        "connections (onSessionExpired (user_socket ses) S) s' = Some c'"
        "key_of (onSessionExpired (user_socket ses) S) c = key_of (onSessionExpired (user_socket ses) S) c'"
      then show "s = s'" using t(3)[of s c s' c']
        by (simp add: onSessionExpired_def key_of_def)
    qed
    then show ?thesis using 2(2)[of ses "onSessionExpired (user_socket ses) S"] run ses by simp
  next
    case False
    then show ?thesis using 2 by (cases "users_sessions M key") auto
  qed
qed simp

lemma expiry_event:
  assumes "server_event_step e S = Some S'" and "expiry_inv S" and "fresh_accept e S"
  shows "expiry_inv S'"
proof -
  have i: "server_inv S" and t: "tracked {} (userSessionManager S) S"
    using assms(2) by (simp_all add: expiry_inv_def)
  have "tracked {} (userSessionManager S') S'"
  proof (cases e)
    case (EvJob received rearmed now c)
    have "tracked {} (userSessionManager S) (S\<lparr>tpool_jobs := remove1 c (tpool_jobs S)\<rparr>)"
      using t by (rule tracked_cong) (simp_all add: key_of_def)
    then show ?thesis using EvJob assms(1) tracked_handler[of "S\<lparr>tpool_jobs := remove1 c (tpool_jobs S)\<rparr>"]
      by (auto split: if_splits)
  next
    case (EvAccept a)
    then have "S' = fst (acceptClients_round a S)" "fresh_accept (EvAccept a) S" using assms(1,3) by simp_all
    then show ?thesis using tracked_accept[OF i t] by blast
  next
    case (EvRound waited)
    then show ?thesis using tracked_round[OF t] assms(1) by auto
  next
    case (EvCleanup order)
    obtain M T where r: "cleanup_expired_sessions (Some onSessionExpired) order (userSessionManager S, S) = (M, T)"
      by (cases "cleanup_expired_sessions (Some onSessionExpired) order (userSessionManager S, S)")
    have "tracked {} M (T\<lparr>userSessionManager := M\<rparr>)"
      using tracked_cleanup[OF t r] by (rule tracked_cong) (simp_all add: key_of_def)
    then show ?thesis using r EvCleanup assms(1) by auto
  next
    case EvSnapshot
    have "tracked {} (userSessionManager S) (S\<lparr>pers := p\<rparr>)" for p
      using t by (rule tracked_cong) (simp_all add: key_of_def)
    then show ?thesis using EvSnapshot assms(1) by (auto split: option.splits)
  next
    case (EvStop order)
    then show ?thesis using assms(1)
      by (auto simp: tracked_def Server_stop_def frame_simps Let_def close_all_sessions_def)
  qed
  then show ?thesis using answers_inv[OF i assms(1)] by (simp add: expiry_inv_def)
qed

subsection \<open>Runs\<close>

text \<open>A run in which every \<open>accept\<close> is fresh.\<close>

fun all_fresh :: "server_event list \<Rightarrow> Server \<Rightarrow> bool" where
  "all_fresh [] S = True"
| "all_fresh (e # es) S = (fresh_accept e S \<and>
     (case server_event_step e S of None \<Rightarrow> True | Some S' \<Rightarrow> all_fresh es S'))"

lemma expiry_started:
  assumes "server_started S"
  shows "expiry_inv S"
  using server_started_fresh[OF assms] server_started_inv[OF assms]
  by (simp add: expiry_inv_def tracked_def)

lemma expiry_run:
  "run_ops server_event_step es S = Some S' \<Longrightarrow> all_fresh es S \<Longrightarrow> expiry_inv S \<Longrightarrow> expiry_inv S'"
  by (induction es arbitrary: S) (auto split: option.splits intro: expiry_event)

subsection \<open>Properties\<close>

text \<open>
  C22 (invariant). No connection escapes the idle limit: in every state a run with fresh
  accepts reaches, a connection of the table is queued for closing or has a session with its
  socket and the limit of 240 seconds; every session belongs to a connection of the table with
  its key; and two connections never share a session.
\<close>

theorem every_connection_is_tracked:
  assumes "server_started S0" and "run_ops server_event_step es S0 = Some S" and "all_fresh es S0"
  shows "(\<forall>s c. connections S s = Some c \<longrightarrow> s \<in> set (expiredSockets S) \<or>
       (\<exists>ses. users_sessions (userSessionManager S) (key_of S c) = Some ses \<and> user_socket ses = s \<and>
          session_maximum_idle_time ses = 240)) \<and>
     (\<forall>k ses. users_sessions (userSessionManager S) k = Some ses \<longrightarrow>
       (\<exists>c. connections S (user_socket ses) = Some c \<and> key_of S c = k)) \<and>
     (\<forall>s s' c c'. connections S s = Some c \<and> connections S s' = Some c' \<and> s \<noteq> s' \<longrightarrow>
       key_of S c \<noteq> key_of S c')"
proof -
  have "tracked {} (userSessionManager S) S"
    using expiry_run[OF assms(2,3) expiry_started[OF assms(1)]] by (simp add: expiry_inv_def)
  note t = trackedD[OF this]
  show ?thesis using t(1)[unfolded empty_iff] t(2) t(3) by (intro conjI) blast+
qed

text \<open>A server with one client, connected at time 0.\<close>

lemma example_connected:
  obtains S0 S where "server_started S0" "run_ops server_event_step [EvAccept (example_answers 7)] S0 = Some S"
    "all_fresh [EvAccept (example_answers 7)] S0" "running S" "connections S = [7 \<mapsto> 0]" "expiredSockets S = []"
    "key_of S 0 = \<lparr>raw_ip = 9, raw_port = 10\<rparr>"
    "users_sessions (userSessionManager S)
       = [\<lparr>raw_ip = 9, raw_port = 10\<rparr> \<mapsto> UserSession_new 7 \<lparr>sin_addr = 9, sin_port = 10\<rparr> 240 0]"
proof -
  obtain S0 where S0: "server_started S0" "running S0" "connections S0 = Map.empty" "conn_objects S0 = []"
      "userSessionManager S0 = UserSessionManager_new" "expiredSockets S0 = []"
      "rt S0 = RateLimiter_new 0 10 5 1000"
    by (rule example_server)
  let ?S = "fst (acceptClients_round (example_answers 7) S0)"
  obtain rt' where al: "isAllowed 9 0 0 (rt S0) = (True, rt')"
    using isAllowed_fresh[of 9 0 0] S0(7) by (cases "isAllowed 9 0 0 (rt S0)") simp
  have "running ?S \<and> connections ?S = [7 \<mapsto> 0] \<and> expiredSockets ?S = [] \<and>
      key_of ?S 0 = \<lparr>raw_ip = 9, raw_port = 10\<rparr> \<and> users_sessions (userSessionManager ?S)
       = [\<lparr>raw_ip = 9, raw_port = 10\<rparr> \<mapsto> UserSession_new 7 \<lparr>sin_addr = 9, sin_port = 10\<rparr> 240 0]"
    using S0(2-6) al
    by (simp add: acceptClients_round_def example_answers_def INVALID_SOCKET_def add_session_def
        UserSessionManager_new_def default_max_idle_def key_of_def frame_simps Let_def)
  moreover have "all_fresh [EvAccept (example_answers 7)] S0"
    using S0(3) by (simp add: fresh_accept_def)
  ultimately show thesis using that[OF S0(1)] by simp
qed

theorem every_connection_is_tracked_witness:
  "\<exists>S0 S. server_started S0 \<and> run_ops server_event_step [EvAccept (example_answers 7)] S0 = Some S \<and>
     connections S 7 = Some 0 \<and>
     (\<exists>ses. users_sessions (userSessionManager S) \<lparr>raw_ip = 9, raw_port = 10\<rparr> = Some ses \<and> user_socket ses = 7)"
proof -
  obtain S0 S where S: "server_started S0" "run_ops server_event_step [EvAccept (example_answers 7)] S0 = Some S"
    "all_fresh [EvAccept (example_answers 7)] S0" "connections S = [7 \<mapsto> 0]" "expiredSockets S = []"
    "key_of S 0 = \<lparr>raw_ip = 9, raw_port = 10\<rparr>"
    by (rule example_connected)
  have "\<exists>ses. users_sessions (userSessionManager S) (key_of S 0) = Some ses \<and> user_socket ses = 7"
    using every_connection_is_tracked[OF S(1-3), THEN conjunct1, rule_format, of 7 0] S(4,5) by auto
  then show ?thesis using S by auto
qed

text \<open>
  An idle client is disconnected, and no other: a cleanup that reads the clock
  for every session, followed by a round of the event loop, closes a connection exactly if its
  session was idle for more than 240 seconds at that reading, or its socket had been queued
  before.
\<close>

theorem idle_client_is_disconnected:
  assumes "server_started S0" and "run_ops server_event_step es S0 = Some S" and "all_fresh es S0"
    and "running S" and "connections S s = Some c" and "distinct (map fst order)"
    and "users_sessions (userSessionManager S) (key_of S c) = Some ses" and "user_socket ses = s"
    and "map_of order (key_of S c) = Some now"
    and "run_ops server_event_step [EvCleanup order, EvRound None] S = Some S'"
    and "goes \<longleftrightarrow> s \<in> set (expiredSockets S) \<or> now - last_activity_time ses > 240000000000"
  shows "(connections S' s = None \<longleftrightarrow> goes) \<and>
     (\<exists>cs. calls S' = calls S @ cs \<and> (Close s \<in> set cs \<longleftrightarrow> goes))"
proof -
  let ?M = "userSessionManager S" and ?x = "expired_sockets order (userSessionManager S)"
  have i: "tracked {} ?M S"
    using expiry_run[OF assms(2,3) expiry_started[OF assms(1)]] by (simp add: expiry_inv_def)
  note t = trackedD[OF i]
  have S': "S' = close_expired (S\<lparr>expiredSockets := expiredSockets S @ ?x, userSessionManager := ?M\<lparr>users_sessions := kept order ?M\<rparr>\<rparr>)"
    using assms(4,10) cleanup_run[OF assms(6), of onSessionExpired ?M S]
    by (simp add: fold_onSessionExpired runEventLoop_round_def)
  have lim: "session_maximum_idle_time ses = 240 \<or> s \<in> set (expiredSockets S)"
    using t(1)[OF assms(5)] assms(7) by auto
  have "k = key_of S c" if "users_sessions ?M k = Some ses'" "user_socket ses' = s" for k ses'
    using t(2)[OF that(1)] that(2) assms(5) by auto
  then have "s \<in> set ?x \<longleftrightarrow> (\<exists>now'. (key_of S c, now') \<in> set order \<and> is_expired now' ses)"
    unfolding expired_sockets_iff using assms(7,8) by (metis option.inject)
  also have "\<dots> \<longleftrightarrow> is_expired now ses"
    using assms(6,9) by (metis map_of_SomeD map_of_is_SomeI option.inject)
  finally have x: "s \<in> set (expiredSockets S @ ?x) \<longleftrightarrow> goes"
    using lim assms(11) by (auto simp: is_expired_def)
  have "connections S' s = None \<longleftrightarrow> s \<in> set (expiredSockets S @ ?x)"
    using assms(5) by (simp add: S' close_expired_def fold_close_connections)
  moreover have "calls S' = calls S @ concat (map (\<lambda>s. [EL_Remove s, Close s]) (expiredSockets S @ ?x))"
    by (simp add: S' close_expired_def fold_close_calls)
  moreover have "Close s \<in> set (concat (map (\<lambda>s. [EL_Remove s, Close s]) ss)) \<longleftrightarrow> s \<in> set ss" for ss
    by (induction ss) auto
  ultimately show ?thesis using x by blast
qed

theorem idle_client_is_disconnected_witness:
  "\<exists>S0 S S'. server_started S0 \<and> connections S 7 = Some 0 \<and>
     run_ops server_event_step [EvCleanup [(\<lparr>raw_ip = 9, raw_port = 10\<rparr>, 240000000001)], EvRound None] S = Some S' \<and>
     connections S' 7 = None"
proof -
  obtain S0 S where S: "server_started S0" "run_ops server_event_step [EvAccept (example_answers 7)] S0 = Some S"
    "all_fresh [EvAccept (example_answers 7)] S0" "running S" "connections S = [7 \<mapsto> 0]" "expiredSockets S = []"
    "key_of S 0 = \<lparr>raw_ip = 9, raw_port = 10\<rparr>"
    "users_sessions (userSessionManager S)
       = [\<lparr>raw_ip = 9, raw_port = 10\<rparr> \<mapsto> UserSession_new 7 \<lparr>sin_addr = 9, sin_port = 10\<rparr> 240 0]"
    by (rule example_connected)
  let ?o = "[(\<lparr>raw_ip = 9, raw_port = 10\<rparr>, 240000000001)]"
  let ?ses = "UserSession_new 7 \<lparr>sin_addr = 9, sin_port = 10\<rparr> 240 0"
  have "\<exists>S1. server_event_step (EvCleanup ?o) S = Some S1"
    by (cases "cleanup_expired_sessions (Some onSessionExpired) ?o (userSessionManager S, S)")
       (simp del: cleanup_expired_sessions.simps)
  then obtain S1 where S1: "server_event_step (EvCleanup ?o) S = Some S1" by blast
  have r: "run_ops server_event_step [EvCleanup ?o, EvRound None] S = Some (runEventLoop_round None S1)"
    by (subst run_ops.simps, subst S1) simp
  have "connections (runEventLoop_round None S1) 7 = None"
    using idle_client_is_disconnected[OF S(1-4) _ _ _ _ _ r refl, of 7 0 ?ses 240000000001] S(5-8)
    by (simp add: UserSession_new_def)
  with S(1,5) r show ?thesis
    by (intro exI[of _ S0] exI[of _ S] exI[of _ "runEventLoop_round None S1"]) simp
qed

end
