(* ===== verification/DiskFull.thy ===== *)
theory DiskFull
  imports Database
begin

text \<open>
  The disk layer on a disk that can run full (\<open>src/Storage/Persistence.cpp\<close>, lines 87 to 120).
  \<open>Persistence\<close> takes every write to an open stream to succeed; here a write that does not
  fit leaves the part that does and sets the stream's \<open>badbit\<close>, after which the stream drops
  whatever it is given, as the standard has it.  The code tests the streams only when it
  opens them: neither \<open>appendToLog\<close> nor \<open>createSnapshot\<close> looks at the state after a write.
  With enough space the operations are those of \<open>Persistence\<close>.
\<close>

subsection \<open>Streams\<close>

record ofstream =
  os_file :: string
  os_bad :: bool
  os_free :: nat     \<comment> \<open>bytes left on the disk\<close>

text \<open>\<open>stream << line << std::endl\<close>, which flushes.\<close>

definition write_line :: "string \<Rightarrow> ofstream \<Rightarrow> ofstream" where
  "write_line line s =
     (if os_bad s then s
      else \<lparr>os_file = os_file s @ take (os_free s) (line @ [newline]),
            os_bad = os_free s < length (line @ [newline]),
            os_free = os_free s - length (line @ [newline])\<rparr>)"

definition write_entry :: "string \<Rightarrow> string \<Rightarrow> ofstream \<Rightarrow> ofstream" where
  "write_entry key val = write_line (''INSERT '' @ key @ '' '' @ val)"

record LimitedPersistence =
  lp_pers :: Persistence
  lp_bad :: bool     \<comment> \<open>\<open>badbit\<close> of \<open>aof_stream\<close>\<close>
  lp_free :: nat

subsection \<open>Operations\<close>

definition appendToLog_limited :: "string \<Rightarrow> string \<Rightarrow> string \<Rightarrow> LimitedPersistence \<Rightarrow> LimitedPersistence" where
  "appendToLog_limited command key val d =
     (case aof_file (lp_pers d) of
        None \<Rightarrow> d
      | Some f \<Rightarrow>
          if aof_stream_open (lp_pers d) then
            let s = write_line (command @ '' '' @ key @ '' '' @ val)
                      \<lparr>os_file = f, os_bad = lp_bad d, os_free = lp_free d\<rparr> in
            \<lparr>lp_pers = (lp_pers d)\<lparr>aof_file := Some (os_file s)\<rparr>, lp_bad = os_bad s, lp_free = os_free s\<rparr>
          else d)"

text \<open>
  The snapshot: truncating the old file and later the log frees their bytes, and reopening
  the log clears its \<open>badbit\<close>.  All three system calls succeed.
\<close>

definition snapshot_space :: "LimitedPersistence \<Rightarrow> nat" where
  "snapshot_space d = lp_free d + (case rdb_file (lp_pers d) of None \<Rightarrow> 0 | Some f \<Rightarrow> length f)"

definition createSnapshot_limited ::
  "HashMap \<Rightarrow> LimitedPersistence \<Rightarrow> (LimitedPersistence \<times> pers_error option) option" where
  "createSnapshot_limited hashmap d =
     Option.bind
       (HashMap_forEach hashmap write_entry
          \<lparr>os_file = '''', os_bad = False, os_free = snapshot_space d\<rparr>)
       (\<lambda>s. let p = lp_pers d in
         case aof_file p of
           None \<Rightarrow> Some (\<lparr>lp_pers = p\<lparr>rdb_file := Some (os_file s), aof_stream_open := False\<rparr>,
                          lp_bad = lp_bad d, lp_free = os_free s\<rparr>, Some AofResizeError)
         | Some f \<Rightarrow> Some (\<lparr>lp_pers = p\<lparr>rdb_file := Some (os_file s), aof_file := Some '''',
                            aof_stream_open := True\<rparr>,
                          lp_bad = False, lp_free = os_free s + length f\<rparr>, None))"

text \<open>An insert as lines 290 and 291 of \<open>src/Server/Server.cpp\<close> do it.\<close>

definition db_insert_limited ::
  "string \<Rightarrow> string \<Rightarrow> HashMap \<times> LimitedPersistence \<Rightarrow> (HashMap \<times> LimitedPersistence) option" where
  "db_insert_limited key val x =
     (case x of (m, d) \<Rightarrow>
        map_option (\<lambda>m'. (m', appendToLog_limited ''INSERT'' key val d)) (HashMap_insert m key val))"

subsection \<open>What reaches the disk\<close>

lemma fold_write_bad: "os_bad s \<Longrightarrow> fold write_line ls s = s"
  by (induction ls) (simp_all add: write_line_def)

lemma fold_write_line:
  "fold write_line ls \<lparr>os_file = f, os_bad = False, os_free = n\<rparr> =
     \<lparr>os_file = f @ take n (join_lines ls), os_bad = n < length (join_lines ls),
      os_free = n - length (join_lines ls)\<rparr>"
proof (induction ls arbitrary: f n)
  case (Cons l ls)
  show ?case
  proof (cases "n < length (l @ [newline])")
    case True
    then have "write_line l \<lparr>os_file = f, os_bad = False, os_free = n\<rparr>
        = \<lparr>os_file = f @ take n (l @ [newline]), os_bad = True, os_free = 0\<rparr>"
      by (simp add: write_line_def)
    with True show ?thesis by (simp add: fold_write_bad)
  next
    case False
    then obtain r where n: "n = length l + Suc r"
      using le_Suc_ex[of "length (l @ [newline])" n] by (auto simp: not_less)
    then have "write_line l \<lparr>os_file = f, os_bad = False, os_free = n\<rparr>
        = \<lparr>os_file = f @ l @ [newline], os_bad = False, os_free = r\<rparr>"
      by (simp add: write_line_def)
    then show ?thesis using Cons[of "f @ l @ [newline]" r] n by simp
  qed
qed simp

lemma fold_write_entry:
  "fold (\<lambda>(key, val). write_entry key val) es \<lparr>os_file = f, os_bad = False, os_free = n\<rparr> =
     \<lparr>os_file = f @ take n (rdb_text es), os_bad = n < length (rdb_text es),
      os_free = n - length (rdb_text es)\<rparr>"
proof -
  have "fold (\<lambda>(key, val). write_entry key val) es s
      = fold write_line (map (\<lambda>(k, v). log_line ''INSERT'' k v) es) s" for s
    by (induction es arbitrary: s) (auto simp: write_entry_def log_line_def)
  then show ?thesis by (simp only: fold_write_line rdb_text_def)
qed

lemma createSnapshot_limited_run:
  assumes "HashMap_inv m" and "aof_file (lp_pers d) = Some f"
  shows "createSnapshot_limited m d = Some
    (\<lparr>lp_pers = (lp_pers d)\<lparr>rdb_file := Some (take (snapshot_space d) (rdb_text (HashMap_entries m))),
         aof_file := Some '''', aof_stream_open := True\<rparr>,
      lp_bad = False,
      lp_free = snapshot_space d - length (rdb_text (HashMap_entries m)) + length f\<rparr>, None)"
  using assms(2)
  by (simp add: createSnapshot_limited_def HashMap_forEach_entries[OF assms(1)] fold_write_entry)

lemma appendToLog_limited_bad:
  "lp_bad d \<Longrightarrow> appendToLog_limited command key val d = d"
  by (simp add: appendToLog_limited_def write_line_def split: option.split)

lemma appendToLog_limited_fits:
  assumes "\<not> lp_bad d" and "length (log_line command key val) < lp_free d" and "pers_ok (lp_pers d)"
  shows "appendToLog_limited command key val d =
    d\<lparr>lp_pers := appendToLog command key val (lp_pers d),
      lp_free := lp_free d - Suc (length (log_line command key val))\<rparr>"
  using assms
  by (auto elim!: pers_okE simp: appendToLog_limited_def appendToLog_def write_line_def log_line_def)

subsection \<open>Properties\<close>

text \<open>
  With enough space the operations are those of the unlimited model: a record
  that fits is appended as there, and a snapshot that fits gives the same files.
\<close>

theorem enough_space_agrees:
  assumes "HashMap_inv m" and "pers_ok (lp_pers d)" and "\<not> lp_bad d"
  shows "(length (log_line command key val) < lp_free d \<longrightarrow>
       lp_pers (appendToLog_limited command key val d) = appendToLog command key val (lp_pers d) \<and>
       \<not> lp_bad (appendToLog_limited command key val d)) \<and>
     (length (rdb_text (HashMap_entries m)) \<le> snapshot_space d \<longrightarrow>
       map_option (map_prod lp_pers id) (createSnapshot_limited m d)
         = createSnapshot True True True m (lp_pers d))"
proof -
  obtain f where f: "aof_file (lp_pers d) = Some f" using assms(2) by (rule pers_okE)
  then have "createSnapshot True True True m (lp_pers d) = Some (\<lparr>aof_stream_open = True,
      aof_file = Some '''', rdb_file = Some (rdb_text (HashMap_entries m))\<rparr>, None)"
    using createSnapshot_ok[OF assms(1), of "lp_pers d"] by simp
  then show ?thesis
    using appendToLog_limited_fits[OF assms(3) _ assms(2)] assms(3)
      createSnapshot_limited_run[OF assms(1) f]
    by (cases "lp_pers d") simp
qed

definition example_limited :: "nat \<Rightarrow> LimitedPersistence" where
  "example_limited n = \<lparr>lp_pers = example_disk, lp_bad = False, lp_free = n\<rparr>"

theorem enough_space_agrees_witness:
  "map_option (map_prod lp_pers id) (createSnapshot_limited example_map (example_limited 100))
     = createSnapshot True True True example_map example_disk"
proof -
  have e: "HashMap_entries example_map = [(''cb'', ''y''), (''ab'', ''x'')]" by code_simp
  have "length (rdb_text (HashMap_entries example_map)) \<le> snapshot_space (example_limited 100)"
    by (simp add: e rdb_text_def log_line_def snapshot_space_def example_limited_def)
  with enough_space_agrees[OF example_map_inv, of "example_limited 100"]
  show ?thesis by (simp add: example_limited_def example_disk_ok)
qed

text \<open>
  C36 (error). A snapshot that does not fit on the disk destroys data without an error: it
  reports success, replaces the old snapshot by the part of the new one that fits, and empties
  the log; when just the first \<open>n\<close> entries fit, the others are gone, although the files held
  them all before.
\<close>

theorem full_disk_snapshot_loses_entries:
  assumes "db_inv (m, lp_pers d)" and "n < length (HashMap_entries m)"
    and "snapshot_space d = length (rdb_text (take n (HashMap_entries m)))"
    and "(k, v) = HashMap_entries m ! n"
  shows "\<exists>d'. createSnapshot_limited m d = Some (d', None) \<and>
     aof_file (lp_pers d') = Some '''' \<and>
     disk_store (lp_pers d') = map_of (take n (HashMap_entries m)) \<and>
     disk_store (lp_pers d') k = None \<and> disk_store (lp_pers d) k = Some v"
proof -
  let ?es = "HashMap_entries m"
  have inv: "HashMap_inv m" "clean_store (HashMap_map m)" "pers_ok (lp_pers d)"
      "disk_store (lp_pers d) = HashMap_map m"
    using assms(1) by (simp_all add: db_inv_def)
  obtain f where f: "aof_file (lp_pers d) = Some f" using inv(3) by (rule pers_okE)
  have "rdb_text ?es = rdb_text (take n ?es) @ rdb_text (drop n ?es)"
    by (simp flip: rdb_text_append)
  then have t: "take (snapshot_space d) (rdb_text ?es) = rdb_text (take n ?es)"
    using assms(3) by simp
  let ?d = "\<lparr>lp_pers = (lp_pers d)\<lparr>rdb_file := Some (rdb_text (take n ?es)), aof_file := Some '''',
      aof_stream_open := True\<rparr>, lp_bad = False,
      lp_free = snapshot_space d - length (rdb_text ?es) + length f\<rparr>"
  have r: "createSnapshot_limited m d = Some (?d, None)"
    using createSnapshot_limited_run[OF inv(1) f] by (simp add: t)
  have ds: "disk_store (lp_pers ?d) = map_of (take n ?es)"
    using fold_rdb_text_take[OF inv(1,2), of n] by (simp add: disk_store_def file_ops_def)
  have dist: "distinct (map fst ?es)" using hm.entries_distinct[OF inv(1)] .
  have "map_of ?es k = Some v"
    using dist assms(2,4) by (metis map_of_is_SomeI nth_mem)
  then have "disk_store (lp_pers d) k = Some v" using inv(4) hm.entries[OF inv(1)] by simp
  moreover have "k \<notin> set (map fst (take n ?es))"
  proof -
    have "map fst ?es ! n \<notin> set (take n (map fst ?es))"
      using dist assms(2) by (simp add: distinct_conv_nth in_set_conv_nth)
    moreover have "map fst ?es ! n = k" using assms(2) arg_cong[OF assms(4), of fst] by simp
    ultimately show ?thesis by (simp only: take_map not_False_eq_True)
  qed
  then have "disk_store (lp_pers ?d) k = None" unfolding ds by (simp add: map_of_eq_None_iff)
  ultimately show ?thesis using r ds by (intro exI[of _ ?d]) simp
qed

theorem full_disk_snapshot_loses_entries_witness:
  "\<exists>d'. createSnapshot_limited example_map (example_limited 0) = Some (d', None) \<and>
     disk_store (lp_pers d') ''ab'' = None \<and> disk_store example_disk ''ab'' = Some ''x''"
proof -
  have e: "HashMap_entries example_map = [(''cb'', ''y''), (''ab'', ''x'')]" by code_simp
  have d: "db_inv (example_map, lp_pers (example_limited 0))"
    by (simp add: db_inv_def example_limited_def example_map_inv example_map_clean example_disk_ok
        example_disk_store)
  have s: "snapshot_space (example_limited 0) = length (rdb_text (take 1 (HashMap_entries example_map)))"
    by (simp add: e snapshot_space_def example_limited_def example_disk_def rdb_text_def log_line_def)
  have "1 < length (HashMap_entries example_map)" "(''ab'', ''x'') = HashMap_entries example_map ! 1"
    by (simp_all add: e)
  from full_disk_snapshot_loses_entries[OF d this(1) s this(2)] show ?thesis
    by (auto simp: example_limited_def)
qed

lemma db_insert_limited_run:
  assumes "HashMap_inv m"
  shows "\<exists>m'. db_insert_limited k v (m, d) = Some (m', appendToLog_limited ''INSERT'' k v d) \<and>
    HashMap_inv m' \<and> HashMap_map m' = (HashMap_map m)(k \<mapsto> v)"
  using hm.ins[OF assms, of k v] by (auto simp: db_insert_limited_def)

lemma appendToLog_limited_full:
  assumes "lp_free d = 0" and "\<not> lp_bad d" and "pers_ok (lp_pers d)"
  shows "appendToLog_limited command key val d = d\<lparr>lp_bad := True\<rparr>"
  using assms by (cases d; cases "lp_pers d")
    (auto elim!: pers_okE simp: appendToLog_limited_def write_line_def Let_def)

text \<open>
  Once a record did not fit, the server goes on acknowledging writes that never
  reach the disk, however much space becomes free: the next insert changes the map, nothing is
  logged, and a restart would bring back the old store.  Only the next snapshot that fits, which
  reopens the log, makes disk and memory agree again.
\<close>

theorem full_disk_log_stops:
  assumes "db_inv (m, lp_pers d)" and "lp_free d = 0" and "\<not> lp_bad d"
    and "word k" and "word v" and "word k2" and "word v2"
  shows "\<exists>m1 d1 m2 d2. db_insert_limited k v (m, d) = Some (m1, d1) \<and>
     db_insert_limited k2 v2 (m1, d1\<lparr>lp_free := n\<rparr>) = Some (m2, d2) \<and>
     HashMap_map m2 = (HashMap_map m)(k \<mapsto> v, k2 \<mapsto> v2) \<and>
     disk_store (lp_pers d2) = HashMap_map m \<and>
     (length (rdb_text (HashMap_entries m2)) \<le> snapshot_space d2 \<longrightarrow>
       (\<exists>d3. createSnapshot_limited m2 d2 = Some (d3, None) \<and> \<not> lp_bad d3 \<and>
          disk_store (lp_pers d3) = HashMap_map m2))"
proof -
  have inv: "HashMap_inv m" "clean_store (HashMap_map m)" "pers_ok (lp_pers d)"
      "disk_store (lp_pers d) = HashMap_map m"
    using assms(1) by (simp_all add: db_inv_def)
  obtain f where f: "aof_file (lp_pers d) = Some f" using inv(3) by (rule pers_okE)
  let ?d = "d\<lparr>lp_bad := True\<rparr>"
  obtain m1 where m1: "db_insert_limited k v (m, d) = Some (m1, ?d)" "HashMap_inv m1"
      "HashMap_map m1 = (HashMap_map m)(k \<mapsto> v)"
    using db_insert_limited_run[OF inv(1), of k v d] appendToLog_limited_full[OF assms(2,3) inv(3)] by auto
  obtain m2 where m2: "db_insert_limited k2 v2 (m1, ?d\<lparr>lp_free := n\<rparr>) = Some (m2, ?d\<lparr>lp_free := n\<rparr>)"
      "HashMap_inv m2" "HashMap_map m2 = (HashMap_map m)(k \<mapsto> v, k2 \<mapsto> v2)"
    using db_insert_limited_run[OF m1(2), of k2 v2 "?d\<lparr>lp_free := n\<rparr>"]
      appendToLog_limited_bad[of "?d\<lparr>lp_free := n\<rparr>"] m1(3) by auto
  have clean: "clean_store (HashMap_map m2)"
    using inv(2) assms(4-7) by (auto simp: m2(3) clean_store_def)
  have "\<exists>d3. createSnapshot_limited m2 (?d\<lparr>lp_free := n\<rparr>) = Some (d3, None) \<and> \<not> lp_bad d3 \<and>
          disk_store (lp_pers d3) = HashMap_map m2"
    if "length (rdb_text (HashMap_entries m2)) \<le> snapshot_space (?d\<lparr>lp_free := n\<rparr>)"
    using createSnapshot_limited_run[OF m2(2), of "?d\<lparr>lp_free := n\<rparr>" f] that f
      fold_rdb_text[OF m2(2) clean]
    by (simp add: disk_store_def file_ops_def)
  then show ?thesis using m1(1) m2(1,3) inv(4)
    by (intro exI[of _ m1] exI[of _ ?d] exI[of _ m2] exI[of _ "?d\<lparr>lp_free := n\<rparr>"]) simp
qed

theorem full_disk_log_stops_witness:
  "\<exists>m1 d1 m2 d2. db_insert_limited ''k'' ''v'' (example_map, example_limited 0) = Some (m1, d1) \<and>
     db_insert_limited ''k2'' ''v2'' (m1, d1\<lparr>lp_free := 1000\<rparr>) = Some (m2, d2) \<and>
     HashMap_map m2 ''k2'' = Some ''v2'' \<and> disk_store (lp_pers d2) = HashMap_map example_map"
proof -
  have w: "word ''k''" "word ''v''" "word ''k2''" "word ''v2''" by code_simp+
  have d: "db_inv (example_map, lp_pers (example_limited 0))"
    by (simp add: db_inv_def example_limited_def example_map_inv example_map_clean example_disk_ok
        example_disk_store)
  have "lp_free (example_limited 0) = 0" "\<not> lp_bad (example_limited 0)"
    by (simp_all add: example_limited_def)
  from full_disk_log_stops[OF d this w, of 1000] show ?thesis
    by (elim exE conjE) (intro exI conjI, assumption+, simp_all)
qed

end
