(* ===== verification/Schedulers.thy ===== *)
theory Schedulers
  imports Database UserSession
begin

text \<open>
  The two background threads: \<open>src/Worker/SnapshotScheduler.cpp\<close>, which calls the snapshot
  callback every interval, and \<open>src/Worker/UserSessionBackgroundWorker.cpp\<close>, which cleans
  up expired sessions every interval.  Both run the same loop around
  \<open>condition_variable::wait_for\<close> with a predicate, that is the standard's
  \<open>while (!pred()) if (wait_until(...) == timeout) return pred();\<close>.  Only the loop's thread
  ever takes the mutex, so it is always free; the destructor clears \<open>active\<close> and notifies
  without it.
\<close>

subsection \<open>The loop\<close>

datatype loop_pc =
    AtWhile       \<comment> \<open>before the test of the \<open>while\<close>\<close>
  | AtPredicate   \<comment> \<open>in \<open>wait_for\<close>, before the predicate\<close>
  | BeforeWait    \<comment> \<open>the predicate was false\<close>
  | Waiting       \<comment> \<open>blocked\<close>
  | AfterWait     \<comment> \<open>before \<open>if (!active)\<close>\<close>
  | InCallback
  | Returned
  | Died          \<comment> \<open>an exception left the thread function: \<open>std::terminate\<close>\<close>

datatype loop_destructor = LoopInUse | LoopDeactivated | LoopNotified

record 's Scheduler =
  sch_pc :: loop_pc
  sch_active :: bool
  sch_destructor :: loop_destructor
  sch_state :: 's            \<comment> \<open>what the callback works on\<close>
  sch_callbacks :: nat       \<comment> \<open>history: callbacks begun\<close>

text \<open>The callback gives a new state and tells whether it threw.\<close>

type_synonym 's callback = "'s \<Rightarrow> 's \<times> bool"

definition Scheduler_new :: "'s \<Rightarrow> 's Scheduler" where
  "Scheduler_new st =
     \<lparr>sch_pc = AtWhile, sch_active = True, sch_destructor = LoopInUse, sch_state = st,
      sch_callbacks = 0\<rparr>"

text \<open>
  The constructor of the other class starts the same loop; its state is the session manager
  with what the callback reports to.
\<close>

definition UserSessionBackgroundWorker_new ::
  "UserSessionManager \<times> 's \<Rightarrow> (UserSessionManager \<times> 's) Scheduler" where
  "UserSessionBackgroundWorker_new user_sessions = Scheduler_new user_sessions"

text \<open>The thread's next action; \<open>timeout\<close> is what lets it leave the wait by itself.\<close>

definition run_action :: "'s callback \<Rightarrow> bool \<Rightarrow> 's Scheduler \<Rightarrow> 's Scheduler option" where
  "run_action callback timeout s =
     (case sch_pc s of
        AtWhile \<Rightarrow> Some (s\<lparr>sch_pc := if sch_active s then AtPredicate else Returned\<rparr>)
      | AtPredicate \<Rightarrow> Some (s\<lparr>sch_pc := if \<not> sch_active s then AfterWait else BeforeWait\<rparr>)
      | BeforeWait \<Rightarrow> Some (s\<lparr>sch_pc := Waiting\<rparr>)
      | Waiting \<Rightarrow> if timeout then Some (s\<lparr>sch_pc := AfterWait\<rparr>) else None
      | AfterWait \<Rightarrow>
          if \<not> sch_active s then Some (s\<lparr>sch_pc := Returned\<rparr>)
          else Some (s\<lparr>sch_pc := InCallback, sch_callbacks := Suc (sch_callbacks s)\<rparr>)
      | InCallback \<Rightarrow>
          (case callback (sch_state s) of (st, threw) \<Rightarrow>
             Some (s\<lparr>sch_state := st, sch_pc := if threw then Died else AtWhile\<rparr>))
      | Returned \<Rightarrow> None
      | Died \<Rightarrow> None)"

definition Scheduler_destroy_action :: "'s Scheduler \<Rightarrow> 's Scheduler option" where
  "Scheduler_destroy_action s =
     (case sch_destructor s of
        LoopInUse \<Rightarrow> Some (s\<lparr>sch_active := False, sch_destructor := LoopDeactivated\<rparr>)
      | LoopDeactivated \<Rightarrow>
          Some (s\<lparr>sch_pc := if sch_pc s = Waiting then AtPredicate else sch_pc s,
                  sch_destructor := LoopNotified\<rparr>)
      | LoopNotified \<Rightarrow> None)"

inductive loop_step :: "'s callback \<Rightarrow> 's Scheduler \<Rightarrow> 's Scheduler \<Rightarrow> bool" for cb where
  loop_run: "run_action cb timeout s = Some s' \<Longrightarrow> loop_step cb s s'"
| loop_destroy: "Scheduler_destroy_action s = Some s' \<Longrightarrow> loop_step cb s s'"

subsection \<open>The two callbacks\<close>

text \<open>
  The snapshot of the server's constructor: what is thrown leaves \<open>run\<close>, which has no
  handler.
\<close>

definition snapshot_callback :: "bool \<Rightarrow> bool \<Rightarrow> bool \<Rightarrow> db callback" where
  "snapshot_callback can_open can_resize can_reopen d =
     (case d of (m, p) \<Rightarrow>
        (case createSnapshot can_open can_resize can_reopen m p of
           None \<Rightarrow> ((m, p), True)
         | Some (p', e) \<Rightarrow> ((m, p'), e \<noteq> None)))"

definition cleanup_callback ::
  "(SocketType \<Rightarrow> 's \<Rightarrow> 's) \<Rightarrow> (SessionKey \<times> int) list \<Rightarrow> (UserSessionManager \<times> 's) callback" where
  "cleanup_callback on_session_expired order s =
     (cleanup_expired_sessions (Some on_session_expired) order s, False)"

subsection \<open>Periods\<close>

text \<open>One period without shutdown: the actions from one test of the \<open>while\<close> to the next.\<close>

definition period :: "bool list" where
  "period = [False, False, False, True, False, False]"

lemma run_period:
  assumes "sch_pc s = AtWhile" and "sch_active s" and "snd (cb (sch_state s)) = False"
  shows "run_ops (run_action cb) period s =
    Some (s\<lparr>sch_state := fst (cb (sch_state s)), sch_callbacks := Suc (sch_callbacks s)\<rparr>)"
  using assms by (cases "cb (sch_state s)"; cases s) (simp add: period_def run_action_def)

text \<open>
  While the server runs and no callback throws, \<open>n\<close> intervals call the
  callback exactly \<open>n\<close> times, one after the other.
\<close>

theorem callbacks_per_interval:
  assumes "\<And>st. snd (cb st) = False"
  shows "\<exists>s. run_ops (run_action cb) (concat (replicate n period)) (Scheduler_new st) = Some s \<and>
    sch_state s = ((\<lambda>st. fst (cb st)) ^^ n) st \<and> sch_callbacks s = n \<and> sch_pc s = AtWhile"
proof -
  have "\<exists>s'. run_ops (run_action cb) (concat (replicate n period)) s = Some s' \<and>
      sch_state s' = ((\<lambda>st. fst (cb st)) ^^ n) (sch_state s) \<and>
      sch_callbacks s' = sch_callbacks s + n \<and> sch_pc s' = AtWhile"
    if "sch_pc s = AtWhile" "sch_active s" for s
    using that
  proof (induction n arbitrary: s)
    case (Suc n)
    let ?s = "s\<lparr>sch_state := fst (cb (sch_state s)), sch_callbacks := Suc (sch_callbacks s)\<rparr>"
    have "run_ops (run_action cb) (concat (replicate (Suc n) period)) s
        = run_ops (run_action cb) (concat (replicate n period)) ?s"
      using run_period[OF Suc.prems, of cb] assms by (simp add: run_ops_append)
    with Suc.IH[of ?s] Suc.prems show ?case by (simp add: funpow_Suc_right del: funpow.simps(2))
  qed simp
  from this[of "Scheduler_new st"] show ?thesis by (simp add: Scheduler_new_def)
qed

theorem callbacks_per_interval_witness:
  "\<exists>s. run_ops (run_action (\<lambda>st. (st + 1, False))) (concat (replicate 3 period)) (Scheduler_new (0 :: nat))
     = Some s \<and> sch_callbacks s = 3"
  using callbacks_per_interval[of "\<lambda>st :: nat. (st + 1, False)" 3 0] by auto

subsection \<open>Shutdown\<close>

fun loop_weight :: "loop_pc \<Rightarrow> nat" where
  "loop_weight Returned = 0"
| "loop_weight Died = 0"
| "loop_weight AtWhile = 1"
| "loop_weight AfterWait = 1"
| "loop_weight Waiting = 2"
| "loop_weight AtPredicate = 2"
| "loop_weight InCallback = 2"
| "loop_weight BeforeWait = 3"

lemma inactive_action:
  assumes "run_action cb timeout s = Some s'" and "\<not> sch_active s"
  shows "loop_weight (sch_pc s') < loop_weight (sch_pc s) \<and> \<not> sch_active s' \<and>
    sch_callbacks s' = sch_callbacks s \<and> (sch_pc s' \<noteq> InCallback) \<and>
    (sch_state s' \<noteq> sch_state s \<longrightarrow> sch_pc s = InCallback)"
  using assms by (cases "sch_pc s") (auto simp: run_action_def split: if_splits prod.splits)

text \<open>
  Once the destructor has cleared \<open>active\<close>, no callback begins any more, the
  state changes only by the callback that was running, and after at most three actions the
  thread has returned or died or waits for the end of its interval.
\<close>

theorem no_callback_after_shutdown:
  assumes "\<not> sch_active s" and "run_ops (run_action cb) ts s = Some s'"
  shows "sch_callbacks s' = sch_callbacks s \<and> length ts \<le> 3 \<and>
    (sch_pc s \<noteq> InCallback \<longrightarrow> sch_state s' = sch_state s)"
proof -
  have "sch_callbacks s' = sch_callbacks s \<and> length ts + loop_weight (sch_pc s') \<le> loop_weight (sch_pc s) \<and>
      (sch_pc s \<noteq> InCallback \<longrightarrow> sch_state s' = sch_state s)"
    using assms
  proof (induction ts arbitrary: s)
    case (Cons t ts)
    obtain s1 where s1: "run_action cb t s = Some s1" "run_ops (run_action cb) ts s1 = Some s'"
      using Cons.prems(2) by (auto split: option.splits)
    note a = inactive_action[OF s1(1) Cons.prems(1)]
    from Cons.IH[OF _ s1(2)] a show ?case by fastforce
  qed simp
  moreover have "loop_weight (sch_pc s) \<le> 3" by (cases "sch_pc s") simp_all
  ultimately show ?thesis by linarith
qed

theorem no_callback_after_shutdown_witness:
  "run_ops (run_action (\<lambda>st :: nat. (st + 1, False))) [False] ((Scheduler_new 0)\<lparr>sch_active := False\<rparr>)
     = Some ((Scheduler_new 0)\<lparr>sch_active := False, sch_pc := Returned\<rparr>) \<and>
   sch_callbacks ((Scheduler_new (0 :: nat))\<lparr>sch_active := False, sch_pc := Returned\<rparr>) = 0"
proof -
  have r: "run_ops (run_action (\<lambda>st :: nat. (st + 1, False))) [False] ((Scheduler_new 0)\<lparr>sch_active := False\<rparr>)
     = Some ((Scheduler_new 0)\<lparr>sch_active := False, sch_pc := Returned\<rparr>)"
    by (simp add: run_action_def Scheduler_new_def)
  have "\<not> sch_active ((Scheduler_new (0 :: nat))\<lparr>sch_active := False\<rparr>)" by simp
  from no_callback_after_shutdown[OF this r] r show ?thesis by (simp add: Scheduler_new_def)
qed

text \<open>
  The notification of the destructor can be lost here too: when it comes
  between the predicate and the wait, the thread is left in a wait that only the end of the
  interval ends, and the join takes that long.
\<close>

theorem shutdown_waits_for_interval:
  "\<exists>s. (loop_step cb)\<^sup>*\<^sup>* (Scheduler_new st) s \<and> sch_destructor s = LoopNotified \<and> sch_pc s = Waiting \<and>
     run_action cb False s = None \<and> Scheduler_destroy_action s = None \<and>
     run_ops (run_action cb) [True, False] s = Some (s\<lparr>sch_pc := Returned\<rparr>)"
proof -
  let ?s0 = "Scheduler_new st"
  let ?s1 = "?s0\<lparr>sch_pc := AtPredicate\<rparr>"
  let ?s2 = "?s0\<lparr>sch_pc := BeforeWait\<rparr>"
  let ?s3 = "?s2\<lparr>sch_active := False, sch_destructor := LoopDeactivated\<rparr>"
  let ?s4 = "?s3\<lparr>sch_destructor := LoopNotified\<rparr>"
  let ?s5 = "?s4\<lparr>sch_pc := Waiting\<rparr>"
  have a: "run_action cb False ?s0 = Some ?s1" "run_action cb False ?s1 = Some ?s2"
    "Scheduler_destroy_action ?s2 = Some ?s3" "Scheduler_destroy_action ?s3 = Some ?s4"
    "run_action cb False ?s4 = Some ?s5"
    by (simp_all add: run_action_def Scheduler_destroy_action_def Scheduler_new_def)
  have "(loop_step cb)\<^sup>*\<^sup>* ?s0 ?s1" by (rule r_into_rtranclp, rule loop_run, rule a(1))
  then have "(loop_step cb)\<^sup>*\<^sup>* ?s0 ?s2" by (rule rtranclp.rtrancl_into_rtrancl, intro loop_run[OF a(2)])
  then have "(loop_step cb)\<^sup>*\<^sup>* ?s0 ?s3" by (rule rtranclp.rtrancl_into_rtrancl, intro loop_destroy[OF a(3)])
  then have "(loop_step cb)\<^sup>*\<^sup>* ?s0 ?s4" by (rule rtranclp.rtrancl_into_rtrancl, intro loop_destroy[OF a(4)])
  then have "(loop_step cb)\<^sup>*\<^sup>* ?s0 ?s5" by (rule rtranclp.rtrancl_into_rtrancl, intro loop_run[OF a(5)])
  then show ?thesis
    by (intro exI[of _ ?s5]) (simp add: run_action_def Scheduler_destroy_action_def Scheduler_new_def)
qed

text \<open>
  A snapshot that fails, for whatever reason, terminates the whole server: the
  exception leaves the scheduler thread.  The files still describe the store.
\<close>

theorem failed_snapshot_terminates:
  assumes "db_inv (sch_state s)" and "sch_pc s = InCallback"
    and "\<not> (can_open \<and> can_resize \<and> can_reopen)"
  shows "\<exists>s'. run_action (snapshot_callback can_open can_resize can_reopen) timeout s = Some s' \<and>
    sch_pc s' = Died \<and> disk_store (snd (sch_state s')) = db_store (sch_state s)"
proof -
  obtain m p where d: "sch_state s = (m, p)" "HashMap_inv m" "clean_store (HashMap_map m)" "pers_ok p"
      "disk_store p = HashMap_map m"
    using assms(1) by (rule db_invE)
  obtain p' e where p': "createSnapshot can_open can_resize can_reopen m p = Some (p', Some e)"
      "disk_store p' = HashMap_map m"
    using createSnapshot_outcome[OF d(2-5), of can_open can_resize can_reopen] assms(3)
    by (auto split: if_splits)
  then show ?thesis using d(1) assms(2) by (simp add: run_action_def snapshot_callback_def db_store_def)
qed

theorem failed_snapshot_terminates_witness:
  "\<exists>d s'. db_inv d \<and> run_action (snapshot_callback True False True) False
      ((Scheduler_new d)\<lparr>sch_pc := InCallback\<rparr>) = Some s' \<and> sch_pc s' = Died"
proof -
  let ?d = "(example_map, example_disk)"
  have "db_inv ?d"
    by (simp add: db_inv_def example_map_inv example_map_clean example_disk_ok example_disk_store)
  with failed_snapshot_terminates[of "(Scheduler_new ?d)\<lparr>sch_pc := InCallback\<rparr>" True False True False]
  show ?thesis by (intro exI[of _ ?d]) (auto simp: Scheduler_new_def)
qed

end
