(* ===== verification/Startup.thy ===== *)
theory Startup
  imports Schedulers
begin

text \<open>
  The snapshot thread against the loader.  The scheduler is a member of the server that is
  started by the constructor (\<open>src/Server/Server.cpp\<close>, lines 5 to 7), before \<open>start\<close> loads the
  files (line 81): when an interval ends before or during the load, the snapshot dumps a map
  that is not complete yet, over the files the map is being loaded from.
\<close>

subsection \<open>The two halves of the loader\<close>

definition load_rdb_phase :: "bool \<Rightarrow> Persistence \<Rightarrow> HashMap \<Rightarrow> (pers_error + HashMap) option" where
  "load_rdb_phase can_open p hashmap =
     (case rdb_file p of
        None \<Rightarrow> Some (Inr hashmap)
      | Some f \<Rightarrow> if can_open then map_option Inr (load_rdb f hashmap) else Some (Inl RdbOpenError))"

definition load_aof_phase :: "bool \<Rightarrow> Persistence \<Rightarrow> HashMap \<Rightarrow> (pers_error + HashMap) option" where
  "load_aof_phase can_open p hashmap =
     (case aof_file p of
        None \<Rightarrow> Some (Inr hashmap)
      | Some f \<Rightarrow> if can_open then map_option Inr (load_aof f hashmap) else Some (Inl AofOpenError))"

lemma loadDataOnStartup_phases:
  "loadDataOnStartup can_open_rdb can_open_aof p m =
     Option.bind (load_rdb_phase can_open_rdb p m)
       (\<lambda>r. case r of Inl e \<Rightarrow> Some (Inl e) | Inr m' \<Rightarrow> load_aof_phase can_open_aof p m')"
  unfolding loadDataOnStartup_def Let_def load_rdb_phase_def[symmetric]
  by (rule arg_cong[where f = "Option.bind (load_rdb_phase can_open_rdb p m)"])
     (simp add: fun_eq_iff load_aof_phase_def split: sum.split)

subsection \<open>Startup with one snapshot\<close>

datatype moment = BeforeLoad | BetweenFiles | AfterLoad

text \<open>One action on map and files; every call of the system succeeds, and no exception is thrown.\<close>

definition rdb_action :: "db \<Rightarrow> db option" where
  "rdb_action d = (case load_rdb_phase True (snd d) (fst d) of
     Some (Inr m) \<Rightarrow> Some (m, snd d) | _ \<Rightarrow> None)"

definition aof_action :: "db \<Rightarrow> db option" where
  "aof_action d = (case load_aof_phase True (snd d) (fst d) of
     Some (Inr m) \<Rightarrow> Some (m, snd d) | _ \<Rightarrow> None)"

definition snapshot_action :: "db \<Rightarrow> db option" where
  "snapshot_action d = (case snapshot_callback True True True d of
     (d', threw) \<Rightarrow> if threw then None else Some d')"

fun startup_actions :: "moment \<Rightarrow> (db \<Rightarrow> db option) list" where
  "startup_actions BeforeLoad = [snapshot_action, rdb_action, aof_action]"
| "startup_actions BetweenFiles = [rdb_action, snapshot_action, aof_action]"
| "startup_actions AfterLoad = [rdb_action, aof_action, snapshot_action]"

definition startup_with_snapshot :: "moment \<Rightarrow> db \<Rightarrow> db option" where
  "startup_with_snapshot when = run_ops (\<lambda>action. action) (startup_actions when)"

definition rdb_store :: "Persistence \<Rightarrow> string \<rightharpoonup> string" where
  "rdb_store p = fold store_step (file_ops rdb_op (rdb_file p)) Map.empty"

subsection \<open>What each action does\<close>

text \<open>Map, snapshot file and log during startup.\<close>

definition loading :: "db \<Rightarrow> (string \<rightharpoonup> string) \<Rightarrow> (string \<rightharpoonup> string) \<Rightarrow> store_op list \<Rightarrow> bool" where
  "loading d s r l \<longleftrightarrow> HashMap_inv (fst d) \<and> HashMap_map (fst d) = s \<and> pers_ok (snd d) \<and>
     rdb_store (snd d) = r \<and> file_ops aof_op (aof_file (snd d)) = l"

lemma rdb_action_loading:
  assumes "loading d Map.empty r l"
  shows "\<exists>d'. rdb_action d = Some d' \<and> loading d' r r l"
proof -
  have i: "HashMap_inv (fst d)" "HashMap_map (fst d) = Map.empty" using assms by (simp_all add: loading_def)
  obtain m' where m: "run_ops (apply_op HashMap_insert HashMap_remove) (file_ops rdb_op (rdb_file (snd d))) (fst d) = Some m'"
      "HashMap_inv m'" "HashMap_map m' = rdb_store (snd d)"
    using hm.run_store[OF i(1), of "file_ops rdb_op (rdb_file (snd d))"] i(2)
    by (auto simp: rdb_store_def)
  have "rdb_action d = Some (m', snd d)"
    using m(1) by (auto simp: rdb_action_def load_rdb_phase_def load_rdb_run file_ops_def split: option.split)
  then show ?thesis using assms m by (intro exI[of _ "(m', snd d)"]) (simp add: loading_def)
qed

lemma aof_action_loading:
  assumes "loading d s r l"
  shows "\<exists>d'. aof_action d = Some d' \<and> loading d' (fold store_step l s) r l"
proof -
  have i: "HashMap_inv (fst d)" "HashMap_map (fst d) = s" "file_ops aof_op (aof_file (snd d)) = l"
    using assms by (simp_all add: loading_def)
  obtain m' where m: "run_ops (apply_op HashMap_insert HashMap_remove) (file_ops aof_op (aof_file (snd d))) (fst d) = Some m'"
      "HashMap_inv m'" "HashMap_map m' = fold store_step l s"
    using hm.run_store[OF i(1), of "file_ops aof_op (aof_file (snd d))"] i(2,3) by auto
  have "aof_action d = Some (m', snd d)"
    using m(1) by (auto simp: aof_action_def load_aof_phase_def load_aof_run file_ops_def split: option.split)
  then show ?thesis using assms m by (intro exI[of _ "(m', snd d)"]) (simp add: loading_def)
qed

lemma snapshot_action_loading:
  assumes "loading d s r l" and "clean_store s"
  shows "\<exists>d'. snapshot_action d = Some d' \<and> loading d' s s []"
proof -
  obtain m p where d: "d = (m, p)" "HashMap_inv m" "HashMap_map m = s" "pers_ok p"
    using assms(1) by (cases d) (simp add: loading_def)
  have c: "clean_store (HashMap_map m)" using assms(2) d(3) by simp
  let ?p = "\<lparr>aof_stream_open = True, aof_file = Some '''', rdb_file = Some (rdb_text (HashMap_entries m))\<rparr> :: Persistence"
  have "createSnapshot True True True m p = Some (?p, None)"
    using createSnapshot_ok[OF d(2), of p] d(4) by (auto elim!: pers_okE)
  then have "snapshot_action d = Some (m, ?p)"
    by (simp add: snapshot_action_def snapshot_callback_def d(1))
  moreover have "loading (m, ?p) s s []"
    using d(2,3) fold_rdb_text[OF d(2) c]
    by (simp add: loading_def rdb_store_def pers_ok_def newline_ended_def file_ops_def)
  ultimately show ?thesis by blast
qed

text \<open>The three places of the snapshot.\<close>

lemma startup_loading:
  assumes "loading (m, p) Map.empty (rdb_store p) (file_ops aof_op (aof_file p))"
    and "clean_store (rdb_store p)" and "clean_store (disk_store p)"
    and "result = (case when of BeforeLoad \<Rightarrow> Map.empty | BetweenFiles \<Rightarrow> rdb_store p | AfterLoad \<Rightarrow> disk_store p)"
  shows "\<exists>d x l. startup_with_snapshot when (m, p) = Some d \<and> loading d result x l \<and> fold store_step l x = result"
proof (cases "when")
  case BeforeLoad
  obtain d1 where 1: "snapshot_action (m, p) = Some d1" "loading d1 Map.empty Map.empty []"
    using snapshot_action_loading[OF assms(1)] by (auto simp: clean_store_def)
  obtain d2 where 2: "rdb_action d1 = Some d2" "loading d2 Map.empty Map.empty []"
    using rdb_action_loading[OF 1(2)] by blast
  obtain d3 where 3: "aof_action d2 = Some d3" "loading d3 Map.empty Map.empty []"
    using aof_action_loading[OF 2(2)] by auto
  show ?thesis using 1(1) 2(1) 3 BeforeLoad assms(4)
    by (intro exI[of _ d3] exI[of _ Map.empty] exI[of _ "[]"]) (simp add: startup_with_snapshot_def)
next
  case BetweenFiles
  obtain d1 where 1: "rdb_action (m, p) = Some d1" "loading d1 (rdb_store p) (rdb_store p) (file_ops aof_op (aof_file p))"
    using rdb_action_loading[OF assms(1)] by blast
  obtain d2 where 2: "snapshot_action d1 = Some d2" "loading d2 (rdb_store p) (rdb_store p) []"
    using snapshot_action_loading[OF 1(2) assms(2)] by blast
  obtain d3 where 3: "aof_action d2 = Some d3" "loading d3 (rdb_store p) (rdb_store p) []"
    using aof_action_loading[OF 2(2)] by auto
  show ?thesis using 1(1) 2(1) 3 BetweenFiles assms(4)
    by (intro exI[of _ d3] exI[of _ "rdb_store p"] exI[of _ "[]"]) (simp add: startup_with_snapshot_def)
next
  case AfterLoad
  obtain d1 where 1: "rdb_action (m, p) = Some d1" "loading d1 (rdb_store p) (rdb_store p) (file_ops aof_op (aof_file p))"
    using rdb_action_loading[OF assms(1)] by blast
  obtain d2 where 2: "aof_action d1 = Some d2" "loading d2 (disk_store p) (rdb_store p) (file_ops aof_op (aof_file p))"
    using aof_action_loading[OF 1(2)] by (auto simp: disk_store_def rdb_store_def)
  obtain d3 where 3: "snapshot_action d2 = Some d3" "loading d3 (disk_store p) (disk_store p) []"
    using snapshot_action_loading[OF 2(2) assms(3)] by blast
  show ?thesis using 1(1) 2(1) 3 AfterLoad assms(4)
    by (intro exI[of _ d3] exI[of _ "disk_store p"] exI[of _ "[]"]) (simp add: startup_with_snapshot_def)
qed

subsection \<open>Properties\<close>

text \<open>
  C16 (safety). A snapshot that is taken before the load has finished destroys data: taken before the
  load it leaves an empty database, in memory and on disk; taken between the snapshot file
  and the log it loses every write since the last snapshot; only after the load it keeps
  everything.
\<close>

theorem early_snapshot_loses_data:
  assumes "HashMap_inv m" and "HashMap_map m = Map.empty" and "pers_ok p"
    and "clean_store (rdb_store p)" and "clean_store (disk_store p)"
    and "result = (case when of BeforeLoad \<Rightarrow> Map.empty | BetweenFiles \<Rightarrow> rdb_store p | AfterLoad \<Rightarrow> disk_store p)"
  shows "\<exists>m' p'. startup_with_snapshot when (m, p) = Some (m', p') \<and>
    HashMap_map m' = result \<and> disk_store p' = result \<and> loadDataOnStartup True True p m \<noteq> None"
proof -
  have s: "loading (m, p) Map.empty (rdb_store p) (file_ops aof_op (aof_file p))" using assms(1-3) by (simp add: loading_def)
  have end_state: "disk_store (snd d) = fold store_step l r" if "loading d x r l" for d x r l
    using that by (auto simp: loading_def disk_store_def rdb_store_def)
  obtain d x l where d: "startup_with_snapshot when (m, p) = Some d" "loading d result x l" "fold store_step l x = result"
    using startup_loading[OF s assms(4-6)] by blast
  have "HashMap_map (fst d) = result" using d(2) by (simp add: loading_def)
  moreover have "disk_store (snd d) = result" using end_state[OF d(2)] d(3) by simp
  moreover have "loadDataOnStartup True True p m \<noteq> None"
    using loadDataOnStartup_store[OF assms(1,2), of p] by auto
  ultimately show ?thesis using d(1) by (intro exI[of _ "fst d"] exI[of _ "snd d"]) simp
qed

theorem early_snapshot_loses_data_witness:
  "\<exists>m m' p'. startup_with_snapshot BetweenFiles (m, example_disk) = Some (m', p') \<and>
     disk_store example_disk ''cb'' = Some ''y'' \<and> HashMap_map m' = [''ab'' \<mapsto> ''x''] \<and>
     disk_store p' = [''ab'' \<mapsto> ''x'']"
proof -
  obtain m where m: "HashMap_inv m" "HashMap_map m = Map.empty"
    using HashMap_new_store[of 100 "\<lambda>_. None"] by auto
  have o: "file_ops aof_op (aof_file example_disk) = [Put ''cb'' ''y'']"
    "file_ops rdb_op (rdb_file example_disk) = [Put ''ab'' ''x'']" by code_simp+
  then have r: "rdb_store example_disk = [''ab'' \<mapsto> ''x'']"
    and d: "disk_store example_disk = [''ab'' \<mapsto> ''x'', ''cb'' \<mapsto> ''y'']"
    by (simp_all add: rdb_store_def disk_store_def)
  have w: "word ''ab''" "word ''x''" "word ''cb''" "word ''y''" by code_simp+
  have "clean_store (rdb_store example_disk)" "clean_store (disk_store example_disk)"
    unfolding r d using w by (auto simp: clean_store_def split: if_splits)
  from early_snapshot_loses_data[OF m example_disk_ok this refl, of BetweenFiles]
  obtain m' p' where "startup_with_snapshot BetweenFiles (m, example_disk) = Some (m', p')"
      "HashMap_map m' = rdb_store example_disk" "disk_store p' = rdb_store example_disk"
    by auto
  then show ?thesis unfolding r using d by (intro exI[of _ m] exI[of _ m'] exI[of _ p']) simp
qed

end
