(* ===== verification/Platform.thy ===== *)
theory Platform
  imports Server
begin

unbundle bit_operations_syntax

text \<open>
  The thin layers around the server: both halves of \<open>src/Networking/NetworkTypes.h\<close>, the choice
  of the event loop in \<open>EventLoopFactory.h\<close>, the calls through \<open>IEventLoop\<close>, the reading of \<open>recv\<close>'s result in \<open>messageHandler\<close>, and \<open>src/main.cpp\<close> with its signal handler,
  its stdin thread and the loop that waits for either.
\<close>

subsection \<open>Sockets\<close>

definition SOCKET_ERROR :: int where
  "SOCKET_ERROR = -1"

definition EAGAIN :: int where "EAGAIN = 11"
definition EWOULDBLOCK :: int where "EWOULDBLOCK = 11"
definition O_NONBLOCK :: int32 where "O_NONBLOCK = 0x800"

text \<open>\<open>fcntl (s, F_GETFL, 0)\<close> and \<open>fcntl (s, F_SETFL, flags)\<close> are the system's.\<close>

definition setNonBlocking ::
  "(SocketType \<Rightarrow> int32) \<Rightarrow> (SocketType \<Rightarrow> int32 \<Rightarrow> int32) \<Rightarrow> SocketType \<Rightarrow> bool" where
  "setNonBlocking fcntl_getfl fcntl_setfl s =
     (let flags = fcntl_getfl s in
      if flags = -1 then False else fcntl_setfl s (flags OR O_NONBLOCK) \<noteq> -1)"

definition wouldBlock :: "int \<Rightarrow> bool" where
  "wouldBlock errno \<longleftrightarrow> errno = EWOULDBLOCK \<or> errno = EAGAIN"

text \<open>
  The same on Windows: \<open>ioctlsocket (s, FIONBIO, 1)\<close> and \<open>WSAGetLastError\<close> are the system's.
\<close>

definition FIONBIO :: uint32 where "FIONBIO = 0x8004667E"
definition WSAEWOULDBLOCK :: int where "WSAEWOULDBLOCK = 10035"

definition setNonBlocking_win :: "(SocketType \<Rightarrow> uint32 \<Rightarrow> uint32 \<Rightarrow> int32) \<Rightarrow> SocketType \<Rightarrow> bool" where
  "setNonBlocking_win ioctlsocket s \<longleftrightarrow> ioctlsocket s FIONBIO 1 = 0"

definition wouldBlock_win :: "int \<Rightarrow> bool" where
  "wouldBlock_win last_error \<longleftrightarrow> last_error = WSAEWOULDBLOCK"

text \<open>What the handler makes of \<open>recv\<close>: its result, the bytes in the array, and \<open>errno\<close>.\<close>

definition recv_outcome :: "int \<Rightarrow> string \<Rightarrow> int \<Rightarrow> recv_result" where
  "recv_outcome bytesReceived tempBuffer errno =
     (if bytesReceived = 0 then Disconnected
      else if bytesReceived < 0 then (if wouldBlock errno then WouldBlock else RecvError)
      else Received (take (nat bytesReceived) tempBuffer))"

lemma recv_outcome_received:
  "0 < n \<Longrightarrow> n \<le> int (length buf) \<Longrightarrow>
   \<exists>bytes. recv_outcome n buf e = Received bytes \<and> int (length bytes) = n"
  by (simp add: recv_outcome_def)

lemma setNonBlocking_sets:
  assumes "setNonBlocking get_flags set_flags s"
  shows "\<exists>flags. get_flags s = flags \<and> flags \<noteq> -1 \<and> set_flags s (flags OR O_NONBLOCK) \<noteq> -1 \<and>
    bit (flags OR O_NONBLOCK) 11"
proof -
  have "bit O_NONBLOCK 11" by code_simp
  then show ?thesis using assms by (auto simp: setNonBlocking_def Let_def bit_or_iff split: if_splits)
qed

subsection \<open>The event loop of the platform\<close>

text \<open>
  A loop behind the interface, and the dispatch of its virtual functions; an I/O completion
  port is told by \<open>queued\<close> whether a receive was posted and by \<open>status\<close> what it dequeues, epoll asks
  its kernel.
\<close>

datatype IEventLoop = AnEpollEventLoop EpollEventLoop | AnIocpEventLoop IocpEventLoop

definition makeEventLoop :: "bool \<Rightarrow> ('k \<Rightarrow> int \<times> 'k) \<Rightarrow> 'k \<Rightarrow> IEventLoop \<times> 'k" where
  "makeEventLoop win32 epoll_create1 k =
     (if win32 then (AnIocpEventLoop Iocp_new, k)
      else case Epoll_new epoll_create1 k of (l, k') \<Rightarrow> (AnEpollEventLoop l, k'))"

fun IEventLoop_add :: "'k epoll_ctl \<Rightarrow> bool \<Rightarrow> SocketType \<Rightarrow> IEventLoop \<times> 'k \<Rightarrow> IEventLoop \<times> 'k" where
  "IEventLoop_add epoll_ctl queued s (AnEpollEventLoop l, k) = (AnEpollEventLoop l, Epoll_add epoll_ctl l s k)"
| "IEventLoop_add epoll_ctl queued s (AnIocpEventLoop l, k) = (AnIocpEventLoop (Iocp_add queued s l), k)"

fun IEventLoop_remove :: "'k epoll_ctl \<Rightarrow> SocketType \<Rightarrow> IEventLoop \<times> 'k \<Rightarrow> IEventLoop \<times> 'k" where
  "IEventLoop_remove epoll_ctl s (AnEpollEventLoop l, k) = (AnEpollEventLoop l, Epoll_remove epoll_ctl l s k)"
| "IEventLoop_remove epoll_ctl s (AnIocpEventLoop l, k) = (AnIocpEventLoop (Iocp_remove s l), k)"

fun IEventLoop_rearm :: "'k epoll_ctl \<Rightarrow> bool \<Rightarrow> SocketType \<Rightarrow> IEventLoop \<times> 'k \<Rightarrow> bool \<times> IEventLoop \<times> 'k" where
  "IEventLoop_rearm epoll_ctl queued s (AnEpollEventLoop l, k) =
     (case Epoll_rearm epoll_ctl l s k of (r, k') \<Rightarrow> (r, AnEpollEventLoop l, k'))"
| "IEventLoop_rearm epoll_ctl queued s (AnIocpEventLoop l, k) =
     (case Iocp_rearm queued s l of (r, l') \<Rightarrow> (r, AnIocpEventLoop l', k))"

fun IEventLoop_wait ::
  "'k epoll_wait \<Rightarrow> bool \<times> SocketType \<times> nat option \<Rightarrow> EventLoopEntry list \<Rightarrow> IEventLoop \<times> 'k \<Rightarrow>
   ((int \<times> EventLoopEntry list) \<times> IEventLoop \<times> 'k) option" where
  "IEventLoop_wait epoll_wait status out (AnEpollEventLoop l, k) =
     map_option (\<lambda>(r, k'). (r, AnEpollEventLoop l, k')) (Epoll_wait epoll_wait l out k)"
| "IEventLoop_wait epoll_wait status out (AnIocpEventLoop l, k) =
     (case Iocp_wait status out l of (r, l') \<Rightarrow> Some (r, AnIocpEventLoop l', k))"

text \<open>
  A loop that timed out: the interface promises 0, epoll's loop keeps to it, the completion
  port's loop answers as for an error, and the caller's vector still holds the old events.
\<close>

lemma time_out_results:
  assumes "epoll_wait (epollFd l) 64 1000 k = ((0, []), k')"
  shows "IEventLoop_wait epoll_wait status out (AnEpollEventLoop l, k) = Some ((0, []), AnEpollEventLoop l, k')"
    and "IEventLoop_wait epoll_wait (False, key, None) out (AnIocpEventLoop i, k) =
      Some ((-1, out), AnIocpEventLoop i, k)"
  using assms by (simp_all add: Epoll_wait_def MAX_EVENTS_def Iocp_wait_def)

subsection \<open>The main program\<close>

text \<open>
  The stdin thread: each round tests the flag and reads a word, \<open>None\<close> at the end of the
  input.  The result: whether the thread requests the shutdown.
\<close>

fun stdinThread :: "(bool \<times> string option) list \<Rightarrow> bool" where
  "stdinThread [] = False"
| "stdinThread ((shutdownRequested, w) # rounds) =
     (if shutdownRequested then False
      else case w of
        None \<Rightarrow> False
      | Some cmd \<Rightarrow> if cmd = ''stop'' then True else stdinThread rounds)"

text \<open>What can set the flag that the main thread polls.\<close>

datatype shutdown_source = Signal | StdinStop | NoSource

definition handleSignal :: "bool \<Rightarrow> bool" where
  "handleSignal shutdownRequested = True"

fun request_shutdown :: "shutdown_source \<Rightarrow> bool \<Rightarrow> bool" where
  "request_shutdown Signal flag = handleSignal flag"
| "request_shutdown StdinStop flag = True"
| "request_shutdown NoSource flag = flag"

text \<open>
  The polling loop: the main thread sleeps while nothing has set the flag, then stops the
  server; \<open>None\<close> is a run in which it is still polling.
\<close>

fun main_poll :: "SocketType list \<Rightarrow> shutdown_source list \<Rightarrow> bool \<Rightarrow> Server \<Rightarrow> Server option" where
  "main_poll order [] flag S = (if flag then Some (Server_stop order S) else None)"
| "main_poll order (x # xs) flag S =
     (if flag then Some (Server_stop order S) else main_poll order xs (request_shutdown x flag) S)"

lemma stdinThread_stop:
  "stdinThread (map (\<lambda>c. (False, Some c)) cmds @ (False, Some ''stop'') # rounds)"
  by (induction cmds) auto

lemma stdinThread_other: "Some ''stop'' \<notin> snd ` set rounds \<Longrightarrow> \<not> stdinThread rounds"
  by (induction rounds rule: stdinThread.induct) (auto split: option.split)

lemma main_poll_stops:
  "main_poll order xs False S = Some (Server_stop order S) \<longleftrightarrow> Signal \<in> set xs \<or> StdinStop \<in> set xs"
proof -
  have "main_poll order xs True S = Some (Server_stop order S)" for xs by (cases xs) simp_all
  then show ?thesis
  proof (induction xs)
    case (Cons x xs)
    then show ?case by (cases x) (simp_all add: handleSignal_def)
  qed simp
qed

end
