(* ===== verification/Lifecycle.thy ===== *)
theory Lifecycle
  imports Linearize Platform
begin

text \<open>
  The process from \<open>main\<close>'s first line to its last (\<open>src/main.cpp\<close>): construction, start,
  the threads' steps until the shutdown is requested, \<open>stop\<close>, the jobs that are still handled
  afterwards, and the destructor, which stops a second time and then destroys the members of
  \<open>src/Server/Server.h\<close> in the reverse order of their declaration, each joining the thread it
  owns.  What survives are the files, which the next process reads.
\<close>

subsection \<open>A run of the program\<close>

text \<open>What the system answers while the server is constructed and started.\<close>

record startup_answers =
  st_raw :: "nat \<Rightarrow> addr option"   \<comment> \<open>the fresh bucket array\<close>
  st_can_open_log :: bool
  st_now :: int
  st_socket :: SocketType
  st_bind_ok :: bool
  st_listen_ok :: bool
  st_can_open_rdb :: bool
  st_can_open_aof :: bool

definition program_start :: "startup_answers \<Rightarrow> Persistence \<Rightarrow> (server_error + Server) option" where
  "program_start a files =
     Option.bind (Server_new (st_raw a) files (st_can_open_log a) (st_now a) (st_socket a)) (\<lambda>r.
     case r of
       Inl e \<Rightarrow> Some (Inl e)
     | Inr S \<Rightarrow> Server_start (st_bind_ok a) (st_listen_ok a) (st_can_open_rdb a) (st_can_open_aof a) S)"

text \<open>
  \<open>serving\<close> are the steps of the threads while \<open>main\<close> polls, \<open>draining\<close> those after \<open>stop\<close>.
  The result: an exception that ends the process, or the responses sent and the files.
\<close>

definition main_run ::
  "startup_answers \<Rightarrow> server_event list \<Rightarrow> SocketType list \<Rightarrow> server_event list \<Rightarrow> SocketType list \<Rightarrow>
   Persistence \<Rightarrow> (server_error + (SocketType \<times> string) list \<times> Persistence) option" where
  "main_run a serving order draining order' files =
     Option.bind (program_start a files) (\<lambda>r. case r of
       Inl e \<Rightarrow> Some (Inl e)
     | Inr S \<Rightarrow>
         Option.bind (run_ops server_event_step serving S) (\<lambda>S1.
         Option.bind (run_ops server_event_step draining (Server_stop order S1)) (\<lambda>S2.
         let S3 = Server_destroy order' S2 in
         Some (Inr (sent (calls S3), Persistence_destroy (pers S3))))))"

definition startup_ok :: "startup_answers \<Rightarrow> bool" where
  "startup_ok a \<longleftrightarrow> st_can_open_log a \<and> st_socket a \<noteq> INVALID_SOCKET \<and> st_bind_ok a \<and> st_listen_ok a \<and>
     st_can_open_rdb a \<and> st_can_open_aof a"

text \<open>Files a server left: words only, and no torn record.\<close>

definition files_ok :: "Persistence \<Rightarrow> bool" where
  "files_ok files \<longleftrightarrow> clean_store (disk_store files) \<and>
     (case aof_file files of None \<Rightarrow> True | Some f \<Rightarrow> newline_ended f)"

lemma program_start_ok:
  assumes "startup_ok a" and "files_ok files"
  shows "\<exists>S. program_start a files = Some (Inr S) \<and> server_started S \<and>
    HashMap_map (hashMap S) = disk_store files \<and> running S \<and> rt S = RateLimiter_new (st_now a) 10 5 1000"
proof -
  obtain S0 where S0: "Server_new (st_raw a) files True (st_now a) (st_socket a) = Some (Inr S0)"
    using assms(1) Server_new_ok[of "st_socket a" "st_raw a" files "st_now a"]
    by (auto simp: startup_ok_def INVALID_SOCKET_def)
  have f: "clean_store (disk_store files)" "case aof_file files of None \<Rightarrow> True | Some f \<Rightarrow> newline_ended f"
    using assms(2) by (simp_all add: files_ok_def)
  obtain S where S: "Server_start True True True True S0 = Some (Inr S)" "server_store S = disk_store files"
    using server_start_inv[OF S0 f] by blast
  then have "server_started S" unfolding server_started_def using S0 f by blast
  moreover have "program_start a files = Some (Inr S)"
    using S0 S(1) assms(1) by (simp add: program_start_def startup_ok_def)
  moreover have "running S0 \<and> rt S0 = RateLimiter_new (st_now a) 10 5 1000"
    using S0 by (auto simp: Server_new_def Persistence_new_def bind_eq_Some_conv split: if_splits)
  then have "running S \<and> rt S = RateLimiter_new (st_now a) 10 5 1000"
    using Server_start_result[OF S(1)] by auto
  ultimately show ?thesis using S(2) by (auto simp: server_store_def db_store_def)
qed

lemma pieces_stop: "pieces c (es @ EvStop order # es' @ [EvStop order']) = pieces c (es @ es')"
  by (simp add: pieces_def)

text \<open>One process: its responses, and what it leaves.\<close>

lemma main_run_answers:
  assumes "startup_ok a" and "files_ok files"
    and "main_run a serving order draining order' files = Some (Inr (rs, files'))"
  shows "\<exists>msgs. (\<forall>c. map snd (filter (\<lambda>x. fst x = c) msgs) = frames '''' (pieces c (serving @ draining))) \<and>
     map snd rs = fst (respond_all (map snd msgs) (disk_store files)) \<and>
     disk_store files' = snd (respond_all (map snd msgs) (disk_store files)) \<and> files_ok files'"
proof -
  obtain S where S: "program_start a files = Some (Inr S)" "server_started S"
      "HashMap_map (hashMap S) = disk_store files"
    using program_start_ok[OF assms(1,2)] by blast
  let ?es = "serving @ EvStop order # draining @ [EvStop order']"
  obtain S1 S2 where r: "run_ops server_event_step serving S = Some S1"
      "run_ops server_event_step draining (Server_stop order S1) = Some S2"
      "rs = sent (calls (Server_stop order' S2))" "files' = Persistence_destroy (pers (Server_stop order' S2))"
    using assms(3) S(1) by (auto simp: main_run_def Server_destroy_def Let_def bind_eq_Some_conv)
  let ?S3 = "Server_stop order' S2"
  have run: "run_ops server_event_step ?es S = Some ?S3"
    using r(1,2) by (simp add: run_ops_append)
  obtain msgs where msgs: "\<forall>c. map snd (filter (\<lambda>x. fst x = c) msgs) = frames '''' (pieces c ?es)"
     "sent (calls ?S3) = zip (map (\<lambda>x. conn_socket (conn_objects ?S3 ! fst x)) msgs)
       (fst (respond_all (map snd msgs) (disk_store files)))"
     "HashMap_map (hashMap ?S3) = snd (respond_all (map snd msgs) (disk_store files))"
     "disk_store (pers ?S3) = HashMap_map (hashMap ?S3)"
    using started_run_answers[OF S(2) run] unfolding S(3) by blast
  have "map snd rs = fst (respond_all (map snd msgs) (disk_store files))"
    unfolding r(3) msgs(2) by (simp add: length_responses)
  moreover have d: "disk_store files' = disk_store (pers ?S3)" "aof_file files' = aof_file (pers ?S3)"
    by (simp_all add: r(4) Persistence_destroy_def disk_store_def)
  moreover have "server_inv ?S3" using run_events_inv[OF run server_started_inv[OF S(2)]] .
  then have "files_ok files'"
    using d msgs(4) by (auto simp: server_inv_def db_inv_def files_ok_def elim!: pers_okE)
  ultimately show ?thesis using msgs(1,3,4) by (intro exI[of _ msgs]) (simp add: pieces_stop)
qed

subsection \<open>Properties of runs\<close>

text \<open>
  A restart is invisible in runs in which handlers and snapshots run whole, none within
  another: a process that is stopped leaves files from which the next one starts, and the clients
  of the second process get the responses the first would have given had it gone on: both
  together answer as one abstract server, and the files hold its store.  \<open>Durable\<close> shows it for
  handlers and snapshots that interleave.
\<close>

theorem restart_transparent:
  assumes "startup_ok a1" and "startup_ok a2" and "files_ok files"
    and "main_run a1 serving1 order1 draining1 order1' files = Some (Inr (rs1, files1))"
  shows "(\<exists>S. program_start a2 files1 = Some (Inr S) \<and> server_inv S) \<and>
    (\<forall>serving2 order2 draining2 order2' rs2 files2.
       main_run a2 serving2 order2 draining2 order2' files1 = Some (Inr (rs2, files2)) \<longrightarrow>
       (\<exists>msgs1 msgs2.
          (\<forall>c. map snd (filter (\<lambda>x. fst x = c) msgs1) = frames '''' (pieces c (serving1 @ draining1))) \<and>
          (\<forall>c. map snd (filter (\<lambda>x. fst x = c) msgs2) = frames '''' (pieces c (serving2 @ draining2))) \<and>
          map snd rs1 @ map snd rs2 = fst (respond_all (map snd (msgs1 @ msgs2)) (disk_store files)) \<and>
          disk_store files2 = snd (respond_all (map snd (msgs1 @ msgs2)) (disk_store files))))"
proof (intro conjI allI impI)
  obtain msgs1 where m1: "\<forall>c. map snd (filter (\<lambda>x. fst x = c) msgs1) = frames '''' (pieces c (serving1 @ draining1))"
     "map snd rs1 = fst (respond_all (map snd msgs1) (disk_store files))"
     "disk_store files1 = snd (respond_all (map snd msgs1) (disk_store files))" "files_ok files1"
    using main_run_answers[OF assms(1,3,4)] by blast
  show "\<exists>S. program_start a2 files1 = Some (Inr S) \<and> server_inv S"
    using program_start_ok[OF assms(2) m1(4)] server_started_inv by blast
  fix serving2 order2 draining2 order2' rs2 files2
  assume "main_run a2 serving2 order2 draining2 order2' files1 = Some (Inr (rs2, files2))"
  then obtain msgs2 where m2:
     "\<forall>c. map snd (filter (\<lambda>x. fst x = c) msgs2) = frames '''' (pieces c (serving2 @ draining2))"
     "map snd rs2 = fst (respond_all (map snd msgs2) (disk_store files1))"
     "disk_store files2 = snd (respond_all (map snd msgs2) (disk_store files1))"
    using main_run_answers[OF assms(2) m1(4)] by blast
  show "\<exists>msgs1 msgs2.
      (\<forall>c. map snd (filter (\<lambda>x. fst x = c) msgs1) = frames '''' (pieces c (serving1 @ draining1))) \<and>
      (\<forall>c. map snd (filter (\<lambda>x. fst x = c) msgs2) = frames '''' (pieces c (serving2 @ draining2))) \<and>
      map snd rs1 @ map snd rs2 = fst (respond_all (map snd (msgs1 @ msgs2)) (disk_store files)) \<and>
      disk_store files2 = snd (respond_all (map snd (msgs1 @ msgs2)) (disk_store files))"
    using m1(1,2) m2 unfolding m1(3)
    by (intro exI[of _ msgs1] exI[of _ msgs2]) (simp add: respond_all_append split_beta)
qed

text \<open>One client inserts, the process is restarted, another client asks.\<close>

lemma one_message:
  assumes "\<forall>c. map snd (filter (\<lambda>x. fst x = c) msgs) = (if c = 0 then [m] else [])"
  shows "msgs = [(0 :: nat, m)]"
proof (cases msgs)
  case Nil
  then show ?thesis using spec[OF assms, of 0] by simp
next
  case (Cons x xs)
  have x: "x = (0, m)"
    using spec[OF assms, of "fst x"] Cons by (cases x) (auto split: if_splits)
  have "xs = []"
  proof (cases xs)
    case (Cons y ys)
    then show ?thesis using spec[OF assms, of "fst y"] \<open>msgs = x # xs\<close> x by (auto split: if_splits)
  qed simp
  with Cons x show ?thesis by simp
qed

definition example_startup :: startup_answers where
  "example_startup = \<lparr>st_raw = (\<lambda>_. None), st_can_open_log = True, st_now = 0, st_socket = 3,
     st_bind_ok = True, st_listen_ok = True, st_can_open_rdb = True, st_can_open_aof = True\<rparr>"

lemma example_startup_ok: "startup_ok example_startup"
  by (simp add: startup_ok_def example_startup_def INVALID_SOCKET_def)

lemma example_main_run:
  assumes "files_ok files"
  shows "\<exists>rs files'. main_run example_startup (client_events message) [7] [] [] files = Some (Inr (rs, files'))"
proof -
  obtain S where S: "program_start example_startup files = Some (Inr S)" "server_started S" "running S"
      "rt S = RateLimiter_new 0 10 5 1000"
    using program_start_ok[OF example_startup_ok assms] by (auto simp: example_startup_def)
  note f = server_started_fresh[OF S(2)]
  obtain S1 where "run_ops server_event_step (client_events message) S = Some S1"
    using client_events_run[OF server_started_inv[OF S(2)] S(3) f(4,2,5) S(4)] by blast
  then show ?thesis using S(1) by (simp add: main_run_def Let_def)
qed

lemma frames_line:
  "newline \<in> set m \<Longrightarrow> length m \<le> MAX_COMMAND_BUFFER_LENGTH \<Longrightarrow> frames '''' [m] = [m]"
  by simp

theorem restart_transparent_witness:
  "\<exists>rs1 files1 rs2 files2.
     main_run example_startup (client_events (''INSERT a 1'' @ [newline])) [7] [] []
       \<lparr>aof_stream_open = False, aof_file = None, rdb_file = None\<rparr> = Some (Inr (rs1, files1)) \<and>
     main_run example_startup (client_events (''GET a'' @ [newline])) [7] [] [] files1
       = Some (Inr (rs2, files2)) \<and>
     map snd rs1 @ map snd rs2 =
       [''Insert command was successful'' @ [newline], ''Get command was successful: 1'' @ [newline]]"
proof -
  let ?f = "\<lparr>aof_stream_open = False, aof_file = None, rdb_file = None\<rparr> :: Persistence"
    and ?m1 = "''INSERT a 1'' @ [newline]" and ?m2 = "''GET a'' @ [newline]"
  have d: "disk_store ?f = Map.empty" by (simp add: disk_store_def file_ops_def)
  then have f: "files_ok ?f" by (simp add: files_ok_def clean_store_def)
  obtain rs1 files1 where r1:
      "main_run example_startup (client_events ?m1) [7] [] [] ?f = Some (Inr (rs1, files1))"
    using example_main_run[OF f] by blast
  have "files_ok files1" using main_run_answers[OF example_startup_ok f r1] by blast
  then obtain rs2 files2 where r2:
      "main_run example_startup (client_events ?m2) [7] [] [] files1 = Some (Inr (rs2, files2))"
    using example_main_run by blast
  have fr: "frames '''' [?m1] = [?m1]" "frames '''' [?m2] = [?m2]"
    by (rule frames_line; simp add: MAX_COMMAND_BUFFER_LENGTH_def)+
  have z: "frames '''' (pieces c (client_events ?m1 @ [])) = (if c = 0 then [?m1] else [])"
    "frames '''' (pieces c (client_events ?m2 @ [])) = (if c = 0 then [?m2] else [])" for c
    using fr by (simp_all only: append_Nil2 client_pieces) auto
  obtain msgs1 msgs2 where
      "\<forall>c. map snd (filter (\<lambda>x. fst x = c) msgs1) = frames '''' (pieces c (client_events ?m1 @ []))"
      "\<forall>c. map snd (filter (\<lambda>x. fst x = c) msgs2) = frames '''' (pieces c (client_events ?m2 @ []))"
      and rs: "map snd rs1 @ map snd rs2 = fst (respond_all (map snd (msgs1 @ msgs2)) (disk_store ?f))"
    using restart_transparent[OF example_startup_ok example_startup_ok f r1] r2 by blast
  then have m: "msgs1 = [(0, ?m1)]" "msgs2 = [(0, ?m2)]" unfolding z by (blast intro: one_message)+
  have w: "words3 ?m1 = (''INSERT'', ''a'', ''1'')" "words3 ?m2 = (''GET'', ''a'', '''')" by code_simp+
  have "respond ?m1 Map.empty = (''Insert command was successful'' @ [newline], [''a'' \<mapsto> ''1''])"
    unfolding respond_def w by simp
  moreover have "fst (respond ?m2 [''a'' \<mapsto> ''1'']) = ''Get command was successful: 1'' @ [newline]"
    unfolding respond_def w by simp
  ultimately have "map snd rs1 @ map snd rs2 =
      [''Insert command was successful'' @ [newline], ''Get command was successful: 1'' @ [newline]]"
    unfolding rs m d by (simp only: map_append list.map snd_conv append.simps respond_all.simps
        prod.case split_beta fst_conv) 
  with r1 r2 show ?thesis by blast
qed

subsection \<open>Descriptors after stop\<close>

lemma stop_calls:
  "calls (Server_stop order S) = calls S @ map Close order @ [Close (serverSocket S)]"
proof -
  have "calls (fold (\<lambda>sock. log_call (Close sock)) order T) = calls T @ map Close order \<and>
      serverSocket (fold (\<lambda>sock. log_call (Close sock)) order T) = serverSocket T" for T
    by (induction order arbitrary: T) (simp_all add: log_call_def)
  from this[of "S\<lparr>running := False\<rparr>"] show ?thesis
    by (simp add: Server_stop_def Let_def log_call_def)
qed

lemma stop_frame:
  "tpool_jobs (Server_stop order S) = tpool_jobs S" "conn_objects (Server_stop order S) = conn_objects S"
  "connections (Server_stop order S) = Map.empty" "serverSocket (Server_stop order S) = serverSocket S"
proof -
  have "tpool_jobs (fold (\<lambda>sock. log_call (Close sock)) order T) = tpool_jobs T \<and>
      conn_objects (fold (\<lambda>sock. log_call (Close sock)) order T) = conn_objects T \<and>
      serverSocket (fold (\<lambda>sock. log_call (Close sock)) order T) = serverSocket T" for T
    by (induction order arbitrary: T) (simp_all add: log_call_def)
  from this[of "S\<lparr>running := False\<rparr>"]
  show "tpool_jobs (Server_stop order S) = tpool_jobs S" "conn_objects (Server_stop order S) = conn_objects S"
    "connections (Server_stop order S) = Map.empty" "serverSocket (Server_stop order S) = serverSocket S"
    by (simp_all add: Server_stop_def Let_def log_call_def)
qed

lemma closeConnection_serverSocket: "serverSocket (closeConnection s S) = serverSocket S"
  by (auto simp: closeConnection_def frame_simps Let_def split: option.split)

text \<open>
  Shutdown closes descriptors twice: a job that is still queued when \<open>stop\<close> has
  closed its socket fails to receive and closes the same number again, and the destructor
  closes the listening socket again after \<open>main\<close>'s call of \<open>stop\<close>.  Whatever was opened in
  between under that number, such as the files of a snapshot, is closed instead.
\<close>

theorem stop_closes_twice:
  assumes "server_inv S" and "connections S sock = Some c" and "c \<in> set (tpool_jobs S)"
    and "sock \<in> set order" and "S1 = Server_stop order S"
  shows "\<exists>S2. messageHandler RecvError rearmed now c (S1\<lparr>tpool_jobs := remove1 c (tpool_jobs S1)\<rparr>) = Some S2 \<and>
    calls S2 = calls S @ map Close order @ [Close (serverSocket S), EL_Remove sock, Close sock] \<and>
    calls (Server_destroy [] S2) = calls S2 @ [Close (serverSocket S)]"
proof -
  have "table_ok S" using assms(1) by (simp add: server_inv_def)
  note c = table_okD[OF this assms(2)]
  let ?T = "S1\<lparr>tpool_jobs := remove1 c (tpool_jobs S1)\<rparr>"
  have "messageHandler RecvError rearmed now c ?T = Some (closeConnection sock ?T)"
    using c(2) by (simp add: messageHandler_def assms(5) stop_frame Let_def)
  moreover have "calls (closeConnection sock ?T) = calls S @ map Close order @
      [Close (serverSocket S), EL_Remove sock, Close sock]"
    by (simp add: frame_simps assms(5) stop_calls)
  ultimately show ?thesis
    by (simp add: Server_destroy_def stop_calls closeConnection_serverSocket assms(5) stop_frame)
qed

theorem stop_closes_twice_witness:
  "\<exists>S S2. connections S = [7 \<mapsto> 0] \<and> tpool_jobs S = [0] \<and>
     messageHandler RecvError True 0 0 ((Server_stop [7] S)\<lparr>tpool_jobs := []\<rparr>) = Some S2 \<and>
     count_list (calls S2) (Close 7) = 2"
proof -
  obtain S where S: "server_inv S" "calls S = []" "connections S = [7 \<mapsto> 0]"
      "conn_objects S = [\<lparr>conn_socket = 7, conn_sessionKey = \<lparr>raw_ip = 1, raw_port = 2\<rparr>, commandBuffer = ''''\<rparr>]"
    by (rule example_client)
  let ?S = "S\<lparr>tpool_jobs := [0], serverSocket := 3\<rparr>"
  have "table_ok ?S" by (rule table_ok_fewer[of S]) (use S(1) in \<open>simp_all add: server_inv_def\<close>)
  then have "server_inv ?S" using S(1,4) by (simp add: server_inv_def)
  from stop_closes_twice[OF this _ _ _ refl, of 7 0 "[7]" True 0] S(3)
  obtain S2 where "messageHandler RecvError True 0 0
        ((Server_stop [7] ?S)\<lparr>tpool_jobs := remove1 0 (tpool_jobs (Server_stop [7] ?S))\<rparr>) = Some S2"
      "calls S2 = calls ?S @ map Close [7] @ [Close (serverSocket ?S), EL_Remove 7, Close 7]"
    by auto
  then show ?thesis using S(2,3) by (intro exI[of _ ?S] exI[of _ S2]) (simp add: stop_frame)
qed

subsection \<open>The members are destroyed\<close>

datatype member =
    M_serverSocket | M_serverAddr | M_port | M_running | M_hashMap | M_pers | M_tpool | M_ss | M_rt
  | M_userSessionManager | M_user_session_background_worker | M_connections | M_eventLoop
  | M_eventLoopThread | M_expiredMutex | M_expiredSockets
  | M_MAX_COMMAND_BUFFER_LENGTH

text \<open>The declarations of the class, in order.\<close>

definition Server_members :: "member list" where
  "Server_members =
     [M_serverSocket, M_serverAddr, M_port, M_running, M_hashMap, M_pers, M_tpool, M_ss, M_rt,
      M_userSessionManager, M_user_session_background_worker, M_connections, M_eventLoop,
      M_eventLoopThread, M_expiredMutex, M_expiredSockets, M_MAX_COMMAND_BUFFER_LENGTH]"

text \<open>
  What a thread does, with the member whose destructor joins the thread and the members it
  touches.  The destructors run from the last member to the first; one that owns a thread
  waits until nothing is left to do.  \<open>True\<close> is a run in which a thread touched a member that
  had been destroyed.
\<close>

type_synonym activity = "member \<times> member set"

inductive teardown_step ::
  "member list \<times> activity list \<times> bool \<Rightarrow> member list \<times> activity list \<times> bool \<Rightarrow> bool" where
  td_destroy: "teardown_step (ms @ [m], acts, bad) (ms, acts, bad)"
    if "\<forall>a \<in> set acts. fst a \<noteq> m"
| td_thread: "teardown_step (ms, acts @ a # acts', bad) (ms, acts @ acts', bad \<or> \<not> snd a \<subseteq> set ms)"

definition teardown_faults :: "member list \<Rightarrow> activity list \<Rightarrow> bool" where
  "teardown_faults ms acts \<longleftrightarrow> (\<exists>ms' acts'. teardown_step\<^sup>*\<^sup>* (ms, acts, False) (ms', acts', True))"

text \<open>The members declared up to \<open>m\<close>: those that live as long as \<open>m\<close> does.\<close>

fun declared_up_to :: "member list \<Rightarrow> member \<Rightarrow> member list" where
  "declared_up_to [] m = []"
| "declared_up_to (x # xs) m = (if x = m then [x] else x # declared_up_to xs m)"

lemma declared_up_to_prefix: "m \<in> set ms \<Longrightarrow> \<exists>zs. ms = declared_up_to ms m @ zs \<and> m \<in> set (declared_up_to ms m)"
  by (induction ms) auto

lemma declared_up_to_append: "m \<in> set xs \<Longrightarrow> declared_up_to (xs @ ys) m = declared_up_to xs m"
  by (induction xs) auto

text \<open>As long as an owner lives and its activities touch only what was declared before it, nothing happens.\<close>

definition teardown_inv :: "member list \<times> activity list \<times> bool \<Rightarrow> bool" where
  "teardown_inv x \<longleftrightarrow> (case x of (ms, acts, bad) \<Rightarrow>
     \<not> bad \<and> (\<forall>(m, us) \<in> set acts. m \<in> set ms \<and> us \<subseteq> set (declared_up_to ms m)))"

lemma teardown_step_inv:
  assumes "teardown_step x y" and "teardown_inv x"
  shows "teardown_inv y"
  using assms
proof (induction rule: teardown_step.induct)
  case (td_destroy acts m ms bad)
  show ?case unfolding teardown_inv_def prod.case
  proof (intro conjI ballI)
    show "\<not> bad" using td_destroy(2) by (simp add: teardown_inv_def)
    fix a assume a: "a \<in> set acts"
    obtain o' us where o: "a = (o', us)" by (cases a)
    have "o' \<noteq> m" "o' \<in> set (ms @ [m])" "us \<subseteq> set (declared_up_to (ms @ [m]) o')"
      using td_destroy a o by (auto simp: teardown_inv_def)
    then have "o' \<in> set ms \<and> us \<subseteq> set (declared_up_to ms o')"
      using declared_up_to_append[of o' ms "[m]"] by simp
    then show "case a of (m, us) \<Rightarrow> m \<in> set ms \<and> us \<subseteq> set (declared_up_to ms m)" by (simp add: o)
  qed
next
  case (td_thread ms acts a acts' bad)
  then have "snd a \<subseteq> set (declared_up_to ms (fst a))" "fst a \<in> set ms"
    by (auto simp: teardown_inv_def split: prod.splits)
  moreover have "set (declared_up_to ms (fst a)) \<subseteq> set ms"
    using declared_up_to_prefix[OF calculation(2)] by (metis set_append sup_ge1)
  ultimately show ?case using td_thread by (auto simp: teardown_inv_def)
qed

lemma teardown_destroys:
  assumes "\<forall>a \<in> set acts. fst a \<notin> set zs"
  shows "teardown_step\<^sup>*\<^sup>* (ms @ zs, acts, bad) (ms, acts, bad)"
  using assms
proof (induction zs rule: rev_induct)
  case (snoc z zs)
  have "teardown_step ((ms @ zs) @ [z], acts, bad) (ms @ zs, acts, bad)"
    by (rule td_destroy) (use snoc.prems in auto)
  moreover have "teardown_step\<^sup>*\<^sup>* (ms @ zs, acts, bad) (ms, acts, bad)"
    using snoc by simp
  ultimately show ?case by (simp add: converse_rtranclp_into_rtranclp)
qed simp

lemma teardown_threads:
  "teardown_step\<^sup>*\<^sup>* (ms, as @ bs @ cs, bad) (ms, as @ cs, bad \<or> (\<exists>b \<in> set bs. \<not> snd b \<subseteq> set ms))"
proof (induction bs arbitrary: bad)
  case (Cons b bs)
  have "teardown_step (ms, as @ b # (bs @ cs), bad) (ms, as @ bs @ cs, bad \<or> \<not> snd b \<subseteq> set ms)"
    by (rule td_thread)
  then show ?case using Cons.IH[of "bad \<or> \<not> snd b \<subseteq> set ms"]
    by (simp add: converse_rtranclp_into_rtranclp disj_assoc)
qed simp

lemma teardown_faults_iff:
  assumes "distinct ms" and "\<forall>(m, us) \<in> set acts. m \<in> set ms"
  shows "teardown_faults ms acts \<longleftrightarrow> (\<exists>(m, us) \<in> set acts. \<not> us \<subseteq> set (declared_up_to ms m))"
proof
  assume "teardown_faults ms acts"
  then obtain ms' acts' where r: "teardown_step\<^sup>*\<^sup>* (ms, acts, False) (ms', acts', True)"
    by (auto simp: teardown_faults_def)
  show "\<exists>(m, us) \<in> set acts. \<not> us \<subseteq> set (declared_up_to ms m)"
  proof (rule ccontr)
    assume "\<not> ?thesis"
    then have "teardown_inv (ms, acts, False)" using assms(2) by (auto simp: teardown_inv_def)
    with r have "teardown_inv (ms', acts', True)"
      by (induction rule: rtranclp_induct) (auto intro: teardown_step_inv)
    then show False by (simp add: teardown_inv_def)
  qed
next
  assume "\<exists>(m, us) \<in> set acts. \<not> us \<subseteq> set (declared_up_to ms m)"
  then obtain m us where a: "(m, us) \<in> set acts" "\<not> us \<subseteq> set (declared_up_to ms m)" by blast
  obtain as bs where acts: "acts = as @ (m, us) # bs" using a(1) by (meson split_list)
  let ?b1 = "False \<or> (\<exists>a \<in> set as. \<not> snd a \<subseteq> set ms)"
  let ?b2 = "?b1 \<or> (\<exists>b \<in> set bs. \<not> snd b \<subseteq> set ms)"
  have "m \<in> set ms" using assms(2) a(1) by blast
  then obtain zs where zs: "ms = declared_up_to ms m @ zs" "m \<in> set (declared_up_to ms m)"
    using declared_up_to_prefix by blast
  then have "m \<notin> set zs" using assms(1) by (metis disjoint_iff distinct_append)
  have "teardown_step\<^sup>*\<^sup>* (ms, acts, False) (ms, (m, us) # bs, ?b1)"
    using teardown_threads[of ms "[]" as "(m, us) # bs" False] acts by simp
  also have "teardown_step\<^sup>*\<^sup>* \<dots> (ms, [(m, us)], ?b2)"
    using teardown_threads[of ms "[(m, us)]" bs "[]" ?b1] by simp
  also have "teardown_step\<^sup>*\<^sup>* \<dots> (declared_up_to ms m, [(m, us)], ?b2)"
    using teardown_destroys[of "[(m, us)]" zs "declared_up_to ms m" ?b2] \<open>m \<notin> set zs\<close> zs(1) by simp
  also have "teardown_step \<dots> (declared_up_to ms m, [], True)"
    using td_thread[of "declared_up_to ms m" "[]" "(m, us)" "[]" ?b2] a(2) by simp
  finally show "teardown_faults ms acts" unfolding teardown_faults_def by blast
qed

subsection \<open>What the threads touch\<close>

text \<open>The members that the functions of \<open>src/Server/Server.cpp\<close> touch, path by path.\<close>

definition closeConnection_uses :: "SocketType \<Rightarrow> Server \<Rightarrow> member set" where
  "closeConnection_uses sock S =
     {M_eventLoop, M_connections} \<union> (if connections S sock = None then {} else {M_userSessionManager})"

definition rearmSocket_uses :: "bool \<Rightarrow> SocketType \<Rightarrow> Server \<Rightarrow> member set" where
  "rearmSocket_uses rearmed sock S =
     {M_eventLoop} \<union> (if rearmed then {} else closeConnection_uses sock S)"

definition command_uses :: "string \<Rightarrow> member set" where
  "command_uses message = (case words3 message of (command, key, val) \<Rightarrow>
     if command = ''INSERT'' then (if val = '''' then {} else {M_hashMap, M_pers})
     else if command = ''GET'' then {M_hashMap}
     else if command = ''DELETE'' then {M_hashMap, M_pers}
     else {})"

definition messageHandler_uses :: "recv_result \<Rightarrow> bool \<Rightarrow> nat \<Rightarrow> Server \<Rightarrow> member set" where
  "messageHandler_uses received rearmed c S =
     (let clientSocket = conn_socket (conn_objects S ! c) in
      case received of
        Disconnected \<Rightarrow> closeConnection_uses clientSocket S
      | WouldBlock \<Rightarrow> rearmSocket_uses rearmed clientSocket S
      | RecvError \<Rightarrow> closeConnection_uses clientSocket S
      | Received bytes \<Rightarrow>
          let buffer = commandBuffer (conn_objects S ! c) @ bytes in
          {M_MAX_COMMAND_BUFFER_LENGTH} \<union>
          (if length buffer > MAX_COMMAND_BUFFER_LENGTH then closeConnection_uses clientSocket S
           else if newline \<notin> set buffer then rearmSocket_uses rearmed clientSocket S
           else {M_userSessionManager} \<union> command_uses buffer \<union> rearmSocket_uses rearmed clientSocket S))"

definition snapshot_uses :: "member set" where
  "snapshot_uses = {M_pers, M_hashMap}"

definition cleanup_uses :: "(SessionKey \<times> int) list \<Rightarrow> UserSessionManager \<Rightarrow> member set" where
  "cleanup_uses order m =
     {M_userSessionManager} \<union> (if expired_sockets order m = [] then {} else {M_expiredMutex, M_expiredSockets})"

text \<open>The owners of threads declared last, so that they are joined first.\<close>

definition owners_last :: "member list \<Rightarrow> member list" where
  "owners_last ms = filter (\<lambda>m. m \<notin> {M_tpool, M_ss, M_user_session_background_worker}) ms @
     [M_tpool, M_ss, M_user_session_background_worker]"

lemma handler_uses_event_loop: "M_eventLoop \<in> messageHandler_uses received rearmed c S"
  by (auto simp: messageHandler_uses_def closeConnection_uses_def rearmSocket_uses_def Let_def
      split: recv_result.split)

lemma handler_uses_members:
  "messageHandler_uses received rearmed c S \<subseteq>
     {M_eventLoop, M_connections, M_userSessionManager, M_hashMap, M_pers, M_MAX_COMMAND_BUFFER_LENGTH}"
  by (auto simp: messageHandler_uses_def closeConnection_uses_def rearmSocket_uses_def command_uses_def Let_def
      split: recv_result.split prod.split if_splits)

text \<open>The handler changes no other member than those.\<close>

lemma command_changes:
  "execute_command message d = Some (response, d') \<Longrightarrow>
   (fst d' = fst d \<or> M_hashMap \<in> command_uses message) \<and> (snd d' = snd d \<or> M_pers \<in> command_uses message)"
  by (cases "words3 message") (auto simp: execute_command_words command_uses_def split: if_splits)

lemma handler_changes:
  assumes "messageHandler received rearmed now c S = Some S'"
  shows "(hashMap S' = hashMap S \<or> M_hashMap \<in> messageHandler_uses received rearmed c S) \<and>
    (pers S' = pers S \<or> M_pers \<in> messageHandler_uses received rearmed c S) \<and>
    (connections S' = connections S \<or> M_connections \<in> messageHandler_uses received rearmed c S)"
proof (cases received)
  case (Received bytes)
  then show ?thesis using assms
    by (auto simp: messageHandler_def messageHandler_uses_def Let_def frame_simps closeConnection_uses_def
        rearmSocket_uses_def dest!: command_changes split: if_splits)
qed (use assms in \<open>auto simp: messageHandler_def messageHandler_uses_def Let_def frame_simps
       closeConnection_uses_def rearmSocket_uses_def\<close>)

text \<open>
  C29 (safety). The destructor of the server destroys the event loop before the thread pool
  that uses it: whatever a job is that is still queued then, and whatever it receives, there
  is an order of events in which it runs on destroyed members; a cleanup that expires a
  session locks a destroyed mutex.  The snapshot thread is joined in time, and declaring the
  three owners of threads last would be enough to make every order safe.
\<close>

theorem queued_job_runs_on_destroyed_members:
  "teardown_faults Server_members [(M_tpool, messageHandler_uses received rearmed c S)] \<and>
   (teardown_faults Server_members [(M_user_session_background_worker, cleanup_uses order m)]
      \<longleftrightarrow> expired_sockets order m \<noteq> []) \<and>
   \<not> teardown_faults Server_members [(M_ss, snapshot_uses)] \<and>
   \<not> teardown_faults (owners_last Server_members)
      [(M_tpool, messageHandler_uses received rearmed c S), (M_ss, snapshot_uses),
       (M_user_session_background_worker, cleanup_uses order m)]"
proof (intro conjI)
  have d: "distinct Server_members" "distinct (owners_last Server_members)"
    by (simp_all add: Server_members_def owners_last_def)
  note iff = teardown_faults_iff[OF d(1)] teardown_faults_iff[OF d(2)]
  show "teardown_faults Server_members [(M_tpool, messageHandler_uses received rearmed c S)]"
    using handler_uses_event_loop[of received rearmed c S] by (subst iff(1)) (auto simp: Server_members_def)
  show "teardown_faults Server_members [(M_user_session_background_worker, cleanup_uses order m)]
      \<longleftrightarrow> expired_sockets order m \<noteq> []"
    by (subst iff(1)) (simp_all add: Server_members_def cleanup_uses_def)
  show "\<not> teardown_faults Server_members [(M_ss, snapshot_uses)]"
    by (subst iff(1)) (simp_all add: Server_members_def snapshot_uses_def)
  show "\<not> teardown_faults (owners_last Server_members)
      [(M_tpool, messageHandler_uses received rearmed c S), (M_ss, snapshot_uses),
       (M_user_session_background_worker, cleanup_uses order m)]"
    using handler_uses_members[of received rearmed c S]
    by (subst iff(2)) (auto simp: Server_members_def owners_last_def snapshot_uses_def cleanup_uses_def)
qed

end
