(* ===== verification/Locks.thy ===== *)
theory Locks
  imports Prelude
begin

text \<open>
  The locks of the program: which data each member function touches, and which mutexes it holds
  meanwhile.  The other theories take every function that holds a lock as one step; here the
  functions are sequences of acquisitions, accesses and releases, run by any number of
  threads in any order, and two things are shown: data with a mutex are never accessed by two
  threads at once, and the mutexes never deadlock.  The table of connections has no mutex.
\<close>

subsection \<open>Locks, data and actions\<close>

datatype mode = SharedMode | ExclusiveMode

datatype lock =
    L_sm             \<comment> \<open>\<open>HashMap::sm\<close>\<close>
  | L_aof_mutex      \<comment> \<open>\<open>Persistence::aof_mutex\<close>\<close>
  | L_globalMutex    \<comment> \<open>\<open>RateLimiter::globalMutex\<close>\<close>
  | L_mapMutex       \<comment> \<open>\<open>RateLimiter::mapMutex\<close>\<close>
  | L_sessions       \<comment> \<open>\<open>UserSessionManager::mutex\<close>\<close>
  | L_expiredMutex   \<comment> \<open>\<open>Server::expiredMutex\<close>\<close>
  | L_pool           \<comment> \<open>\<open>ThreadPool::m\<close>\<close>

datatype datum =
    D_buckets | D_aof_stream | D_window | D_ipRecords | D_users_sessions | D_expiredSockets | D_jobs
  | D_connections

fun guarded_by :: "datum \<Rightarrow> lock option" where
  "guarded_by D_buckets = Some L_sm"
| "guarded_by D_aof_stream = Some L_aof_mutex"
| "guarded_by D_window = Some L_globalMutex"
| "guarded_by D_ipRecords = Some L_mapMutex"
| "guarded_by D_users_sessions = Some L_sessions"
| "guarded_by D_expiredSockets = Some L_expiredMutex"
| "guarded_by D_jobs = Some L_pool"
| "guarded_by D_connections = None"

text \<open>The order in which the program nests its locks: only a cleanup holds two at a time.\<close>

fun lock_rank :: "lock \<Rightarrow> nat" where
  "lock_rank L_expiredMutex = 1"
| "lock_rank _ = 0"

datatype act =
    Acquire lock mode
  | Release lock
  | Read datum
  | Write datum

subsection \<open>Threads\<close>

record thread =
  holds :: "(lock \<times> mode) list"
  acts :: "act list"

definition compatible :: "mode \<Rightarrow> lock \<Rightarrow> thread \<Rightarrow> bool" where
  "compatible m l t \<longleftrightarrow> (l, ExclusiveMode) \<notin> set (holds t) \<and>
     (m = ExclusiveMode \<longrightarrow> (l, SharedMode) \<notin> set (holds t))"

inductive lock_step :: "thread list \<Rightarrow> thread list \<Rightarrow> bool" where
  ls_acquire: "lock_step ts (ts[i := \<lparr>holds = (l, m) # holds (ts ! i), acts = as\<rparr>])"
    if "i < length ts" "acts (ts ! i) = Acquire l m # as"
      "\<forall>j < length ts. j \<noteq> i \<longrightarrow> compatible m l (ts ! j)"
| ls_release: "lock_step ts (ts[i := \<lparr>holds = filter (\<lambda>h. fst h \<noteq> l) (holds (ts ! i)), acts = as\<rparr>])"
    if "i < length ts" "acts (ts ! i) = Release l # as"
| ls_read: "lock_step ts (ts[i := \<lparr>holds = holds (ts ! i), acts = as\<rparr>])"
    if "i < length ts" "acts (ts ! i) = Read d # as"
| ls_write: "lock_step ts (ts[i := \<lparr>holds = holds (ts ! i), acts = as\<rparr>])"
    if "i < length ts" "acts (ts ! i) = Write d # as"

text \<open>Two threads are about to access one datum, one of them to write it.\<close>

definition data_race :: "datum \<Rightarrow> thread list \<Rightarrow> bool" where
  "data_race d ts \<longleftrightarrow> (\<exists>i < length ts. \<exists>j < length ts. \<exists>as bs. i \<noteq> j \<and> acts (ts ! i) = Write d # as \<and>
     (acts (ts ! j) = Write d # bs \<or> acts (ts ! j) = Read d # bs))"

definition deadlock :: "thread list \<Rightarrow> bool" where
  "deadlock ts \<longleftrightarrow> (\<exists>t \<in> set ts. acts t \<noteq> []) \<and> (\<nexists>ts'. lock_step ts ts')"

definition start_threads :: "act list list \<Rightarrow> thread list" where
  "start_threads programs = map (\<lambda>as. \<lparr>holds = [], acts = as\<rparr>) programs"

subsection \<open>The discipline\<close>

text \<open>
  Locks are acquired in the order of their ranks and released before the end; a guarded datum is
  read with its lock held, and written with its lock held exclusively.
\<close>

fun well_locked :: "(lock \<times> mode) list \<Rightarrow> act list \<Rightarrow> bool" where
  "well_locked held [] \<longleftrightarrow> held = []"
| "well_locked held (Acquire l m # as) \<longleftrightarrow>
     (\<forall>h \<in> set held. lock_rank (fst h) < lock_rank l) \<and> well_locked ((l, m) # held) as"
| "well_locked held (Release l # as) \<longleftrightarrow>
     l \<in> fst ` set held \<and> well_locked (filter (\<lambda>h. fst h \<noteq> l) held) as"
| "well_locked held (Read d # as) \<longleftrightarrow>
     (case guarded_by d of None \<Rightarrow> True | Some l \<Rightarrow> l \<in> fst ` set held) \<and> well_locked held as"
| "well_locked held (Write d # as) \<longleftrightarrow>
     (case guarded_by d of None \<Rightarrow> True | Some l \<Rightarrow> (l, ExclusiveMode) \<in> set held) \<and> well_locked held as"

lemma well_locked_append:
  "well_locked held as \<Longrightarrow> well_locked [] bs \<Longrightarrow> well_locked held (as @ bs)"
  by (induction held as rule: well_locked.induct) auto

lemma well_locked_concat: "list_all (well_locked []) ps \<Longrightarrow> well_locked [] (concat ps)"
  by (induction ps) (auto intro: well_locked_append)

text \<open>No lock is held exclusively by one thread and at all by another.\<close>

definition locks_inv :: "thread list \<Rightarrow> bool" where
  "locks_inv ts \<longleftrightarrow> (\<forall>t \<in> set ts. well_locked (holds t) (acts t)) \<and>
     (\<forall>i < length ts. \<forall>j < length ts. i \<noteq> j \<longrightarrow>
        (\<forall>l. (l, ExclusiveMode) \<in> set (holds (ts ! i)) \<longrightarrow> l \<notin> fst ` set (holds (ts ! j))))"

lemma held_iff: "l \<in> fst ` set h \<longleftrightarrow> (l, SharedMode) \<in> set h \<or> (l, ExclusiveMode) \<in> set h"
proof
  assume "l \<in> fst ` set h"
  then obtain m where "(l, m) \<in> set h" by force
  then show "(l, SharedMode) \<in> set h \<or> (l, ExclusiveMode) \<in> set h" by (cases m) auto
qed force

lemma compatible_exclusive: "compatible ExclusiveMode l t \<longleftrightarrow> l \<notin> fst ` set (holds t)"
  by (auto simp: compatible_def held_iff)

lemma locks_invD:
  "locks_inv ts \<Longrightarrow> i < length ts \<Longrightarrow> well_locked (holds (ts ! i)) (acts (ts ! i))"
  "locks_inv ts \<Longrightarrow> i < length ts \<Longrightarrow> j < length ts \<Longrightarrow> i \<noteq> j \<Longrightarrow>
   (l, ExclusiveMode) \<in> set (holds (ts ! i)) \<Longrightarrow> l \<notin> fst ` set (holds (ts ! j))"
  by (simp_all add: locks_inv_def)

lemma locks_inv_update:
  assumes "locks_inv ts" and "i < length ts" and "well_locked held as"
    and "\<And>j l. j < length ts \<Longrightarrow> j \<noteq> i \<Longrightarrow> (l, ExclusiveMode) \<in> set held \<Longrightarrow> l \<notin> fst ` set (holds (ts ! j))"
    and "\<And>j l. j < length ts \<Longrightarrow> j \<noteq> i \<Longrightarrow> (l, ExclusiveMode) \<in> set (holds (ts ! j)) \<Longrightarrow> l \<notin> fst ` set held"
  shows "locks_inv (ts[i := \<lparr>holds = held, acts = as\<rparr>])"
proof -
  have "\<forall>t \<in> set (ts[i := \<lparr>holds = held, acts = as\<rparr>]). well_locked (holds t) (acts t)"
    using assms(1,3) set_update_subset_insert[of ts i "\<lparr>holds = held, acts = as\<rparr>"]
    by (auto simp: locks_inv_def)
  then show ?thesis using assms(1,2,4,5) by (auto simp: locks_inv_def nth_list_update)
qed

lemma locks_inv_keep:
  assumes "locks_inv ts" and "i < length ts" and "well_locked held as" and "set held \<subseteq> set (holds (ts ! i))"
  shows "locks_inv (ts[i := \<lparr>holds = held, acts = as\<rparr>])"
proof (rule locks_inv_update[OF assms(1-3)])
  fix j l assume j: "j < length ts" "j \<noteq> i"
  show "l \<notin> fst ` set (holds (ts ! j))" if "(l, ExclusiveMode) \<in> set held"
    by (rule locks_invD(2)[OF assms(1,2) j(1)]) (use j(2) that assms(4) in auto)
  show "l \<notin> fst ` set held" if "(l, ExclusiveMode) \<in> set (holds (ts ! j))"
    using locks_invD(2)[OF assms(1) j(1) assms(2) j(2) that] assms(4) by blast
qed

lemma locks_inv_step:
  assumes "lock_step ts ts'" and "locks_inv ts"
  shows "locks_inv ts'"
  using assms(1)
proof cases
  case (ls_acquire i l m as)
  have w: "well_locked (holds (ts ! i)) (Acquire l m # as)"
    using locks_invD(1)[OF assms(2) ls_acquire(2)] ls_acquire(3) by simp
  have c: "compatible m l (ts ! j)" if "j < length ts" "j \<noteq> i" for j using ls_acquire(4) that by blast
  show ?thesis unfolding ls_acquire(1)
  proof (rule locks_inv_update[OF assms(2) ls_acquire(2)])
    show "well_locked ((l, m) # holds (ts ! i)) as" using w by simp
    fix j k assume j: "j < length ts" "j \<noteq> i"
    show "k \<notin> fst ` set (holds (ts ! j))" if k: "(k, ExclusiveMode) \<in> set ((l, m) # holds (ts ! i))"
    proof (cases "(k, ExclusiveMode) = (l, m)")
      case True
      then show ?thesis using c[OF j] compatible_exclusive by simp
    next
      case False
      then show ?thesis using k locks_invD(2)[OF assms(2) ls_acquire(2) j(1)] j(2) by auto
    qed
    show "k \<notin> fst ` set ((l, m) # holds (ts ! i))" if k: "(k, ExclusiveMode) \<in> set (holds (ts ! j))"
    proof -
      have "k \<noteq> l" using c[OF j] k by (auto simp: compatible_def)
      then show ?thesis using locks_invD(2)[OF assms(2) j(1) ls_acquire(2) j(2) k] by simp
    qed
  qed
next
  case (ls_release i l as)
  have "well_locked (holds (ts ! i)) (Release l # as)"
    using locks_invD(1)[OF assms(2) ls_release(2)] ls_release(3) by simp
  then show ?thesis unfolding ls_release(1) by (intro locks_inv_keep[OF assms(2) ls_release(2)]) auto
next
  case (ls_read i d as)
  have "well_locked (holds (ts ! i)) (Read d # as)"
    using locks_invD(1)[OF assms(2) ls_read(2)] ls_read(3) by simp
  then show ?thesis unfolding ls_read(1) by (intro locks_inv_keep[OF assms(2) ls_read(2)]) auto
next
  case (ls_write i d as)
  have "well_locked (holds (ts ! i)) (Write d # as)"
    using locks_invD(1)[OF assms(2) ls_write(2)] ls_write(3) by simp
  then show ?thesis unfolding ls_write(1) by (intro locks_inv_keep[OF assms(2) ls_write(2)]) auto
qed

lemma locks_inv_no_race:
  assumes "locks_inv ts" and "guarded_by d \<noteq> None"
  shows "\<not> data_race d ts"
proof
  assume "data_race d ts"
  then obtain i j as bs where ij: "i < length ts" "j < length ts" "i \<noteq> j" "acts (ts ! i) = Write d # as"
      "acts (ts ! j) = Write d # bs \<or> acts (ts ! j) = Read d # bs"
    by (auto simp: data_race_def)
  obtain l where l: "guarded_by d = Some l" using assms(2) by blast
  have w: "well_locked (holds (ts ! i)) (acts (ts ! i))" "well_locked (holds (ts ! j)) (acts (ts ! j))"
    using assms(1) ij(1,2) by (simp_all add: locks_inv_def)
  have "(l, ExclusiveMode) \<in> set (holds (ts ! i))" using w(1) ij(4) l by simp
  moreover have "l \<in> fst ` set (holds (ts ! j))" using w(2) ij(5) l by force
  ultimately show False using assms(1) ij(1-3) by (auto simp: locks_inv_def)
qed

text \<open>
  Of the threads that wait, the one that waits for the lock of the highest rank waits for a
  thread that can go on.
\<close>

lemma locks_inv_no_deadlock:
  assumes "locks_inv ts"
  shows "\<not> deadlock ts"
proof
  assume dl: "deadlock ts"
  then have stuck: "\<nexists>ts'. lock_step ts ts'" by (simp add: deadlock_def)
  have waits: "\<exists>l m as j. acts (ts ! i) = Acquire l m # as \<and> j < length ts \<and> acts (ts ! j) \<noteq> [] \<and>
      l \<in> fst ` set (holds (ts ! j))" if i: "i < length ts" "acts (ts ! i) \<noteq> []" for i
  proof -
    obtain a as where a: "acts (ts ! i) = a # as" using i(2) by (cases "acts (ts ! i)") auto
    have "\<exists>l m. a = Acquire l m" using stuck a i(1) by (cases a) (auto intro: lock_step.intros)
    then obtain l m where l: "a = Acquire l m" by blast
    then obtain j where j: "j < length ts" "\<not> compatible m l (ts ! j)"
      using stuck a i(1) ls_acquire by blast
    then have "l \<in> fst ` set (holds (ts ! j))" by (force simp: compatible_def)
    moreover from this have "acts (ts ! j) \<noteq> []"
      using locks_invD(1)[OF assms j(1)] by auto
    ultimately show ?thesis using a l j(1) by blast
  qed
  let ?W = "{i. i < length ts \<and> acts (ts ! i) \<noteq> []}"
  define rank_of where "rank_of i = (case acts (ts ! i) of Acquire l m # as \<Rightarrow> lock_rank l | _ \<Rightarrow> 0)" for i
  have W: "finite (rank_of ` ?W)" "rank_of ` ?W \<noteq> {}"
    using dl by (auto simp: deadlock_def in_set_conv_nth)
  then have "Max (rank_of ` ?W) \<in> rank_of ` ?W" by (rule Max_in)
  then obtain i where m: "i \<in> ?W" "Max (rank_of ` ?W) = rank_of i" by (rule imageE)
  have i: "rank_of j \<le> rank_of i" if "j \<in> ?W" for j
    using m Max_ge[OF W(1) imageI[OF that]] by simp
  obtain l m as j where l: "acts (ts ! i) = Acquire l m # as" "j < length ts" "acts (ts ! j) \<noteq> []"
      "l \<in> fst ` set (holds (ts ! j))"
    using waits[of i] m(1) by blast
  obtain l' m' as' where l': "acts (ts ! j) = Acquire l' m' # as'" using waits[of j] l(2,3) by blast
  have "well_locked (holds (ts ! j)) (acts (ts ! j))" using assms l(2) by (simp add: locks_inv_def)
  then have "lock_rank l < lock_rank l'" using l(4) l' by auto
  moreover have "rank_of j \<le> rank_of i" using i[of j] l(2,3) by blast
  ultimately show False using l(1) l' by (simp add: rank_of_def)
qed

subsection \<open>What the functions of the program do\<close>

text \<open>\<open>src/RAM/HashMap.cpp\<close> and \<open>src/Storage/Persistence.cpp\<close>.\<close>

definition HashMap_insert_acts :: "act list" where
  "HashMap_insert_acts = [Acquire L_sm ExclusiveMode, Read D_buckets, Write D_buckets, Release L_sm]"

definition HashMap_get_acts :: "act list" where
  "HashMap_get_acts = [Acquire L_sm SharedMode, Read D_buckets, Release L_sm]"

definition HashMap_remove_acts :: "act list" where
  "HashMap_remove_acts = [Acquire L_sm ExclusiveMode, Read D_buckets, Write D_buckets, Release L_sm]"

definition HashMap_forEach_acts :: "act list" where
  "HashMap_forEach_acts = [Acquire L_sm SharedMode, Read D_buckets, Release L_sm]"

definition appendToLog_acts :: "act list" where
  "appendToLog_acts = [Acquire L_aof_mutex ExclusiveMode, Write D_aof_stream, Release L_aof_mutex]"

definition createSnapshot_acts :: "act list" where
  "createSnapshot_acts = HashMap_forEach_acts @
     [Acquire L_aof_mutex ExclusiveMode, Write D_aof_stream, Release L_aof_mutex]"

text \<open>\<open>src/Limit/Limiter.cpp\<close>: the bucket is asked only if the window grants the request.\<close>

definition isAllowed_acts :: "bool \<Rightarrow> act list" where
  "isAllowed_acts global_ok =
     [Acquire L_globalMutex ExclusiveMode, Read D_window, Write D_window, Release L_globalMutex] @
     (if global_ok
      then [Acquire L_mapMutex ExclusiveMode, Read D_ipRecords, Write D_ipRecords, Release L_mapMutex]
      else [])"

text \<open>\<open>src/UserSession/UserSession.cpp\<close>; a cleanup reports each expired session under its lock.\<close>

definition add_session_acts :: "bool \<Rightarrow> act list" where
  "add_session_acts known =
     [Acquire L_sessions SharedMode, Read D_users_sessions, Release L_sessions] @
     (if known then [] else [Acquire L_sessions ExclusiveMode, Write D_users_sessions, Release L_sessions])"

definition update_activity_acts :: "act list" where
  "update_activity_acts =
     [Acquire L_sessions ExclusiveMode, Read D_users_sessions, Write D_users_sessions, Release L_sessions]"

definition remove_session_acts :: "act list" where
  "remove_session_acts = [Acquire L_sessions ExclusiveMode, Write D_users_sessions, Release L_sessions]"

definition close_all_sessions_acts :: "act list" where
  "close_all_sessions_acts = [Acquire L_sessions ExclusiveMode, Write D_users_sessions, Release L_sessions]"

definition onSessionExpired_acts :: "act list" where
  "onSessionExpired_acts =
     [Acquire L_expiredMutex ExclusiveMode, Write D_expiredSockets, Release L_expiredMutex]"

definition cleanup_acts :: "bool list \<Rightarrow> act list" where
  "cleanup_acts sessions = [Acquire L_sessions ExclusiveMode] @
     concat (map (\<lambda>expired. Read D_users_sessions #
         (if expired then onSessionExpired_acts @ [Write D_users_sessions] else [])) sessions) @
     [Release L_sessions]"

text \<open>\<open>src/Worker/ThreadPool.cpp\<close>.\<close>

definition acceptJob_acts :: "act list" where
  "acceptJob_acts = [Acquire L_pool ExclusiveMode, Write D_jobs, Release L_pool]"

definition take_job_acts :: "act list" where
  "take_job_acts = [Acquire L_pool ExclusiveMode, Read D_jobs, Write D_jobs, Release L_pool]"

text \<open>\<open>src/Server/Server.cpp\<close>; \<open>found\<close>: the socket is in the table of connections.\<close>

definition closeConnection_acts :: "bool \<Rightarrow> act list" where
  "closeConnection_acts found =
     Read D_connections # (if found then remove_session_acts @ [Write D_connections] else [])"

definition rearmSocket_acts :: "bool \<Rightarrow> bool \<Rightarrow> act list" where
  "rearmSocket_acts rearmed found = (if rearmed then [] else closeConnection_acts found)"

datatype handler_path = ClosesClient | AwaitsMore | RunsInsert | RunsGet | RunsDelete | RunsNothing

definition messageHandler_acts :: "handler_path \<Rightarrow> bool \<Rightarrow> bool \<Rightarrow> act list" where
  "messageHandler_acts path rearmed found =
     (case path of
        ClosesClient \<Rightarrow> closeConnection_acts found
      | AwaitsMore \<Rightarrow> rearmSocket_acts rearmed found
      | RunsInsert \<Rightarrow> update_activity_acts @ HashMap_insert_acts @ appendToLog_acts @ rearmSocket_acts rearmed found
      | RunsGet \<Rightarrow> update_activity_acts @ HashMap_get_acts @ rearmSocket_acts rearmed found
      | RunsDelete \<Rightarrow> update_activity_acts @ HashMap_remove_acts @ appendToLog_acts @ rearmSocket_acts rearmed found
      | RunsNothing \<Rightarrow> update_activity_acts @ rearmSocket_acts rearmed found)"

definition acceptClients_acts :: "bool \<Rightarrow> bool \<Rightarrow> bool \<Rightarrow> bool \<Rightarrow> act list" where
  "acceptClients_acts global_ok allowed known nonblocking =
     isAllowed_acts global_ok @
     (if \<not> (global_ok \<and> allowed) then []
      else add_session_acts known @ (if nonblocking then [Write D_connections] else remove_session_acts))"

text \<open>A reported event: readable or not, and whether its socket is in the table.\<close>

definition dispatch_acts :: "bool \<times> bool \<Rightarrow> act list" where
  "dispatch_acts entry =
     (case entry of (readable, found) \<Rightarrow>
        if readable then Read D_connections # (if found then acceptJob_acts else [])
        else closeConnection_acts found)"

definition runEventLoop_acts :: "bool list \<Rightarrow> (bool \<times> bool) list \<Rightarrow> act list" where
  "runEventLoop_acts expired entries =
     [Acquire L_expiredMutex ExclusiveMode, Write D_expiredSockets, Release L_expiredMutex] @
     concat (map closeConnection_acts expired) @ concat (map dispatch_acts entries)"

definition stop_acts :: "act list" where
  "stop_acts = [Read D_connections, Write D_connections] @ close_all_sessions_acts"

text \<open>What the threads of the server run, in rounds.\<close>

inductive server_activity :: "act list \<Rightarrow> bool" where
  sa_worker: "server_activity (take_job_acts @ messageHandler_acts path rearmed found)"
| sa_accept: "server_activity (acceptClients_acts global_ok allowed known nonblocking)"
| sa_event_loop: "server_activity (runEventLoop_acts expired entries)"
| sa_snapshot: "server_activity createSnapshot_acts"
| sa_cleanup: "server_activity (cleanup_acts sessions)"
| sa_stop: "server_activity stop_acts"

text \<open>Every one of them keeps the discipline.\<close>

lemmas simple_acts =
  HashMap_insert_acts_def HashMap_get_acts_def HashMap_remove_acts_def HashMap_forEach_acts_def
  appendToLog_acts_def createSnapshot_acts_def isAllowed_acts_def add_session_acts_def
  update_activity_acts_def remove_session_acts_def close_all_sessions_acts_def onSessionExpired_acts_def
  acceptJob_acts_def take_job_acts_def closeConnection_acts_def rearmSocket_acts_def
  messageHandler_acts_def acceptClients_acts_def dispatch_acts_def stop_acts_def

lemma cleanup_well_locked:
  "well_locked [(L_sessions, ExclusiveMode)]
     (concat (map (\<lambda>expired. Read D_users_sessions #
         (if expired then onSessionExpired_acts @ [Write D_users_sessions] else [])) sessions) @
      [Release L_sessions])"
  by (induction sessions) (simp_all add: onSessionExpired_acts_def)

lemma server_activity_well_locked: "server_activity as \<Longrightarrow> well_locked [] as"
proof (induction rule: server_activity.induct)
  case (sa_worker path rearmed found)
  then show ?case by (cases path) (simp_all add: simple_acts)
next
  case (sa_event_loop expired entries)
  have "well_locked [] (concat (map closeConnection_acts expired))"
    by (rule well_locked_concat) (simp add: list_all_iff simple_acts)
  moreover have "well_locked [] (concat (map dispatch_acts entries))"
    by (rule well_locked_concat) (auto simp: list_all_iff simple_acts split: prod.split)
  ultimately show ?case by (simp add: runEventLoop_acts_def well_locked_append)
next
  case (sa_cleanup sessions)
  show ?case using cleanup_well_locked[of sessions] by (simp add: cleanup_acts_def)
qed (simp_all add: simple_acts)

subsection \<open>Properties\<close>

lemma start_threads_inv: "list_all (well_locked []) programs \<Longrightarrow> locks_inv (start_threads programs)"
  by (auto simp: locks_inv_def start_threads_def list_all_iff)

text \<open>
  C7 (safety). Whatever number of threads run the server's functions, in any order and any
  interleaving, no two threads access the buckets, the log, the limiter's tables, the
  sessions, the expired sockets or the job queue at the same time unless both read, and the
  seven mutexes never deadlock.
\<close>

theorem locks_protect_and_never_deadlock:
  assumes "\<forall>p \<in> set programs. \<exists>rounds. p = concat rounds \<and> list_all server_activity rounds"
    and "lock_step\<^sup>*\<^sup>* (start_threads programs) ts"
  shows "(\<forall>d. d \<noteq> D_connections \<longrightarrow> \<not> data_race d ts) \<and> \<not> deadlock ts"
proof -
  have "well_locked [] p" if "p \<in> set programs" for p
    using bspec[OF assms(1) that]
  proof (elim exE conjE)
    fix rounds assume p: "p = concat rounds" and l: "list_all server_activity rounds"
    have "list_all (well_locked []) rounds"
      using l by (rule list.pred_mono_strong) (rule server_activity_well_locked)
    then show ?thesis unfolding p by (rule well_locked_concat)
  qed
  then have "locks_inv (start_threads programs)" by (intro start_threads_inv) (simp add: list_all_iff)
  with assms(2) have "locks_inv ts" by (induction rule: rtranclp_induct) (auto intro: locks_inv_step)
  moreover have "guarded_by d \<noteq> None" if "d \<noteq> D_connections" for d using that by (cases d) simp_all
  ultimately show ?thesis using locks_inv_no_race locks_inv_no_deadlock by blast
qed

text \<open>The accept loop and a worker with an insert, both inside a lock.\<close>

theorem locks_protect_and_never_deadlock_witness:
  "\<exists>ts. lock_step\<^sup>*\<^sup>* (start_threads [acceptClients_acts True True False True,
       take_job_acts @ messageHandler_acts RunsInsert True True]) ts \<and>
     holds (ts ! 0) = [(L_globalMutex, ExclusiveMode)] \<and> holds (ts ! 1) = [(L_pool, ExclusiveMode)] \<and>
     \<not> data_race D_jobs ts \<and> \<not> deadlock ts"
proof -
  let ?p = "acceptClients_acts True True False True"
    and ?q = "take_job_acts @ messageHandler_acts RunsInsert True True"
  let ?ts = "start_threads [?p, ?q]"
  define t0 where "t0 = \<lparr>holds = [(L_globalMutex, ExclusiveMode)], acts = tl ?p\<rparr>"
  define t1 where "t1 = \<lparr>holds = [(L_pool, ExclusiveMode)], acts = tl ?q\<rparr>"
  have "lock_step ?ts [t0, ?ts ! 1]"
    using ls_acquire[of 0 ?ts L_globalMutex ExclusiveMode "tl ?p"]
    by (simp add: start_threads_def t0_def simple_acts compatible_def less_Suc_eq)
  moreover have "lock_step [t0, ?ts ! 1] [t0, t1]"
    using ls_acquire[of 1 "[t0, ?ts ! 1]" L_pool ExclusiveMode "tl ?q"]
    by (simp add: start_threads_def t0_def t1_def simple_acts compatible_def less_Suc_eq)
  ultimately have r: "lock_step\<^sup>*\<^sup>* ?ts [t0, t1]" by simp
  have "\<exists>rounds. ?p = concat rounds \<and> list_all server_activity rounds"
    by (intro exI[of _ "[?p]"]) (simp add: sa_accept)
  moreover have "\<exists>rounds. ?q = concat rounds \<and> list_all server_activity rounds"
    by (intro exI[of _ "[?q]"]) (simp add: sa_worker)
  ultimately have "\<forall>p \<in> set [?p, ?q]. \<exists>rounds. p = concat rounds \<and> list_all server_activity rounds"
    by simp
  from locks_protect_and_never_deadlock[OF this r]
  have "\<not> data_race D_jobs [t0, t1] \<and> \<not> deadlock [t0, t1]" by simp
  with r show ?thesis by (intro exI[of _ "[t0, t1]"]) (simp add: t0_def t1_def)
qed

text \<open>A thread that runs alone runs through any well-locked part of its program.\<close>

lemma solo_run:
  assumes "well_locked held pre" and "i < length ts" and "ts ! i = \<lparr>holds = held, acts = pre @ post\<rparr>"
    and "\<forall>j < length ts. j \<noteq> i \<longrightarrow> holds (ts ! j) = []"
  shows "lock_step\<^sup>*\<^sup>* ts (ts[i := \<lparr>holds = [], acts = post\<rparr>])"
  using assms
proof (induction held pre arbitrary: ts rule: well_locked.induct)
  case (1 held)
  then have "ts[i := \<lparr>holds = [], acts = post\<rparr>] = ts" by (metis append_Nil list_update_id well_locked.simps(1))
  then show ?case by simp
next
  case (2 held l m as)
  let ?ts = "ts[i := \<lparr>holds = (l, m) # held, acts = as @ post\<rparr>]"
  have "lock_step ts ?ts"
    using ls_acquire[of i ts l m "as @ post"] 2 by (simp add: compatible_def)
  moreover have "lock_step\<^sup>*\<^sup>* ?ts (?ts[i := \<lparr>holds = [], acts = post\<rparr>])"
    by (rule "2.IH") (use 2 in simp_all)
  ultimately show ?case by (simp add: converse_rtranclp_into_rtranclp)
next
  case (3 held l as)
  let ?ts = "ts[i := \<lparr>holds = filter (\<lambda>h. fst h \<noteq> l) held, acts = as @ post\<rparr>]"
  have "lock_step ts ?ts" using ls_release[of i ts l "as @ post"] 3 by simp
  moreover have "lock_step\<^sup>*\<^sup>* ?ts (?ts[i := \<lparr>holds = [], acts = post\<rparr>])"
    by (rule "3.IH") (use 3 in simp_all)
  ultimately show ?case by (simp add: converse_rtranclp_into_rtranclp)
next
  case (4 held d as)
  let ?ts = "ts[i := \<lparr>holds = held, acts = as @ post\<rparr>]"
  have "lock_step ts ?ts" using ls_read[of i ts d "as @ post"] 4 by simp
  moreover have "lock_step\<^sup>*\<^sup>* ?ts (?ts[i := \<lparr>holds = [], acts = post\<rparr>])"
    by (rule "4.IH") (use 4 in simp_all)
  ultimately show ?case by (simp add: converse_rtranclp_into_rtranclp)
next
  case (5 held d as)
  let ?ts = "ts[i := \<lparr>holds = held, acts = as @ post\<rparr>]"
  have "lock_step ts ?ts" using ls_write[of i ts d "as @ post"] 5 by simp
  moreover have "lock_step\<^sup>*\<^sup>* ?ts (?ts[i := \<lparr>holds = [], acts = post\<rparr>])"
    by (rule "5.IH") (use 5 in simp_all)
  ultimately show ?case by (simp add: converse_rtranclp_into_rtranclp)
qed

definition can_race :: "datum \<Rightarrow> act list \<Rightarrow> act list \<Rightarrow> bool" where
  "can_race d p q \<longleftrightarrow> (\<exists>ts. lock_step\<^sup>*\<^sup>* (start_threads [p, q]) ts \<and> data_race d ts)"

lemma reach_race:
  assumes "well_locked [] as" and "well_locked [] bs"
  shows "can_race d (as @ Write d # as') (bs @ Read d # bs')"
proof -
  let ?ts = "start_threads [as @ Write d # as', bs @ Read d # bs']"
  define t0 where "t0 = \<lparr>holds = [], acts = Write d # as'\<rparr>"
  define t1 where "t1 = \<lparr>holds = [], acts = Read d # bs'\<rparr>"
  have "lock_step\<^sup>*\<^sup>* ?ts (?ts[0 := t0])"
    unfolding t0_def by (rule solo_run[OF assms(1)]) (simp_all add: start_threads_def less_Suc_eq)
  moreover have "lock_step\<^sup>*\<^sup>* (?ts[0 := t0]) (?ts[0 := t0, 1 := t1])"
    unfolding t1_def by (rule solo_run[OF assms(2)]) (simp_all add: start_threads_def t0_def less_Suc_eq)
  moreover have "?ts[0 := t0, 1 := t1] = [t0, t1]" by (simp add: start_threads_def)
  moreover have "data_race d [t0, t1]"
    unfolding data_race_def t0_def t1_def
    by (rule exI[of _ "0::nat"], intro conjI, simp, rule exI[of _ "1::nat"]) simp
  ultimately show ?thesis unfolding can_race_def by (metis rtranclp_trans)
qed

text \<open>
  C32 (safety). The table of connections has no lock: while the accept loop inserts a client, the
  event loop may search it for an event, close an expired socket, a worker may close its client
  and the main thread may close them all, each of them a data race on one \<open>unordered_map\<close>.
\<close>

theorem connections_race:
  "can_race D_connections (acceptClients_acts True True known True) (runEventLoop_acts [] [(True, found)]) \<and>
   can_race D_connections (acceptClients_acts True True known True) (runEventLoop_acts [found] []) \<and>
   can_race D_connections (acceptClients_acts True True known True)
     (take_job_acts @ messageHandler_acts ClosesClient rearmed found) \<and>
   can_race D_connections (acceptClients_acts True True known True) stop_acts"
proof -
  have a: "acceptClients_acts True True known True = (isAllowed_acts True @ add_session_acts known) @ Write D_connections # []"
    by (simp add: acceptClients_acts_def)
  have w: "well_locked [] (isAllowed_acts True @ add_session_acts known)" by (simp add: simple_acts)
  have o: "runEventLoop_acts [] [(True, found)] = onSessionExpired_acts @ Read D_connections # (if found then acceptJob_acts else [])"
    "runEventLoop_acts [found] [] = onSessionExpired_acts @ Read D_connections #
       (if found then remove_session_acts @ [Write D_connections] else [])"
    "take_job_acts @ messageHandler_acts ClosesClient rearmed found = take_job_acts @ Read D_connections #
       (if found then remove_session_acts @ [Write D_connections] else [])"
    "stop_acts = [] @ Read D_connections # Write D_connections # close_all_sessions_acts"
    by (simp_all add: runEventLoop_acts_def onSessionExpired_acts_def dispatch_acts_def closeConnection_acts_def
        messageHandler_acts_def stop_acts_def)
  have wo: "well_locked [] onSessionExpired_acts" "well_locked [] take_job_acts" "well_locked [] []"
    by (simp_all add: simple_acts)
  show ?thesis unfolding a o
    by (intro conjI; rule reach_race[OF w wo(1)] reach_race[OF w wo(2)] reach_race[OF w wo(3)])
qed

end
