(* ===== verification/System.thy ===== *)
theory System
  imports Concurrent Dispatch
begin

text \<open>
  The whole data path at once: the accept loop, the event loop with its list of reported
  events, the pool with its three workers, \<open>stop\<close> (\<open>Dispatch\<close>), and inside a worker the handler
  one critical section at a time (\<open>Concurrent\<close>), with the two sections of snapshots in between
  (\<open>src/Server/Server.cpp\<close> lines 87 to 339, \<open>src/Worker/ThreadPool.cpp\<close>).  A worker's job is:
  receive and look for a complete command; the sections on map and log; \<open>send\<close>; re-arm the
  socket and return to the pool.  The theory composes what the others show of the parts: every
  step is a step of \<open>Dispatch\<close> with the data abstracted, or of \<open>Concurrent\<close> with the network
  abstracted.
\<close>

subsection \<open>The handler in its sections\<close>

text \<open>Lines 224 to 259: what was received completes a command, or the job ends without one.\<close>

definition complete_message :: "recv_result \<Rightarrow> nat \<Rightarrow> Server \<Rightarrow> string option" where
  "complete_message received c S =
     (case received of
        Received bytes \<Rightarrow>
          let buffer = commandBuffer (conn_objects S ! c) @ bytes in
          if length buffer > MAX_COMMAND_BUFFER_LENGTH \<or> newline \<notin> set buffer then None else Some buffer
      | _ \<Rightarrow> None)"

text \<open>Lines 261 to 268.\<close>

definition begin_command :: "int \<Rightarrow> nat \<Rightarrow> Server \<Rightarrow> Server" where
  "begin_command now c S =
     set_buffer c '''' (S\<lparr>userSessionManager :=
       update_activity (conn_sessionKey (conn_objects S ! c)) now (userSessionManager S)\<rparr>)"

definition with_db :: "db \<Rightarrow> Server \<Rightarrow> Server" where
  "with_db d S = S\<lparr>hashMap := fst d, pers := snd d\<rparr>"

definition db_of :: "Server \<Rightarrow> db" where
  "db_of S = (hashMap S, pers S)"

definition answer :: "nat \<Rightarrow> handler_pc \<Rightarrow> Server \<Rightarrow> Server" where
  "answer c pc S = (case pc of Answered r \<Rightarrow> log_call (Send (conn_socket (conn_objects S ! c)) r) S | _ \<Rightarrow> S)"

text \<open>The pieces put together again.\<close>

lemma handler_in_sections:
  assumes "complete_message received c S = Some m"
  shows "messageHandler received rearmed now c S =
     map_option (\<lambda>(r, d). rearmSocket rearmed (conn_socket (conn_objects S ! c))
         (log_call (Send (conn_socket (conn_objects S ! c)) r) (with_db d (begin_command now c S))))
       (to_answer 2 (Parsing m, db_of S))"
proof -
  obtain bytes where r: "received = Received bytes" "m = commandBuffer (conn_objects S ! c) @ bytes"
      "length m \<le> MAX_COMMAND_BUFFER_LENGTH" "newline \<in> set m"
    using assms by (auto simp: complete_message_def Let_def split: recv_result.splits if_splits)
  have t: "set_buffer c '''' ((set_buffer c m S)\<lparr>userSessionManager := u\<rparr>) = set_buffer c '''' (S\<lparr>userSessionManager := u\<rparr>)" for u
    using set_buffer_twice[of c "''''" m "S\<lparr>userSessionManager := u\<rparr>"] by (simp add: set_buffer_def)
  have f: "userSessionManager (set_buffer c m S) = userSessionManager S" "hashMap (set_buffer c b T) = hashMap T"
      "pers (set_buffer c b T) = pers T" for b T
    by (simp_all add: frame_simps)
  show ?thesis
    using r(3,4) unfolding r(1) uninterrupted_handler
    by (simp add: messageHandler_def r(2)[symmetric] Let_def t f with_db_def begin_command_def db_of_def
        not_less split_beta' del: length_append set_append cong: option.map_cong)
qed

subsection \<open>The network does not look at the data\<close>

lemma with_db_simps [simp]:
  "connections (with_db d S) = connections S" "conn_objects (with_db d S) = conn_objects S"
  "tpool_jobs (with_db d S) = tpool_jobs S" "calls (with_db d S) = calls S"
  "userSessionManager (with_db d S) = userSessionManager S" "expiredSockets (with_db d S) = expiredSockets S"
  "running (with_db d S) = running S" "rt (with_db d S) = rt S" "serverSocket (with_db d S) = serverSocket S"
  "hashMap (with_db d S) = fst d" "pers (with_db d S) = snd d" "db_of (with_db d S) = d"
  "with_db d (with_db d' S) = with_db d S"
  by (simp_all add: with_db_def db_of_def)

lemma with_db_of [simp]: "with_db (db_of S) S = S"
  by (simp add: with_db_def db_of_def)

named_theorems data_blind \<open>operations that commute with an exchange of the data\<close>

lemma with_db_updates [data_blind]:
  "(with_db d S)\<lparr>tpool_jobs := js\<rparr> = with_db d (S\<lparr>tpool_jobs := js\<rparr>)"
  "(with_db d S)\<lparr>userSessionManager := M\<rparr> = with_db d (S\<lparr>userSessionManager := M\<rparr>)"
  "(with_db d S)\<lparr>connections := cn\<rparr> = with_db d (S\<lparr>connections := cn\<rparr>)"
  "(with_db d S)\<lparr>conn_objects := os\<rparr> = with_db d (S\<lparr>conn_objects := os\<rparr>)"
  "(with_db d S)\<lparr>expiredSockets := ss\<rparr> = with_db d (S\<lparr>expiredSockets := ss\<rparr>)"
  "(with_db d S)\<lparr>rt := r\<rparr> = with_db d (S\<lparr>rt := r\<rparr>)"
  "(with_db d S)\<lparr>running := b\<rparr> = with_db d (S\<lparr>running := b\<rparr>)"
  by (simp_all add: with_db_def)

lemma log_call_blind [data_blind]: "log_call x (with_db d S) = with_db d (log_call x S)"
  by (simp add: log_call_def with_db_def)

lemma closeConnection_blind [data_blind]: "closeConnection s (with_db d S) = with_db d (closeConnection s S)"
  by (simp add: closeConnection_def Let_def data_blind split: option.split)

lemma rearmSocket_blind [data_blind]: "rearmSocket r s (with_db d S) = with_db d (rearmSocket r s S)"
  by (simp add: rearmSocket_def Let_def data_blind)

lemma set_buffer_blind [data_blind]: "set_buffer c b (with_db d S) = with_db d (set_buffer c b S)"
  by (simp add: set_buffer_def data_blind)

lemma begin_command_blind [data_blind]: "begin_command now c (with_db d S) = with_db d (begin_command now c S)"
  by (simp add: begin_command_def data_blind)

lemma onSessionExpired_blind [data_blind]: "onSessionExpired s (with_db d S) = with_db d (onSessionExpired s S)"
  by (simp add: onSessionExpired_def data_blind)

lemma fold_closeConnection_blind [data_blind]:
  "fold closeConnection ss (with_db d S) = with_db d (fold closeConnection ss S)"
  by (induction ss arbitrary: S) (simp_all add: data_blind)

lemma close_expired_blind [data_blind]: "close_expired (with_db d S) = with_db d (close_expired S)"
  by (simp add: close_expired_def data_blind)

lemma dispatch_event_blind [data_blind]: "dispatch_event e (with_db d S) = with_db d (dispatch_event e S)"
  by (simp add: dispatch_event_def data_blind split: option.split)

lemma acceptClients_round_blind [data_blind]:
  "fst (acceptClients_round a (with_db d S)) = with_db d (fst (acceptClients_round a S))"
  by (simp add: acceptClients_round_def data_blind split_beta Let_def)

lemma failed_round_blind [data_blind]:
  "runEventLoop_round None (with_db d S) = with_db d (runEventLoop_round None S)"
  by (simp add: runEventLoop_round_def data_blind)

lemma cleanup_blind:
  assumes "cleanup_expired_sessions (Some onSessionExpired) order (M0, S) = (M, S')"
  shows "cleanup_expired_sessions (Some onSessionExpired) order (M0, with_db d S) = (M, with_db d S')"
  using assms
  by (induction "Some onSessionExpired" order "(M0, S)" arbitrary: M0 S
      rule: cleanup_expired_sessions.induct)
     (auto simp: data_blind Let_def split: option.splits if_splits)

lemma stop_blind [data_blind]: "Server_stop order (with_db d S) = with_db d (Server_stop order S)"
proof -
  have f: "fold (\<lambda>sock. log_call (Close sock)) ss (with_db d T) = with_db d (fold (\<lambda>sock. log_call (Close sock)) ss T)" for ss T
    by (induction ss arbitrary: T) (simp_all add: data_blind)
  show ?thesis by (simp add: Server_stop_def Let_def data_blind f)
qed

lemma quiet_job_blind:
  assumes "complete_message received c S = None"
  shows "messageHandler received rearmed now c (with_db d S) = map_option (with_db d) (messageHandler received rearmed now c S)"
  using assms
  by (auto simp: messageHandler_def complete_message_def Let_def data_blind split: recv_result.split if_splits)

text \<open>The same for the server with its pool.\<close>

definition freeze :: "db \<Rightarrow> Dispatch \<Rightarrow> Dispatch" where
  "freeze d x = x\<lparr>srv := with_db d (srv x)\<rparr>"

lemma freeze_simps [simp]:
  "srv (freeze d x) = with_db d (srv x)" "armed (freeze d x) = armed x" "todo (freeze d x) = todo x"
  "pool (freeze d x) = pool x" "todo_sockets (freeze d x) = todo_sockets x"
  "running_job (freeze d x) = running_job x" "freeze d (x\<lparr>pool := p\<rparr>) = (freeze d x)\<lparr>pool := p\<rparr>"
  "job_sockets (with_db d S) = job_sockets S" "job_for e (with_db d S) = job_for e S"
  by (simp_all add: freeze_def todo_sockets_def running_job_def fun_eq_iff job_sockets_def job_for_def)

lemma spares_blind [simp]: "spares_jobs (with_db d S) (with_db d' S') = spares_jobs S S'"
  by (simp add: spares_jobs_def job_sockets_def)

lemma after_calls_blind: "after_calls (with_db d S) (freeze d x) = freeze d (after_calls S x)"
  by (simp add: after_calls_def freeze_def new_calls_def)

lemma returned_not_running:
  assumes "running_job x i c" and "worker_action i Returns (pool x) = Some p"
  shows "\<not> running_job (after_calls S' (x\<lparr>pool := p\<rparr>)) i c"
  using assms by (auto simp: running_job_def worker_action_def split: if_splits)

text \<open>No step of these ends a job or writes the files.\<close>

definition quiet_step :: "Dispatch \<Rightarrow> Dispatch \<Rightarrow> bool" where
  "quiet_step x x' \<longleftrightarrow> dispatch_step x x' \<and> pers (srv x') = pers (srv x) \<and>
     (\<forall>i c. running_job x i c \<longrightarrow> running_job x' i c)"

lemma quiet_step_frozen:
  assumes "quiet_step x x'"
  shows "x' = x \<or> dispatch_step (freeze d x) (freeze d x')"
proof -
  have q: "dispatch_step x x'" "pers (srv x') = pers (srv x)" "\<And>i c. running_job x i c \<Longrightarrow> running_job x' i c"
    using assms by (auto simp: quiet_step_def)
  from q(1) show ?thesis
  proof cases
    case dispatch_work
    then show ?thesis
    proof cases
      case (work_pool i outcome p)
      have "work_step (freeze d x) ((freeze d x)\<lparr>pool := p\<rparr>)"
        by (rule work_step.work_pool) (use work_pool in simp_all)
      then show ?thesis using work_pool(1) by (auto intro: dispatch_step.dispatch_work)
    next
      case (work_handle i c p received rearmed now S')
      then show ?thesis using q(3) returned_not_running by fastforce
    qed
  next
    case (dispatch_spurious p)
    then show ?thesis using dispatch_step.dispatch_spurious[of "freeze d x" p] by simp
  next
    case (dispatch_accept S' a)
    have "dispatch_step (freeze d x) (after_calls (with_db d S') (freeze d x))"
      by (rule dispatch_step.dispatch_accept[where a = a]) (use dispatch_accept in \<open>simp_all add: data_blind\<close>)
    then show ?thesis using dispatch_accept(1) by (simp add: after_calls_blind)
  next
    case (dispatch_wait S1 es)
    have "dispatch_step (freeze d x) ((after_calls (with_db d S1) (freeze d x))
        \<lparr>armed := armed (after_calls (with_db d S1) (freeze d x)) - set (map entry_socket es), todo := es\<rparr>)"
      by (rule dispatch_step.dispatch_wait) (use dispatch_wait in \<open>simp_all add: data_blind new_calls_def\<close>)
    moreover have "(after_calls (with_db d S1) (freeze d x))
        \<lparr>armed := armed (after_calls (with_db d S1) (freeze d x)) - set (map entry_socket es), todo := es\<rparr> = freeze d x'"
      unfolding after_calls_blind dispatch_wait(1) by (simp add: freeze_def)
    ultimately show ?thesis by simp
  next
    case (dispatch_wait_failed S')
    have "dispatch_step (freeze d x) (after_calls (with_db d S') (freeze d x))"
      by (rule dispatch_step.dispatch_wait_failed) (use dispatch_wait_failed in \<open>simp_all add: data_blind\<close>)
    then show ?thesis using dispatch_wait_failed(1) by (simp add: after_calls_blind)
  next
    case (dispatch_entry e es S' p w)
    have "dispatch_step (freeze d x) ((after_calls (with_db d S') (freeze d x))\<lparr>todo := es, pool := p\<rparr>)"
      by (rule dispatch_step.dispatch_entry[where e = e and w = w])
         (use dispatch_entry in \<open>simp_all add: data_blind cong: option.case_cong\<close>)
    moreover have "(after_calls (with_db d S') (freeze d x))\<lparr>todo := es, pool := p\<rparr> = freeze d x'"
      unfolding after_calls_blind dispatch_entry(1) by (simp add: freeze_def)
    ultimately show ?thesis by simp
  next
    case (dispatch_cleanup order M S')
    have "dispatch_step (freeze d x) ((freeze d x)\<lparr>srv := (with_db d S')\<lparr>userSessionManager := M\<rparr>\<rparr>)"
      by (rule dispatch_step.dispatch_cleanup[where order = order])
         (use cleanup_blind[OF dispatch_cleanup(2), of d] in simp)
    moreover have "(freeze d x)\<lparr>srv := (with_db d S')\<lparr>userSessionManager := M\<rparr>\<rparr> = freeze d x'"
      unfolding dispatch_cleanup(1) by (simp add: freeze_def data_blind)
    ultimately show ?thesis by simp
  next
    case (dispatch_snapshot p)
    then show ?thesis using q(2) by simp
  next
    case (dispatch_stop S' order)
    have "dispatch_step (freeze d x) (after_calls (with_db d S') (freeze d x))"
      by (rule dispatch_step.dispatch_stop[where order = order]) (use dispatch_stop in \<open>simp_all add: stop_blind\<close>)
    then show ?thesis using dispatch_stop(1) by (simp add: after_calls_blind)
  qed
qed

text \<open>They add connections with empty buffers, send nothing, and leave the data alone.\<close>

lemma quiet_step_frame:
  assumes "quiet_step x x'"
  shows "db_of (srv x') = db_of (srv x) \<and> sent (calls (srv x')) = sent (calls (srv x)) \<and>
    (\<exists>new. conn_objects (srv x') = conn_objects (srv x) @ new \<and> (\<forall>u \<in> set new. commandBuffer u = ''''))"
proof -
  have q: "dispatch_step x x'" "pers (srv x') = pers (srv x)" "\<And>i c. running_job x i c \<Longrightarrow> running_job x' i c"
    using assms by (auto simp: quiet_step_def)
  have same: "\<exists>new. conn_objects S' = conn_objects S @ new \<and> (\<forall>u \<in> set new. commandBuffer u = '''')"
    if "conn_objects S' = conn_objects S" for S S' :: Server
    using that by simp
  have h: "hashMap (srv x') = hashMap (srv x) \<and> sent (calls (srv x')) = sent (calls (srv x)) \<and>
    (\<exists>new. conn_objects (srv x') = conn_objects (srv x) @ new \<and> (\<forall>u \<in> set new. commandBuffer u = ''''))"
    using q(1)
  proof cases
    case dispatch_work
    then show ?thesis
    proof cases
      case (work_pool i outcome p)
      then show ?thesis by simp
    next
      case (work_handle i c p received rearmed now S')
      then show ?thesis using q(3) returned_not_running by fastforce
    qed
  next
    case (dispatch_spurious p)
    then show ?thesis by simp
  next
    case (dispatch_accept S' a)
    then show ?thesis using accept_quiet[of a "srv x"] by (auto simp: sent_append)
  next
    case (dispatch_wait S1 es)
    then show ?thesis using fold_close_quiet[of "expiredSockets (srv x)" "(srv x)\<lparr>expiredSockets := []\<rparr>"]
      by (auto simp: close_expired_def sent_append)
  next
    case (dispatch_wait_failed S')
    then show ?thesis using round_quiet[of None "srv x"] by (auto simp: sent_append)
  next
    case (dispatch_entry e es S' p w)
    then show ?thesis using dispatch_quiet[of "[e]" "srv x"] by (auto simp: sent_append)
  next
    case (dispatch_cleanup order M S')
    then show ?thesis using cleanup_quiet[OF dispatch_cleanup(2)] by simp
  next
    case (dispatch_snapshot p)
    then show ?thesis by simp
  next
    case (dispatch_stop S' order)
    then show ?thesis using stop_quiet[of order "srv x"] by (auto simp: sent_append)
  qed
  then show ?thesis using q(2) by (simp add: db_of_def)
qed

subsection \<open>State and steps\<close>

text \<open>
  \<open>threads ! k\<close> is the handler of the message number \<open>k\<close>: its connection, the message, where
  it stands; \<open>phase i\<close> is the handler that worker \<open>i\<close> runs, once it has received a message.
  \<open>dumped\<close> tells whether the snapshot thread stands between the dump of the map and the reset of
  the log, with the number of messages that had passed the map at the dump.
  The rest is history: \<open>hist\<close> and \<open>pts\<close> as in \<open>Concurrent\<close>, what was received and answered on
  which connection.
\<close>

record System =
  dsp :: Dispatch
  phase :: "nat \<Rightarrow> nat option"
  threads :: "(nat \<times> string \<times> handler_pc) list"
  hist :: "handler_event list"
  pts :: "(nat \<times> string \<times> string) list"
  got :: "(nat \<times> string) list"
  replies :: "(nat \<times> string) list"
  dumped :: "nat option"

abbreviation server_of :: "System \<Rightarrow> Server" where
  "server_of y \<equiv> srv (dsp y)"

fun received_bytes :: "nat \<Rightarrow> recv_result \<Rightarrow> (nat \<times> string) list" where
  "received_bytes c (Received bytes) = [(c, bytes)]"
| "received_bytes c _ = []"

definition new_reply :: "nat \<Rightarrow> handler_pc \<Rightarrow> (nat \<times> string) list" where
  "new_reply c pc = (case pc of Answered r \<Rightarrow> [(c, r)] | _ \<Rightarrow> [])"

definition end_job :: "nat \<Rightarrow> Server \<Rightarrow> Server" where
  "end_job c S = S\<lparr>tpool_jobs := remove1 c (tpool_jobs S)\<rparr>"

inductive system_step :: "System \<Rightarrow> System \<Rightarrow> bool" where
  sys_quiet: "system_step y (y\<lparr>dsp := x'\<rparr>)"
    if "quiet_step (dsp y) x'"
| sys_no_command: "system_step y (y\<lparr>dsp := after_calls S' ((dsp y)\<lparr>pool := p\<rparr>),
       got := got y @ received_bytes c received\<rparr>)"
    if "running_job (dsp y) i c" "phase y i = None" "complete_message received c (server_of y) = None"
      "messageHandler received rearmed now c (end_job c (server_of y)) = Some S'"
      "worker_action i Returns (pool (dsp y)) = Some p"
| sys_command: "system_step y (y\<lparr>dsp := (dsp y)\<lparr>srv := begin_command now c (server_of y)\<rparr>,
       phase := (phase y)(i \<mapsto> length (threads y)), threads := threads y @ [(c, m, Parsing m)],
       hist := hist y @ [Invoked (length (threads y)) m], got := got y @ received_bytes c received\<rparr>)"
    if "running_job (dsp y) i c" "phase y i = None" "complete_message received c (server_of y) = Some m"
| sys_section: "system_step y (y\<lparr>dsp := (dsp y)\<lparr>srv := answer c pc' (with_db d (server_of y))\<rparr>,
       threads := (threads y)[k := (c, m, pc')], hist := hist y @ new_response k pc',
       pts := pts y @ new_point k pc pc', replies := replies y @ new_reply c pc'\<rparr>)"
    if "phase y i = Some k" "threads y ! k = (c, m, pc)"
      "handler_section pc (db_of (server_of y)) = Some (pc', d)"
| sys_rearm: "system_step y (y\<lparr>dsp := after_calls S' ((dsp y)\<lparr>pool := p\<rparr>), phase := (phase y)(i := None)\<rparr>)"
    if "phase y i = Some k" "threads y ! k = (c, m, Answered r)"
      "S' = rearmSocket rearmed (conn_socket (conn_objects (server_of y) ! c)) (end_job c (server_of y))"
      "worker_action i Returns (pool (dsp y)) = Some p"
| sys_dump: "system_step y (y\<lparr>dsp := (dsp y)\<lparr>srv := with_db d (server_of y)\<rparr>, dumped := Some (length (pts y))\<rparr>)"
    if "dumped y = None" "db_event_step SnapDump (db_of (server_of y)) = Some d"
| sys_reset: "system_step y (y\<lparr>dsp := (dsp y)\<lparr>srv := with_db d (server_of y)\<rparr>, dumped := None\<rparr>)"
    if "dumped y = Some n" "db_event_step SnapReset (db_of (server_of y)) = Some d"

definition System_new :: "Server \<Rightarrow> System" where
  "System_new S = \<lparr>dsp = Dispatch_new S, phase = (\<lambda>_. None), threads = [], hist = [], pts = [], got = [],
     replies = [], dumped = None\<rparr>"

subsection \<open>Two views of a step\<close>

text \<open>Without the network: the handlers of \<open>Concurrent\<close>.\<close>

definition conc_of :: "System \<Rightarrow> Concurrent" where
  "conc_of y = \<lparr>shared = db_of (server_of y), handlers = map (\<lambda>t. snd (snd t)) (threads y),
     history = hist y, points = pts y\<rparr>"

definition phase_inv :: "System \<Rightarrow> bool" where
  "phase_inv y \<longleftrightarrow> (\<forall>i k. phase y i = Some k \<longrightarrow>
     k < length (threads y) \<and> running_job (dsp y) i (fst (threads y ! k)))"

lemma phase_invD:
  assumes "phase_inv y" and "phase y i = Some k"
  shows "k < length (threads y)" and "threads y ! k = (c, t) \<Longrightarrow> running_job (dsp y) i c"
  using assms unfolding phase_inv_def by (metis, metis fst_conv)

lemma db_of_frames [simp]:
  "db_of (log_call x S) = db_of S" "db_of (set_buffer c b S) = db_of S" "db_of (rearmSocket r s S) = db_of S"
  "db_of (end_job c S) = db_of S" "db_of (begin_command now c S) = db_of S" "db_of (answer c pc S) = db_of S"
  "db_of (S\<lparr>userSessionManager := M\<rparr>) = db_of S" "db_of (closeConnection s S) = db_of S"
  by (simp_all add: db_of_def frame_simps end_job_def begin_command_def answer_def split: handler_pc.split)

lemma quiet_job_db:
  assumes "complete_message received c S = None" and "messageHandler received rearmed now c S = Some S'"
  shows "db_of S' = db_of S"
  using assms
  by (auto simp: messageHandler_def complete_message_def Let_def split: recv_result.splits if_splits)

lemma end_job_simps [simp]:
  "conn_objects (end_job c S) = conn_objects S" "calls (end_job c S) = calls S"
  "buffer_of (end_job c S) = buffer_of S"
  by (simp_all add: end_job_def buffer_of_def fun_eq_iff)

lemma complete_message_end_job [simp]: "complete_message received c (end_job j S) = complete_message received c S"
  by (simp add: complete_message_def end_job_def cong: recv_result.case_cong)

lemma map_update_pc: "map (\<lambda>t. snd (snd t)) (ts[k := (c, m, pc)]) = (map (\<lambda>t. snd (snd t)) ts)[k := pc]"
  by (simp add: map_update)

lemma system_step_concurrent:
  assumes "system_step y y'" and "phase_inv y"
  shows "conc_of y' = conc_of y \<or> concurrent_step (conc_of y) (conc_of y')"
  using assms(1)
proof cases
  case (sys_quiet x')
  then show ?thesis using quiet_step_frame[OF sys_quiet(2)] by (simp add: conc_of_def)
next
  case (sys_no_command i c received rearmed now S' p)
  then show ?thesis using quiet_job_db[of received c "end_job c (server_of y)"] by (simp add: conc_of_def)
next
  case (sys_command i c received m now)
  have "concurrent_step (conc_of y) (conc_of y')"
    using conc_invoke[of "conc_of y" m] sys_command(1) by (simp add: conc_of_def)
  then show ?thesis ..
next
  case (sys_section i k c m pc pc' d)
  have k: "k < length (threads y)" using assms(2) sys_section(2) by (auto simp: phase_inv_def)
  have "concurrent_step (conc_of y) (conc_of y')"
    using conc_section[of k "conc_of y" pc' d] sys_section k
    by (simp add: conc_of_def map_update_pc)
  then show ?thesis ..
next
  case (sys_rearm i k c m r S' rearmed p)
  then show ?thesis by (simp add: conc_of_def)
next
  case (sys_dump d)
  have "concurrent_step (conc_of y) (conc_of y')"
    using conc_snapshot[of SnapDump "conc_of y" d] sys_dump by (simp add: conc_of_def)
  then show ?thesis ..
next
  case (sys_reset n d)
  have "concurrent_step (conc_of y) (conc_of y')"
    using conc_snapshot[of SnapReset "conc_of y" d] sys_reset by (simp add: conc_of_def)
  then show ?thesis ..
qed

text \<open>Without the data: steps of \<open>Dispatch\<close>, or changes that its invariant does not see.\<close>

lemma end_job_blind [data_blind]: "end_job c (with_db d S) = with_db d (end_job c S)"
  by (simp add: end_job_def data_blind)

lemma worker_returns:
  assumes "worker_action i Returns p = Some p'" and "i < length (workers p)" and "workers p ! i = Running c"
  shows "workers p' = (workers p)[i := AtLock]"
  using assms by (auto simp: worker_action_def split: if_splits)

lemma handled_running:
  assumes "worker_action i Returns (pool x) = Some p" and "running_job x i c"
  shows "running_job (after_calls S (x\<lparr>pool := p\<rparr>)) j c' \<longleftrightarrow> j \<noteq> i \<and> running_job x j c'"
  using worker_returns[OF assms(1)] assms(2) by (auto simp: running_job_def nth_list_update)

lemma handle_frozen:
  assumes "running_job x i c" and "worker_action i Returns (pool x) = Some p"
    and "messageHandler received rearmed now c (end_job c (with_db d (srv x))) = Some (with_db d S')"
  shows "dispatch_step (freeze d x) (freeze d (after_calls S' (x\<lparr>pool := p\<rparr>)))"
proof -
  have "work_step (freeze d x) (after_calls (with_db d S') ((freeze d x)\<lparr>pool := p\<rparr>))"
    by (rule work_handle[where i = i and c = c]) (use assms in \<open>simp_all add: end_job_def\<close>)
  then show ?thesis by (auto simp: after_calls_blind[symmetric] intro: dispatch_work)
qed

lemma begin_command_inv:
  assumes "server_inv S"
  shows "server_inv (begin_command now c S)" and "job_sockets (begin_command now c S) = job_sockets S"
    and "tpool_jobs (begin_command now c S) = tpool_jobs S"
    and "connections (begin_command now c S) = connections S" and "running (begin_command now c S) = running S"
proof -
  have "server_inv (S\<lparr>userSessionManager := u\<rparr>)" for u
    by (rule server_inv_fewer[OF assms]) (use assms in \<open>auto simp: server_inv_def\<close>)
  then show "server_inv (begin_command now c S)"
    unfolding begin_command_def by (rule set_buffer_inv) simp_all
  show "tpool_jobs (begin_command now c S) = tpool_jobs S" "connections (begin_command now c S) = connections S"
    "running (begin_command now c S) = running S"
    by (simp_all add: begin_command_def frame_simps running_set_buffer)
  have "\<forall>c \<in> set (tpool_jobs S). c < length (conn_objects S)" using assms by (simp add: server_inv_def)
  then show "job_sockets (begin_command now c S) = job_sockets S"
    by (simp add: job_sockets_def begin_command_def frame_simps)
qed

lemma answer_frame:
  "connections (answer c pc S) = connections S" "conn_objects (answer c pc S) = conn_objects S"
  "tpool_jobs (answer c pc S) = tpool_jobs S" "hashMap (answer c pc S) = hashMap S" "pers (answer c pc S) = pers S"
  "running (answer c pc S) = running S"
  by (simp_all add: answer_def log_call_def split: handler_pc.split)

lemma answer_inv: "server_inv S \<Longrightarrow> server_inv (answer c pc S)"
  by (rule server_inv_fewer) (auto simp: answer_frame server_inv_def)

text \<open>The workers do not touch the queue of expired sockets.\<close>

lemma expired_frames [simp]:
  "expiredSockets (set_buffer c b S) = expiredSockets S" "expiredSockets (begin_command now c S) = expiredSockets S"
  "expiredSockets (rearmSocket r s S) = expiredSockets S" "expiredSockets (answer c pc S) = expiredSockets S"
  "expiredSockets (end_job c S) = expiredSockets S"
  by (simp_all add: set_buffer_def begin_command_def rearmSocket_def answer_def end_job_def frame_simps Let_def
      split: handler_pc.split)

lemma handler_expired:
  "messageHandler received rearmed now c S = Some S' \<Longrightarrow> expiredSockets S' = expiredSockets S"
  by (cases received) (auto simp: messageHandler_def frame_simps Let_def split: if_splits)

lemma freeze_srv: "freeze d (x\<lparr>srv := S\<rparr>) = (freeze d x)\<lparr>srv := with_db d S\<rparr>"
  by (simp add: freeze_def)

lemma dispatch_inv_srv:
  assumes "dispatch_inv x" and "server_inv S" and "job_sockets S = job_sockets (srv x)"
    and "tpool_jobs S = tpool_jobs (srv x)" and "connections S = connections (srv x)" and "running S = running (srv x)"
  shows "dispatch_inv (x\<lparr>srv := S\<rparr>)"
  using assms by (simp add: dispatch_inv_def jobs_inv_def sockets_inv_def todo_sockets_def open_inv_def)

lemma frozen_server_inv:
  assumes "dispatch_inv (freeze d x)"
  shows "server_inv (with_db d (srv x))"
  using assms by (simp add: dispatch_inv_def sockets_inv_def)

lemma frozen_step_inv:
  assumes "dispatch_step (freeze d x) (freeze d x')" and "spares_jobs (srv x) (srv x')" and "dispatch_inv (freeze d x)"
  shows "dispatch_inv (freeze d x')"
  by (rule dispatch_step_inv[OF _ assms(3)]) (use assms(1,2) in \<open>simp add: sparing_def\<close>)

lemma system_step_frozen:
  assumes "system_step y y'" and "phase_inv y" and "dispatch_inv (freeze d0 (dsp y))"
    and "spares_jobs (server_of y) (server_of y')"
  shows "dispatch_inv (freeze d0 (dsp y'))"
proof -
  note i = assms(3) and s = frozen_server_inv[OF assms(3)]
  from assms(1) show ?thesis
  proof cases
    case (sys_quiet x')
    have "spares_jobs (server_of y) (srv x')" using assms(4) sys_quiet(1) by simp
    then show ?thesis using quiet_step_frozen[OF sys_quiet(2), of d0] frozen_step_inv[OF _ _ i] sys_quiet(1) i by auto
  next
    case (sys_no_command i c received rearmed now S' p)
    have "messageHandler received rearmed now c (end_job c (with_db d0 (server_of y))) = Some (with_db d0 S')"
      using quiet_job_blind[of received c "end_job c (server_of y)" rearmed now d0] sys_no_command(4,5)
      by (simp add: data_blind)
    from frozen_step_inv[OF handle_frozen[OF sys_no_command(2,6) this] _ assms(3)] show ?thesis
      using sys_no_command(1) assms(4) by simp
  next
    case (sys_command i c received m now)
    show ?thesis unfolding sys_command(1)
      using dispatch_inv_srv[OF assms(3) begin_command_inv(1)[OF s]] begin_command_inv(2-5)[OF s]
      by (simp add: freeze_srv data_blind)
  next
    case (sys_section i k c m pc pc' d)
    have a: "with_db d0 (answer c pc' (with_db d (server_of y))) = answer c pc' (with_db d0 (server_of y))"
      by (simp add: answer_def data_blind split: handler_pc.split)
    have "job_sockets (answer c pc' (with_db d0 (server_of y))) = job_sockets (server_of y)"
      by (simp add: job_sockets_def answer_frame)
    then show ?thesis unfolding sys_section(1)
      using dispatch_inv_srv[OF assms(3) answer_inv[OF s, of c pc']] by (simp add: freeze_srv a answer_frame)
  next
    case (sys_rearm i k c m r S' rearmed p)
    have "running_job (dsp y) i c" using phase_invD(2)[OF assms(2) sys_rearm(2,3)] .
    moreover have "messageHandler WouldBlock rearmed 0 c (end_job c (with_db d0 (server_of y))) = Some (with_db d0 S')"
      using sys_rearm(4) by (simp add: messageHandler_def data_blind)
    ultimately have "dispatch_step (freeze d0 (dsp y)) (freeze d0 (dsp y'))"
      using handle_frozen[OF _ sys_rearm(5)] sys_rearm(1) by simp
    then show ?thesis using frozen_step_inv assms(3,4) by blast
  next
    case (sys_dump d)
    then show ?thesis using i by (simp add: freeze_def)
next
  case (sys_reset n d)
    then show ?thesis using i by (simp add: freeze_def)
  qed
qed

lemma system_step_phase:
  assumes "system_step y y'" and "phase_inv y"
  shows "phase_inv y'"
  using assms(1)
proof cases
  case (sys_quiet x')
  then show ?thesis using assms(2) by (simp add: phase_inv_def quiet_step_def)
next
  case (sys_no_command i c received rearmed now S' p)
  then show ?thesis using assms(2) handled_running[OF sys_no_command(6,2)]
    by (auto simp: phase_inv_def)
next
  case (sys_command i c received m now)
  then show ?thesis using assms(2) by (auto simp: phase_inv_def nth_append running_job_def less_Suc_eq)
next
  case (sys_section i k c m pc pc' d)
  have "fst ((threads y)[k := (c, m, pc')] ! j) = fst (threads y ! j)" for j
    using sys_section(3) phase_invD(1)[OF assms(2) sys_section(2)] by (cases "j = k") auto
  then show ?thesis using assms(2) sys_section(1) by (auto simp: phase_inv_def running_job_def)
next
  case (sys_rearm i k c m r S' rearmed p)
  have "running_job (dsp y) i c" using phase_invD(2)[OF assms(2) sys_rearm(2,3)] .
  from handled_running[OF sys_rearm(5) this] show ?thesis
    using assms(2) sys_rearm(1) by (auto simp: phase_inv_def)
next
  case (sys_dump d)
  then show ?thesis using assms(2) by (simp add: phase_inv_def running_job_def)
next
  case (sys_reset n d)
  then show ?thesis using assms(2) by (simp add: phase_inv_def running_job_def)
qed

subsection \<open>One connection\<close>

definition of_conn :: "nat \<Rightarrow> (nat \<times> 'a) list \<Rightarrow> 'a list" where
  "of_conn c xs = map snd (filter (\<lambda>x. fst x = c) xs)"

lemma of_conn_simps [simp]:
  "of_conn c [] = []" "of_conn c (xs @ ys) = of_conn c xs @ of_conn c ys"
  "of_conn c ((c', x) # xs) = (if c' = c then x # of_conn c xs else of_conn c xs)"
  by (simp_all add: of_conn_def)

lemma of_conn_other:
  "(k < length xs \<longrightarrow> fst (xs ! k) \<noteq> c) \<Longrightarrow> c' \<noteq> c \<Longrightarrow> of_conn c (xs[k := (c', v)]) = of_conn c xs"
proof (induction xs arbitrary: k)
  case (Cons x xs)
  then show ?case by (cases k; cases x) auto
qed simp

lemma of_conn_split:
  assumes "k < length xs" and "xs ! k = (c, v)"
  shows "of_conn c xs = of_conn c (take k xs) @ v # of_conn c (drop (Suc k) xs)"
    and "of_conn c (xs[k := (c, w)]) = of_conn c (take k xs) @ w # of_conn c (drop (Suc k) xs)"
proof -
  have "xs = take k xs @ (c, v) # drop (Suc k) xs" using id_take_nth_drop[OF assms(1)] assms(2) by simp
  then have "of_conn c xs = of_conn c (take k xs @ (c, v) # drop (Suc k) xs)" by simp
  then show "of_conn c xs = of_conn c (take k xs) @ v # of_conn c (drop (Suc k) xs)" by simp
  show "of_conn c (xs[k := (c, w)]) = of_conn c (take k xs) @ w # of_conn c (drop (Suc k) xs)"
    using assms(1) by (simp add: upd_conv_take_nth_drop)
qed

definition answered :: "string \<times> handler_pc \<Rightarrow> bool" where
  "answered t \<longleftrightarrow> (\<exists>r. snd t = Answered r)"

text \<open>A handler at work is the last of its connection, and the earlier ones have answered.\<close>

definition order_inv :: "System \<Rightarrow> bool" where
  "order_inv y \<longleftrightarrow>
     (\<forall>i k c t. phase y i = Some k \<longrightarrow> threads y ! k = (c, t) \<longrightarrow>
        of_conn c (drop (Suc k) (threads y)) = [] \<and> list_all answered (of_conn c (take k (threads y)))) \<and>
     (\<forall>c. (\<forall>i k. phase y i = Some k \<longrightarrow> fst (threads y ! k) \<noteq> c) \<longrightarrow>
        list_all answered (of_conn c (threads y)))"

lemma order_invD:
  assumes "order_inv y" and "phase y i = Some k" and "threads y ! k = (c, t)" and "k < length (threads y)"
  shows "of_conn c (drop (Suc k) (threads y)) = []" and "list_all answered (of_conn c (take k (threads y)))"
    and "of_conn c (threads y) = of_conn c (take k (threads y)) @ [t]"
    and "of_conn c ((threads y)[k := (c, u)]) = of_conn c (take k (threads y)) @ [u]"
  using assms(1-3) of_conn_split[OF assms(4,3)] unfolding order_inv_def by auto

text \<open>Only one worker runs the job of a connection.\<close>

lemma unique_worker:
  assumes "dispatch_inv (freeze d x)" and "running_job x i c" and "running_job x j c"
  shows "i = j"
proof (rule ccontr)
  assume ne: "i \<noteq> j"
  have "distinct (job_sockets (srv x))"
    and m: "mset (tpool_jobs (srv x)) = in_execution (workers (pool x)) + mset (jobs (pool x))"
    using assms(1) by (simp_all add: dispatch_inv_def sockets_inv_def jobs_inv_def)
  moreover have "\<exists>r. in_execution (workers (pool x)) = {#c#} + {#c#} + r"
    by (rule two_running[of i _ j]) (use assms(2,3) ne in \<open>simp_all add: running_job_def\<close>)
  ultimately show False
    using distinct_sockets_of[of "srv x" c c] by (metis add.assoc)
qed

lemma order_command:
  assumes ph: "phase_inv y" and disp: "dispatch_inv (freeze d (dsp y))" and ord: "order_inv y"
    and running: "running_job (dsp y) i c" and idle: "phase y i = None"
    and new: "phase y' = (phase y)(i \<mapsto> length (threads y))" "threads y' = threads y @ [(c, m, Parsing m)]"
  shows "order_inv y'"
proof -
  have other: "fst (threads y ! k) \<noteq> c" "k < length (threads y)" if "phase y j = Some k" for j k
  proof -
    have "running_job (dsp y) j (fst (threads y ! k))" and k: "k < length (threads y)"
      using ph that by (simp_all add: phase_inv_def)
    then show "fst (threads y ! k) \<noteq> c" "k < length (threads y)"
      using unique_worker[OF disp _ running] that idle by auto
  qed
  then have all: "list_all answered (of_conn c (threads y))" using ord by (auto simp: order_inv_def)
  show ?thesis unfolding order_inv_def
  proof (intro conjI allI impI)
    fix j k c' t assume p: "phase y' j = Some k" "threads y' ! k = (c', t)"
    show "of_conn c' (drop (Suc k) (threads y')) = []" "list_all answered (of_conn c' (take k (threads y')))"
      using p new all other[of j k] order_invD(1,2)[OF ord, of j k c' t]
      by (auto simp: nth_append split: if_splits)
  next
    fix c' assume p: "\<forall>i k. phase y' i = Some k \<longrightarrow> fst (threads y' ! k) \<noteq> c'"
    have "c' \<noteq> c" using p[rule_format, of i "length (threads y)"] new by simp
    moreover have "\<forall>j k. phase y j = Some k \<longrightarrow> fst (threads y ! k) \<noteq> c'"
    proof (intro allI impI)
      fix j k assume j: "phase y j = Some k"
      then have "j \<noteq> i" "k < length (threads y)" using idle other(2) by auto
      then show "fst (threads y ! k) \<noteq> c'" using p[rule_format, of j k] j new by (simp add: nth_append)
    qed
    then have "list_all answered (of_conn c' (threads y))" using ord unfolding order_inv_def by blast
    ultimately show "list_all answered (of_conn c' (threads y'))" using new by simp
  qed
qed

lemma of_conn_section:
  assumes "c' \<noteq> c" and "ts ! k = (c, t)"
  shows "of_conn c' (drop n (ts[k := (c, u)])) = of_conn c' (drop n ts)"
    and "of_conn c' (take n (ts[k := (c, u)])) = of_conn c' (take n ts)"
proof -
  show "of_conn c' (drop n (ts[k := (c, u)])) = of_conn c' (drop n ts)"
    by (cases "k < n") (use assms in \<open>auto simp: drop_update_swap intro!: of_conn_other\<close>)
  show "of_conn c' (take n (ts[k := (c, u)])) = of_conn c' (take n ts)"
    unfolding take_update_swap by (rule of_conn_other) (use assms in auto)
qed

lemma order_section:
  assumes ph: "phase_inv y" and disp: "dispatch_inv (freeze d (dsp y))" and ord: "order_inv y"
    and at: "phase y i = Some k" "threads y ! k = (c, m, pc)"
    and t: "threads y' = (threads y)[k := (c, m, pc')]" and same: "phase y' = phase y"
  shows "order_inv y'"
proof -
  have k: "k < length (threads y)" and r: "running_job (dsp y) i c"
    using phase_invD[OF ph at(1)] at(2) by blast+
  note o = order_invD[OF ord at k]
  show ?thesis unfolding order_inv_def same
  proof (intro conjI allI impI)
    fix j k' c' u assume p: "phase y j = Some k'" "threads y' ! k' = (c', u)"
    obtain u' where u': "threads y ! k' = (c', u')"
      using p(2) t k at(2) by (cases "k' = k") auto
    have k': "k' < length (threads y)" "running_job (dsp y) j c'" using phase_invD[OF ph p(1)] u' by blast+
    have "of_conn c' (drop (Suc k') (threads y')) = [] \<and> list_all answered (of_conn c' (take k' (threads y')))"
    proof (cases "k' = k")
      case True
      then have "c' = c" using u' at(2) by simp
      then show "of_conn c' (drop (Suc k') (threads y')) = [] \<and> list_all answered (of_conn c' (take k' (threads y')))"
        using o(1,2) True t by simp_all
    next
      case False
      have "c' \<noteq> c" using unique_worker[OF disp k'(2)] r p(1) at(1) False by auto
      note other = of_conn_section[OF this at(2)]
      show "of_conn c' (drop (Suc k') (threads y')) = [] \<and> list_all answered (of_conn c' (take k' (threads y')))"
        using order_invD(1,2)[OF ord p(1) u' k'(1)] unfolding t other by simp_all
    qed
    then show "of_conn c' (drop (Suc k') (threads y')) = []" "list_all answered (of_conn c' (take k' (threads y')))" by simp_all
  next
    fix c' assume p: "\<forall>i k. phase y i = Some k \<longrightarrow> fst (threads y' ! k) \<noteq> c'"
    have f: "fst (threads y' ! j) = fst (threads y ! j)" for j using t k at(2) by (cases "j = k") auto
    have "c' \<noteq> c" using p[rule_format, OF at(1)] f[of k] at(2) by auto
    then have "of_conn c' (threads y') = of_conn c' (threads y)"
      unfolding t by (intro of_conn_other) (use at(2) in auto)
    then show "list_all answered (of_conn c' (threads y'))" using p ord f unfolding order_inv_def by metis
  qed
qed

lemma order_rearm:
  assumes ph: "phase_inv y" and ord: "order_inv y"
    and at: "phase y i = Some k" "threads y ! k = (c, m, Answered r)"
    and new: "phase y' = (phase y)(i := None)" "threads y' = threads y"
  shows "order_inv y'"
proof -
  have k: "k < length (threads y)" using phase_invD(1)[OF ph at(1)] .
  note o = order_invD[OF ord at k]
  have a: "list_all answered (of_conn c (threads y))" using o(2,3) by (simp add: answered_def)
  show ?thesis unfolding order_inv_def
  proof (intro conjI allI impI)
    fix j k' c' u assume "phase y' j = Some k'" "threads y' ! k' = (c', u)"
    then show "of_conn c' (drop (Suc k') (threads y')) = []" "list_all answered (of_conn c' (take k' (threads y')))"
      using ord new by (auto simp: order_inv_def split: if_splits)
  next
    fix c' assume p: "\<forall>i k. phase y' i = Some k \<longrightarrow> fst (threads y' ! k) \<noteq> c'"
    show "list_all answered (of_conn c' (threads y'))"
    proof (cases "c' = c")
      case True
      then show ?thesis using a new by simp
    next
      case False
      have "\<forall>j k. phase y j = Some k \<longrightarrow> fst (threads y ! k) \<noteq> c'"
      proof (intro allI impI)
        fix j k' assume "phase y j = Some k'"
        then show "fst (threads y ! k') \<noteq> c'"
          using p[rule_format, of j k'] at new False by (cases "j = i") auto
      qed
      then have "list_all answered (of_conn c' (threads y))" using ord unfolding order_inv_def by blast
      then show ?thesis using new by simp
    qed
  qed
qed

lemma system_step_order:
  assumes "system_step y y'" and "phase_inv y" and "dispatch_inv (freeze d (dsp y))" and "order_inv y"
  shows "order_inv y'"
  using assms(1)
proof cases
  case (sys_command i c received m now)
  then show ?thesis by (intro order_command[OF assms(2-4)]) auto
next
  case (sys_section i k c m pc pc' d')
  then show ?thesis by (intro order_section[OF assms(2-4)]) auto
next
  case (sys_rearm i k c m r S' rearmed p)
  then show ?thesis by (intro order_rearm[OF assms(2,4)]) auto
qed (use assms(4) in \<open>simp_all add: order_inv_def\<close>)

text \<open>What a connection sent, what was executed for it, and what it was answered.\<close>

fun point_of :: "string \<times> handler_pc \<Rightarrow> (string \<times> string) list" where
  "point_of (m, pc) = (case promised pc of None \<Rightarrow> [] | Some r \<Rightarrow> [(m, r)])"

fun reply_of :: "string \<times> handler_pc \<Rightarrow> string list" where
  "reply_of (m, pc) = (case pc of Answered r \<Rightarrow> [r] | _ \<Rightarrow> [])"

definition points_on :: "nat \<Rightarrow> System \<Rightarrow> (string \<times> string) list" where
  "points_on c y = map snd (filter (\<lambda>p. fst (threads y ! fst p) = c) (pts y))"

definition replies_sent :: "System \<Rightarrow> bool" where
  "replies_sent y \<longleftrightarrow>
     sent (calls (server_of y)) = map (\<lambda>(c, r). (conn_socket (conn_objects (server_of y) ! c), r)) (replies y) \<and>
     (\<forall>x \<in> set (replies y). fst x < length (conn_objects (server_of y)))"

definition messages_framed :: "System \<Rightarrow> bool" where
  "messages_framed y \<longleftrightarrow> (\<forall>c ps. map fst (of_conn c (threads y)) @ frames (buffer_of (server_of y) c) ps
     = frames '''' (of_conn c (got y) @ ps))"

definition conn_inv :: "System \<Rightarrow> bool" where
  "conn_inv y \<longleftrightarrow>
     (\<forall>c. points_on c y = concat (map point_of (of_conn c (threads y)))) \<and>
     (\<forall>c. of_conn c (replies y) = concat (map reply_of (of_conn c (threads y)))) \<and>
     (\<forall>t \<in> set (threads y). \<forall>m. snd (snd t) = Parsing m \<longrightarrow> m = fst (snd t)) \<and>
     (\<forall>p \<in> set (pts y). fst p < length (threads y))"

lemma running_conn:
  assumes "dispatch_inv (freeze d x)" and "running_job x i c"
  shows "c < length (conn_objects (srv x))"
proof -
  have "c \<in> set (tpool_jobs (srv (freeze d x)))"
    by (rule running_job_queued[where i = i]) (use assms in \<open>simp_all add: dispatch_inv_def\<close>)
  then show ?thesis using frozen_server_inv[OF assms(1)] by (simp add: server_inv_def)
qed

lemma quiet_job_frame:
  assumes "complete_message received c S = None" and "messageHandler received rearmed now c S = Some S'"
    and "c < length (conn_objects S)"
  shows "sent (calls S') = sent (calls S)"
    and "length (conn_objects S') = length (conn_objects S)"
    and "\<forall>j < length (conn_objects S). conn_socket (conn_objects S' ! j) = conn_socket (conn_objects S ! j)"
    and "frames (buffer_of S' j) ps = frames (buffer_of S j) (of_conn j (received_bytes c received) @ ps)"
proof -
  show "length (conn_objects S') = length (conn_objects S)"
    and "\<forall>j < length (conn_objects S). conn_socket (conn_objects S' ! j) = conn_socket (conn_objects S ! j)"
    using handler_frame[OF assms(2)] by simp_all
  let ?s = "conn_socket (conn_objects S ! c)"
  consider (got) bytes T where "received = Received bytes" "T = set_buffer c (commandBuffer (conn_objects S ! c) @ bytes) S"
      "S' = closeConnection ?s T \<or> S' = rearmSocket rearmed ?s T"
      "length (commandBuffer (conn_objects S ! c) @ bytes) > MAX_COMMAND_BUFFER_LENGTH \<or>
        newline \<notin> set (commandBuffer (conn_objects S ! c) @ bytes)"
    | (without) "\<forall>bytes. received \<noteq> Received bytes" "S' = closeConnection ?s S \<or> S' = rearmSocket rearmed ?s S"
    using assms(1,2)
    by (cases received) (auto simp: messageHandler_def complete_message_def Let_def split: if_splits)
  then have "sent (calls S') = sent (calls S) \<and>
      frames (buffer_of S' j) ps = frames (buffer_of S j) (of_conn j (received_bytes c received) @ ps)"
  proof cases
    case got
    have b: "buffer_of S' j = (if j = c then commandBuffer (conn_objects S ! c) @ bytes else buffer_of S j)"
      using got(2,3) assms(3) by (auto simp: buffer_of_def frame_simps)
    show ?thesis using got(1,3,4) b assms(3) unfolding got(2)
      by (auto simp: frame_simps sent_append buffer_of_def)
  next
    case without
    have "received_bytes c received = []" using without(1) by (cases received) auto
    then show ?thesis using without(2) by (auto simp: frame_simps sent_append buffer_of_def)
  qed
  then show "sent (calls S') = sent (calls S)"
    "frames (buffer_of S' j) ps = frames (buffer_of S j) (of_conn j (received_bytes c received) @ ps)" by simp_all
qed

lemma same_conns:
  assumes "length (conn_objects S') = length (conn_objects S)"
    and "\<forall>j < length (conn_objects S). commandBuffer (conn_objects S' ! j) = commandBuffer (conn_objects S ! j)"
  shows "buffer_of S' j = buffer_of S j"
  using assms by (simp add: buffer_of_def)

lemma replies_sent_same:
  assumes "replies_sent y" and "replies y' = replies y" and "sent (calls (server_of y')) = sent (calls (server_of y))"
    and "length (conn_objects (server_of y)) \<le> length (conn_objects (server_of y'))"
    and "\<forall>j < length (conn_objects (server_of y)).
      conn_socket (conn_objects (server_of y') ! j) = conn_socket (conn_objects (server_of y) ! j)"
  shows "replies_sent y'"
  using assms by (fastforce simp: replies_sent_def split_beta)

lemma begin_command_frame:
  "length (conn_objects (begin_command now c S)) = length (conn_objects S)" "calls (begin_command now c S) = calls S"
  "j < length (conn_objects S) \<Longrightarrow>
     conn_socket (conn_objects (begin_command now c S) ! j) = conn_socket (conn_objects S ! j)"
  "c < length (conn_objects S) \<Longrightarrow> buffer_of (begin_command now c S) j = (if j = c then '''' else buffer_of S j)"
  by (auto simp: begin_command_def frame_simps buffer_of_def)

lemma system_step_replies:
  assumes "system_step y y'" and "phase_inv y" and "dispatch_inv (freeze d (dsp y))" and "replies_sent y"
  shows "replies_sent y'"
  using assms(1)
proof cases
  case (sys_quiet x')
  then show ?thesis using quiet_step_frame[OF sys_quiet(2)]
    by (intro replies_sent_same[OF assms(4)]) (auto simp: nth_append)
next
  case (sys_no_command i c received rearmed now S' p)
  have "c < length (conn_objects (end_job c (server_of y)))"
    using running_conn[OF assms(3) sys_no_command(2)] by simp
  from quiet_job_frame(1-3)[OF _ sys_no_command(5) this] show ?thesis
    using sys_no_command(1,4) by (intro replies_sent_same[OF assms(4)]) simp_all
next
  case (sys_command i c received m now)
  then show ?thesis by (intro replies_sent_same[OF assms(4)]) (simp_all add: begin_command_frame)
next
  case (sys_section i k c m pc pc' d')
  have "running_job (dsp y) i c" using phase_invD(2)[OF assms(2) sys_section(2,3)] .
  then have c: "c < length (conn_objects (server_of y))" using running_conn[OF assms(3)] by blast
  show ?thesis
  proof (cases "\<exists>r. pc' = Answered r")
    case True
    then show ?thesis using assms(4) sys_section(1) c
      by (auto simp: replies_sent_def answer_def new_reply_def log_call_def sent_append)
  next
    case False
    then have "answer c pc' (with_db d' (server_of y)) = with_db d' (server_of y)" "new_reply c pc' = []"
      by (auto simp: answer_def new_reply_def split: handler_pc.split)
    then show ?thesis using sys_section(1) by (intro replies_sent_same[OF assms(4)]) simp_all
  qed
next
  case (sys_rearm i k c m r S' rearmed p)
  then show ?thesis
    by (intro replies_sent_same[OF assms(4)]) (auto simp: frame_simps sent_append)
next
  case (sys_dump d')
  then show ?thesis by (intro replies_sent_same[OF assms(4)]) simp_all
next
  case (sys_reset n d')
  then show ?thesis by (intro replies_sent_same[OF assms(4)]) simp_all
qed

lemma system_step_framed:
  assumes "system_step y y'" and "phase_inv y" and "dispatch_inv (freeze d (dsp y))" and "messages_framed y"
  shows "messages_framed y'"
  using assms(1)
proof cases
  case (sys_quiet x')
  then obtain new where "conn_objects (srv x') = conn_objects (server_of y) @ new" "\<forall>u \<in> set new. commandBuffer u = ''''"
    using quiet_step_frame by blast
  then have "buffer_of (srv x') j = buffer_of (server_of y) j" for j
    by (auto simp: buffer_of_def nth_append)
  then show ?thesis using assms(4) sys_quiet(1) by (simp add: messages_framed_def)
next
  case (sys_no_command i c received rearmed now S' p)
  have "c < length (conn_objects (end_job c (server_of y)))"
    using running_conn[OF assms(3) sys_no_command(2)] by simp
  from quiet_job_frame(4)[OF _ sys_no_command(5) this] sys_no_command(4)
  have "frames (buffer_of S' j) ps = frames (buffer_of (server_of y) j) (of_conn j (received_bytes c received) @ ps)" for j ps
    by simp
  then show ?thesis using assms(4) sys_no_command(1) by (simp add: messages_framed_def)
next
  case (sys_command i c received m now)
  have c: "c < length (conn_objects (server_of y))" by (rule running_conn[OF assms(3) sys_command(2)])
  obtain bytes where b: "received = Received bytes" "m = commandBuffer (conn_objects (server_of y) ! c) @ bytes"
      "\<not> (length m > MAX_COMMAND_BUFFER_LENGTH \<or> newline \<notin> set m)"
    using sys_command(4) by (auto simp: complete_message_def Let_def split: recv_result.splits if_splits)
  have "frames (buffer_of (server_of y) c) (bytes # ps) = m # frames '''' ps" for ps
    using b(2,3) c by (simp add: buffer_of_def)
  moreover have "map fst (of_conn j (threads y)) @ frames (buffer_of (server_of y) j) ps = frames '''' (of_conn j (got y) @ ps)" for j ps
    using assms(4) by (simp add: messages_framed_def)
  ultimately have "map fst (of_conn c (threads y)) @ m # frames '''' ps = frames '''' (of_conn c (got y) @ bytes # ps)" for ps
    by metis
  then show ?thesis using assms(4) sys_command(1) b(1) c
    by (simp add: messages_framed_def begin_command_frame)
next
  case (sys_section i k c m pc pc' d')
  have k: "k < length (threads y)" using phase_invD(1)[OF assms(2) sys_section(2)] .
  have "map fst (of_conn j (threads y')) = map fst (of_conn j (threads y))" for j
  proof (cases "j = c")
    case True
    then show ?thesis using of_conn_split[OF k sys_section(3)] sys_section(1) by simp
  next
    case False
    then show ?thesis using sys_section(1,3) by (simp add: of_conn_other)
  qed
  moreover have "buffer_of (server_of y') j = buffer_of (server_of y) j" for j
    using sys_section(1) by (simp add: buffer_of_def answer_frame)
  ultimately show ?thesis using assms(4) sys_section(1) by (simp add: messages_framed_def)
next
  case (sys_rearm i k c m r S' rearmed p)
  have "buffer_of S' j = buffer_of (server_of y) j" for j
    using sys_rearm(4) by (simp add: buffer_of_def frame_simps)
  then show ?thesis using assms(4) sys_rearm(1) by (simp add: messages_framed_def)
next
  case (sys_dump d')
  have "buffer_of (server_of y') j = buffer_of (server_of y) j" for j
    using sys_dump(1) by (simp add: buffer_of_def)
  then show ?thesis using assms(4) sys_dump(1) by (simp add: messages_framed_def)
next
  case (sys_reset n d')
  have "buffer_of (server_of y') j = buffer_of (server_of y) j" for j
    using sys_reset(1) by (simp add: buffer_of_def)
  then show ?thesis using assms(4) sys_reset(1) by (simp add: messages_framed_def)
qed

lemma section_view:
  assumes "race_inv d" and "pc_ok pc" and "handler_section pc d = Some (pc', d')"
    and "\<And>m'. pc = Parsing m' \<Longrightarrow> m' = m"
  shows "point_of (m, pc') = point_of (m, pc) @ map snd (new_point k pc pc')"
    and "reply_of (m, pc') = reply_of (m, pc) @ map snd (new_reply c pc')"
    and "\<And>m'. pc' \<noteq> Parsing m'"
proof -
  have "point_of (m, pc') = point_of (m, pc) @ map snd (new_point k pc pc') \<and>
    reply_of (m, pc') = reply_of (m, pc) @ map snd (new_reply c pc') \<and> (\<forall>m'. pc' \<noteq> Parsing m')"
  proof (cases "\<exists>m'. pc = Parsing m'")
    case True
    then have pc: "pc = Parsing m" using assms(4) by blast
    obtain pc2 d2 where "handler_section (Parsing m) d = Some (pc2, d2)"
        "promised pc2 = Some (fst (respond m (db_store d)))" "\<forall>r. pc2 \<noteq> Answered r"
      by (rule parsing_section[OF assms(1), of m])
    then show ?thesis using assms(3) pc
      by (cases pc') (auto simp: new_point_def new_reply_def)
  next
    case False
    then have "\<And>m'. pc \<noteq> Parsing m'" by blast
    from later_section[OF assms(1,2) this assms(3)]
    have l: "promised pc' = promised pc" "\<And>m'. pc' \<noteq> Parsing m'" "\<And>r. pc \<noteq> Answered r" by blast+
    then show ?thesis by (cases pc; cases pc') (auto simp: new_point_def new_reply_def)
  qed
  then show "point_of (m, pc') = point_of (m, pc) @ map snd (new_point k pc pc')"
    and "reply_of (m, pc') = reply_of (m, pc) @ map snd (new_reply c pc')"
    and "\<And>m'. pc' \<noteq> Parsing m'" by simp_all
qed

lemma conn_inv_same:
  "conn_inv y \<Longrightarrow> threads y' = threads y \<Longrightarrow> pts y' = pts y \<Longrightarrow> replies y' = replies y \<Longrightarrow> conn_inv y'"
  by (simp add: conn_inv_def points_on_def)

lemma system_step_conn:
  assumes "system_step y y'" and "phase_inv y" and "dispatch_inv (freeze d (dsp y))" and "order_inv y"
    and "concurrent_inv s0 (conc_of y)" and "conn_inv y"
  shows "conn_inv y'"
  using assms(1)
proof cases
  case (sys_command i c received m now)
  have "\<forall>p \<in> set (pts y). fst (threads y' ! fst p) = fst (threads y ! fst p)"
    using assms(6) sys_command(1) by (auto simp: conn_inv_def nth_append)
  then have "filter (\<lambda>p. fst (threads y' ! fst p) = j) (pts y) = filter (\<lambda>p. fst (threads y ! fst p) = j) (pts y)" for j
    by (intro filter_cong) auto
  then have "points_on j y' = points_on j y" for j
    using sys_command(1) by (simp add: points_on_def)
  then show ?thesis using assms(6) sys_command(1) by (auto simp: conn_inv_def less_SucI)
next
  case (sys_section i k c m pc pc' d')
  have k: "k < length (threads y)" using phase_invD(1)[OF assms(2) sys_section(2)] .
  note o = order_invD(3)[OF assms(4) sys_section(2,3) k] order_invD(4)[OF assms(4) sys_section(2,3) k, of "(m, pc')"]
  have inv: "(\<forall>c. points_on c y = concat (map point_of (of_conn c (threads y))))"
     "(\<forall>c. of_conn c (replies y) = concat (map reply_of (of_conn c (threads y))))"
     "(\<forall>t \<in> set (threads y). \<forall>m. snd (snd t) = Parsing m \<longrightarrow> m = fst (snd t))"
     "(\<forall>p \<in> set (pts y). fst p < length (threads y))"
    using assms(6) by (simp_all add: conn_inv_def)
  have t: "(c, m, pc) \<in> set (threads y)" using k sys_section(3) by (metis nth_mem)
  have h: "race_inv (db_of (server_of y))" "pc_ok pc"
    using assms(5) k sys_section(3) by (auto simp: concurrent_inv_def conc_of_def list_all_length)
  have m: "\<And>m'. pc = Parsing m' \<Longrightarrow> m' = m" using inv(3) t by fastforce
  note v = section_view(1)[OF h sys_section(4) m, of k] section_view(2)[OF h sys_section(4) m, of c]
    section_view(3)[OF h sys_section(4) m]
  have f: "fst (threads y' ! j) = fst (threads y ! j)" for j
    using sys_section(1,3) k by (cases "j = k") auto
  have "new_point k pc pc' = [] \<or> (\<exists>r. new_point k pc pc' = [(k, r)])"
    by (cases pc) (simp_all add: new_point_def)
  then have pn: "points_on j y' = points_on j y @ (if j = c then map snd (new_point k pc pc') else [])" for j
    using sys_section(1,3) f by (auto simp: points_on_def)
  have rn: "of_conn j (replies y') = of_conn j (replies y) @ (if j = c then map snd (new_reply c pc') else [])" for j
    using sys_section(1) by (cases pc') (simp_all add: new_reply_def)
  have T: "of_conn j (threads y') = (if j = c then of_conn c (take k (threads y)) @ [(m, pc')] else of_conn j (threads y))" for j
    using o(2) sys_section(1,3) by (auto simp: of_conn_other)
  have "points_on j y' = concat (map point_of (of_conn j (threads y')))" for j
    using inv(1)[rule_format, of j] o(1) v(1) by (auto simp: pn T)
  moreover have "of_conn j (replies y') = concat (map reply_of (of_conn j (threads y')))" for j
    using inv(2)[rule_format, of j] o(1) v(2) by (auto simp: rn T)
  moreover have "\<forall>t \<in> set (threads y'). \<forall>m. snd (snd t) = Parsing m \<longrightarrow> m = fst (snd t)"
    using inv(3) v(3) sys_section(1) set_update_subset_insert[of "threads y" k "(c, m, pc')"] by fastforce
  moreover have "\<forall>p \<in> set (pts y'). fst p < length (threads y')"
    using inv(4) sys_section(1) k by (cases pc) (auto simp: new_point_def)
  ultimately show ?thesis by (simp add: conn_inv_def)
qed (simp_all add: conn_inv_same[OF assms(6)])

subsection \<open>The whole invariant\<close>

definition system_inv :: "(string \<rightharpoonup> string) \<Rightarrow> db \<Rightarrow> System \<Rightarrow> bool" where
  "system_inv s0 d0 y \<longleftrightarrow> phase_inv y \<and> dispatch_inv (freeze d0 (dsp y)) \<and> order_inv y \<and>
     concurrent_inv s0 (conc_of y) \<and> conn_inv y \<and> replies_sent y \<and> messages_framed y"

text \<open>What holds of the threads holds in every run, the rest in the runs that spare jobs.\<close>

definition thread_inv :: "(string \<rightharpoonup> string) \<Rightarrow> System \<Rightarrow> bool" where
  "thread_inv s0 y \<longleftrightarrow> phase_inv y \<and> concurrent_inv s0 (conc_of y)"

lemma system_inv_thread: "system_inv s0 d0 y \<Longrightarrow> thread_inv s0 y"
  by (simp add: system_inv_def thread_inv_def)

lemma system_step_thread:
  assumes "system_step y y'" and "thread_inv s0 y"
  shows "thread_inv s0 y'"
proof -
  have i: "phase_inv y" "concurrent_inv s0 (conc_of y)" using assms(2) by (simp_all add: thread_inv_def)
  have "concurrent_inv s0 (conc_of y')"
    using system_step_concurrent[OF assms(1) i(1)] concurrent_step_inv i(2) by metis
  then show ?thesis using system_step_phase[OF assms(1) i(1)] by (simp add: thread_inv_def)
qed

lemma system_step_inv:
  assumes "sparing server_of system_step y y'" and "system_inv s0 d0 y"
  shows "system_inv s0 d0 y'"
proof -
  have step: "system_step y y'" and spares: "spares_jobs (server_of y) (server_of y')"
    using assms(1) by (simp_all add: sparing_def)
  have i: "phase_inv y" "dispatch_inv (freeze d0 (dsp y))" "order_inv y" "concurrent_inv s0 (conc_of y)" "conn_inv y"
      "replies_sent y" "messages_framed y"
    using assms(2) by (simp_all add: system_inv_def)
  have "concurrent_inv s0 (conc_of y')"
    using system_step_concurrent[OF step i(1)] concurrent_step_inv i(4) by metis
  then show ?thesis
    using system_step_phase[OF step i(1)] system_step_frozen[OF step i(1,2) spares]
      system_step_order[OF step i(1-3)] system_step_conn[OF step i(1-5)]
      system_step_replies[OF step i(1,2,6)] system_step_framed[OF step i(1,2,7)]
    by (simp add: system_inv_def)
qed

lemma System_new_inv:
  assumes "server_started S"
  shows "system_inv (HashMap_map (hashMap S)) (db_of S) (System_new S)"
proof -
  have i: "server_inv S" by (rule server_started_inv[OF assms])
  note f = server_started_fresh[OF assms]
  have "freeze (db_of S) (Dispatch_new S) = Dispatch_new S"
    by (simp add: freeze_def Dispatch_new_def)
  then have "dispatch_inv (freeze (db_of S) (Dispatch_new S))" using Dispatch_new_inv[OF assms] by simp
  moreover have "race_inv (db_of S)" "db_store (db_of S) = HashMap_map (hashMap S)"
    using i db_inv_race_inv by (auto simp: server_inv_def db_of_def db_store_def)
  ultimately show ?thesis using f(1,2)
    by (simp add: system_inv_def System_new_def phase_inv_def order_inv_def conn_inv_def points_on_def
        replies_sent_def messages_framed_def conc_of_def concurrent_inv_def real_time_def Dispatch_new_def
        buffer_of_def)
qed

lemma system_reachable:
  assumes "server_started S" and "(sparing server_of system_step)\<^sup>*\<^sup>* (System_new S) y"
  shows "system_inv (HashMap_map (hashMap S)) (db_of S) y"
  using assms(2) by (induction rule: rtranclp_induct) (rule System_new_inv[OF assms(1)], rule system_step_inv)

lemma system_threads:
  assumes "server_started S" and "system_step\<^sup>*\<^sup>* (System_new S) y"
  shows "thread_inv (HashMap_map (hashMap S)) y"
  using assms(2)
proof (induction rule: rtranclp_induct)
  case base
  show ?case using System_new_inv[OF assms(1)] by (rule system_inv_thread)
qed (rule system_step_thread)

subsection \<open>Properties\<close>

definition one_short :: "'a list \<Rightarrow> 'a list \<Rightarrow> bool" where
  "one_short xs ys \<longleftrightarrow> ys = xs \<or> (\<exists>y. ys = xs @ [y])"

definition handled_now :: "System \<Rightarrow> nat \<Rightarrow> bool" where
  "handled_now y c \<longleftrightarrow> (\<exists>i k. phase y i = Some k \<and> fst (threads y ! k) = c)"

lemma threads_of_conn:
  assumes "phase_inv y" and "order_inv y"
  obtains as bs where "of_conn c (threads y) = as @ bs" "list_all answered as" "length bs \<le> 1"
    "\<not> handled_now y c \<longrightarrow> bs = []"
proof (cases "handled_now y c")
  case True
  then obtain i k t where k: "phase y i = Some k" "threads y ! k = (c, t)"
    by (metis handled_now_def prod.collapse)
  have "k < length (threads y)" by (rule phase_invD(1)[OF assms(1) k(1)])
  from order_invD(2,3)[OF assms(2) k this] show thesis using True by (intro that[of _ "[t]"]) auto
next
  case False
  then have "list_all answered (of_conn c (threads y))"
    using assms(2) unfolding order_inv_def handled_now_def by blast
  then show thesis by (intro that[of _ "[]"]) auto
qed

lemma answered_views:
  "list_all answered as \<Longrightarrow> map fst (concat (map point_of as)) = map fst as"
  "list_all answered as \<Longrightarrow> concat (map reply_of as) = map snd (concat (map point_of as))"
  by (induction as) (auto simp: answered_def)

lemma views_one_short:
  assumes "list_all answered as" and "length bs \<le> 1"
  shows "one_short (map fst (concat (map point_of (as @ bs)))) (map fst (as @ bs))"
    and "one_short (concat (map reply_of (as @ bs))) (map snd (concat (map point_of (as @ bs))))"
proof -
  have v: "map fst (concat (map point_of as)) = map fst as" "concat (map reply_of as) = map snd (concat (map point_of as))"
    using answered_views[OF assms(1)] by simp_all
  consider "bs = []" | m pc where "bs = [(m, pc)]" using assms(2) by (cases bs) (auto simp: length_Suc_conv)
  then have "one_short (map fst (concat (map point_of (as @ bs)))) (map fst (as @ bs)) \<and>
    one_short (concat (map reply_of (as @ bs))) (map snd (concat (map point_of (as @ bs))))"
  proof cases
    case 1
    then show ?thesis using v by (simp add: one_short_def)
  next
    case (2 m pc)
    then show ?thesis using v by (cases pc) (simp_all add: one_short_def)
  qed
  then show "one_short (map fst (concat (map point_of (as @ bs)))) (map fst (as @ bs))"
    and "one_short (concat (map reply_of (as @ bs))) (map snd (concat (map point_of (as @ bs))))" by simp_all
qed

text \<open>The sequence is that of the points at which the messages passed the map.\<close>

lemma system_points:
  assumes "server_started S0" and "(sparing server_of system_step)\<^sup>*\<^sup>* (System_new S0) y"
  shows "distinct (map fst (pts y)) \<and> real_time (hist y) (map fst (pts y)) \<and>
     respond_all (map (\<lambda>(k, m, r). m) (pts y)) (HashMap_map (hashMap S0)) =
       (map (\<lambda>(k, m, r). r) (pts y), HashMap_map (hashMap (server_of y))) \<and>
     sent (calls (server_of y)) = map (\<lambda>(c, r). (conn_socket (conn_objects (server_of y) ! c), r)) (replies y) \<and>
     (\<forall>c. let mine = filter (\<lambda>(k, m, r). fst (threads y ! k) = c) (pts y);
           messages = map (\<lambda>(k, m, r). m) mine; responses = map (\<lambda>(k, m, r). r) mine in
        one_short messages (frames '''' (of_conn c (got y))) \<and> one_short (of_conn c (replies y)) responses \<and>
        (\<not> handled_now y c \<longrightarrow>
           messages = frames '''' (of_conn c (got y)) \<and> of_conn c (replies y) = responses))"
proof -
  have i: "phase_inv y" "order_inv y" "concurrent_inv (HashMap_map (hashMap S0)) (conc_of y)" "conn_inv y"
      "replies_sent y" "messages_framed y"
    using system_reachable[OF assms] by (simp_all add: system_inv_def)
  have c: "distinct (map fst (pts y))" "real_time (hist y) (map fst (pts y))"
     "respond_all (map (\<lambda>(k, m, r). m) (pts y)) (HashMap_map (hashMap S0)) =
       (map (\<lambda>(k, m, r). r) (pts y), HashMap_map (hashMap (server_of y)))"
    using i(3) by (simp_all add: concurrent_inv_def conc_of_def db_store_def db_of_def split_beta')
  have "let mine = filter (\<lambda>(k, m, r). fst (threads y ! k) = c) (pts y);
           messages = map (\<lambda>(k, m, r). m) mine; responses = map (\<lambda>(k, m, r). r) mine in
        one_short messages (frames '''' (of_conn c (got y))) \<and> one_short (of_conn c (replies y)) responses \<and>
        (\<not> handled_now y c \<longrightarrow>
           messages = frames '''' (of_conn c (got y)) \<and> of_conn c (replies y) = responses)" for c
  proof -
    obtain as bs where t: "of_conn c (threads y) = as @ bs" "list_all answered as" "length bs \<le> 1"
        "\<not> handled_now y c \<longrightarrow> bs = []"
      by (rule threads_of_conn[OF i(1,2), of c])
    have m: "map fst (as @ bs) = frames '''' (of_conn c (got y))"
      using i(6) t(1) unfolding messages_framed_def by (metis append_Nil2 frames.simps(1))
    have p: "points_on c y = concat (map point_of (as @ bs))"
      and r: "of_conn c (replies y) = concat (map reply_of (as @ bs))"
      using i(4) t(1) by (simp_all add: conn_inv_def)
    have mine: "map (\<lambda>(k, m, r). m) (filter (\<lambda>(k, m, r). fst (threads y ! k) = c) (pts y)) = map fst (points_on c y)"
      "map (\<lambda>(k, m, r). r) (filter (\<lambda>(k, m, r). fst (threads y ! k) = c) (pts y)) = map snd (points_on c y)"
      by (simp_all add: points_on_def split_beta')
    have "\<not> handled_now y c \<Longrightarrow> map fst (points_on c y) = frames '''' (of_conn c (got y)) \<and>
        of_conn c (replies y) = map snd (points_on c y)"
      using t(4) answered_views[OF t(2)] m p r by simp
    then show ?thesis
      using views_one_short[OF t(2,3)] unfolding Let_def mine p[symmetric] m[symmetric] r[symmetric] by blast
  qed
  then show ?thesis using c i(5) unfolding replies_sent_def by blast
qed


text \<open>The example of \<open>Dispatch\<close>, and then the insert of the client, section by section.\<close>

lemma plain_quiet: "plain_step\<^sup>*\<^sup>* x x' \<Longrightarrow> (sparing server_of system_step)\<^sup>*\<^sup>* (y\<lparr>dsp := x\<rparr>) (y\<lparr>dsp := x'\<rparr>)"
proof (induction rule: rtranclp_induct)
  case (step x1 x2)
  have "system_step (y\<lparr>dsp := x1\<rparr>) ((y\<lparr>dsp := x1\<rparr>)\<lparr>dsp := x2\<rparr>)"
    by (rule sys_quiet) (use step(2) in \<open>simp add: plain_step_def quiet_step_def sparing_def\<close>)
  then have "sparing server_of system_step (y\<lparr>dsp := x1\<rparr>) (y\<lparr>dsp := x2\<rparr>)"
    using step(2) by (simp add: plain_step_def sparing_def)
  with step.IH show ?case by (rule rtranclp.rtrancl_into_rtrancl)
qed simp

lemma example_system:
  obtains S0 y where "server_started S0" "(sparing server_of system_step)\<^sup>*\<^sup>* (System_new S0) y" "running_job (dsp y) 0 0"
    "phase y = [0 \<mapsto> 0]" "threads y = [(0, ''INSERT a 1'' @ [newline], LoggingInsert ''a'' ''1'')]"
    "got y = [(0, ''INSERT a 1'' @ [newline])]" "replies y = []"
    "HashMap_map (hashMap S0) = Map.empty" "HashMap_map (hashMap (server_of y)) = [''a'' \<mapsto> ''1'']" "dumped y = None"
proof -
  let ?m = "''INSERT a 1'' @ [newline]"
  obtain S0 x where x: "server_started S0" "plain_step\<^sup>*\<^sup>* (Dispatch_new S0) x" "running_job x 0 0"
    "conn_socket (conn_objects (srv x) ! 0) = 7" "commandBuffer (conn_objects (srv x) ! 0) = ''''"
    "HashMap_map (hashMap (srv x)) = Map.empty" "hashMap S0 = hashMap (srv x)" "workers (pool x) ! 0 = Running 0"
    by (rule example_plain)
  define y0 where "y0 = (System_new S0)\<lparr>dsp := x\<rparr>"
  have r0: "(sparing server_of system_step)\<^sup>*\<^sup>* (System_new S0) y0"
    using plain_quiet[OF x(2), of "System_new S0"] by (simp add: y0_def System_new_def)
  define y1 where "y1 = y0\<lparr>dsp := x\<lparr>srv := begin_command 0 0 (srv x)\<rparr>, phase := [0 \<mapsto> 0],
      threads := [(0, ?m, Parsing ?m)], hist := [Invoked 0 ?m], got := [(0, ?m)]\<rparr>"
  have l: "length ?m \<le> MAX_COMMAND_BUFFER_LENGTH" "newline \<in> set ?m" by (simp_all add: MAX_COMMAND_BUFFER_LENGTH_def)
  have c: "complete_message (Received ?m) 0 (srv x) = Some ?m"
    using l by (simp add: complete_message_def x(5))
  have "system_step y0 y1"
    using sys_command[of y0 0 0 "Received ?m" ?m 0] c x(3) by (simp add: y0_def y1_def System_new_def)
  then have s1: "sparing server_of system_step y0 y1" by (simp add: sparing_def spares_same y0_def y1_def)
  have r1: "(sparing server_of system_step)\<^sup>*\<^sup>* (System_new S0) y1" using r0 s1 by (rule rtranclp.rtrancl_into_rtrancl)
  have ri: "race_inv (db_of (server_of y1))"
    using system_reachable[OF x(1) r1] by (simp add: system_inv_def concurrent_inv_def conc_of_def)
  have w: "words3 ?m = (''INSERT'', ''a'', ''1'')" "word ''a''" "word ''1''" by code_simp+
  obtain d where d: "db_event_step (InsertMem ''a'' ''1'') (db_of (server_of y1)) = Some d"
      "db_store d = fst (shadow_step (InsertMem ''a'' ''1'') (shadow (db_of (server_of y1))))"
    using event_store[OF ri, of "InsertMem ''a'' ''1''"] w(2,3) by (metis event_ok.simps(1))
  have h: "handler_section (Parsing ?m) (db_of (server_of y1)) = Some (LoggingInsert ''a'' ''1'', d)"
    unfolding handler_section_words w using d(1) by simp
  have st: "db_store d = [''a'' \<mapsto> ''1'']"
    using d(2) x(6) by (simp only: shadow_mem_step) (simp add: y1_def db_of_def db_store_def begin_command_def frame_simps)
  let ?y2 = "y1\<lparr>dsp := (dsp y1)\<lparr>srv := answer 0 (LoggingInsert ''a'' ''1'') (with_db d (server_of y1))\<rparr>,
       threads := (threads y1)[0 := (0, ?m, LoggingInsert ''a'' ''1'')],
       hist := hist y1 @ new_response 0 (LoggingInsert ''a'' ''1''),
       pts := pts y1 @ new_point 0 (Parsing ?m) (LoggingInsert ''a'' ''1''),
       replies := replies y1 @ new_reply 0 (LoggingInsert ''a'' ''1'')\<rparr>"
  have "system_step y1 ?y2"
    by (rule sys_section[where i = 0]) (use h in \<open>simp_all add: y1_def\<close>)
  then have "sparing server_of system_step y1 ?y2"
    by (simp add: sparing_def spares_same answer_def log_call_def)
  with r1 have "(sparing server_of system_step)\<^sup>*\<^sup>* (System_new S0) ?y2" by (rule rtranclp.rtrancl_into_rtrancl)
  then show thesis
    by (rule that[OF x(1)])
       (use x(3,6,7) st in \<open>simp_all add: y1_def y0_def System_new_def running_job_def new_reply_def answer_frame db_store_def\<close>)
qed


subsection \<open>Progress\<close>

lemma system_step_alive:
  assumes "system_step y y'" and "phase_inv y" and "pool_alive (dsp y)"
  shows "pool_alive (dsp y')"
  using assms(1)
proof cases
  case (sys_quiet x')
  then show ?thesis using dispatch_step_alive[OF _ assms(3), of x'] by (simp add: quiet_step_def)
next
  case (sys_no_command i c received rearmed now S' p)
  then show ?thesis using worker_action_alive[OF sys_no_command(6)] assms(3) by (simp add: pool_alive_def)
next
  case (sys_rearm i k c m r S' rearmed p)
  then show ?thesis using worker_action_alive[OF sys_rearm(5)] assms(3) by (simp add: pool_alive_def)
qed (use assms(3) in \<open>simp_all add: pool_alive_def\<close>)

lemma system_reachable_alive:
  assumes "server_started S" and "system_step\<^sup>*\<^sup>* (System_new S) y"
  shows "pool_alive (dsp y)"
  using assms(2)
proof (induction rule: rtranclp_induct)
  case base
  then show ?case using Dispatch_new_alive by (simp add: System_new_def)
next
  case (step y z)
  have "phase_inv y" using system_threads[OF assms(1) step(1)] by (simp add: thread_inv_def)
  then show ?case using system_step_alive step by blast
qed

text \<open>What is left of a worker's job: at most a section for the message, three, and the re-arming.\<close>

definition job_left :: "System \<Rightarrow> nat \<Rightarrow> nat" where
  "job_left y i = (case phase y i of None \<Rightarrow> 5 | Some k \<Rightarrow> Suc (sections_left (snd (snd (threads y ! k)))))"

lemma running_returns:
  assumes "pool_alive x" and "running_job x i c"
  obtains p where "worker_action i Returns (pool x) = Some p"
  using assms that by (auto simp: worker_action_def running_job_def pool_alive_def)

end
