(* ===== verification/Sending.thy ===== *)
theory Sending
  imports Linearize "HOL-Library.Sublist"
begin

text \<open>
  What \<open>send\<close> makes of the responses.  The handler calls it on a non-blocking socket and
  ignores its result (\<open>src/Server/Server.cpp\<close> lines 285, 294, 308, 318 and 325): the system may
  take a part of the response, or nothing, and a socket whose peer is gone raises \<open>SIGPIPE\<close>,
  for which \<open>src/main.cpp\<close> (lines 28 and 29) installs no handler.  The models without this theory
  record the responses that are handed to \<open>send\<close>; here are the bytes that leave the process.
\<close>

subsection \<open>Signals\<close>

datatype signal = SIGTERM | SIGINT | SIGPIPE

datatype disposition = DefaultAction | Handler | Ignored

text \<open>After \<open>std::signal (SIGTERM, handleSignal)\<close> and \<open>std::signal (SIGINT, handleSignal)\<close>.\<close>

definition main_signals :: "signal \<Rightarrow> disposition" where
  "main_signals = ((\<lambda>_. DefaultAction)(SIGTERM := Handler))(SIGINT := Handler)"

text \<open>The three signals end a process that leaves them their default action.\<close>

definition ends_process :: "(signal \<Rightarrow> disposition) \<Rightarrow> signal \<Rightarrow> bool" where
  "ends_process dispositions s \<longleftrightarrow> dispositions s = DefaultAction"

subsection \<open>One call\<close>

text \<open>
  What the system answers: it takes so many bytes, it has no room, the connection is gone, or
  another error.
\<close>

datatype send_result = Taken nat | SendWouldBlock | BrokenPipe | SendError

text \<open>A process that was ended leaves its files.\<close>

datatype 'a process = Alive 'a | Killed Persistence

fun bytes_taken :: "send_result \<Rightarrow> string \<Rightarrow> string" where
  "bytes_taken (Taken n) response = take n response"
| "bytes_taken _ response = ''''"

text \<open>
  What POSIX documents of \<open>send\<close> and of signals, with the system's answer \<open>r\<close> as an argument: the
  bytes taken are a prefix, and a broken pipe raises \<open>SIGPIPE\<close>.  Nothing of this is code of the
  repository, which only makes the call.
\<close>

definition send_response :: "(signal \<Rightarrow> disposition) \<Rightarrow> send_result \<Rightarrow> string \<Rightarrow> string option" where
  "send_response dispositions r response =
     (if r = BrokenPipe \<and> ends_process dispositions SIGPIPE then None
      else Some (bytes_taken r response))"

definition taken_whole :: "send_result \<Rightarrow> string \<Rightarrow> bool" where
  "taken_whole r response \<longleftrightarrow> (\<exists>n. r = Taken n \<and> length response \<le> n)"

subsection \<open>The server and its sockets\<close>

text \<open>
  \<open>wire s\<close> is what the system took for the connection on socket \<open>s\<close>, since it was accepted;
  \<open>offered\<close> is a history variable: the responses with the answers of \<open>send\<close>.
\<close>

record Wire =
  server :: Server
  wire :: "SocketType \<Rightarrow> string"
  offered :: "(SocketType \<times> string \<times> send_result) list"

definition new_sends :: "Server \<Rightarrow> Server \<Rightarrow> (SocketType \<times> string) list" where
  "new_sends S S' = drop (length (sent (calls S))) (sent (calls S'))"

text \<open>
  A step of the server whose \<open>send\<close> is answered by \<open>r\<close>.  The handler sends at most once; what
  follows, the re-arming, does not depend on the answer.
\<close>

definition deliver :: "(signal \<Rightarrow> disposition) \<Rightarrow> send_result \<Rightarrow> Server \<Rightarrow> Wire \<Rightarrow> Wire process" where
  "deliver dispositions r S' W =
     (case new_sends (server W) S' of
        [] \<Rightarrow> Alive (W\<lparr>server := S'\<rparr>)
      | (s, response) # _ \<Rightarrow>
          (case send_response dispositions r response of
             None \<Rightarrow> Killed (pers S')
           | Some bytes \<Rightarrow> Alive (W\<lparr>server := S', wire := (wire W)(s := wire W s @ bytes),
               offered := offered W @ [(s, response, r)]\<rparr>)))"

text \<open>A socket that \<open>accept\<close> returns starts a new stream.\<close>

fun fresh_stream :: "server_event \<Rightarrow> (SocketType \<Rightarrow> string) \<Rightarrow> SocketType \<Rightarrow> string" where
  "fresh_stream (EvAccept a) w = w(acc_socket a := '''')"
| "fresh_stream _ w = w"

fun still_offered :: "server_event \<Rightarrow> (SocketType \<times> 'a) list \<Rightarrow> (SocketType \<times> 'a) list" where
  "still_offered (EvAccept a) os = filter (\<lambda>x. fst x \<noteq> acc_socket a) os"
| "still_offered _ os = os"

definition wire_step ::
  "(signal \<Rightarrow> disposition) \<Rightarrow> server_event \<times> send_result \<Rightarrow> Wire \<Rightarrow> Wire process option" where
  "wire_step dispositions er W =
     map_option (\<lambda>S'. deliver dispositions (snd er) S'
         (W\<lparr>wire := fresh_stream (fst er) (wire W), offered := still_offered (fst er) (offered W)\<rparr>))
       (server_event_step (fst er) (server W))"

fun wire_run ::
  "(signal \<Rightarrow> disposition) \<Rightarrow> (server_event \<times> send_result) list \<Rightarrow> Wire \<Rightarrow> Wire process option" where
  "wire_run dispositions [] W = Some (Alive W)"
| "wire_run dispositions (er # ers) W =
     (case wire_step dispositions er W of
        None \<Rightarrow> None
      | Some (Killed files) \<Rightarrow> Some (Killed files)
      | Some (Alive W') \<Rightarrow> wire_run dispositions ers W')"

definition Wire_start :: "Server \<Rightarrow> Wire" where
  "Wire_start S = \<lparr>server = S, wire = (\<lambda>_. ''''), offered = []\<rparr>"

subsection \<open>Lines and parts of lines\<close>

definition response_line :: "string \<Rightarrow> bool" where
  "response_line r \<longleftrightarrow> (\<exists>b. r = b @ [newline] \<and> newline \<notin> set b)"

text \<open>What a client that reads line by line has read; the rest of the stream is pending.\<close>

fun client_lines :: "string \<Rightarrow> string \<Rightarrow> string list" where
  "client_lines acc [] = []"
| "client_lines acc (c # cs) =
     (if c = newline then (acc @ [c]) # client_lines '''' cs else client_lines (acc @ [c]) cs)"

lemma client_lines_body: "newline \<notin> set b \<Longrightarrow> client_lines acc (b @ cs) = client_lines (acc @ b) cs"
  by (induction b arbitrary: acc) auto

lemma client_lines_responses:
  "list_all response_line rs \<Longrightarrow> client_lines '''' (concat rs) = rs"
  by (induction rs) (auto simp: response_line_def client_lines_body)

lemma length_client_lines: "length (client_lines acc cs) = count_list cs newline"
  by (induction cs arbitrary: acc) auto

lemma count_bytes_taken:
  assumes "response_line m"
  shows "count_list (bytes_taken r m) newline = (if taken_whole r m then 1 else 0)"
proof -
  obtain b where b: "m = b @ [newline]" "newline \<notin> set b" using assms by (auto simp: response_line_def)
  have "count_list (take n b) newline = 0" for n
    using b(2) by (auto simp: count_list_0_iff dest: in_set_takeD)
  then show ?thesis using b by (cases r) (auto simp: taken_whole_def take_Cons')
qed

lemma bytes_taken_whole: "taken_whole r m \<Longrightarrow> bytes_taken r m = m"
  by (auto simp: taken_whole_def)

text \<open>The stream of a sequence of responses, given what \<open>send\<close> took of each.\<close>

definition stream :: "(string \<times> send_result) list \<Rightarrow> string" where
  "stream os = concat (map (\<lambda>(m, r). bytes_taken r m) os)"

lemma stream_append [simp]: "stream (os @ os') = stream os @ stream os'"
  by (simp add: stream_def)

lemma stream_single [simp]: "stream [(m, r)] = bytes_taken r m"
  by (simp add: stream_def)

lemma stream_Nil [simp]: "stream [] = ''''"
  by (simp add: stream_def)

lemma stream_whole: "list_all (\<lambda>(m, r). taken_whole r m) os \<Longrightarrow> stream os = concat (map fst os)"
  by (induction os) (auto simp: stream_def bytes_taken_whole)

lemma lines_of_stream:
  assumes "list_all response_line (map fst os)"
  shows "length (client_lines '''' (stream os)) = length (filter (\<lambda>(m, r). taken_whole r m) os)"
    and "client_lines '''' (stream os) = map fst os \<longleftrightarrow> list_all (\<lambda>(m, r). taken_whole r m) os"
proof -
  show n: "length (client_lines '''' (stream os)) = length (filter (\<lambda>(m, r). taken_whole r m) os)"
    using assms unfolding length_client_lines
    by (induction os) (auto simp: stream_def count_bytes_taken)
  show "client_lines '''' (stream os) = map fst os \<longleftrightarrow> list_all (\<lambda>(m, r). taken_whole r m) os" (is "?l = ?r")
  proof
    assume ?l
    then have "length (filter (\<lambda>(m, r). taken_whole r m) os) = length os"
      using n by (metis length_map)
    then show ?r by (metis filter_id_conv length_filter_less list.pred_set nat_less_le)
  next
    assume ?r
    then show ?l using stream_whole client_lines_responses assms by metis
  qed
qed

text \<open>The protocol's responses are lines.\<close>

lemma response_lineI: "newline \<notin> set b \<Longrightarrow> response_line (b @ [newline])"
  by (auto simp: response_line_def)

lemma respond_line:
  assumes "clean_store s"
  shows "response_line (fst (respond m s))" and "clean_store (snd (respond m s))"
proof -
  obtain c k v where w: "words3 m = (c, k, v)" by (cases "words3 m")
  have ok: "v = [] \<or> word k \<and> word v" using words3_words[OF w] by blast
  have v: "newline \<notin> set x" if "s k = Some x" for x
    using assms that by (auto simp: clean_store_def dest: word_no_newline)
  have t: "newline \<notin> set ''Empty Value Recieved, Try again''" "newline \<notin> set ''Insert command was successful''"
    "newline \<notin> set ''Get command was successful: ''" "newline \<notin> set ''Get command was successful but key dont exist''"
    "newline \<notin> set ''Delete command was successful''" "newline \<notin> set ''No command was received''"
    by (code_simp)+
  have g: "response_line (''Get command was successful: '' @ x @ [newline])" if "s k = Some x" for x
    using response_lineI[of "''Get command was successful: '' @ x"] t(3) v[OF that] by simp
  have i: "fst (respond m s) \<in> {''Empty Value Recieved, Try again'' @ [newline],
      ''Insert command was successful'' @ [newline], ''Get command was successful but key dont exist'' @ [newline],
      ''Delete command was successful'' @ [newline], ''No command was received'' @ [newline]}
      \<or> (\<exists>x. s k = Some x \<and> fst (respond m s) = ''Get command was successful: '' @ x @ [newline])"
    by (simp add: respond_def w split: option.split)
  then show "response_line (fst (respond m s))"
    by (elim disjE exE conjE insertE) (simp_all only: g t(1,2,4,5,6)[THEN response_lineI] empty_iff)
  show "clean_store (snd (respond m s))"
    using assms ok by (auto simp: respond_def w clean_store_update split: option.split)
qed

lemma respond_all_lines:
  "clean_store s \<Longrightarrow> list_all response_line (fst (respond_all ms s))"
proof (induction ms arbitrary: s)
  case (Cons m ms)
  then show ?case using respond_line[OF Cons.prems, of m] Cons.IH[of "snd (respond m s)"]
    by (simp add: split_beta)
qed simp

subsection \<open>A step sends at most one response\<close>

lemma sends_at_most_once:
  assumes "server_inv S" and "server_event_step e S = Some S'"
  shows "sent (calls S') = sent (calls S) @ new_sends S S' \<and> length (new_sends S S') \<le> 1 \<and>
    ((\<forall>received rearmed now c. e \<noteq> EvJob received rearmed now c) \<longrightarrow> new_sends S S' = [])"
proof -
  have quiet: "sent (calls S') = sent (calls S) @ new_sends S S' \<and> new_sends S S' = []"
    if "calls S' = calls S @ cs" "sent cs = []" for cs
    using that by (simp add: new_sends_def sent_append)
  show ?thesis
  proof (cases e)
    case (EvJob received rearmed now c)
    let ?S = "S\<lparr>tpool_jobs := remove1 c (tpool_jobs S)\<rparr>"
    have c: "c \<in> set (tpool_jobs S)" and h: "messageHandler received rearmed now c ?S = Some S'"
      using assms(2) EvJob by (auto split: if_splits)
    have i: "server_inv ?S"
      by (rule server_inv_fewer[OF assms(1)])
         (use assms(1) in \<open>auto simp: server_inv_def dest: subsetD[OF set_remove1_subset]\<close>)
    have "c < length (conn_objects ?S)" using c assms(1) by (simp add: server_inv_def)
    let ?s = "conn_socket (conn_objects S ! c)"
    obtain sends cs where cs: "calls S' = calls S @ sends @ cs"
        "sends = [] \<or> (\<exists>r. sends = [Send ?s r])" "set cs \<subseteq> {EL_Rearm ?s, EL_Remove ?s, Close ?s}"
      using handler_calls_shape[OF h i \<open>c < length (conn_objects ?S)\<close>] by auto
    have "sent cs = []" using cs(3) by (intro sent_none) (auto simp: list_all_iff)
    then show ?thesis using cs(1,2) EvJob by (auto simp: new_sends_def sent_append)
  next
    case (EvAccept a)
    then show ?thesis using accept_quiet[of a S] assms(2) quiet by auto
  next
    case (EvRound waited)
    then show ?thesis using round_quiet[of waited S] assms(2) quiet by auto
  next
    case (EvCleanup order)
    then show ?thesis using cleanup_quiet[of order "userSessionManager S" S] assms(2) quiet[of "[]"]
      by (auto split: prod.splits)
  next
    case EvSnapshot
    then show ?thesis using assms(2) quiet[of "[]"] by (auto split: option.splits)
  next
    case (EvStop order)
    then show ?thesis using stop_quiet[of order S] assms(2) quiet by auto
  qed
qed

subsection \<open>Runs with what the system takes\<close>

definition wire_ok :: "Wire \<Rightarrow> bool" where
  "wire_ok W \<longleftrightarrow> (\<forall>s. wire W s = stream (map snd (filter (\<lambda>x. fst x = s) (offered W))))"

lemma Wire_start_ok: "wire_ok (Wire_start S)"
  by (simp add: wire_ok_def Wire_start_def)

definition reaccepts :: "SocketType \<Rightarrow> server_event \<Rightarrow> bool" where
  "reaccepts s e \<longleftrightarrow> (\<exists>a. e = EvAccept a \<and> acc_socket a = s)"

lemma fresh_stream_ok:
  assumes "wire_ok W"
  shows "wire_ok (W\<lparr>wire := fresh_stream e (wire W), offered := still_offered e (offered W)\<rparr>)"
  using assms by (cases e) (auto simp: wire_ok_def filter_filter intro!: arg_cong[of _ _ stream] arg_cong[of _ _ "map snd"] filter_cong)

lemma still_offered_filter:
  "filter (\<lambda>x. fst x = s) (still_offered e os) = (if reaccepts s e then [] else filter (\<lambda>x. fst x = s) os)"
  by (cases e) (auto simp: reaccepts_def filter_empty_conv intro!: filter_cong)

lemma wire_step_cases:
  assumes "server_inv (server W)" and "wire_step disp (e, r) W = Some R"
  obtains S' where "server_event_step e (server W) = Some S'" "server_inv S'"
    "R = Killed (pers S') \<and> r = BrokenPipe \<and> ends_process disp SIGPIPE \<or>
     (\<exists>W' new. R = Alive W' \<and> server W' = S' \<and> (wire_ok W \<longrightarrow> wire_ok W') \<and> length new \<le> 1 \<and>
       offered W' = still_offered e (offered W) @ map (\<lambda>(s, m). (s, m, r)) new \<and>
       sent (calls S') = sent (calls (server W)) @ new)"
proof -
  obtain S' where S': "server_event_step e (server W) = Some S'"
      "R = deliver disp r S' (W\<lparr>wire := fresh_stream e (wire W), offered := still_offered e (offered W)\<rparr>)"
    using assms(2) by (auto simp: wire_step_def)
  have i: "server_inv S'" by (rule answers_inv[OF assms(1) S'(1)])
  note n = sends_at_most_once[OF assms(1) S'(1)]
  show thesis
  proof (cases "new_sends (server W) S'")
    case Nil
    then have "\<exists>W' new. R = Alive W' \<and> server W' = S' \<and> (wire_ok W \<longrightarrow> wire_ok W') \<and> length new \<le> 1 \<and>
       offered W' = still_offered e (offered W) @ map (\<lambda>(s, m). (s, m, r)) new \<and>
       sent (calls S') = sent (calls (server W)) @ new"
      using S'(2) n fresh_stream_ok[of W e]
      by (intro exI[of _ "W\<lparr>wire := fresh_stream e (wire W), offered := still_offered e (offered W), server := S'\<rparr>"] exI[of _ "[]"])
         (auto simp: deliver_def wire_ok_def)
    then show thesis using that[OF S'(1) i] by blast
  next
    case (Cons sm rest)
    obtain s m where sm: "sm = (s, m)" by (cases sm)
    have one: "new_sends (server W) S' = [(s, m)]" using n Cons sm by simp
    show thesis
    proof (cases "r = BrokenPipe \<and> ends_process disp SIGPIPE")
      case True
      then have "R = Killed (pers S')" using S'(2) one by (simp add: deliver_def send_response_def)
      then show thesis using that[OF S'(1) i] True by blast
    next
      case False
      let ?W = "W\<lparr>wire := fresh_stream e (wire W), offered := still_offered e (offered W)\<rparr>"
      let ?W' = "?W\<lparr>server := S', wire := (wire ?W)(s := wire ?W s @ bytes_taken r m), offered := offered ?W @ [(s, m, r)]\<rparr>"
      have R: "R = Alive ?W'" using S'(2) one False by (auto simp: deliver_def send_response_def)
      have "wire_ok ?W'" if "wire_ok W"
        using fresh_stream_ok[OF that, of e] by (auto simp: wire_ok_def)
      then show thesis using that[OF S'(1) i] R n one
        by (intro that[OF S'(1) i]) (auto intro!: exI[of _ "[(s, m)]"])
    qed
  qed
qed

text \<open>The responses that a run offers on one socket: messages with what the system did with them.\<close>

definition offers_on :: "int \<Rightarrow> Wire \<Rightarrow> Wire \<Rightarrow> (string \<times> send_result) list \<Rightarrow> bool" where
  "offers_on s W W' os \<longleftrightarrow>
     filter (\<lambda>x. fst x = s) (offered W') = filter (\<lambda>x. fst x = s) (offered W) @ map (Pair s) os \<and>
     filter (\<lambda>x. fst x = s) (sent (calls (server W'))) =
       filter (\<lambda>x. fst x = s) (sent (calls (server W))) @ map (\<lambda>(m, r). (s, m)) os"

lemma wire_run_alive:
  assumes "wire_run disp ers W = Some (Alive W')" and "server_inv (server W)"
  shows "run_ops server_event_step (map fst ers) (server W) = Some (server W')"
    and "wire_ok W \<Longrightarrow> wire_ok W'"
    and "list_all (\<lambda>er. \<not> reaccepts s (fst er)) ers \<Longrightarrow>
      \<exists>os. offers_on s W W' os \<and> subseq (map snd os) (map snd ers)"
proof -
  have "run_ops server_event_step (map fst ers) (server W) = Some (server W') \<and> (wire_ok W \<longrightarrow> wire_ok W') \<and>
    (list_all (\<lambda>er. \<not> reaccepts s (fst er)) ers \<longrightarrow>
      (\<exists>os. offers_on s W W' os \<and> subseq (map snd os) (map snd ers)))"
    using assms
  proof (induction ers arbitrary: W)
    case (Cons er ers)
    obtain e r where er: "er = (e, r)" by (cases er)
    obtain W1 where W1: "wire_step disp (e, r) W = Some (Alive W1)" "wire_run disp ers W1 = Some (Alive W')"
      using Cons.prems(1) er by (auto split: option.splits process.splits)
    obtain new where st: "server_event_step e (server W) = Some (server W1)" "server_inv (server W1)"
        "wire_ok W \<longrightarrow> wire_ok W1"
        "offered W1 = still_offered e (offered W) @ map (\<lambda>(s, m). (s, m, r)) new"
        "sent (calls (server W1)) = sent (calls (server W)) @ new" "length new \<le> 1"
      using wire_step_cases[OF Cons.prems(2) W1(1)] by auto
    note IH = Cons.IH[OF W1(2) st(2)]
    have "\<exists>os. offers_on s W W' os \<and> subseq (map snd os) (map snd (er # ers))"
      if "list_all (\<lambda>er. \<not> reaccepts s (fst er)) (er # ers)"
    proof -
      have "list_all (\<lambda>er. \<not> reaccepts s (fst er)) ers" using that by simp
      then obtain os where "offers_on s W1 W' os" "subseq (map snd os) (map snd ers)"
        using IH by blast
      moreover have "subseq (map snd (map (\<lambda>x. (snd x, r)) (filter (\<lambda>x. fst x = s) new) @ os)) (map snd (er # ers))"
        using \<open>subseq _ _\<close> st(6) er by (cases new) auto
      ultimately show ?thesis using st(4,5) that er
        by (intro exI[of _ "map (\<lambda>x. (snd x, r)) (filter (\<lambda>x. fst x = s) new) @ os"])
           (auto simp: offers_on_def still_offered_filter filter_map comp_def split_beta prod_eq_iff intro!: map_cong map_idI[symmetric])
    qed
    then show ?case using IH st er by simp
  qed (simp add: offers_on_def)
  then show "run_ops server_event_step (map fst ers) (server W) = Some (server W')"
    and "wire_ok W \<Longrightarrow> wire_ok W'"
    and "list_all (\<lambda>er. \<not> reaccepts s (fst er)) ers \<Longrightarrow>
      \<exists>os. offers_on s W W' os \<and> subseq (map snd os) (map snd ers)"
    by blast+
qed

lemma wire_run_killed:
  assumes "wire_run disp ers W = Some (Killed files)" and "server_inv (server W)"
  shows "\<exists>ers1 e ers2 S. ers = ers1 @ (e, BrokenPipe) # ers2 \<and> ends_process disp SIGPIPE \<and>
    run_ops server_event_step (map fst ers1 @ [e]) (server W) = Some S \<and> files = pers S"
  using assms
proof (induction ers arbitrary: W)
  case (Cons er ers)
  obtain e r where er: "er = (e, r)" by (cases er)
  obtain R where R: "wire_step disp (e, r) W = Some R" using Cons.prems(1) er by (auto split: option.splits)
  then obtain S' where S': "server_event_step e (server W) = Some S'" "server_inv S'"
    "R = Killed (pers S') \<and> r = BrokenPipe \<and> ends_process disp SIGPIPE \<or> (\<exists>W'. R = Alive W' \<and> server W' = S')"
    using wire_step_cases[OF Cons.prems(2) R] by metis
  show ?case
  proof (cases R)
    case (Killed f)
    then show ?thesis using S' Cons.prems(1) er R by (intro exI[of _ "[]"] exI[of _ e] exI[of _ ers] exI[of _ S']) auto
  next
    case (Alive W1)
    then have "wire_run disp ers W1 = Some (Killed files)" using Cons.prems(1) er R by simp
    then obtain ers1 e' ers2 S where "ers = ers1 @ (e', BrokenPipe) # ers2" "ends_process disp SIGPIPE"
        "run_ops server_event_step (map fst ers1 @ [e']) (server W1) = Some S" "files = pers S"
      using Cons.IH[of W1] S' Alive by auto
    then show ?thesis using S' Alive er
      by (intro exI[of _ "er # ers1"] exI[of _ e'] exI[of _ ers2] exI[of _ S]) auto
  qed
qed simp

lemma wire_run_ignored:
  assumes "ends_process disp SIGPIPE \<Longrightarrow> BrokenPipe \<notin> snd ` set ers" and "server_inv (server W)"
    and "run_ops server_event_step (map fst ers) (server W) = Some S'"
  shows "\<exists>W'. wire_run disp ers W = Some (Alive W') \<and> server W' = S'"
  using assms
proof (induction ers arbitrary: W)
  case (Cons er ers)
  obtain e r where er: "er = (e, r)" by (cases er)
  obtain S1 where S1: "server_event_step e (server W) = Some S1" "run_ops server_event_step (map fst ers) S1 = Some S'"
    using Cons.prems(3) er by (auto split: option.splits)
  then obtain R where R: "wire_step disp (e, r) W = Some R" by (auto simp: wire_step_def)
  then obtain W1 where "R = Alive W1" "server W1 = S1" "server_inv S1"
    proof -
    assume t: "\<And>W1. R = Alive W1 \<Longrightarrow> server W1 = S1 \<Longrightarrow> server_inv S1 \<Longrightarrow> thesis"
    have "\<not> (r = BrokenPipe \<and> ends_process disp SIGPIPE)" using Cons.prems(1) er by auto
    then show thesis using wire_step_cases[OF Cons.prems(2) R] S1(1) t by (metis option.inject)
  qed
  then show ?case using Cons.IH[of W1] S1(2) R er Cons.prems(1) by auto
qed simp

lemma wire_run_append:
  "wire_run disp (ers @ ers') W = Some (Alive W') \<longleftrightarrow>
     (\<exists>W1. wire_run disp ers W = Some (Alive W1) \<and> wire_run disp ers' W1 = Some (Alive W'))"
  by (induction ers arbitrary: W) (auto split: option.splits process.splits)

lemma wire_run_single: "wire_run disp [er] W = Some (Alive W') \<longleftrightarrow> wire_step disp er W = Some (Alive W')"
  by (cases "wire_step disp er W"; cases "the (wire_step disp er W)") auto

subsection \<open>What a client reads\<close>

text \<open>The responses of the abstract server to the messages that came over socket \<open>s\<close>.\<close>

definition responses_on :: "SocketType \<Rightarrow> Server \<Rightarrow> (nat \<times> string) list \<Rightarrow> (string \<rightharpoonup> string) \<Rightarrow> string list" where
  "responses_on s S msgs store =
     map snd (filter (\<lambda>x. fst x = s)
       (zip (map (\<lambda>x. conn_socket (conn_objects S ! fst x)) msgs) (fst (respond_all (map snd msgs) store))))"

lemma responses_on_lines:
  assumes "clean_store store"
  shows "list_all response_line (responses_on s S msgs store)"
  using respond_all_lines[OF assms, of "map snd msgs"]
  by (auto simp: responses_on_def list_all_iff dest: set_zip_rightD)

text \<open>An accepted socket starts with nothing offered on it; what it is offered then are the responses.\<close>

lemma offers_fresh:
  assumes "wire_run disp (ers @ [(EvAccept a, r)]) W0 = Some (Alive W)" and i0: "server_inv (server W0)"
  shows "filter (\<lambda>x. fst x = acc_socket a) (offered W) = []"
proof -
  obtain Wa where Wa: "wire_run disp ers W0 = Some (Alive Wa)"
      "wire_step disp (EvAccept a, r) Wa = Some (Alive W)"
    using assms(1) unfolding wire_run_append wire_run_single by blast
  have ia: "server_inv (server Wa)" using run_events_inv[OF wire_run_alive(1)[OF Wa(1) i0]] i0 by blast
  obtain S' new where "server_event_step (EvAccept a) (server Wa) = Some S'" "server W = S'"
      "offered W = still_offered (EvAccept a) (offered Wa) @ map (\<lambda>(s, m). (s, m, r)) new"
      "sent (calls S') = sent (calls (server Wa)) @ new"
    using wire_step_cases[OF ia Wa(2)] by (metis process.distinct(1) process.inject(1))
  moreover from this(1) have "sent (calls S') = sent (calls (server Wa))"
    using sends_at_most_once[OF ia] by fastforce
  ultimately show ?thesis by (simp add: still_offered_filter reaccepts_def)
qed

lemma offers_responses:
  assumes "offers_on s W1 W os"
    and "sent (calls (server W)) = sent (calls (server W1)) @
       zip (map (\<lambda>x. conn_socket (conn_objects (server W) ! fst x)) msgs)
         (fst (respond_all (map snd msgs) (server_store (server W1))))"
  shows "map fst os = responses_on s (server W) msgs (HashMap_map (hashMap (server W1)))"
  using arg_cong[of _ _ "map snd", OF conjunct2[OF assms(1)[unfolded offers_on_def]]] assms(2)
  by (simp add: responses_on_def server_store_def db_store_def split_beta comp_def)

text \<open>
  C20 (equivalence). A client that connects on a socket, and sends while no other connection
  gets its number, receives of each response of the abstract server the part that \<open>send\<close>
  took.  Reading line by line it gets as many lines as responses were taken whole, and it gets
  the responses, in order, if and only if each was taken whole: the code ignores what \<open>send\<close>
  returns.
\<close>

theorem client_reads_responses:
  assumes "server_started S0"
    and "wire_run dispositions (ers1 @ (EvAccept a, r) # ers2) (Wire_start S0) = Some (Alive W)"
    and "list_all (\<lambda>er. \<not> reaccepts (acc_socket a) (fst er)) ers2"
  shows "\<exists>S1 msgs os. run_ops server_event_step (map fst ers1 @ [EvAccept a]) S0 = Some S1 \<and>
     run_ops server_event_step (map fst ers2) S1 = Some (server W) \<and>
     (\<forall>c. map snd (filter (\<lambda>x. fst x = c) msgs) = frames (buffer_of S1 c) (pieces c (map fst ers2))) \<and>
     map fst os = responses_on (acc_socket a) (server W) msgs (HashMap_map (hashMap S1)) \<and>
     subseq (map snd os) (map snd ers2) \<and> wire W (acc_socket a) = stream os \<and>
     length (client_lines '''' (stream os)) = length (filter (\<lambda>(m, r). taken_whole r m) os) \<and>
     (client_lines '''' (stream os) = map fst os \<longleftrightarrow> list_all (\<lambda>(m, r). taken_whole r m) os)"
proof -
  let ?s = "acc_socket a"
  have i0: "server_inv (server (Wire_start S0))" using server_started_inv[OF assms(1)] by (simp add: Wire_start_def)
  have eq: "ers1 @ (EvAccept a, r) # ers2 = (ers1 @ [(EvAccept a, r)]) @ ers2" by simp
  obtain W1 where W1: "wire_run dispositions (ers1 @ [(EvAccept a, r)]) (Wire_start S0) = Some (Alive W1)"
      "wire_run dispositions ers2 W1 = Some (Alive W)"
    using assms(2) unfolding eq wire_run_append by blast
  have r1: "run_ops server_event_step (map fst ers1 @ [EvAccept a]) S0 = Some (server W1)"
    using wire_run_alive(1)[OF W1(1) i0] by (simp add: Wire_start_def)
  have i1: "server_inv (server W1)" using run_events_inv[OF r1] i0 by (simp add: Wire_start_def)
  have ok: "wire_ok W" by (intro wire_run_alive(2)[OF W1(2) i1] wire_run_alive(2)[OF W1(1) i0] Wire_start_ok)
  obtain os where os: "offers_on ?s W1 W os" "subseq (map snd os) (map snd ers2)"
    using wire_run_alive(3)[OF W1(2) i1 assms(3)] by blast
  have wire: "wire W ?s = stream os"
    using offers_fresh[OF W1(1) i0] os(1) ok by (simp add: offers_on_def wire_ok_def comp_def)
  have r2: "run_ops server_event_step (map fst ers2) (server W1) = Some (server W)"
    by (rule wire_run_alive(1)[OF W1(2) i1])
  obtain msgs where msgs:
     "\<forall>c ps. map snd (filter (\<lambda>x. fst x = c) msgs) @ frames (buffer_of (server W) c) ps
        = frames (buffer_of (server W1) c) (pieces c (map fst ers2) @ ps)"
     "sent (calls (server W)) = sent (calls (server W1)) @
       zip (map (\<lambda>x. conn_socket (conn_objects (server W) ! fst x)) msgs)
         (fst (respond_all (map snd msgs) (server_store (server W1))))"
    using run_answers[OF i1 r2] by blast
  have "\<forall>c. map snd (filter (\<lambda>x. fst x = c) msgs) = frames (buffer_of (server W1) c) (pieces c (map fst ers2))"
    using msgs(1)[rule_format, of _ "[]"] by simp
  moreover have resp: "map fst os = responses_on ?s (server W) msgs (HashMap_map (hashMap (server W1)))"
    by (rule offers_responses[OF os(1) msgs(2)])
  moreover have "clean_store (HashMap_map (hashMap (server W1)))"
    using i1 by (simp add: server_inv_def db_inv_def)
  then have "list_all response_line (map fst os)" using resp responses_on_lines by metis
  note lines_of_stream[OF this]
  ultimately show ?thesis using r1 r2 os(2) wire by blast
qed

text \<open>The insert of the example, of whose response the system takes three bytes.\<close>

lemma example_wire_run:
  assumes "ends_process disp SIGPIPE \<Longrightarrow> x \<noteq> BrokenPipe" and "ends_process disp SIGPIPE \<Longrightarrow> y \<noteq> BrokenPipe"
  obtains S0 W where "server_started S0" "server_store S0 = Map.empty"
    "wire_run disp ([] @ (EvAccept (example_answers 7), x) #
       [(EvRound (Some [\<lparr>entry_socket = 7, entry_event = Readable\<rparr>]), x),
        (EvJob (Received (log_line ''INSERT'' ''a'' ''1'' @ [newline])) True 0 0, y)]) (Wire_start S0) = Some (Alive W)"
    "conn_socket (conn_objects (server W) ! 0) = 7"
proof -
  obtain S0 S where S: "server_started S0" "server_store S0 = Map.empty"
      "run_ops server_event_step example_events S0 = Some S" "conn_socket (conn_objects S ! 0) = 7"
    by (rule example_events_run)
  let ?ers = "[] @ (EvAccept (example_answers 7), x) #
       [(EvRound (Some [\<lparr>entry_socket = 7, entry_event = Readable\<rparr>]), x),
        (EvJob (Received (log_line ''INSERT'' ''a'' ''1'' @ [newline])) True 0 0, y)]"
  have r: "run_ops server_event_step (map fst ?ers) (server (Wire_start S0)) = Some S"
    using S(3) by (simp add: client_events_def Wire_start_def)
  have i: "server_inv (server (Wire_start S0))" using server_started_inv[OF S(1)] by (simp add: Wire_start_def)
  have b: "ends_process disp SIGPIPE \<Longrightarrow> BrokenPipe \<notin> snd ` set ?ers" using assms by auto
  obtain W where W: "wire_run disp ?ers (Wire_start S0) = Some (Alive W)" "server W = S"
    using wire_run_ignored[OF b i r] by blast
  show thesis by (rule that[OF S(1,2) W(1)]) (use S(4) W(2) in simp)
qed

lemma all_for_one:
  assumes "\<forall>c. map snd (filter (\<lambda>x. fst x = c) msgs) = (if c = 0 then [m] else [])"
  shows "msgs = [(0 :: nat, m)]"
proof -
  have "\<forall>x \<in> set msgs. fst x = 0"
    using assms by (metis (mono_tags, lifting) filter_empty_conv list.map_disc_iff)
  then have "filter (\<lambda>x. fst x = 0) msgs = msgs" by (simp add: filter_id_conv)
  then have "map snd msgs = [m]" using assms by metis
  with \<open>\<forall>x \<in> set msgs. fst x = 0\<close> show ?thesis by (cases msgs) (auto simp: prod_eq_iff)
qed

theorem client_reads_responses_witness:
  "\<exists>S0 W. server_started S0 \<and>
     wire_run main_signals ([] @ (EvAccept (example_answers 7), Taken 3) #
       [(EvRound (Some [\<lparr>entry_socket = 7, entry_event = Readable\<rparr>]), Taken 3),
        (EvJob (Received (log_line ''INSERT'' ''a'' ''1'' @ [newline])) True 0 0, Taken 3)]) (Wire_start S0) = Some (Alive W) \<and>
     wire W 7 = ''Ins'' \<and> client_lines '''' (wire W 7) = []"
proof -
  let ?m = "log_line ''INSERT'' ''a'' ''1'' @ [newline]"
  obtain S0 W where W: "server_started S0" "server_store S0 = Map.empty"
    "wire_run main_signals ([] @ (EvAccept (example_answers 7), Taken 3) #
       [(EvRound (Some [\<lparr>entry_socket = 7, entry_event = Readable\<rparr>]), Taken 3),
        (EvJob (Received ?m) True 0 0, Taken 3)]) (Wire_start S0) = Some (Alive W)"
    "conn_socket (conn_objects (server W) ! 0) = 7"
    using example_wire_run[of main_signals "Taken 3" "Taken 3"] by auto
  have na: "list_all (\<lambda>er. \<not> reaccepts (acc_socket (example_answers 7)) (fst er))
      [(EvRound (Some [\<lparr>entry_socket = 7, entry_event = Readable\<rparr>]), Taken 3), (EvJob (Received ?m) True 0 0, Taken 3)]"
    by (simp add: reaccepts_def)
  from client_reads_responses[OF W(1,3) na]
  obtain S1 msgs os where t: "run_ops server_event_step (map fst [] @ [EvAccept (example_answers 7)]) S0 = Some S1"
     "\<forall>c. map snd (filter (\<lambda>x. fst x = c) msgs) = frames (buffer_of S1 c) (pieces c (map fst
        [(EvRound (Some [\<lparr>entry_socket = 7, entry_event = Readable\<rparr>]), Taken 3), (EvJob (Received ?m) True 0 0, Taken 3)]))"
     "map fst os = responses_on 7 (server W) msgs (HashMap_map (hashMap S1))"
     "subseq (map snd os) [Taken 3, Taken 3]" "wire W 7 = stream os"
    by (auto simp: example_answers_def)
  have S1: "S1 = fst (acceptClients_round (example_answers 7) S0)" using t(1) by simp
  have b: "buffer_of S1 c = ''''" for c
    using accept_quiet[of "example_answers 7" S0] server_started_fresh(2)[OF W(1)] S1
    by (auto simp: buffer_of_def)
  have st: "HashMap_map (hashMap S1) = Map.empty"
    using accept_quiet[of "example_answers 7" S0] W(2) S1 by (auto simp: server_store_def db_store_def)
  have msgs: "msgs = [(0, ?m)]"
    by (rule all_for_one) (use t(2) b in \<open>simp add: pieces_def log_line_def MAX_COMMAND_BUFFER_LENGTH_def\<close>)
  have w: "word ''a''" "word ''1''" by code_simp+
  have "map fst os = [''Insert command was successful'' @ [newline]]"
    using t(3) W(4) respond_insert[OF w, of "[]"] st msgs
    by (simp add: responses_on_def split_beta)
  moreover have "set (map snd os) \<subseteq> {Taken 3}" proof
    fix r assume "r \<in> set (map snd os)"
    then obtain y where "y \<in> set [Taken 3, Taken 3]" "r = y" by (rule list_emb_set[OF t(4)])
    then show "r \<in> {Taken 3}" by simp
  qed
  ultimately have os: "os = [(''Insert command was successful'' @ [newline], Taken 3)]"
    by (cases os) (auto simp: prod_eq_iff)
  have "wire W 7 = ''Ins''" using t(5) os by (simp only: stream_single bytes_taken.simps) simp
  moreover have "client_lines '''' ''Ins'' = []" by code_simp
  ultimately show ?thesis using W(1,3) by metis
qed

subsection \<open>A broken pipe\<close>

text \<open>A job that completes a command sends one response.\<close>

lemma command_event:
  assumes i: "server_inv S" and "c \<in> set (tpool_jobs S)"
    and "buffer = commandBuffer (conn_objects S ! c) @ bytes" "length buffer \<le> 2024" "newline \<in> set buffer"
  shows "\<exists>S' m. server_event_step (EvJob (Received bytes) rearmed now c) S = Some S' \<and> server_inv S' \<and>
    server_store S' = snd (respond buffer (server_store S)) \<and> new_sends S S' = [m]"
proof -
  let ?T = "S\<lparr>tpool_jobs := remove1 c (tpool_jobs S)\<rparr>"
  have iT: "server_inv ?T"
    by (rule server_inv_fewer[OF i])
       (use i in \<open>auto simp: server_inv_def dest: subsetD[OF set_remove1_subset]\<close>)
  obtain S' where S': "messageHandler (Received bytes) rearmed now c ?T = Some S'" "server_inv S'"
     "server_store S' = snd (respond buffer (server_store S))"
     "calls S' = calls S @ Send (conn_socket (conn_objects S ! c)) (fst (respond buffer (server_store S)))
      # EL_Rearm (conn_socket (conn_objects S ! c))
      # (if rearmed then [] else [EL_Remove (conn_socket (conn_objects S ! c)),
           Close (conn_socket (conn_objects S ! c))])"
    using messageHandler_command[OF iT, of buffer c bytes rearmed now] assms(3-5)
    by (auto simp: MAX_COMMAND_BUFFER_LENGTH_def)
  then show ?thesis using assms(2) by (auto simp: new_sends_def sent_append)
qed

text \<open>
  A client whose connection is gone when its command is answered ends the whole
  server: \<open>SIGPIPE\<close> keeps its default action.  In runs whose handlers and snapshots run whole,
  the command was executed and logged, and the next start of the server finds every write; what a
  kill in the middle of other handlers and snapshots leaves is shown in \<open>Durable\<close>.  With the
  signal ignored or handled the server would go on.
\<close>

theorem broken_pipe_ends_server:
  assumes "server_started S0" and "wire_run main_signals ers (Wire_start S0) = Some (Alive W)"
    and "c \<in> set (tpool_jobs (server W))"
    and "buffer = commandBuffer (conn_objects (server W) ! c) @ bytes"
    and "length buffer \<le> 2024" and "newline \<in> set buffer" and "sock \<noteq> -1"
  shows "\<exists>files S1 S2. wire_run main_signals (ers @ [(EvJob (Received bytes) rearmed now c, BrokenPipe)]) (Wire_start S0)
       = Some (Killed files) \<and>
     Server_new raw files True now' sock = Some (Inr S1) \<and> Server_start True True True True S1 = Some (Inr S2) \<and>
     HashMap_map (hashMap S2) = snd (respond buffer (HashMap_map (hashMap (server W)))) \<and>
     (\<forall>dispositions. \<not> ends_process dispositions SIGPIPE \<longrightarrow>
        (\<exists>W'. wire_run dispositions (ers @ [(EvJob (Received bytes) rearmed now c, BrokenPipe)]) (Wire_start S0)
           = Some (Alive W')))"
proof -
  let ?S = "server W" and ?e = "EvJob (Received bytes) rearmed now c"
  have i0: "server_inv (server (Wire_start S0))" using server_started_inv[OF assms(1)] by (simp add: Wire_start_def)
  note run = wire_run_alive(1)[OF assms(2) i0]
  have i: "server_inv ?S" using run_events_inv[OF run i0] .
  obtain S' m where S': "server_event_step ?e ?S = Some S'" "server_inv S'"
      "server_store S' = snd (respond buffer (server_store ?S))" "new_sends ?S S' = [m]"
    using command_event[OF i assms(3-6)] by blast
  have k: "wire_step main_signals (?e, BrokenPipe) W = Some (Killed (pers S'))"
    using S'(1,4) by (cases m) (simp add: wire_step_def deliver_def send_response_def ends_process_def main_signals_def)
  have killed: "wire_run main_signals (ers @ [(?e, BrokenPipe)]) W0 = Some (Killed (pers S'))"
    if "wire_run main_signals ers W0 = Some (Alive W)" for W0
    using that k by (induction ers arbitrary: W0) (auto split: option.splits process.splits)
  obtain S1 S2 where S2: "Server_new raw (pers S') True now' sock = Some (Inr S1)"
      "Server_start True True True True S1 = Some (Inr S2)" "server_store S2 = server_store S'"
    using server_starts_again[OF S'(2) assms(7) refl refl] by blast
  have "run_ops server_event_step (map fst (ers @ [(?e, BrokenPipe)])) (server (Wire_start S0)) = Some S'"
    using run S'(1) by (simp add: run_ops_append)
  from wire_run_ignored[OF _ i0 this]
  have "\<forall>dispositions. \<not> ends_process dispositions SIGPIPE \<longrightarrow>
        (\<exists>W'. wire_run dispositions (ers @ [(?e, BrokenPipe)]) (Wire_start S0) = Some (Alive W'))" by blast
  moreover have "HashMap_map (hashMap S2) = snd (respond buffer (HashMap_map (hashMap ?S)))"
    using S2(3) S'(3) by (simp add: server_store_def db_store_def)
  ultimately show ?thesis using killed[OF assms(2)] S2(1,2) by blast
qed

theorem broken_pipe_ends_server_witness:
  "\<exists>S0 files S1 S2. server_started S0 \<and>
     wire_run main_signals ([(EvAccept (example_answers 7), SendError),
        (EvRound (Some [\<lparr>entry_socket = 7, entry_event = Readable\<rparr>]), SendError)] @
        [(EvJob (Received (log_line ''INSERT'' ''a'' ''1'' @ [newline])) True 0 0, BrokenPipe)]) (Wire_start S0)
       = Some (Killed files) \<and>
     Server_new (\<lambda>_. None) files True 0 3 = Some (Inr S1) \<and> Server_start True True True True S1 = Some (Inr S2) \<and>
     HashMap_map (hashMap S2) = [''a'' \<mapsto> ''1'']"
proof -
  let ?m = "log_line ''INSERT'' ''a'' ''1'' @ [newline]"
  let ?ers = "[(EvAccept (example_answers 7), SendError),
        (EvRound (Some [\<lparr>entry_socket = 7, entry_event = Readable\<rparr>]), SendError)]"
  obtain S0 W where W: "server_started S0" "server_store S0 = Map.empty"
    "wire_run main_signals (?ers @ [(EvJob (Received ?m) True 0 0, SendError)]) (Wire_start S0) = Some (Alive W)"
    by (rule example_wire_run[of main_signals SendError SendError]) (simp_all del: wire_run.simps)
  then obtain W1 where W1: "wire_run main_signals ?ers (Wire_start S0) = Some (Alive W1)"
      "wire_step main_signals (EvJob (Received ?m) True 0 0, SendError) W1 = Some (Alive W)"
    using W(3) unfolding wire_run_append wire_run_single by blast
  have c: "0 \<in> set (tpool_jobs (server W1))"
    using W1(2) by (auto simp: wire_step_def split: if_splits)
  have i0: "server_inv (server (Wire_start S0))" using server_started_inv[OF W(1)] by (simp add: Wire_start_def)
  let ?S1 = "fst (acceptClients_round (example_answers 7) S0)"
  have S1: "server W1 = runEventLoop_round (Some [\<lparr>entry_socket = 7, entry_event = Readable\<rparr>]) ?S1"
    using wire_run_alive(1)[OF W1(1) i0] by (simp add: Wire_start_def)
  obtain new where "conn_objects ?S1 = new" "\<forall>x \<in> set new. commandBuffer x = ''''"
      "hashMap ?S1 = hashMap S0"
    using accept_quiet[of "example_answers 7" S0] server_started_fresh(2)[OF W(1)] by auto
  then have q: "\<forall>x \<in> set (conn_objects (server W1)). commandBuffer x = ''''" "hashMap (server W1) = hashMap S0"
    using round_quiet[of "Some [\<lparr>entry_socket = 7, entry_event = Readable\<rparr>]" ?S1] S1 by auto
  have "server_inv (server W1)" using run_events_inv[OF wire_run_alive(1)[OF W1(1) i0] i0] .
  then have "0 < length (conn_objects (server W1))" using c by (auto simp: server_inv_def)
  then have b: "?m = commandBuffer (conn_objects (server W1) ! 0) @ ?m" using q(1) by simp
  have w: "word ''a''" "word ''1''" by code_simp+
  have st: "HashMap_map (hashMap (server W1)) = Map.empty" using q(2) W(2) by (simp add: server_store_def db_store_def)
  have r: "snd (respond ?m Map.empty) = [''a'' \<mapsto> ''1'']" using respond_insert[OF w, of "[]"] by simp
  have l: "length ?m \<le> 2024" "newline \<in> set ?m" "(3 :: SocketType) \<noteq> -1" by (simp_all add: log_line_def)
  from broken_pipe_ends_server[OF W(1) W1(1) c b l, of True 0 "\<lambda>_. None" 0] W(1) show ?thesis
    unfolding st r by blast
qed

end
