(* ===== verification/Timing.thy ===== *)
theory Timing
  imports Expiry Schedulers
begin

text \<open>
  The background loops with their clock: the intervals of
  \<open>src/Worker/UserSessionBackgroundWorker.h\<close> and \<open>src/Worker/SnapshotScheduler.h\<close>, the deadline
  that \<open>wait_for\<close> computes, and, as an assumption on the system, a latency within which a thread
  that can go on does so (a callback included).  From the distance of two cleanups and the
  distance of two rounds of the event loop follows when at the latest a silent client is
  disconnected.  Times are in nanoseconds.
\<close>

subsection \<open>The loop with its clock\<close>

definition seconds :: "int \<Rightarrow> int" where
  "seconds n = n * 1000000000"

text \<open>The default arguments of the two constructors.\<close>

definition cleanup_interval :: int where
  "cleanup_interval = seconds 60"

definition snapshot_interval :: int where
  "snapshot_interval = seconds (5 * 60)"

text \<open>
  \<open>deadline\<close> is what \<open>wait_for\<close> waits until; \<open>entered\<close> is the time of the last action and
  \<open>called\<close> are the times at which callbacks began, after the start of the thread: both are
  history.
\<close>

record 's TimedLoop =
  interval :: int
  loop :: "'s Scheduler"
  deadline :: int
  clock :: int
  entered :: int
  called :: "int list"

definition TimedLoop_new :: "int \<Rightarrow> int \<Rightarrow> 's \<Rightarrow> 's TimedLoop" where
  "TimedLoop_new i now st =
     \<lparr>interval = i, loop = Scheduler_new st, deadline = now, clock = now, entered = now, called = [now]\<rparr>"

abbreviation pc_of :: "'s TimedLoop \<Rightarrow> loop_pc" where
  "pc_of x \<equiv> sch_pc (loop x)"

text \<open>How long the loop may stay where it is.\<close>

definition latest :: "int \<Rightarrow> 's TimedLoop \<Rightarrow> int" where
  "latest latency x = (if pc_of x = Waiting then max (entered x) (deadline x) else entered x) + latency"

inductive timed_step :: "'s callback \<Rightarrow> int \<Rightarrow> 's TimedLoop \<Rightarrow> 's TimedLoop \<Rightarrow> bool" for cb latency where
  tl_time: "timed_step cb latency x (x\<lparr>clock := now\<rparr>)"
    if "clock x \<le> now" "now \<le> latest latency x"
| tl_action: "timed_step cb latency x (x\<lparr>loop := l, entered := clock x,
       deadline := if pc_of x = AtWhile then clock x + interval x else deadline x,
       called := called x @ (if sch_pc l = InCallback then [clock x] else [])\<rparr>)"
    if "run_action cb (deadline x \<le> clock x) (loop x) = Some l"
| tl_spurious: "timed_step cb latency x (x\<lparr>loop := (loop x)\<lparr>sch_pc := AtPredicate\<rparr>, entered := clock x\<rparr>)"
    if "pc_of x = Waiting" "clock x < deadline x"

text \<open>Two callbacks are an interval apart, and hardly more.\<close>

definition spaced :: "int \<Rightarrow> int \<Rightarrow> int list \<Rightarrow> bool" where
  "spaced lo hi ts \<longleftrightarrow> (\<forall>n. Suc n < length ts \<longrightarrow> ts ! n + lo \<le> ts ! Suc n \<and> ts ! Suc n \<le> ts ! n + hi)"

lemma spaced_append:
  assumes "spaced lo hi ts" and "ts \<noteq> []" and "last ts + lo \<le> t" and "t \<le> last ts + hi"
  shows "spaced lo hi (ts @ [t])"
  unfolding spaced_def
proof (intro allI impI)
  fix n assume n: "Suc n < length (ts @ [t])"
  show "(ts @ [t]) ! n + lo \<le> (ts @ [t]) ! Suc n \<and> (ts @ [t]) ! Suc n \<le> (ts @ [t]) ! n + hi"
  proof (cases "Suc n < length ts")
    case True
    then show ?thesis using assms(1) by (simp add: spaced_def nth_append)
  next
    case False
    then have "n = length ts - 1" "Suc n = length ts" using n by simp_all
    then have "(ts @ [t]) ! n = last ts" "(ts @ [t]) ! Suc n = t"
      using assms(2) by (simp_all add: nth_append last_conv_nth)
    then show ?thesis using assms(3,4) by simp
  qed
qed

text \<open>Where the loop is in its period, given that the last callback began at \<open>last (called x)\<close>.\<close>

fun on_time :: "int \<Rightarrow> loop_pc \<Rightarrow> int \<Rightarrow> 's TimedLoop \<Rightarrow> bool" where
  "on_time d InCallback t x = (entered x = t)"
| "on_time d AtWhile t x = (t \<le> entered x \<and> entered x \<le> t + d)"
| "on_time d AtPredicate t x = (entered x \<le> deadline x)"
| "on_time d BeforeWait t x = (entered x \<le> deadline x + d)"
| "on_time d Waiting t x = (entered x \<le> deadline x + 2 * d)"
| "on_time d AfterWait t x = (deadline x \<le> entered x \<and> entered x \<le> deadline x + 3 * d)"
| "on_time d Returned t x = False"
| "on_time d Died t x = False"

definition timed_inv :: "int \<Rightarrow> int \<Rightarrow> 's TimedLoop \<Rightarrow> bool" where
  "timed_inv i d x \<longleftrightarrow> interval x = i \<and> sch_active (loop x) \<and> called x \<noteq> [] \<and>
     spaced i (i + 6 * d) (called x) \<and> entered x \<le> clock x \<and> clock x \<le> latest d x \<and>
     on_time d (pc_of x) (last (called x)) x \<and>
     (pc_of x \<in> {AtPredicate, BeforeWait, Waiting, AfterWait} \<longrightarrow>
        last (called x) + i \<le> deadline x \<and> deadline x \<le> last (called x) + i + 2 * d)"

lemma timed_step_inv:
  assumes "timed_step cb d x x'" and "timed_inv i d x" and "0 \<le> d" and "0 < i" and "\<And>st. snd (cb st) = False"
  shows "timed_inv i d x'"
  using assms(1)
proof cases
  case (tl_time now)
  then show ?thesis using assms(2) by (cases "pc_of x") (auto simp: timed_inv_def latest_def)
next
  case tl_spurious
  then show ?thesis using assms(2,3) by (auto simp: timed_inv_def latest_def)
next
  case (tl_action l)
  note i = assms(2)[unfolded timed_inv_def]
  show ?thesis
  proof (cases "pc_of x")
    case AfterWait
    then have l: "sch_pc l = InCallback" "sch_active l"
      using tl_action(2) i by (auto simp: run_action_def)
    have "spaced i (i + 6 * d) (called x @ [clock x])"
      by (rule spaced_append) (use i AfterWait in \<open>auto simp: latest_def\<close>)
    then show ?thesis using i AfterWait l tl_action(1) assms(3) by (auto simp: timed_inv_def latest_def)
  next
    case InCallback
    then have l: "sch_pc l = AtWhile" "sch_active l"
      using tl_action(2) i assms(5)[of "sch_state (loop x)"] by (auto simp: run_action_def split: prod.splits)
    then show ?thesis using i InCallback tl_action(1) assms(3) by (auto simp: timed_inv_def latest_def)
  next
    case Waiting
    then have l: "sch_pc l = AfterWait" "sch_active l" "deadline x \<le> clock x"
      using tl_action(2) i by (auto simp: run_action_def split: if_splits)
    then show ?thesis using i Waiting tl_action(1) assms(3) by (auto simp: timed_inv_def latest_def)
  next
    case AtWhile
    then have l: "sch_pc l = AtPredicate" "sch_active l"
      using tl_action(2) i by (auto simp: run_action_def)
    then show ?thesis using i AtWhile tl_action(1) assms(3,4) by (auto simp: timed_inv_def latest_def)
  next
    case AtPredicate
    then have l: "sch_pc l = BeforeWait" "sch_active l"
      using tl_action(2) i by (auto simp: run_action_def)
    then show ?thesis using i AtPredicate tl_action(1) assms(3) by (auto simp: timed_inv_def latest_def)
  next
    case BeforeWait
    then have l: "sch_pc l = Waiting" "sch_active l"
      using tl_action(2) i by (auto simp: run_action_def)
    then show ?thesis using i BeforeWait tl_action(1) assms(3) by (auto simp: timed_inv_def latest_def)
  qed (use i in auto)
qed

lemma timed_inv_bound:
  assumes "timed_inv i d x" and "0 \<le> d" and "0 < i"
  shows "clock x \<le> last (called x) + i + 6 * d"
  using assms by (cases "pc_of x") (auto simp: timed_inv_def latest_def)

lemma TimedLoop_new_inv: "0 \<le> d \<Longrightarrow> timed_inv i d (TimedLoop_new i now st)"
  by (simp add: timed_inv_def TimedLoop_new_def Scheduler_new_def spaced_def latest_def)

text \<open>
  While the loop is not shut down and its callback does not throw, two callbacks
  begin at least the interval and at most the interval and six latencies apart, and the next
  one is never later than that, spurious wake-ups or not: the worker's default gives a cleanup
  every minute, the scheduler's a snapshot every five.
\<close>

theorem callbacks_are_periodic:
  assumes "0 < i" and "0 \<le> d" and "\<And>st. snd (cb st) = False"
    and "(timed_step cb d)\<^sup>*\<^sup>* (TimedLoop_new i now st) x"
  shows "(\<forall>n. Suc n < length (called x) \<longrightarrow>
       called x ! n + i \<le> called x ! Suc n \<and> called x ! Suc n \<le> called x ! n + i + 6 * d) \<and>
     clock x \<le> last (called x) + i + 6 * d"
proof -
  have "timed_inv i d x"
    using assms(4)
    by (induction rule: rtranclp_induct) (use assms(1-3) in \<open>auto intro: TimedLoop_new_inv timed_step_inv\<close>)
  then show ?thesis using timed_inv_bound[OF _ assms(2,1)]
    by (auto simp: timed_inv_def spaced_def algebra_simps)
qed

text \<open>A loop without delays waits for its deadline, and then for the next one.\<close>

definition waiting :: "int \<Rightarrow> nat \<Rightarrow> int \<Rightarrow> 's \<Rightarrow> int list \<Rightarrow> 's TimedLoop" where
  "waiting i n t st cs =
     \<lparr>interval = i, loop = \<lparr>sch_pc = Waiting, sch_active = True, sch_destructor = LoopInUse,
        sch_state = st, sch_callbacks = n\<rparr>, deadline = t + i, clock = t, entered = t, called = cs\<rparr>"

lemma timed_action:
  assumes "run_action cb (deadline x \<le> clock x) (loop x) = Some l"
    and "(timed_step cb d)\<^sup>*\<^sup>* (x\<lparr>loop := l, entered := clock x,
       deadline := if pc_of x = AtWhile then clock x + interval x else deadline x,
       called := called x @ (if sch_pc l = InCallback then [clock x] else [])\<rparr>) y"
  shows "(timed_step cb d)\<^sup>*\<^sup>* x y"
  using tl_action[OF assms(1)] assms(2) by (rule converse_rtranclp_into_rtranclp)

lemma timed_start: "(timed_step cb d)\<^sup>*\<^sup>* (TimedLoop_new i t st) (waiting i 0 t st [t])"
  by (simp add: TimedLoop_new_def Scheduler_new_def waiting_def,
      (rule timed_action, simp add: run_action_def, simp)+)

lemma timed_period:
  assumes "0 \<le> i" and "0 \<le> d" and "snd (cb st) = False"
  shows "(timed_step cb d)\<^sup>*\<^sup>* (waiting i n t st cs) (waiting i (Suc n) (t + i) (fst (cb st)) (cs @ [t + i]))"
proof -
  have "timed_step cb d (waiting i n t st cs) ((waiting i n t st cs)\<lparr>clock := t + i\<rparr>)"
    using assms(1,2) by (intro tl_time) (simp_all add: waiting_def latest_def)
  moreover have "(timed_step cb d)\<^sup>*\<^sup>* ((waiting i n t st cs)\<lparr>clock := t + i\<rparr>)
      (waiting i (Suc n) (t + i) (fst (cb st)) (cs @ [t + i]))"
    using assms(3) by - (cases "cb st", simp add: waiting_def,
       (rule timed_action, simp add: run_action_def, simp)+)
  ultimately show ?thesis by (rule converse_rtranclp_into_rtranclp)
qed

theorem callbacks_are_periodic_witness:
  "\<exists>x. (timed_step (\<lambda>st. (st + 1, False)) 0)\<^sup>*\<^sup>* (TimedLoop_new cleanup_interval 0 (0 :: nat)) x \<and>
     called x = [0, cleanup_interval] \<and> clock x \<le> cleanup_interval + cleanup_interval"
proof -
  let ?cb = "\<lambda>st :: nat. (st + 1, False)" and ?i = "cleanup_interval"
  have i: "0 < ?i" by (simp add: cleanup_interval_def seconds_def)
  from timed_start[of ?cb 0 ?i 0 0] timed_period[of ?i 0 ?cb 0 0 0 "[0]"] i
  have r: "(timed_step ?cb 0)\<^sup>*\<^sup>* (TimedLoop_new ?i 0 0) (waiting ?i (Suc 0) ?i (Suc 0) [0, ?i])" by simp
  from callbacks_are_periodic[OF i _ _ r, THEN conjunct2] r show ?thesis
    by (intro exI[of _ "waiting ?i (Suc 0) ?i (Suc 0) [0, ?i]"]) (simp add: waiting_def)
qed

text \<open>Between \<open>t\<close> and the interval and six latencies later a callback begins.\<close>

lemma spaced_hits:
  assumes "spaced lo hi ts" and "ts \<noteq> []" and "hd ts \<le> t" and "t < last ts"
  shows "\<exists>u \<in> set (tl ts). t < u \<and> u \<le> t + hi"
  using assms
proof (induction ts rule: rev_induct)
  case (snoc v ts)
  show ?case
  proof (cases "ts = [] \<or> last ts \<le> t")
    case True
    then have ts: "ts \<noteq> []" "last ts \<le> t" using snoc.prems by auto
    then have "(ts @ [v]) ! (length ts - 1) = last ts" "Suc (length ts - 1) = length ts"
      by (simp_all add: nth_append last_conv_nth)
    then have "v \<le> last ts + hi"
      using snoc.prems(1)[unfolded spaced_def, rule_format, of "length ts - 1"] by simp
    then show ?thesis using snoc.prems ts by (intro bexI[of _ v]) auto
  next
    case False
    have "spaced lo hi ts"
      unfolding spaced_def
    proof (intro allI impI)
      fix n assume "Suc n < length ts"
      then show "ts ! n + lo \<le> ts ! Suc n \<and> ts ! Suc n \<le> ts ! n + hi"
        using snoc.prems(1)[unfolded spaced_def, rule_format, of n] by (simp add: nth_append)
    qed
    from snoc.IH[OF this] snoc.prems False show ?thesis by auto
  qed
qed simp

lemma callback_within:
  assumes "0 < i" and "0 \<le> d" and "\<And>st. snd (cb st) = False"
    and "(timed_step cb d)\<^sup>*\<^sup>* (TimedLoop_new i start st) x" and "start \<le> t" and "t + i + 6 * d < clock x"
  shows "\<exists>u \<in> set (tl (called x)). t < u \<and> u \<le> t + i + 6 * d"
proof -
  have "timed_inv i d x \<and> hd (called x) = start"
    using assms(4)
  proof (induction rule: rtranclp_induct)
    case base
    then show ?case using TimedLoop_new_inv[OF assms(2)] by (simp add: TimedLoop_new_def)
  next
    case (step y z)
    then have "called y \<noteq> []" "hd (called y) = start" by (simp_all add: timed_inv_def)
    with step(2) have "hd (called z) = start" by cases auto
    with step timed_step_inv[OF step(2) _ assms(2,1,3)] show ?case by blast
  qed
  then have i: "timed_inv i d x" "hd (called x) = start" by blast+
  then show ?thesis
    using spaced_hits[of i "i + 6 * d" "called x" t] timed_inv_bound[OF i(1) assms(2,1)] assms(5,6)
    by (simp add: timed_inv_def algebra_simps)
qed


subsection \<open>A silent client\<close>

abbreviation session_at :: "SessionKey \<Rightarrow> Server \<Rightarrow> UserSession option" where
  "session_at k S \<equiv> users_sessions (userSessionManager S) k"

text \<open>
  What an event that is not a sign of life of connection \<open>c\<close> on socket \<open>s\<close> can do to it:
  the connection stays or goes, the socket stays queued until it is closed, and the session
  stays as it is or goes.
\<close>

definition leaves_idle :: "SocketType \<Rightarrow> nat \<Rightarrow> Server \<Rightarrow> Server \<Rightarrow> bool" where
  "leaves_idle s c S S' \<longleftrightarrow>
     (connections S' s = connections S s \<or> connections S' s = None) \<and> key_of S' c = key_of S c \<and>
     (s \<in> set (expiredSockets S) \<longrightarrow> s \<in> set (expiredSockets S') \<or> connections S' s = None) \<and>
     (\<forall>ses. session_at (key_of S c) S' = Some ses \<longrightarrow> session_at (key_of S c) S = Some ses) \<and>
     (running S' \<longrightarrow> running S)"

lemma leaves_idle_refl: "leaves_idle s c S S"
  by (simp add: leaves_idle_def)

lemma leaves_idle_trans: "leaves_idle s c S S' \<Longrightarrow> leaves_idle s c S' S'' \<Longrightarrow> leaves_idle s c S S''"
  unfolding leaves_idle_def by (elim conjE, intro conjI) auto

lemma leaves_idle_close: "leaves_idle s c S (closeConnection s' S)"
  by (auto simp: leaves_idle_def frame_simps userSessionManager_close remove_session_def split: option.splits if_splits)

lemma leaves_idle_fold: "(\<And>e S. leaves_idle s c S (f e S)) \<Longrightarrow> leaves_idle s c S (fold f es S)"
  by (induction es arbitrary: S) (auto intro: leaves_idle_refl leaves_idle_trans)

lemma leaves_idle_rearm: "leaves_idle s c S (rearmSocket r s' S)"
proof -
  have "leaves_idle s c S (log_call l S)" for l
    by (simp add: leaves_idle_def frame_simps key_of_def)
  then show ?thesis
    by (simp add: rearmSocket_def Let_def) (blast intro: leaves_idle_trans leaves_idle_close)
qed

text \<open>A complete command is received from the client with key \<open>k\<close>.\<close>

definition lively :: "SessionKey \<Rightarrow> recv_result \<Rightarrow> nat \<Rightarrow> Server \<Rightarrow> bool" where
  "lively k received c S =
     (case received of
        Received bytes \<Rightarrow>
          let buffer = commandBuffer (conn_objects S ! c) @ bytes in
          key_of S c = k \<and> length buffer \<le> MAX_COMMAND_BUFFER_LENGTH \<and> newline \<in> set buffer
      | _ \<Rightarrow> False)"

lemma leaves_idle_handler:
  assumes "messageHandler received rearmed now c' S = Some S'"
    and "\<not> lively (key_of S c) received c' S"
  shows "leaves_idle s c S S'"
proof (cases received)
  case (Received bytes)
  let ?s = "conn_socket (conn_objects S ! c')" and ?b = "commandBuffer (conn_objects S ! c') @ bytes"
    and ?k = "conn_sessionKey (conn_objects S ! c')"
  let ?S1 = "set_buffer c' ?b S"
  let ?S2 = "?S1\<lparr>userSessionManager := update_activity ?k now (userSessionManager ?S1)\<rparr>"
  have b: "leaves_idle s c S ?S1"
    by (simp add: leaves_idle_def frame_simps) (simp add: set_buffer_def)
  have "leaves_idle s c S (log_call (Send ?s r) ((set_buffer c' '''' ?S2)\<lparr>hashMap := m, pers := p\<rparr>))"
    if k: "?k \<noteq> key_of S c" for r m p
  proof -
    have "key_of ((set_buffer c' '''' ?S2)\<lparr>hashMap := m, pers := p\<rparr>) c = key_of (set_buffer c' '''' ?S2) c"
      by (simp add: key_of_def)
    also have "\<dots> = key_of S c" using key_of_set_buffer[of c' "''''" ?S2 c] by (simp add: key_of_def[of ?S2] key_of_def[of ?S1, symmetric])
    finally have "key_of ((set_buffer c' '''' ?S2)\<lparr>hashMap := m, pers := p\<rparr>) c = key_of S c" .
    then show ?thesis
      using k by (simp add: leaves_idle_def frame_simps update_activity_sessions option.map_id0)
        (simp add: set_buffer_def key_of_def log_call_def option.map_ident)
  qed
  note full = leaves_idle_trans[OF this leaves_idle_rearm]
  from assms Received consider
      "S' = closeConnection ?s ?S1" | "S' = rearmSocket rearmed ?s ?S1"
    | r m p where "?k \<noteq> key_of S c" "S' = rearmSocket rearmed ?s (log_call (Send ?s r) ((set_buffer c' '''' ?S2)\<lparr>hashMap := m, pers := p\<rparr>))"
    by (auto simp: messageHandler_def lively_def key_of_def[of S c'] Let_def split: if_splits)
  then show ?thesis
    using leaves_idle_trans[OF b leaves_idle_close] leaves_idle_trans[OF b leaves_idle_rearm] full
    by cases simp_all
qed (use assms(1) in \<open>auto simp: messageHandler_def Let_def intro: leaves_idle_close leaves_idle_rearm\<close>)


text \<open>
  An event at time \<open>t\<close> that is no sign of life of the client with key \<open>k\<close>: no complete command
  is received from it.  A cleanup visits each session once and reads the clock after it began.
\<close>

fun silent :: "SessionKey \<Rightarrow> int \<Rightarrow> server_event \<Rightarrow> Server \<Rightarrow> bool" where
  "silent k t (EvJob received rearmed now c) S = (\<not> lively k received c S)"
| "silent k t (EvCleanup order) S =
     (distinct (map fst order) \<and>
      (case map_of order k of None \<Rightarrow> session_at k S = None | Some now \<Rightarrow> t \<le> now))"
| "silent k t e S = True"

lemma leaves_idle_round: "leaves_idle s c S (runEventLoop_round waited S)"
proof (cases "running S")
  case True
  have fold: "connections (fold closeConnection ss T) s = (if s \<in> set ss then None else connections T s)" for ss T
    by (rule fold_close_connections)
  have "leaves_idle s c (S\<lparr>expiredSockets := []\<rparr>) (close_expired S)"
    unfolding close_expired_def by (rule leaves_idle_fold, rule leaves_idle_close)
  then have ce: "leaves_idle s c S (close_expired S)"
    using fold[of "expiredSockets S" "S\<lparr>expiredSockets := []\<rparr>"]
    by (simp add: leaves_idle_def close_expired_def key_of_def)
  have "leaves_idle s c T (dispatch_event e T)" for e T
    using leaves_idle_close[of s c T "entry_socket e"]
    by (auto simp: dispatch_event_def leaves_idle_def key_of_def split: option.split)
  then have "leaves_idle s c T (fold dispatch_event es T)" for es T by (rule leaves_idle_fold)
  with ce show ?thesis using True
    by (auto simp: runEventLoop_round_def Let_def intro: leaves_idle_trans split: option.split)
qed (simp add: runEventLoop_round_def leaves_idle_refl)

lemma leaves_idle_accept:
  assumes "fresh_accept (EvAccept a) S" and "connections S s = Some c" and "c < length (conn_objects S)"
  shows "leaves_idle s c S (fst (acceptClients_round a S))"
proof -
  let ?k = "\<lparr>raw_ip = sin_addr (acc_addr a), raw_port = sin_port (acc_addr a)\<rparr>"
  have "acc_socket a \<noteq> s" "key_of S c \<noteq> ?k" using assms(1,2) by (auto simp: fresh_accept_def)
  moreover obtain al rt' where "isAllowed (sin_addr (acc_addr a)) (acc_now_global a) (acc_now_private a) (rt S) = (al, rt')"
    by (cases "isAllowed (sin_addr (acc_addr a)) (acc_now_global a) (acc_now_private a) (rt S)")
  ultimately show ?thesis
    using assms(3)
    by (auto simp: leaves_idle_def acceptClients_round_def add_session_def remove_session_def frame_simps
        key_of_def nth_append Let_def)
qed

lemma leaves_idle_stop: "leaves_idle s c S (Server_stop order S)"
proof -
  have "\<not> running (fold (\<lambda>sock. log_call (Close sock)) order T)" if "\<not> running T" for T
    using that by (induction order arbitrary: T) (simp_all add: frame_simps)
  then have "connections (Server_stop order S) = Map.empty" "running (Server_stop order S) = False"
    "users_sessions (userSessionManager (Server_stop order S)) = Map.empty"
    "conn_objects (Server_stop order S) = conn_objects S"
    using stop_quiet[of order S] by (auto simp: Server_stop_def frame_simps Let_def close_all_sessions_def)
  then show ?thesis by (simp add: leaves_idle_def key_of_def)
qed

text \<open>
  A cleanup that begins after the limit of a session leaves no session with so old an activity.
\<close>

lemma cleanup_silent:
  assumes "server_event_step (EvCleanup order) S = Some S'" and "silent (key_of S c) t (EvCleanup order) S"
  shows "leaves_idle s c S S' \<and>
    (\<forall>ses. session_at (key_of S c) S' = Some ses \<longrightarrow>
       t \<le> last_activity_time ses + session_maximum_idle_time ses * 1000000000)"
proof -
  have "S' = S\<lparr>expiredSockets := expiredSockets S @ expired_sockets order (userSessionManager S),
      userSessionManager := (userSessionManager S)\<lparr>users_sessions := kept order (userSessionManager S)\<rparr>\<rparr>"
    using assms cleanup_run[of order onSessionExpired "userSessionManager S" S] by (simp add: fold_onSessionExpired)
  moreover from this have "key_of S' c = key_of S c" by (simp add: key_of_def)
  ultimately show ?thesis
    using assms(2)
    by (cases "map_of order (key_of S c)") (auto simp: leaves_idle_def kept_def is_expired_def split: option.splits if_splits)
qed

lemma silent_event:
  assumes "server_event_step e S = Some S'" and "fresh_accept e S" and "connections S s = Some c"
    and "c < length (conn_objects S)" and "silent (key_of S c) t e S"
  shows "leaves_idle s c S S'"
proof (cases e)
  case (EvJob received rearmed now c')
  let ?S = "S\<lparr>tpool_jobs := remove1 c' (tpool_jobs S)\<rparr>"
  have "messageHandler received rearmed now c' ?S = Some S'" using assms(1) EvJob by (simp split: if_splits)
  moreover have "leaves_idle s c S ?S" by (simp add: leaves_idle_def key_of_def)
  moreover have "\<not> lively (key_of ?S c) received c' ?S"
    using assms(5) EvJob by (simp add: lively_def key_of_def split: recv_result.splits)
  ultimately show ?thesis by (blast intro: leaves_idle_trans leaves_idle_handler)
next
  case (EvCleanup order)
  then show ?thesis using assms(1,5) cleanup_silent by blast
next
  case EvSnapshot
  have "leaves_idle s c S (S\<lparr>pers := p\<rparr>)" for p by (simp add: leaves_idle_def key_of_def)
  then show ?thesis using EvSnapshot assms(1) by (auto split: option.splits)
qed (use assms leaves_idle_accept leaves_idle_round leaves_idle_stop in auto)


lemma running_before:
  assumes "server_event_step e S = Some S'" and "running S'"
  shows "running S"
proof (cases e)
  case (EvJob received rearmed now c)
  then show ?thesis using assms running_handler by (fastforce split: if_splits)
next
  case (EvAccept a)
  then show ?thesis using assms by (cases "running S") (simp_all add: acceptClients_round_def)
next
  case (EvRound waited)
  then show ?thesis using assms leaves_idle_round[of 0 0 S waited] by (simp add: leaves_idle_def)
next
  case (EvCleanup order)
  have "running S2 = running S1"
    if "cleanup_expired_sessions (Some onSessionExpired) order (M1, S1) = (M2, S2)" for M1 S1 M2 S2
    using that
    by (induction "Some onSessionExpired" order "(M1, S1)" arbitrary: M1 S1 rule: cleanup_expired_sessions.induct)
       (auto simp: onSessionExpired_def Let_def split: option.splits if_splits)
  then show ?thesis using assms EvCleanup by (auto split: prod.splits)
next
  case EvSnapshot
  then show ?thesis using assms by (auto split: option.splits)
next
  case (EvStop order)
  then show ?thesis using assms leaves_idle_stop[of 0 0 S order] by (simp add: leaves_idle_def)
qed

lemma running_before_run: "run_ops server_event_step es S = Some S' \<Longrightarrow> running S' \<Longrightarrow> running S"
  by (induction es arbitrary: S) (auto split: option.splits dest: running_before)

fun silent_run :: "SessionKey \<Rightarrow> (int \<times> server_event) list \<Rightarrow> Server \<Rightarrow> bool" where
  "silent_run k [] S = True"
| "silent_run k ((t, e) # tes) S = (silent k t e S \<and>
     (case server_event_step e S of None \<Rightarrow> True | Some S' \<Rightarrow> silent_run k tes S'))"

abbreviation runs :: "(int \<times> server_event) list \<Rightarrow> Server \<Rightarrow> Server option" where
  "runs tes \<equiv> run_ops server_event_step (map snd tes)"

lemma silent_run_append:
  "silent_run k (tes @ tes') S = (silent_run k tes S \<and>
     (case runs tes S of None \<Rightarrow> True | Some S' \<Rightarrow> silent_run k tes' S'))"
  by (induction tes arbitrary: S) (auto split: option.splits)

lemma all_fresh_append:
  "all_fresh (es @ es') S = (all_fresh es S \<and>
     (case run_ops server_event_step es S of None \<Rightarrow> True | Some S' \<Rightarrow> all_fresh es' S'))"
  by (induction es arbitrary: S) (auto split: option.splits)

text \<open>A connection whose last sign of life was at time \<open>A\<close>.\<close>

definition idle_since :: "int \<Rightarrow> SessionKey \<Rightarrow> SocketType \<Rightarrow> nat \<Rightarrow> Server \<Rightarrow> bool" where
  "idle_since A k s c S \<longleftrightarrow> expiry_inv S \<and> connections S s = Some c \<and> key_of S c = k \<and>
     (\<forall>ses. session_at k S = Some ses \<longrightarrow> last_activity_time ses = A)"

lemma idle_event:
  assumes "server_event_step e S = Some S'" and "fresh_accept e S" and "idle_since A k s c S" and "silent k t e S"
  shows "leaves_idle s c S S' \<and> (connections S' s = None \<or> idle_since A k s c S')"
proof -
  have i: "expiry_inv S" "connections S s = Some c" "key_of S c = k" using assms(3) by (simp_all add: idle_since_def)
  then have "table_ok S" by (simp add: expiry_inv_def server_inv_def)
  then have "c < length (conn_objects S)" using table_okD(1) i(2) by blast
  moreover have "silent (key_of S c) t e S" using assms(4) i(3) by (simp only:)
  ultimately have "leaves_idle s c S S'" using silent_event[OF assms(1,2) i(2)] by blast
  moreover have "expiry_inv S'" by (rule expiry_event[OF assms(1) i(1) assms(2)])
  ultimately show ?thesis using assms(3) unfolding leaves_idle_def idle_since_def by metis
qed

text \<open>Either the connection goes on the way, or it is as idle at the end.\<close>

definition gone_within :: "SocketType \<Rightarrow> (int \<times> server_event) list \<Rightarrow> Server \<Rightarrow> bool" where
  "gone_within s tes S \<longleftrightarrow> (\<exists>tes1 tes2 S1. tes = tes1 @ tes2 \<and> runs tes1 S = Some S1 \<and> connections S1 s = None)"

lemma gone_withinI: "tes = tes1 @ tes2 \<Longrightarrow> runs tes1 S = Some S1 \<Longrightarrow> connections S1 s = None \<Longrightarrow> gone_within s tes S"
  unfolding gone_within_def by blast

lemma gone_within_later:
  assumes "runs tes1 S = Some S1" and "gone_within s tes2 S1"
  shows "gone_within s (tes1 @ tes2) S"
proof -
  obtain a b S2 where "tes2 = a @ b" "runs a S1 = Some S2" "connections S2 s = None"
    using assms(2) unfolding gone_within_def by blast
  then show ?thesis using assms(1) by (intro gone_withinI[of _ "tes1 @ a" b _ S2]) (simp_all add: run_ops_append)
qed

lemma idle_run:
  assumes "runs tes S = Some S'" and "all_fresh (map snd tes) S" and "silent_run k tes S" and "idle_since A k s c S"
  shows "gone_within s tes S \<or> idle_since A k s c S' \<and> leaves_idle s c S S'"
  using assms
proof (induction tes arbitrary: S)
  case Nil
  then show ?case by (simp add: leaves_idle_refl)
next
  case (Cons te tes)
  obtain t e where te: "te = (t, e)" by (cases te)
  obtain S1 where S1: "server_event_step e S = Some S1" "runs tes S1 = Some S'"
    using Cons.prems(1) by (auto simp: te split: option.splits)
  have r: "runs [te] S = Some S1" using S1(1) by (simp add: te)
  have p: "fresh_accept e S" "silent k t e S" "all_fresh (map snd tes) S1" "silent_run k tes S1"
    using Cons.prems(2,3) S1(1) by (simp_all add: te)
  note e = idle_event[OF S1(1) p(1) Cons.prems(4) p(2)]
  show ?case
  proof (cases "connections S1 s = None")
    case True
    then show ?thesis using r by (intro disjI1 gone_withinI[of _ "[te]" tes _ S1]) simp_all
  next
    case False
    then have "idle_since A k s c S1" "leaves_idle s c S S1" using e by auto
    with Cons.IH[OF S1(2) p(3,4)] gone_within_later[OF r, of s tes] show ?thesis
      by (auto intro: leaves_idle_trans)
  qed
qed


lemma two_events:
  assumes "sorted (map fst tes)" and "(u, e) \<in> set tes" and "(v, e') \<in> set tes" and "u < (v :: int)"
  shows "\<exists>as bs cs. tes = as @ (u, e) # bs @ (v, e') # cs \<and>
    (\<forall>t \<in> set (map fst (as @ (u, e) # bs @ [(v, e')])). t \<le> v)"
proof -
  obtain as rest where a: "tes = as @ (u, e) # rest" using assms(2) by (metis split_list)
  have "(v, e') \<notin> set as" using assms(1,4) a by (auto simp: sorted_append)
  then have "(v, e') \<in> set rest" using assms(3,4) a by auto
  then obtain bs cs where "rest = bs @ (v, e') # cs" by (metis split_list)
  with a assms(1,4) show ?thesis
    by (intro exI[of _ as] exI[of _ bs] exI[of _ cs]) (auto simp: sorted_append)
qed

text \<open>A part of a run through which the connection stays.\<close>

lemma idle_part:
  assumes "runs (as @ bs) S = Some S'" and "all_fresh (map snd (as @ bs)) S" and "silent_run k (as @ bs) S"
    and "idle_since A k s c S" and "\<not> gone_within s (as @ bs) S"
  obtains S1 where "runs as S = Some S1" "idle_since A k s c S1" "leaves_idle s c S S1"
    "runs bs S1 = Some S'" "all_fresh (map snd bs) S1" "silent_run k bs S1" "\<not> gone_within s bs S1"
proof -
  obtain S1 where S1: "runs as S = Some S1" "runs bs S1 = Some S'"
    using assms(1) by (auto simp: run_ops_append split: Option.bind_splits)
  have "\<not> gone_within s as S" using assms(5) unfolding gone_within_def by (metis append.assoc)
  then have "idle_since A k s c S1" "leaves_idle s c S S1"
    using idle_run[OF S1(1) _ _ assms(4)] assms(2,3) by (auto simp: all_fresh_append silent_run_append)
  moreover have "\<not> gone_within s bs S1" using gone_within_later[OF S1(1)] assms(5) by blast
  ultimately show thesis using that S1 assms(2,3) by (auto simp: all_fresh_append silent_run_append)
qed

lemma queued_round:
  assumes "s \<in> set (expiredSockets S)" and "running S"
  shows "connections (runEventLoop_round waited S) s = None"
proof -
  have "leaves_idle s c T (dispatch_event e T)" for c e T
    using leaves_idle_close[of s c T "entry_socket e"]
    by (auto simp: dispatch_event_def leaves_idle_def key_of_def split: option.split)
  then have "leaves_idle s c T (fold dispatch_event es T)" for c es T by (rule leaves_idle_fold)
  then have "connections T s = None \<Longrightarrow> connections (fold dispatch_event es T) s = None" for es T
    unfolding leaves_idle_def by metis
  moreover have "connections (close_expired S) s = None"
    using assms(1) by (simp add: close_expired_def fold_close_connections)
  ultimately show ?thesis using assms(2) by (auto simp: runEventLoop_round_def Let_def split: option.split)
qed

text \<open>A cleanup that begins after the limit, and a later round, close the connection.\<close>

lemma cleanup_and_round:
  assumes "tes = as @ [(u, EvCleanup order)] @ bs @ [(v, EvRound waited)]"
    and "runs tes S = Some S'" and "all_fresh (map snd tes) S" and "silent_run k tes S"
    and "idle_since A k s c S" and "A + seconds 240 < u" and "running S'"
  shows "gone_within s tes S"
proof (rule ccontr)
  assume n: "\<not> gone_within s tes S"
  note p = assms(2-4)[unfolded assms(1)] n[unfolded assms(1)]
  obtain S1 where S1: "idle_since A k s c S1"
    and p1: "runs ([(u, EvCleanup order)] @ bs @ [(v, EvRound waited)]) S1 = Some S'"
      "all_fresh (map snd ([(u, EvCleanup order)] @ bs @ [(v, EvRound waited)])) S1"
      "silent_run k ([(u, EvCleanup order)] @ bs @ [(v, EvRound waited)]) S1"
      "\<not> gone_within s ([(u, EvCleanup order)] @ bs @ [(v, EvRound waited)]) S1"
    by (rule idle_part[OF p(1-3) assms(5) p(4)]) blast
  obtain S2 where S2: "runs [(u, EvCleanup order)] S1 = Some S2" "idle_since A k s c S2"
    and p2: "runs (bs @ [(v, EvRound waited)]) S2 = Some S'" "all_fresh (map snd (bs @ [(v, EvRound waited)])) S2"
      "silent_run k (bs @ [(v, EvRound waited)]) S2" "\<not> gone_within s (bs @ [(v, EvRound waited)]) S2"
    by (rule idle_part[OF p1(1-3) S1 p1(4)]) blast
  obtain S3 where S3: "idle_since A k s c S3" "leaves_idle s c S2 S3"
    and p3: "runs [(v, EvRound waited)] S3 = Some S'" "\<not> gone_within s [(v, EvRound waited)] S3"
    by (rule idle_part[OF p2(1-3) S2(2) p2(4)]) blast
  have "server_event_step (EvCleanup order) S1 = Some S2"
    using S2(1) by (simp del: server_event_step.simps(4) split: option.splits)
  moreover have "silent (key_of S1 c) u (EvCleanup order) S1"
    using p1(3) S1 by (simp add: idle_since_def del: silent.simps(2))
  ultimately have "\<not> (\<exists>ses. session_at k S2 = Some ses \<and> session_maximum_idle_time ses = 240)"
    using cleanup_silent[of order S1 S2 c u] S1 S2(2) assms(6) by (auto simp: idle_since_def seconds_def)
  moreover have "tracked {} (userSessionManager S2) S2" "connections S2 s = Some c" "key_of S2 c = k"
    using S2(2) by (simp_all add: idle_since_def expiry_inv_def)
  ultimately have "s \<in> set (expiredSockets S2)" using trackedD(1) by blast
  then have "s \<in> set (expiredSockets S3)" using S3 by (auto simp: leaves_idle_def idle_since_def)
  moreover have "running S3" using running_before_run[OF p3(1) assms(7)] .
  ultimately have "connections S' s = None" using queued_round p3(1) by auto
  with p3 show False by (auto intro: gone_withinI[of _ "[(v, EvRound waited)]" "[]" _ S'])
qed


text \<open>
  C23 (liveness). A silent client is disconnected in time, if its connection has a session and
  no accept, before or meanwhile, returns the number of an open socket or the address and port
  of a connection that is still in the table (\<open>all_fresh\<close>; a client that reconnects from its
  old port before the server has seen the old connection go gets no session of its own, and the
  claim does not hold of it, \<open>reconnect_gets_no_session\<close>).  Let the session's last sign of life
  be \<open>limit\<close> less 240 seconds, let the worker's loop have the default interval, call the cleanup
  at the times \<open>called x\<close> and run until after \<open>limit\<close>, the interval and six latencies; let a
  round of the event loop begin within \<open>r\<close> of every moment of that time, and let the server not be
  stopped.  Then by \<open>limit + 60 s + 6 * d + r\<close> the connection has gone from the table: a client
  is kept at most five minutes, the latencies and a round without a complete command, even if it
  goes on sending bytes of one, and whatever commands the other clients send.
\<close>

theorem silent_client_disconnected:
  assumes "server_started S0" and "run_ops server_event_step es S0 = Some S" and "all_fresh es S0"
    and "connections S s = Some c" and "session_at (key_of S c) S = Some ses"
    and "limit = last_activity_time ses + seconds 240"
    and "runs tes S = Some S'" and "all_fresh (map snd tes) S" and "silent_run (key_of S c) tes S"
    and "running S'" and "sorted (map fst tes)"
    and "(timed_step cb d)\<^sup>*\<^sup>* (TimedLoop_new cleanup_interval start st) x" and "\<And>st. snd (cb st) = False"
    and "0 \<le> d" and "start \<le> limit" and "limit + cleanup_interval + 6 * d < clock x"
    and "\<forall>u \<in> set (tl (called x)). limit < u \<longrightarrow> (\<exists>order. (u, EvCleanup order) \<in> set tes)"
    and "\<forall>u. limit < u \<and> u \<le> limit + cleanup_interval + 6 * d \<longrightarrow>
       (\<exists>v waited. u < v \<and> v \<le> u + r \<and> (v, EvRound waited) \<in> set tes)"
  shows "\<exists>tes1 tes2 S1. tes = tes1 @ tes2 \<and> runs tes1 S = Some S1 \<and> connections S1 s = None \<and>
    (\<forall>t \<in> set (map fst tes1). t \<le> limit + cleanup_interval + 6 * d + r)"
proof -
  have "0 < cleanup_interval" by (simp add: cleanup_interval_def seconds_def)
  from callback_within[OF this assms(14,13,12,15,16)] obtain u
    where "u \<in> set (tl (called x))" "limit < u" "u \<le> limit + cleanup_interval + 6 * d" by blast
  with assms(17,18) obtain order v waited
    where e: "(u, EvCleanup order) \<in> set tes" "u < v" "v \<le> u + r" "(v, EvRound waited) \<in> set tes" by meson
  obtain as bs cs where t: "tes = as @ (u, EvCleanup order) # bs @ (v, EvRound waited) # cs"
    and le: "\<forall>t \<in> set (map fst (as @ (u, EvCleanup order) # bs @ [(v, EvRound waited)])). t \<le> v"
    using two_events[OF assms(11) e(1,4,2)] by blast
  let ?h = "as @ [(u, EvCleanup order)] @ bs @ [(v, EvRound waited)]"
  have h: "tes = ?h @ cs" using t by simp
  obtain S1 where S1: "runs ?h S = Some S1" "runs cs S1 = Some S'"
    using assms(7) unfolding h map_append run_ops_append by (auto split: Option.bind_splits)
  have "expiry_inv S" by (rule expiry_run[OF assms(2,3) expiry_started[OF assms(1)]])
  then have "idle_since (last_activity_time ses) (key_of S c) s c S" using assms(4,5) by (simp add: idle_since_def)
  moreover have "all_fresh (map snd ?h) S" "silent_run (key_of S c) ?h S"
    using assms(8,9) unfolding h map_append all_fresh_append silent_run_append by simp_all
  moreover have "running S1" using running_before_run[OF S1(2) assms(10)] .
  ultimately have "gone_within s ?h S"
    using cleanup_and_round[OF refl S1(1)] \<open>limit < u\<close> assms(6) by simp
  then obtain tes1 tes2 S2 where g: "?h = tes1 @ tes2" "runs tes1 S = Some S2" "connections S2 s = None"
    unfolding gone_within_def by blast
  have "set (map fst tes1) \<subseteq> set (map fst ?h)" unfolding g(1) by auto
  then have "\<forall>t \<in> set (map fst tes1). t \<le> v" using le by auto
  then have "\<forall>t \<in> set (map fst tes1). t \<le> limit + cleanup_interval + 6 * d + r"
    using e(3) \<open>u \<le> _\<close> by fastforce
  moreover have "tes = tes1 @ tes2 @ cs" using h g(1) by simp
  ultimately show ?thesis using g(2,3) by blast
qed


text \<open>The client of the example, last seen at time 0, and a worker that began 210 seconds later.\<close>

definition example_key :: SessionKey where
  "example_key = \<lparr>raw_ip = 9, raw_port = 10\<rparr>"

definition example_silence :: "(int \<times> server_event) list" where
  "example_silence =
     [(seconds 270, EvCleanup [(example_key, seconds 270)]), (seconds 301, EvRound None),
      (seconds 330, EvCleanup [(example_key, seconds 330)])]"

lemma cleanup_event: "\<exists>S'. server_event_step (EvCleanup order) S = Some S' \<and> (running S' \<longleftrightarrow> running S)"
  if "distinct (map fst order)"
  using cleanup_run[OF that, of onSessionExpired "userSessionManager S" S] by (simp add: fold_onSessionExpired)

lemma example_silence_runs:
  assumes "running S"
  obtains S' where "runs example_silence S = Some S'" "running S'" "all_fresh (map snd example_silence) S"
    "silent_run example_key example_silence S"
proof -
  obtain S1 where S1: "server_event_step (EvCleanup [(example_key, seconds 270)]) S = Some S1" "running S1"
    using cleanup_event[of "[(example_key, seconds 270)]" S] assms by auto
  have "running (fold closeConnection ss T) = running T" for ss T
    by (induction ss arbitrary: T) (simp_all add: frame_simps)
  then have r: "running (runEventLoop_round None S1)"
    using S1(2) by (simp add: runEventLoop_round_def close_expired_def)
  obtain S2 where S2: "server_event_step (EvCleanup [(example_key, seconds 330)]) (runEventLoop_round None S1) = Some S2"
      "running S2"
    using cleanup_event[of "[(example_key, seconds 330)]" "runEventLoop_round None S1"] r by auto
  show thesis using that[of S2] S1(1) S2
    by (simp add: example_silence_def fresh_accept_def del: server_event_step.simps(4))
qed

theorem silent_client_disconnected_witness:
  "\<exists>S0 S tes1 S1. server_started S0 \<and> run_ops server_event_step [EvAccept (example_answers 7)] S0 = Some S \<and>
     connections S 7 = Some 0 \<and> runs tes1 S = Some S1 \<and> connections S1 7 = None \<and>
     (\<forall>t \<in> set (map fst tes1). t \<le> seconds 400)"
proof -
  obtain S0 S where S: "server_started S0" "run_ops server_event_step [EvAccept (example_answers 7)] S0 = Some S"
    "all_fresh [EvAccept (example_answers 7)] S0" "running S" "connections S = [7 \<mapsto> 0]"
    "expiredSockets S = []" "key_of S 0 = example_key"
    "users_sessions (userSessionManager S) = [example_key \<mapsto> UserSession_new 7 \<lparr>sin_addr = 9, sin_port = 10\<rparr> 240 0]"
    unfolding example_key_def by (rule example_connected)
  obtain S' where S': "runs example_silence S = Some S'" "all_fresh (map snd example_silence) S"
      "silent_run example_key example_silence S" "running S'"
    by (rule example_silence_runs[OF S(4)]) blast
  let ?cb = "\<lambda>st :: nat. (st + 1, False)" and ?i = "cleanup_interval"
  have i: "?i = seconds 60" "0 \<le> ?i" "seconds 210 + ?i = seconds 270" "seconds 270 + ?i = seconds 330"
    by (simp_all add: cleanup_interval_def seconds_def)
  have "(timed_step ?cb 0)\<^sup>*\<^sup>* (TimedLoop_new ?i (seconds 210) 0) (waiting ?i 0 (seconds 210) 0 [seconds 210])"
    by (rule timed_start)
  also have "(timed_step ?cb 0)\<^sup>*\<^sup>* \<dots> (waiting ?i 1 (seconds 270) 1 [seconds 210, seconds 270])"
    using timed_period[of ?i 0 ?cb 0 0 "seconds 210" "[seconds 210]"] i(2-4) by simp
  also have "(timed_step ?cb 0)\<^sup>*\<^sup>* \<dots> (waiting ?i 2 (seconds 330) 2 [seconds 210, seconds 270, seconds 330])"
    using timed_period[of ?i 0 ?cb 1 1 "seconds 270" "[seconds 210, seconds 270]"] i(2-4)
    by (simp add: numeral_2_eq_2)
  finally have w: "(timed_step ?cb 0)\<^sup>*\<^sup>* (TimedLoop_new ?i (seconds 210) 0)
      (waiting ?i 2 (seconds 330) 2 [seconds 210, seconds 270, seconds 330])" .
  have c: "connections S 7 = Some 0" using S(5) by simp
  have ses: "session_at (key_of S 0) S = Some (UserSession_new 7 \<lparr>sin_addr = 9, sin_port = 10\<rparr> 240 0)"
    using S(7,8) by simp
  have si: "silent_run (key_of S 0) example_silence S" using S'(3) S(7) by simp
  have "\<exists>tes1 tes2 S1. example_silence = tes1 @ tes2 \<and> runs tes1 S = Some S1 \<and> connections S1 7 = None \<and>
      (\<forall>t \<in> set (map fst tes1). t \<le> seconds 240 + cleanup_interval + 6 * 0 + seconds 100)"
  proof (rule silent_client_disconnected[OF S(1-3) c ses _ S'(1,2) si S'(4) _ w])
    show "\<forall>u \<in> set (tl (called (waiting ?i 2 (seconds 330) 2 [seconds 210, seconds 270, seconds 330]))).
        seconds 240 < u \<longrightarrow> (\<exists>order. (u, EvCleanup order) \<in> set example_silence)"
      by (auto simp: waiting_def example_silence_def)
    show "\<forall>u. seconds 240 < u \<and> u \<le> seconds 240 + ?i + 6 * 0 \<longrightarrow>
        (\<exists>v waited. u < v \<and> v \<le> u + seconds 100 \<and> (v, EvRound waited) \<in> set example_silence)"
      by (intro allI impI exI[of _ "seconds 301"] exI[of _ None]) (auto simp: example_silence_def i(1) seconds_def)
  qed (simp_all add: UserSession_new_def waiting_def i(1) seconds_def example_silence_def)
  then obtain tes1 S1 where "runs tes1 S = Some S1" "connections S1 7 = None"
      "\<forall>t \<in> set (map fst tes1). t \<le> seconds 400"
    by (auto simp: i(1) seconds_def)
  with S(1,2) c show ?thesis by blast
qed

end
