(* ===== verification/IocpContext.thy ===== *)
theory IocpContext
  imports Readiness
begin

text \<open>
  The contexts of \<open>src/Networking/IocpEventLoop.h\<close> in memory: which pointers \<open>WSARecv\<close> is
  given, and what a receive of zero bytes does to the data of the socket.  The theory
  \<open>EventLoop\<close> knows only which contexts are allocated; its operations are shown to be an
  abstraction of these.
\<close>

subsection \<open>Contexts in memory\<close>

text \<open>
  A context is known by its address; \<open>dummy\<close> is the byte its buffer points to.  What the
  kernel keeps in an \<open>OVERLAPPED\<close> has any type \<open>'o\<close>.
\<close>

record WSABUF =
  len :: uint32
  buf :: nat          \<comment> \<open>the context whose \<open>dummy\<close> it is\<close>

record 'o IocpContext =
  overlapped :: 'o
  ctx_socket :: SocketType
  ctx_buffer :: WSABUF
  dummy :: char

text \<open>\<open>WSARecv\<close> copies the array of buffers and keeps the pointer to the \<open>OVERLAPPED\<close>.\<close>

record receive =
  rcv_socket :: SocketType
  rcv_buffer :: WSABUF
  rcv_overlapped :: nat

record 'o ContextLoop =
  context_map :: "SocketType \<rightharpoonup> nat"
  memory :: "nat \<rightharpoonup> 'o IocpContext"
  unused :: nat       \<comment> \<open>the next address \<open>new\<close> gives\<close>
  receives :: "receive list"

definition ContextLoop_new :: "'o ContextLoop" where
  "ContextLoop_new = \<lparr>context_map = Map.empty, memory = Map.empty, unused = 0, receives = []\<rparr>"

text \<open>Following a pointer to memory that was freed is undefined.\<close>

definition ContextLoop_armRead :: "bool \<Rightarrow> SocketType \<Rightarrow> 'o ContextLoop \<Rightarrow> 'o ContextLoop option" where
  "ContextLoop_armRead queued sock l =
     (case context_map l sock of
        None \<Rightarrow> Some l
      | Some ctx \<Rightarrow> map_option (\<lambda>c. if \<not> queued then l else l\<lparr>receives := receives l @
            [\<lparr>rcv_socket = sock, rcv_buffer = ctx_buffer c, rcv_overlapped = ctx\<rparr>]\<rparr>) (memory l ctx))"

text \<open>
  \<open>make_unique\<close> value-initialises the context; the members are set before the map owns it.
  Assigning to the map's entry frees the context it owned.
\<close>

definition new_context :: "'o \<Rightarrow> nat \<Rightarrow> SocketType \<Rightarrow> 'o IocpContext" where
  "new_context zero ctx sock =
     \<lparr>overlapped = zero, ctx_socket = sock, ctx_buffer = \<lparr>len = 0, buf = ctx\<rparr>, dummy = CHR 0x00\<rparr>"

definition ContextLoop_free :: "SocketType \<Rightarrow> 'o ContextLoop \<Rightarrow> 'o ContextLoop" where
  "ContextLoop_free sock l =
     (case context_map l sock of None \<Rightarrow> l | Some ctx \<Rightarrow> l\<lparr>memory := (memory l)(ctx := None)\<rparr>)"

definition ContextLoop_add :: "bool \<Rightarrow> 'o \<Rightarrow> SocketType \<Rightarrow> 'o ContextLoop \<Rightarrow> 'o ContextLoop option" where
  "ContextLoop_add queued zero sock l =
     (let ctx = unused l; l1 = ContextLoop_free sock l in
      ContextLoop_armRead queued sock
        (l1\<lparr>memory := (memory l1)(ctx \<mapsto> new_context zero ctx sock), unused := Suc ctx,
            context_map := (context_map l1)(sock \<mapsto> ctx)\<rparr>))"

definition ContextLoop_remove :: "SocketType \<Rightarrow> 'o ContextLoop \<Rightarrow> 'o ContextLoop" where
  "ContextLoop_remove sock l =
     (let l1 = ContextLoop_free sock l in l1\<lparr>context_map := (context_map l1)(sock := None)\<rparr>)"

text \<open>
  The kernel completes the receive \<open>r\<close> when \<open>data\<close> has arrived on its socket.  How many bytes it
  moves, and what it writes to the \<open>OVERLAPPED\<close>, are its own (\<open>moved\<close>, \<open>result\<close>); it is used, as
  documented for \<open>WSARecv\<close>, that it moves no more than the buffer holds, that the others stay to
  be received, and that it writes through the pointer it was given.
\<close>

definition complete :: "nat \<Rightarrow> 'o \<Rightarrow> receive \<Rightarrow> string \<Rightarrow> 'o ContextLoop \<Rightarrow> (nat \<times> string \<times> 'o ContextLoop) option" where
  "complete moved result r data l =
     map_option (\<lambda>c.
         let n = min moved (unat (len (rcv_buffer r))) in
         (length (take n data), drop n data,
          l\<lparr>receives := remove1 r (receives l),
            memory := (memory l)(rcv_overlapped r \<mapsto> c\<lparr>overlapped := result\<rparr>)\<rparr>))
       (memory l (rcv_overlapped r))"

subsection \<open>The loop of \<open>EventLoop\<close> is its abstraction\<close>

definition loop_of :: "'o ContextLoop \<Rightarrow> IocpEventLoop" where
  "loop_of l = \<lparr>contexts = context_map l, live = dom (memory l), next_context = unused l,
     posted = map (\<lambda>r. (rcv_socket r, rcv_overlapped r)) (receives l)\<rparr>"

text \<open>
  A context's buffer has no room and points into the context itself, and so did every buffer a
  pending receive was given.
\<close>

definition contexts_ok :: "'o ContextLoop \<Rightarrow> bool" where
  "contexts_ok l \<longleftrightarrow>
     Iocp_inv (loop_of l) \<and>
     (\<forall>ctx c. memory l ctx = Some c \<longrightarrow> ctx_buffer c = \<lparr>len = 0, buf = ctx\<rparr>) \<and>
     (\<forall>r \<in> set (receives l). rcv_buffer r = \<lparr>len = 0, buf = rcv_overlapped r\<rparr>)"

lemma ContextLoop_new_ok: "contexts_ok ContextLoop_new \<and> loop_of ContextLoop_new = Iocp_new"
  by (simp add: contexts_ok_def loop_of_def ContextLoop_new_def Iocp_inv_def Iocp_new_def)

lemma ContextLoop_armRead_sim:
  assumes "contexts_ok l"
  shows "\<exists>l'. ContextLoop_armRead queued sock l = Some l' \<and> loop_of l' = armRead queued sock (loop_of l) \<and> contexts_ok l'"
proof (cases "context_map l sock")
  case (Some ctx)
  then have "ctx \<in> dom (memory l)"
    using assms by (auto simp: contexts_ok_def Iocp_inv_def loop_of_def intro: ranI)
  then obtain c where "memory l ctx = Some c" by blast
  with Some assms show ?thesis
    by (auto simp: ContextLoop_armRead_def armRead_def loop_of_def contexts_ok_def Iocp_inv_def)
qed (use assms in \<open>simp add: ContextLoop_armRead_def armRead_def loop_of_def\<close>)

lemma Iocp_remove_inv: "Iocp_inv l \<Longrightarrow> Iocp_inv (Iocp_remove sock l)"
  by (auto simp: Iocp_inv_def Iocp_remove_def free_context_def Let_def ran_def inj_on_def dom_def
      split: option.splits)

lemma Iocp_inv_posted: "Iocp_inv (l\<lparr>posted := p\<rparr>) = Iocp_inv l"
  by (simp add: Iocp_inv_def)

lemma Iocp_add_inv:
  assumes "Iocp_inv l"
  shows "Iocp_inv (Iocp_add queued sock l)"
proof -
  let ?l = "(Iocp_remove sock l)\<lparr>posted := []\<rparr>"
  have "Iocp_inv ?l" "Iocp_ok ?l" "contexts ?l sock = None"
    using Iocp_remove_inv[OF assms, of sock] unfolding Iocp_inv_posted
    by (simp_all add: Iocp_ok_def Iocp_remove_def Let_def)
  then have "Iocp_inv (Iocp_add queued sock ?l)" using Iocp_add_ok by blast
  moreover have "(Iocp_add queued sock ?l)\<lparr>posted := []\<rparr> = (Iocp_add queued sock l)\<lparr>posted := []\<rparr>"
    by (cases "contexts l sock") (simp_all add: Iocp_add_def Iocp_remove_def free_context_def armRead_def Let_def)
  ultimately show ?thesis by (metis Iocp_inv_posted)
qed

lemma ContextLoop_remove_sim:
  assumes "contexts_ok l"
  shows "loop_of (ContextLoop_remove sock l) = Iocp_remove sock (loop_of l) \<and> contexts_ok (ContextLoop_remove sock l)"
proof -
  have a: "loop_of (ContextLoop_remove sock l) = Iocp_remove sock (loop_of l)"
    by (cases "context_map l sock")
       (auto simp: ContextLoop_remove_def ContextLoop_free_def Iocp_remove_def free_context_def loop_of_def Let_def)
  have "Iocp_inv (loop_of (ContextLoop_remove sock l))"
    using assms unfolding a by (simp add: contexts_ok_def Iocp_remove_inv)
  with a assms show ?thesis
    by (auto simp: contexts_ok_def ContextLoop_remove_def ContextLoop_free_def Let_def split: option.splits if_splits)
qed

lemma ContextLoop_add_sim:
  assumes "contexts_ok l"
  shows "\<exists>l'. ContextLoop_add queued zero sock l = Some l' \<and> loop_of l' = Iocp_add queued sock (loop_of l) \<and> contexts_ok l'"
proof -
  let ?ctx = "unused l"
  let ?l1 = "ContextLoop_free sock l"
  let ?l2 = "?l1\<lparr>memory := (memory ?l1)(?ctx \<mapsto> new_context zero ?ctx sock), unused := Suc ?ctx,
      context_map := (context_map ?l1)(sock \<mapsto> ?ctx)\<rparr>"
  let ?f = "free_context sock (loop_of l)"
  have a: "loop_of ?l2 = ?f\<lparr>contexts := (contexts ?f)(sock \<mapsto> ?ctx), live := insert ?ctx (live ?f), next_context := Suc ?ctx\<rparr>"
    by (cases "context_map l sock") (auto simp: ContextLoop_free_def free_context_def loop_of_def)
  have "Iocp_inv (Iocp_add queued sock (loop_of l))" using assms by (simp add: contexts_ok_def Iocp_add_inv)
  moreover have "Iocp_add queued sock (loop_of l) = (loop_of ?l2)\<lparr>posted := posted (Iocp_add queued sock (loop_of l))\<rparr>"
    unfolding a by (simp add: Iocp_add_def armRead_def Let_def) (simp add: loop_of_def)
  ultimately have "Iocp_inv (loop_of ?l2)" by (metis Iocp_inv_posted)
  then have "contexts_ok ?l2"
    using assms by (cases "context_map l sock")
      (auto simp: contexts_ok_def ContextLoop_free_def new_context_def split: if_splits)
  from ContextLoop_armRead_sim[OF this, of queued sock] a show ?thesis
    by (simp add: ContextLoop_add_def Iocp_add_def Let_def) (simp add: loop_of_def)
qed

lemma map_remove1: "inj_on f (insert x (set xs)) \<Longrightarrow> map f (remove1 x xs) = remove1 (f x) (map f xs)"
  by (induction xs) (auto simp: inj_on_def)

lemma complete_sim:
  assumes "contexts_ok l" and "r \<in> set (receives l)"
  shows "if rcv_overlapped r \<in> live (loop_of l)
    then \<exists>l'. complete moved result r data l = Some (0, data, l') \<and> contexts_ok l' \<and>
      loop_of l' = snd (Iocp_wait (success, rcv_socket r, Some (rcv_overlapped r)) out (loop_of l))
    else complete moved result r data l = None"
proof (cases "memory l (rcv_overlapped r)")
  case None
  then show ?thesis by (simp add: complete_def loop_of_def domIff)
next
  case (Some c)
  let ?l = "l\<lparr>receives := remove1 r (receives l),
      memory := (memory l)(rcv_overlapped r \<mapsto> c\<lparr>overlapped := result\<rparr>)\<rparr>"
  have z: "len (rcv_buffer r) = 0" using assms by (simp add: contexts_ok_def)
  have "inj_on (\<lambda>r. (rcv_socket r, rcv_overlapped r)) (insert r (set (receives l)))"
    using assms by (auto simp: contexts_ok_def inj_on_def)
  from map_remove1[OF this]
  have a: "loop_of ?l = snd (Iocp_wait (success, rcv_socket r, Some (rcv_overlapped r)) out (loop_of l))"
    using Some by (auto simp: loop_of_def Iocp_wait_def)
  have "Iocp_inv (loop_of ?l)"
    using assms(1) Some by (auto simp: contexts_ok_def Iocp_inv_def loop_of_def)
  then have "contexts_ok ?l"
    using assms(1) Some by (auto simp: contexts_ok_def dest: notin_set_remove1)
  moreover have "complete moved result r data l = Some (0, data, ?l)" using Some z by (simp add: complete_def)
  ultimately show ?thesis using a Some by (auto simp: loop_of_def)
qed

subsection \<open>Runs\<close>

datatype 'o context_event =
    ContextAdd bool SocketType
  | ContextRearm bool SocketType
  | ContextRemove SocketType
  | Complete nat 'o receive string

fun context_event_step :: "'o \<Rightarrow> 'o context_event \<Rightarrow> 'o ContextLoop \<Rightarrow> 'o ContextLoop option" where
  "context_event_step zero (ContextAdd queued sock) l = ContextLoop_add queued zero sock l"
| "context_event_step zero (ContextRearm queued sock) l = ContextLoop_armRead queued sock l"
| "context_event_step zero (ContextRemove sock) l = Some (ContextLoop_remove sock l)"
| "context_event_step zero (Complete moved result r data) l =
     (if r \<in> set (receives l) then map_option (\<lambda>(n, rest, l'). l') (complete moved result r data l) else None)"

fun loop_event :: "'o context_event \<Rightarrow> IocpEventLoop \<Rightarrow> IocpEventLoop" where
  "loop_event (ContextAdd queued sock) l = Iocp_add queued sock l"
| "loop_event (ContextRearm queued sock) l = snd (Iocp_rearm queued sock l)"
| "loop_event (ContextRemove sock) l = Iocp_remove sock l"
| "loop_event (Complete moved result r data) l =
     snd (Iocp_wait (True, rcv_socket r, Some (rcv_overlapped r)) [] l)"

lemma context_event_sim:
  assumes "context_event_step zero e l = Some l'" and "contexts_ok l"
  shows "contexts_ok l' \<and> loop_of l' = loop_event e (loop_of l)"
proof (cases e)
  case (ContextAdd queued sock)
  then show ?thesis using assms ContextLoop_add_sim[OF assms(2), of queued zero sock] by auto
next
  case (ContextRearm queued sock)
  then show ?thesis using assms ContextLoop_armRead_sim[OF assms(2), of queued sock] by (auto simp: Iocp_rearm_def)
next
  case (ContextRemove sock)
  then show ?thesis using assms ContextLoop_remove_sim[OF assms(2), of sock] by auto
next
  case (Complete moved result r data)
  then have "r \<in> set (receives l)" using assms(1) by (simp split: if_splits)
  from complete_sim[OF assms(2) this, of moved result data True "[]"] show ?thesis
    using assms(1) Complete by (auto split: if_splits)
qed

lemma context_run_sim:
  "run_ops (context_event_step zero) es l = Some l' \<Longrightarrow> contexts_ok l \<Longrightarrow>
   contexts_ok l' \<and> loop_of l' = fold loop_event es (loop_of l)"
proof (induction es arbitrary: l)
  case (Cons e es)
  then obtain l1 where "context_event_step zero e l = Some l1" "run_ops (context_event_step zero) es l1 = Some l'"
    by (auto split: option.splits)
  with Cons.IH[of l1] context_event_sim[of zero e l l1] Cons.prems(2) show ?case by simp
qed simp

text \<open>
  C14 (refinement). The receives of \<open>IocpEventLoop\<close> only tell that data has arrived: after any
  calls and completions, every pending receive has a buffer of no bytes that points into its own
  context, so its completion moves nothing and the handler's \<open>recv\<close> finds all the data; it has
  the effect of \<open>Iocp_wait\<close> on the loop's state, and is undefined exactly when the context was
  freed meanwhile.
\<close>

theorem receives_take_no_data:
  assumes "run_ops (context_event_step zero) es ContextLoop_new = Some l" and "r \<in> set (receives l)"
  shows "loop_of l = fold loop_event es Iocp_new \<and>
    rcv_buffer r = \<lparr>len = 0, buf = rcv_overlapped r\<rparr> \<and>
    (if rcv_overlapped r \<in> live (loop_of l)
     then \<exists>l'. complete moved result r data l = Some (0, data, l') \<and>
       loop_of l' = snd (Iocp_wait (success, rcv_socket r, Some (rcv_overlapped r)) out (loop_of l))
     else complete moved result r data l = None)"
proof -
  have "contexts_ok l" "loop_of l = fold loop_event es Iocp_new"
    using context_run_sim[OF assms(1) conjunct1[OF ContextLoop_new_ok]]
    by (simp_all add: conjunct2[OF ContextLoop_new_ok])
  moreover from this(1) assms(2) have "rcv_buffer r = \<lparr>len = 0, buf = rcv_overlapped r\<rparr>"
    by (simp add: contexts_ok_def)
  ultimately show ?thesis using complete_sim[OF _ assms(2), of moved result data success out] by (auto split: if_splits)
qed

theorem receives_take_no_data_witness:
  "\<exists>l l'. run_ops (context_event_step ()) [ContextAdd True 5] ContextLoop_new = Some l \<and>
     receives l = [\<lparr>rcv_socket = 5, rcv_buffer = \<lparr>len = 0, buf = 0\<rparr>, rcv_overlapped = 0\<rparr>] \<and>
     complete 0 () \<lparr>rcv_socket = 5, rcv_buffer = \<lparr>len = 0, buf = 0\<rparr>, rcv_overlapped = 0\<rparr> ''GET a'' l
       = Some (0, ''GET a'', l')"
proof -
  let ?r = "\<lparr>rcv_socket = 5, rcv_buffer = \<lparr>len = 0, buf = 0\<rparr>, rcv_overlapped = 0\<rparr>"
  obtain l where l: "run_ops (context_event_step ()) [ContextAdd True 5] ContextLoop_new = Some l" "receives l = [?r]"
      "live (loop_of l) = {0}"
    by (simp add: ContextLoop_add_def ContextLoop_new_def ContextLoop_free_def ContextLoop_armRead_def
        new_context_def loop_of_def Let_def)
  have "?r \<in> set (receives l)" using l(2) by simp
  from receives_take_no_data[OF l(1) this, of 0 "()" "''GET a''" True "[]"] l show ?thesis by auto
qed

end
