(* ===== verification/UnitTests.thy ===== *)
theory UnitTests
  imports HashMap_Correct Limiter UserSession ThreadPool
begin

text \<open>
  The unit tests of \<open>src/Tests\<close>, run on the models: the bodies of the tests as definitions, and
  theorems that their expectations hold, for every interleaving of the tests' threads and for
  all readings of the clock, or for which ones.
\<close>

subsection \<open>\<open>test_hashmap.cpp\<close>\<close>

text \<open>Construct, change, look up; an exception, undefined behaviour or divergence fails the test.\<close>

definition expect_after :: "(nat \<Rightarrow> addr option) \<Rightarrow> int32 \<Rightarrow> store_op list \<Rightarrow> (string \<times> string) list \<Rightarrow> bool" where
  "expect_after raw sz ops expected =
     (case Option.bind (HashMap_new raw sz) (run_ops (apply_op HashMap_insert HashMap_remove) ops) of
        None \<Rightarrow> False
      | Some m \<Rightarrow> list_all (\<lambda>(k, v). HashMap_get m k = Some v) expected)"

definition HandlesInsertCorrectly :: "(nat \<Rightarrow> addr option) \<Rightarrow> bool" where
  "HandlesInsertCorrectly raw =
     expect_after raw 2 [Put ''key'' ''value''] [(''key'', ''value'')]"

definition HandlesGetWithDuplicateKeyInsertions :: "(nat \<Rightarrow> addr option) \<Rightarrow> bool" where
  "HandlesGetWithDuplicateKeyInsertions raw =
     expect_after raw 3 [Put ''key'' ''value1'', Put ''key'' ''value2''] [(''key'', ''value2'')]"

definition HandledRemoveCorrectly :: "(nat \<Rightarrow> addr option) \<Rightarrow> bool" where
  "HandledRemoveCorrectly raw =
     expect_after raw 2 [Put ''key'' ''value'', Del ''key''] [(''key'', '''')]"

definition HandledRemoveWhenKeyIsntInHashmap :: "(nat \<Rightarrow> addr option) \<Rightarrow> bool" where
  "HandledRemoveWhenKeyIsntInHashmap raw =
     expect_after raw 2 [Put ''key'' ''value'', Del ''Random Key''] [(''key'', ''value'')]"

text \<open>
  The test with threads: \<open>insert\<close> holds the lock of the map from beginning to end, so a run of
  the threads is an interleaving of their inserts.
\<close>

definition unique_key :: "nat \<Rightarrow> nat \<Rightarrow> string" where
  "unique_key thread_id i = ''thread_'' @ to_string thread_id @ ''_key_'' @ to_string i"

definition inserted_value :: "nat \<Rightarrow> string" where
  "inserted_value i = ''value_'' @ to_string i"

definition insert_worker :: "nat \<Rightarrow> nat \<Rightarrow> store_op list" where
  "insert_worker inserts thread_id = map (\<lambda>i. Put (unique_key thread_id i) (inserted_value i)) [0..<inserts]"

inductive interleaved :: "'a list list \<Rightarrow> 'a list \<Rightarrow> bool" where
  all_done: "list_all (\<lambda>xs. xs = []) xss \<Longrightarrow> interleaved xss []"
| one_goes: "interleaved (xss[i := xs]) ys \<Longrightarrow> i < length xss \<Longrightarrow> xss ! i = x # xs \<Longrightarrow> interleaved xss (x # ys)"

definition HandlesConcurrentInsertsSafely ::
  "(nat \<Rightarrow> addr option) \<Rightarrow> int32 \<Rightarrow> nat \<Rightarrow> nat \<Rightarrow> store_op list \<Rightarrow> bool" where
  "HandlesConcurrentInsertsSafely raw sz num_threads inserts_per_thread run =
     expect_after raw sz run
       (concat (map (\<lambda>t. map (\<lambda>i. (unique_key t i, inserted_value i)) [0..<inserts_per_thread]) [0..<num_threads]))"

lemma expect_after_iff:
  assumes "0 < sint sz"
  shows "expect_after raw sz ops expected \<longleftrightarrow>
    list_all (\<lambda>(k, v). value_or_empty (fold store_step ops Map.empty) k = v) expected"
proof -
  obtain m0 where m0: "HashMap_new raw sz = Some m0" "HashMap_inv m0" "HashMap_map m0 = Map.empty"
    using HashMap_new_store[OF assms] by blast
  obtain m where m: "run_ops (apply_op HashMap_insert HashMap_remove) ops m0 = Some m" "HashMap_inv m"
      "HashMap_map m = fold store_step ops Map.empty"
    using hm.run_store[OF m0(2), of ops] m0(3) by auto
  show ?thesis using hm.get[OF m(2)] m0(1) m(1,3) by (simp add: expect_after_def case_prod_beta)
qed

theorem sequential_map_tests:
  "HandlesInsertCorrectly raw \<and> HandlesGetWithDuplicateKeyInsertions raw \<and> HandledRemoveCorrectly raw \<and>
   HandledRemoveWhenKeyIsntInHashmap raw"
  by (simp add: HandlesInsertCorrectly_def HandlesGetWithDuplicateKeyInsertions_def HandledRemoveCorrectly_def
      HandledRemoveWhenKeyIsntInHashmap_def expect_after_iff value_or_empty_def)

lemma interleaved_set: "interleaved xss ys \<Longrightarrow> set ys = \<Union> (set ` set xss)"
proof (induction rule: interleaved.induct)
  case (all_done xss)
  then show ?case by (auto simp: list_all_iff)
next
  case (one_goes xss i xs ys x)
  have "\<Union> (set ` set (xss[i := xs])) \<union> {x} = \<Union> (set ` set xss)"
  proof -
    have "xss = take i xss @ (x # xs) # drop (Suc i) xss" using one_goes(2,3) by (metis id_take_nth_drop)
    then have "set xss = set (take i xss) \<union> {x # xs} \<union> set (drop (Suc i) xss)"
      by (metis Un_insert_right insert_is_Un list.simps(15) set_append sup_bot.right_neutral sup_commute)
    moreover have "set (xss[i := xs]) = set (take i xss) \<union> {xs} \<union> set (drop (Suc i) xss)"
      using one_goes(2) by (simp add: upd_conv_take_nth_drop)
    ultimately show ?thesis by auto
  qed
  then show ?case using one_goes.IH by auto
qed

text \<open>The number of the insert can be read off the key.\<close>

lemma split_at_underscore:
  assumes "list_all digit xs" and "list_all digit ys" and "xs @ CHR ''_'' # s = ys @ CHR ''_'' # t"
  shows "xs = ys \<and> s = t"
proof -
  have "\<not> digit (CHR ''_'')" by (simp add: digit_def)
  with assms show ?thesis
  proof (induction xs arbitrary: ys)
    case Nil
    then show ?case by (cases ys) auto
  next
    case (Cons x xs)
    then show ?case by (cases ys) auto
  qed
qed

lemma unique_key_inject: "unique_key t i = unique_key t' i' \<longleftrightarrow> t = t' \<and> i = i'"
proof
  assume "unique_key t i = unique_key t' i'"
  then have "to_string t @ CHR ''_'' # (''key_'' @ to_string i) = to_string t' @ CHR ''_'' # (''key_'' @ to_string i')"
    by (simp add: unique_key_def)
  from split_at_underscore[OF to_string_digits to_string_digits this]
  show "t = t' \<and> i = i'" by (simp add: to_string_inject)
qed simp

text \<open>Puts that agree on the value of each key leave that value.\<close>

lemma fold_agreeing_puts:
  assumes "Put k v \<in> set ops" and "\<And>op. op \<in> set ops \<Longrightarrow> \<exists>k' v'. op = Put k' v' \<and> (k' = k \<longrightarrow> v' = v)"
  shows "fold store_step ops s k = Some v"
proof -
  have "last_effect ops k = Some (Some v)"
    using assms
  proof (induction ops)
    case (Cons op ops)
    obtain k' v' where op: "op = Put k' v'" "k' = k \<longrightarrow> v' = v" using Cons.prems(2)[of op] by auto
    show ?case
    proof (cases "Put k v \<in> set ops")
      case True
      then show ?thesis using Cons.IH Cons.prems(2) by simp
    next
      case False
      then have "op = Put k v" using Cons.prems(1) by auto
      moreover have "last_effect ops k = None"
        using False Cons.prems(2)
      proof (induction ops)
        case (Cons op' ops)
        then obtain k' v' where "op' = Put k' v'" "k' = k \<longrightarrow> v' = v" "Put k' v' \<noteq> Put k v" by fastforce
        moreover have "last_effect ops k = None" using Cons by auto
        ultimately show ?case by auto
      qed simp
      ultimately show ?thesis by simp
    qed
  qed simp
  then show ?thesis by (simp add: fold_store_step)
qed

text \<open>
  The concurrency test of the map passes in every interleaving of its threads,
  for a map of any positive size and any numbers of threads and inserts, the test's
  5, 5 and 100 among them: no insert is lost, however the keys collide.
\<close>

theorem concurrent_insert_test_passes:
  assumes "0 < sint sz" and "interleaved (map (insert_worker inserts) [0..<num_threads]) run"
  shows "HandlesConcurrentInsertsSafely raw sz num_threads inserts run"
proof -
  have s: "set run = (\<Union>t \<in> {0..<num_threads}. set (insert_worker inserts t))"
    using interleaved_set[OF assms(2)] by auto
  have "fold store_step run Map.empty (unique_key t i) = Some (inserted_value i)"
    if "t < num_threads" "i < inserts" for t i
  proof (rule fold_agreeing_puts)
    have "Put (unique_key t i) (inserted_value i) \<in> set (insert_worker inserts t)"
      using that(2) by (simp add: insert_worker_def)
    then show "Put (unique_key t i) (inserted_value i) \<in> set run" using that(1) s by auto
  qed (auto simp: s insert_worker_def unique_key_inject)
  then show ?thesis
    unfolding HandlesConcurrentInsertsSafely_def expect_after_iff[OF assms(1)]
    by (auto simp: list_all_iff value_or_empty_def)
qed

theorem concurrent_insert_test_passes_witness:
  "HandlesConcurrentInsertsSafely (\<lambda>_. None) 5 2 2
     [Put (unique_key 1 0) (inserted_value 0), Put (unique_key 0 0) (inserted_value 0),
      Put (unique_key 0 1) (inserted_value 1), Put (unique_key 1 1) (inserted_value 1)]"
proof (rule concurrent_insert_test_passes)
  show "interleaved (map (insert_worker 2) [0..<2])
     [Put (unique_key 1 0) (inserted_value 0), Put (unique_key 0 0) (inserted_value 0),
      Put (unique_key 0 1) (inserted_value 1), Put (unique_key 1 1) (inserted_value 1)]"
    by (simp add: insert_worker_def numeral_2_eq_2 upt_rec,
        rule one_goes[where i = 1], rule one_goes[where i = 0], rule one_goes[where i = 0],
        rule one_goes[where i = 1], rule all_done, simp_all)
qed simp


subsection \<open>\<open>test_ratelimiter.cpp\<close>\<close>

text \<open>An address by its four numbers, in the order of the host.\<close>

definition ipToUint32 :: "nat \<Rightarrow> nat \<Rightarrow> nat \<Rightarrow> nat \<Rightarrow> uint32" where
  "ipToUint32 a b c d = word_of_nat (((a * 256 + b) * 256 + c) * 256 + d)"

text \<open>The answers to the calls of a test; \<open>clock i\<close> are the two readings of the \<open>i\<close>-th call.\<close>

definition asked :: "RateLimiter \<Rightarrow> (nat \<Rightarrow> int \<times> int) \<Rightarrow> uint32 list \<Rightarrow> bool list" where
  "asked limiter clock ips = fst (isAllowed_run (map (\<lambda>i. (ips ! i, clock i)) [0..<length ips]) limiter)"

definition AllowsNormalTraffic :: "int \<Rightarrow> (nat \<Rightarrow> int \<times> int) \<Rightarrow> bool" where
  "AllowsNormalTraffic now clock \<longleftrightarrow>
     asked (RateLimiter_new now 10 5 1000) clock
       [ipToUint32 192 168 1 1, ipToUint32 192 168 1 2, ipToUint32 192 168 1 3] = [True, True, True]"

definition BlocksSingleIPAfterLimit :: "int \<Rightarrow> (nat \<Rightarrow> int \<times> int) \<Rightarrow> bool" where
  "BlocksSingleIPAfterLimit now clock \<longleftrightarrow>
     (let ip = ipToUint32 10 0 0 1 in
      asked (RateLimiter_new now 3 0 1000) clock [ip, ip, ip, ip] = [True, True, True, False])"

definition BlockedIPDoesNotAffectOthers :: "int \<Rightarrow> (nat \<Rightarrow> int \<times> int) \<Rightarrow> bool" where
  "BlockedIPDoesNotAffectOthers now clock \<longleftrightarrow>
     (let blockedIP = ipToUint32 10 0 0 1; otherIP = ipToUint32 10 0 0 2 in
      drop 2 (asked (RateLimiter_new now 2 0 1000) clock [blockedIP, blockedIP, blockedIP, otherIP])
        = [False, True])"

definition GlobalLimitBlocksAllIPs :: "int \<Rightarrow> (nat \<Rightarrow> int \<times> int) \<Rightarrow> bool" where
  "GlobalLimitBlocksAllIPs now clock \<longleftrightarrow>
     asked (RateLimiter_new now 100 5 3) clock
       [ipToUint32 10 0 0 1, ipToUint32 10 0 0 2, ipToUint32 10 0 0 3, ipToUint32 10 0 0 4, ipToUint32 10 0 0 1]
       = [True, True, True, False, False]"

definition TokensRefillOverTime :: "int \<Rightarrow> (nat \<Rightarrow> int \<times> int) \<Rightarrow> bool" where
  "TokensRefillOverTime now clock \<longleftrightarrow>
     (let ip = ipToUint32 10 0 0 1 in
      asked (RateLimiter_new now 2 10 1000) clock [ip, ip, ip, ip] = [True, True, False, True])"

text \<open>Below the global limit only the buckets decide.\<close>

fun private_answers :: "(uint32 \<times> int \<times> int) list \<Rightarrow> RateLimiter \<Rightarrow> bool list" where
  "private_answers [] l = []"
| "private_answers ((ip, clock) # rs) l =
     fst (isAllowedPrivate ip (snd clock) l) # private_answers rs (snd (isAllowedPrivate ip (snd clock) l))"

lemma available_global: "available ip tp (l\<lparr>globalCount := n, globalWindowStart := t\<rparr>) = available ip tp l"
  by (cases "ipRecords l ip") (simp_all add: available_def)

lemma private_answers_global:
  "private_answers rs (l\<lparr>globalCount := n, globalWindowStart := t\<rparr>) = private_answers rs l"
proof (induction rs arbitrary: l)
  case (Cons r rs)
  obtain ip tg tp where r: "r = (ip, tg, tp)" by (cases r)
  have "isAllowedPrivate ip tp (l\<lparr>globalCount := n, globalWindowStart := t\<rparr>) =
      (fst (isAllowedPrivate ip tp l), (snd (isAllowedPrivate ip tp l))\<lparr>globalCount := n, globalWindowStart := t\<rparr>)"
    by (simp add: isAllowedPrivate_available available_global)
  with Cons r show ?case by simp
qed simp

lemma global_plenty:
  assumes "0 \<le> sint (globalCount l)" and "sint (globalCount l) < sint (maxRequestsGlobal l)"
  obtains n t where "isAllowedGlobal now l = (True, l\<lparr>globalCount := n, globalWindowStart := t\<rparr>)"
    "0 \<le> sint n" "sint n \<le> sint (globalCount l) + 1"
proof (cases "1 \<le> elapsed_seconds now (globalWindowStart l)")
  case True
  then show thesis using that[of now 1] assms isAllowedGlobal_new_window[OF True] by simp
next
  case False
  then show thesis
    using that[of "globalWindowStart l" "globalCount l + 1"] assms sint_plus_1[OF assms(2)]
    by (simp add: isAllowedGlobal_in_window)
qed

lemma plenty_answers:
  assumes "0 \<le> sint (globalCount l)" and "sint (globalCount l) + int (length rs) \<le> sint (maxRequestsGlobal l)"
  shows "fst (isAllowed_run rs l) = private_answers rs l"
  using assms
proof (induction rs arbitrary: l)
  case (Cons r rs)
  obtain ip tg tp where r: "r = (ip, tg, tp)" by (cases r)
  have lt: "sint (globalCount l) < sint (maxRequestsGlobal l)" using Cons.prems(2) by simp
  obtain n t where g: "isAllowedGlobal tg l = (True, l\<lparr>globalCount := n, globalWindowStart := t\<rparr>)"
      "0 \<le> sint n" "sint n \<le> sint (globalCount l) + 1"
    using global_plenty[OF Cons.prems(1) lt] by blast
  let ?l = "l\<lparr>globalCount := n, globalWindowStart := t\<rparr>"
  have "fst (isAllowed_run rs (snd (isAllowedPrivate ip tp ?l))) = private_answers rs (snd (isAllowedPrivate ip tp ?l))"
    by (rule Cons.IH) (use g Cons.prems in \<open>simp_all add: frame_simps\<close>)
  moreover have "isAllowed ip tg tp l = isAllowedPrivate ip tp ?l" using g(1) by (simp add: isAllowed_cases)
  moreover have "private_answers (r # rs) ?l = private_answers (r # rs) l" by (rule private_answers_global)
  ultimately show ?case by (simp add: r isAllowed_run_Cons)
qed simp

lemma asked_plenty:
  "3 \<le> sint limit \<Longrightarrow> asked (RateLimiter_new now mt rr limit) clock [a, b, c] =
     private_answers [(a, clock 0), (b, clock 1), (c, clock 2)] (RateLimiter_new now mt rr limit)"
  "4 \<le> sint limit \<Longrightarrow> asked (RateLimiter_new now mt rr limit) clock [a, b, c, d] =
     private_answers [(a, clock 0), (b, clock 1), (c, clock 2), (d, clock 3)] (RateLimiter_new now mt rr limit)"
proof -
  have "asked (RateLimiter_new now mt rr limit) clock ips =
      private_answers (map (\<lambda>i. (ips ! i, clock i)) [0..<length ips]) (RateLimiter_new now mt rr limit)"
    if "int (length ips) \<le> sint limit" for ips
    unfolding asked_def by (rule plenty_answers) (use that in \<open>simp_all add: RateLimiter_new_def\<close>)
  from this[of "[a, b, c]"] this[of "[a, b, c, d]"]
  show "3 \<le> sint limit \<Longrightarrow> asked (RateLimiter_new now mt rr limit) clock [a, b, c] =
      private_answers [(a, clock 0), (b, clock 1), (c, clock 2)] (RateLimiter_new now mt rr limit)"
    "4 \<le> sint limit \<Longrightarrow> asked (RateLimiter_new now mt rr limit) clock [a, b, c, d] =
      private_answers [(a, clock 0), (b, clock 1), (c, clock 2), (d, clock 3)] (RateLimiter_new now mt rr limit)"
    by (simp_all add: upt_rec numeral_2_eq_2 numeral_3_eq_3)
qed

lemma private_fresh:
  "ipRecords l ip = None \<Longrightarrow> is_double (maxTokens l) \<Longrightarrow> 1 \<le> maxTokens l \<Longrightarrow>
   isAllowedPrivate ip t l =
     (True, l\<lparr>ipRecords := (ipRecords l)(ip \<mapsto> \<lparr>tokens = dsub (maxTokens l) 1, lastRefill = t\<rparr>)\<rparr>)"
  by (simp add: isAllowedPrivate_available available_fresh)

lemma private_no_refill:
  assumes "ipRecords l ip = Some r" and "refillRate l = 0" and "is_double (maxTokens l)"
    and "is_double (tokens r)" and "tokens r \<le> maxTokens l"
  shows "isAllowedPrivate ip t l =
    (\<not> tokens r < 1, l\<lparr>ipRecords := (ipRecords l)
       (ip \<mapsto> \<lparr>tokens = if tokens r < 1 then tokens r else dsub (tokens r) 1, lastRefill = t\<rparr>)\<rparr>)"
proof -
  have "available ip t l = tokens r" using assms by (subst available_no_refill) auto
  then show ?thesis by (simp add: isAllowedPrivate_available)
qed

lemma small_doubles:
  "is_double 0" "is_double 1" "is_double 2" "is_double 3" "is_double 10" "is_double 100"
  "dsub 3 1 = 2" "dsub 2 1 = 1" "dsub 1 1 = 0"
  using is_double_of_int[of 0] is_double_of_int[of 1] is_double_of_int[of 2] is_double_of_int[of 3]
    is_double_of_int[of 10] is_double_of_int[of 100] dsub_of_int[of 3 1] dsub_of_int[of 2 1] dsub_of_int[of 1 1]
  by simp_all

lemma test_addresses:
  "ipToUint32 192 168 1 1 \<noteq> ipToUint32 192 168 1 2" "ipToUint32 192 168 1 1 \<noteq> ipToUint32 192 168 1 3"
  "ipToUint32 192 168 1 2 \<noteq> ipToUint32 192 168 1 3" "ipToUint32 10 0 0 1 \<noteq> ipToUint32 10 0 0 2"
  "ipToUint32 10 0 0 1 \<noteq> ipToUint32 10 0 0 3" "ipToUint32 10 0 0 1 \<noteq> ipToUint32 10 0 0 4"
  "ipToUint32 10 0 0 2 \<noteq> ipToUint32 10 0 0 3" "ipToUint32 10 0 0 2 \<noteq> ipToUint32 10 0 0 4"
  "ipToUint32 10 0 0 3 \<noteq> ipToUint32 10 0 0 4"
  by (simp_all add: ipToUint32_def)

lemma AllowsNormalTraffic_passes: "AllowsNormalTraffic now clock"
  unfolding AllowsNormalTraffic_def using test_addresses
  by (subst asked_plenty) (simp_all add: private_fresh RateLimiter_new_def small_doubles)

lemma BlocksSingleIPAfterLimit_passes: "BlocksSingleIPAfterLimit now clock"
  unfolding BlocksSingleIPAfterLimit_def Let_def
  by (subst asked_plenty) (simp_all add: private_fresh private_no_refill RateLimiter_new_def small_doubles)

lemma BlockedIPDoesNotAffectOthers_passes: "BlockedIPDoesNotAffectOthers now clock"
  unfolding BlockedIPDoesNotAffectOthers_def Let_def using test_addresses(4)
  by (subst asked_plenty) (simp_all add: private_fresh private_no_refill RateLimiter_new_def small_doubles)


text \<open>A bucket of the test of refills: 31.25 ms earn at most 5/16 of a token, half a second earns one.\<close>

lemma sixteenths: "n \<in> {1, 2, 5, 10, 16, 21} \<Longrightarrow> rnd64 (of_int n / 16) = of_int n / 16"
  using rnd64_exact[of n "- 4"] by (auto simp: power_int_def eval_nat_numeral)

lemma small_refill:
  assumes "0 \<le> ns" and "ns \<le> 31250000"
  shows "0 \<le> dmul (to_seconds ns) 10 \<and> dmul (to_seconds ns) 10 \<le> 5 / 16"
proof -
  have "rnd64 (of_int ns) = of_int ns" by (rule rnd64_of_int) (use assms in simp)
  moreover have "(of_int ns :: rat) \<le> of_int 31250000" using assms(2) by (simp only: of_int_le_iff)
  moreover have "rnd64 (1 / 32) = (1 / 32 :: rat)" using rnd64_exact[of 1 "- 5"]
    by (simp add: power_int_def eval_nat_numeral)
  ultimately have "to_seconds ns \<le> 1 / 32"
    unfolding to_seconds_def ddiv_def by (intro rnd64.below_fixpoint) simp_all
  then have "dmul (to_seconds ns) 10 \<le> 5 / 16"
    unfolding dmul_def using sixteenths[of 5] by (intro rnd64.below_fixpoint) simp_all
  moreover have "0 \<le> dmul (to_seconds ns) 10"
    unfolding dmul_def using to_seconds_nonneg[OF assms(1)] by (intro rnd64.nonneg) simp
  ultimately show ?thesis by blast
qed

lemma large_refill:
  assumes "500000000 \<le> ns"
  shows "1 \<le> dmul (to_seconds ns) 10"
proof -
  have "of_int 500000000 \<le> rnd64 (of_int ns)"
    by (rule rnd64.above_fixpoint[OF _ rnd64_of_int]) (use assms in \<open>simp_all only: of_int_le_iff, simp\<close>)
  moreover have "rnd64 (1 / 2) = (1 / 2 :: rat)" using rnd64_exact[of 1 "- 1"] by (simp add: power_int_def)
  ultimately have "1 / 2 \<le> to_seconds ns"
    unfolding to_seconds_def ddiv_def by (intro rnd64.above_fixpoint) simp_all
  then show ?thesis unfolding dmul_def by (intro rnd64.ge_one) simp
qed

lemma TokensRefillOverTime_passes:
  assumes "0 \<le> snd (clock 1) - snd (clock 0)" "snd (clock 1) - snd (clock 0) \<le> 31250000"
    and "0 \<le> snd (clock 2) - snd (clock 1)" "snd (clock 2) - snd (clock 1) \<le> 31250000"
    and "500000000 \<le> snd (clock 3) - snd (clock 2)"
  shows "TokensRefillOverTime now clock"
proof -
  let ?ip = "ipToUint32 10 0 0 1" and ?l = "RateLimiter_new now 2 10 1000"
  let ?x = "dmul (to_seconds (snd (clock 1) - snd (clock 0))) 10"
    and ?y = "dmul (to_seconds (snd (clock 2) - snd (clock 1))) 10"
    and ?z = "dmul (to_seconds (snd (clock 3) - snd (clock 2))) 10"
  let ?at = "\<lambda>v t. ?l\<lparr>ipRecords := [?ip \<mapsto> \<lparr>tokens = v, lastRefill = t\<rparr>]\<rparr>"
  have av: "available ?ip t (?at v u) = min 2 (dadd v (dmul (to_seconds (t - u)) 10))" for v t u
    by (simp add: available_def RateLimiter_new_def)
  have call: "isAllowedPrivate ?ip t (?at v u) = (\<not> available ?ip t (?at v u) < 1,
      ?at (if available ?ip t (?at v u) < 1 then available ?ip t (?at v u) else dsub (available ?ip t (?at v u)) 1) t)" for v t u
    by (simp add: isAllowedPrivate_available)
  have x: "0 \<le> ?x" "?x \<le> 5 / 16" and y: "0 \<le> ?y" "?y \<le> 5 / 16" and z: "1 \<le> ?z"
    using small_refill[OF assms(1,2)] small_refill[OF assms(3,4)] large_refill[OF assms(5)] by blast+
  let ?a = "min 2 (dadd 1 ?x)"
  have a: "1 \<le> ?a" "?a \<le> 21 / 16"
    using x rnd64.ge_one[of "1 + ?x"] rnd64.below_fixpoint[of "1 + ?x" "21 / 16"] sixteenths[of 21]
    by (simp_all add: dadd_def)
  let ?v = "dsub ?a 1"
  have v: "0 \<le> ?v" "?v \<le> 5 / 16"
    using a rnd64.nonneg[of "?a - 1"] rnd64.below_fixpoint[of "?a - 1" "5 / 16"] sixteenths[of 5]
    by (simp_all add: dsub_def)
  let ?b = "min 2 (dadd ?v ?y)"
  have b: "0 \<le> ?b" "?b < 1"
    using v y rnd64.nonneg[of "?v + ?y"] rnd64.below_fixpoint[of "?v + ?y" "10 / 16"] sixteenths[of 10]
    by (simp_all add: dadd_def)
  have c: "1 \<le> min 2 (dadd ?b ?z)" using b z rnd64.ge_one[of "?b + ?z"] by (simp add: dadd_def)
  have "isAllowedPrivate ?ip t ?l = (True, ?at 1 t)" for t
    by (simp add: private_fresh RateLimiter_new_def small_doubles)
  moreover have "isAllowedPrivate ?ip (snd (clock 1)) (?at 1 (snd (clock 0))) = (True, ?at ?v (snd (clock 1)))"
    unfolding call av using a by auto
  moreover have "isAllowedPrivate ?ip (snd (clock 2)) (?at ?v (snd (clock 1))) = (False, ?at ?b (snd (clock 2)))"
    unfolding call av using b by auto
  moreover have "fst (isAllowedPrivate ?ip (snd (clock 3)) (?at ?b (snd (clock 2))))"
    unfolding call av using c by auto
  ultimately show ?thesis
    unfolding TokensRefillOverTime_def Let_def by (subst asked_plenty) simp_all
qed


text \<open>The limiter of the test of the global limit, in some state of its window.\<close>

definition limited :: "int32 \<Rightarrow> int \<Rightarrow> (uint32 \<rightharpoonup> IPRecord) \<Rightarrow> RateLimiter" where
  "limited n w R = \<lparr>ipRecords = R, globalCount = n, globalWindowStart = w, maxTokens = 100, refillRate = 5,
     maxRequestsGlobal = 3\<rparr>"

lemma elapsed_second: "w \<le> t \<Longrightarrow> 1 \<le> elapsed_seconds t w \<longleftrightarrow> w + 1000000000 \<le> t"
  by (auto simp: elapsed_seconds_def signed_divide_int_def sgn_if)

lemma limited_global:
  assumes "w \<le> t"
  shows "isAllowedGlobal t (limited n w R) =
    (if w + 1000000000 \<le> t then (True, limited 1 t R)
     else if sint n < 3 then (True, limited (n + 1) w R) else (False, limited n w R))"
  using elapsed_second[OF assms] by (auto simp: isAllowedGlobal_def limited_def)

lemma limited_fresh:
  assumes "R ip = None"
  shows "isAllowedPrivate ip t (limited n w R) =
    (True, limited n w (R(ip \<mapsto> \<lparr>tokens = 99, lastRefill = t\<rparr>)))"
proof -
  have "dsub 100 1 = 99" using dsub_of_int[of 100 1] by simp
  then show ?thesis using assms by (simp add: private_fresh limited_def small_doubles)
qed

lemma limited_again:
  assumes "R ip = Some \<lparr>tokens = 99, lastRefill = u\<rparr>" and "u \<le> t"
  shows "fst (isAllowedPrivate ip t (limited n w R))"
proof -
  have "0 \<le> dmul (to_seconds (t - u)) 5"
    unfolding dmul_def using to_seconds_nonneg[of "t - u"] assms(2) by (intro rnd64.nonneg) simp
  then have "1 \<le> dadd 99 (dmul (to_seconds (t - u)) 5)"
    unfolding dadd_def by (intro rnd64.ge_one) simp
  then have "1 \<le> available ip t (limited n w R)"
    using assms(1) by (simp add: available_def limited_def)
  then show ?thesis by (simp add: isAllowedPrivate_available)
qed

lemma GlobalLimitBlocksAllIPs_iff:
  assumes "now \<le> fst (clock 0)"
    and "\<And>i. i < 4 \<Longrightarrow> fst (clock i) \<le> fst (clock (Suc i))" and "snd (clock 0) \<le> snd (clock 4)"
  shows "GlobalLimitBlocksAllIPs now clock \<longleftrightarrow>
    fst (clock 4) < (if fst (clock 0) < now + 1000000000 then now else fst (clock 0)) + 1000000000"
proof -
  let ?l = "RateLimiter_new now 100 5 3"
  have new: "?l = limited 0 now Map.empty" by (simp add: RateLimiter_new_def limited_def)
  obtain g0 p0 g1 p1 g2 p2 g3 p3 g4 p4 where c: "clock 0 = (g0, p0)" "clock 1 = (g1, p1)" "clock 2 = (g2, p2)"
      "clock 3 = (g3, p3)" "clock 4 = (g4, p4)"
    by (metis surj_pair)
  have g: "now \<le> g0" "g0 \<le> g1" "g1 \<le> g2" "g2 \<le> g3" "g3 \<le> g4" "p0 \<le> p4"
    using assms(1,3) assms(2)[of 0] assms(2)[of 1] assms(2)[of 2] assms(2)[of 3] c
    by (simp_all add: numeral_2_eq_2 numeral_3_eq_3 eval_nat_numeral)
  have run: "asked ?l clock [a, b, c, d, e] = fst (isAllowed_run
      [(a, g0, p0), (b, g1, p1), (c, g2, p2), (d, g3, p3), (e, g4, p4)] (limited 0 now Map.empty))" for a b c d e
    using c unfolding new by (simp add: asked_def upt_rec eval_nat_numeral)
  note calls = isAllowed_run_Cons isAllowed_cases limited_global limited_fresh limited_again
  let ?w = "if g0 < now + 1000000000 then now else g0"
  show ?thesis
    unfolding GlobalLimitBlocksAllIPs_def run c fst_conv
    using g test_addresses
    by (cases "g0 < now + 1000000000"; cases "?w + 1000000000 \<le> g1"; cases "?w + 1000000000 \<le> g2"; cases "?w + 1000000000 \<le> g3";
        cases "?w + 1000000000 \<le> g4"; simp add: calls)
qed


text \<open>
  C38 (functional). The tests of the limiter.  The first three pass whatever the clock says.
  When its readings do not decrease, the one of the global limit passes if and only if its last
  call falls into the second that begins with the construction of the limiter, or with the
  first call if that comes later; so it depends on the speed of the machine.  The one of the
  refill passes if each of its first three calls comes no later than 31.25 ms after the one
  before and the fourth half a second later, rounding included.
\<close>

theorem limiter_tests_pass:
  "AllowsNormalTraffic now clock \<and> BlocksSingleIPAfterLimit now clock \<and>
    BlockedIPDoesNotAffectOthers now clock \<and>
    (now \<le> fst (clock 0) \<and> (\<forall>i < 4. fst (clock i) \<le> fst (clock (Suc i))) \<and> snd (clock 0) \<le> snd (clock 4) \<longrightarrow>
      (GlobalLimitBlocksAllIPs now clock \<longleftrightarrow>
        fst (clock 4) < (if fst (clock 0) < now + 1000000000 then now else fst (clock 0)) + 1000000000)) \<and>
    (0 \<le> snd (clock 1) - snd (clock 0) \<and> snd (clock 1) - snd (clock 0) \<le> 31250000 \<and>
      0 \<le> snd (clock 2) - snd (clock 1) \<and> snd (clock 2) - snd (clock 1) \<le> 31250000 \<and>
      500000000 \<le> snd (clock 3) - snd (clock 2) \<longrightarrow> TokensRefillOverTime now clock)"
  using AllowsNormalTraffic_passes BlocksSingleIPAfterLimit_passes BlockedIPDoesNotAffectOthers_passes
    GlobalLimitBlocksAllIPs_iff[of now clock] TokensRefillOverTime_passes[of clock now] by blast

theorem limiter_tests_pass_witness:
  "GlobalLimitBlocksAllIPs 0 (\<lambda>i. (int i * 1000, int i * 1000)) \<and>
   \<not> GlobalLimitBlocksAllIPs 0 (\<lambda>i. (int i * 300000000, int i * 300000000)) \<and>
   GlobalLimitBlocksAllIPs 0 (\<lambda>i. (2000000000 + int i, 2000000000 + int i)) \<and>
   TokensRefillOverTime 0 (\<lambda>i. let t = (if i < 3 then int i * 1000 else int i * 500000000) in (t, t))"
  using limiter_tests_pass[of 0 "\<lambda>i. (int i * 1000, int i * 1000)"]
    limiter_tests_pass[of 0 "\<lambda>i. (int i * 300000000, int i * 300000000)"]
    limiter_tests_pass[of 0 "\<lambda>i. (2000000000 + int i, 2000000000 + int i)"]
    limiter_tests_pass[of 0 "\<lambda>i. let t = (if i < 3 then int i * 1000 else int i * 500000000) in (t, t)"]
  by (simp add: Let_def)

text \<open>
  The test with threads: all send the same address, and the test counts the answers, one per
  thread, in whatever order they were given.
\<close>

definition HandlesConcurrentRequestsSafely :: "bool list \<Rightarrow> bool" where
  "HandlesConcurrentRequestsSafely answers \<longleftrightarrow>
     (let allowed = count_list answers True; blocked = count_list answers False in
      allowed + blocked = 50 \<and> allowed \<le> 100)"

theorem concurrent_requests_test_passes:
  "HandlesConcurrentRequestsSafely (asked limiter clock (replicate 50 ip))"
proof -
  have "length (fst (isAllowed_run rs l)) = length rs" for rs l
    by (induction rs arbitrary: l) (auto simp: isAllowed_run_Cons)
  then have l: "length (asked limiter clock (replicate 50 ip)) = 50" by (simp add: asked_def)
  have c: "count_list xs True + count_list xs False = length xs" for xs
    by (induction xs) auto
  show ?thesis
    using c[of "asked limiter clock (replicate 50 ip)"] l
    by (simp add: HandlesConcurrentRequestsSafely_def Let_def)
qed

subsection \<open>\<open>test_threadpool.cpp\<close>\<close>

text \<open>
  The jobs of the tests count or throw a \<open>std::runtime_error\<close>.  The expectations are tested
  after a sleep; it is assumed to be long enough for the workers to run out of actions.
\<close>

definition test_pool_step :: "'j ThreadPool \<Rightarrow> 'j ThreadPool \<Rightarrow> bool" where
  "test_pool_step s s' \<longleftrightarrow> (\<exists>i outcome. outcome \<noteq> ThrowsOther \<and> worker_action i outcome s = Some s')"

definition jobs_counted :: "('j \<Rightarrow> bool) \<Rightarrow> 'j ThreadPool \<Rightarrow> nat" where
  "jobs_counted counts s = length (filter counts (finished s))"

lemma test_pool_step_keeps:
  assumes "test_pool_step s s'"
  shows "worker_step s s'" "terminated s' = terminated s" "accepted s' = accepted s"
proof -
  obtain i outcome where w: "outcome \<noteq> ThrowsOther" "worker_action i outcome s = Some s'"
    using assms by (auto simp: test_pool_step_def)
  then show "worker_step s s'" by (auto simp: worker_step_def)
  show "terminated s' = terminated s" "accepted s' = accepted s"
    using w by (auto simp: worker_action_def split: if_splits worker.splits list.splits job_outcome.splits)
qed

theorem pool_tests_pass:
  assumes "reachable n s" and "0 < n" and "\<not> terminated s" and "(test_pool_step ^^ k) s s'"
    and "\<And>s''. \<not> test_pool_step s' s''"
  shows "jobs_counted counts s' = length (filter counts (accepted s))"
proof -
  have "worker_step\<^sup>*\<^sup>* s t \<and> terminated t = terminated s \<and> accepted t = accepted s"
    if "(test_pool_step ^^ k) s t" for t
    using that
  proof (induction k arbitrary: t)
    case (Suc k)
    then obtain u where "(test_pool_step ^^ k) s u" "test_pool_step u t" by auto
    with Suc.IH[of u] test_pool_step_keeps[of u t] show ?case by (auto intro: rtranclp.rtrancl_into_rtrancl)
  qed simp
  then have s': "worker_step\<^sup>*\<^sup>* s s'" "\<not> terminated s'" "accepted s' = accepted s"
    using assms(3,4) by auto
  have "worker_action i outcome s' = None" for i outcome
  proof (cases "outcome = ThrowsOther")
    case True
    have "worker_action i Returns s' = None"
      using assms(5) by (cases "worker_action i Returns s'") (auto simp: test_pool_step_def)
    then show ?thesis using True
      by (auto simp: worker_action_def split: if_splits worker.splits list.splits)
  next
    case False
    then show ?thesis using assms(5) by (cases "worker_action i outcome s'") (auto simp: test_pool_step_def)
  qed
  then have "idle s'" by (simp add: idle_def)
  moreover have "workers s' \<noteq> []"
    using worker_steps_workers[OF s'(1)] reachable_workers[OF assms(1)] assms(2) by auto
  ultimately have "mset (finished s') = mset (accepted s)"
    using idle_state(3)[of s'] worker_steps_inv[OF s'(1) reachable_inv[OF assms(1)]] s'(2,3) by simp
  then have "mset (filter counts (finished s')) = mset (filter counts (accepted s))" by simp
  then show ?thesis unfolding jobs_counted_def by (rule mset_eq_length)
qed


text \<open>
  Jobs can run at the same time, as the test of concurrency hopes to see within its sleep, and never
  more than there are workers.
\<close>

definition concurrency :: "'j ThreadPool \<Rightarrow> nat" where
  "concurrency s = length (filter (\<lambda>p. case p of Running j \<Rightarrow> True | _ \<Rightarrow> False) (workers s))"

lemma reachable_action: "reachable n s \<Longrightarrow> worker_action i outcome s = Some s' \<Longrightarrow> reachable n s'"
  by (rule reachable_step, assumption, rule step_worker)

lemma reachable_accept: "reachable n s \<Longrightarrow> acceptJob job w s = Some s' \<Longrightarrow> reachable n s'"
  by (rule reachable_step, assumption, rule step_acceptJob)

lemma take_a_job:
  assumes "reachable n s" and "i < length (workers s)" and "workers s ! i = AtLock" and "mutex_owner s = NoOwner"
    and "jobs s = job # js" and "\<not> terminated s"
  shows "reachable n (s\<lparr>jobs := js, workers := (workers s)[i := Running job], started := started s @ [job]\<rparr>)"
proof -
  let ?s1 = "s\<lparr>mutex_owner := Worker i, workers := (workers s)[i := AtTest]\<rparr>"
  let ?s2 = "?s1\<lparr>workers := (workers s)[i := AtTake]\<rparr>"
  have "reachable n ?s1"
    by (rule reachable_action[OF assms(1), of i Returns]) (use assms(2-) in \<open>simp add: worker_action_def\<close>)
  then have "reachable n ?s2"
    by (rule reachable_action[of _ _ i Returns]) (use assms(2-) in \<open>simp add: worker_action_def\<close>)
  then show ?thesis
    by (rule reachable_action[of _ _ i Returns])
       (use assms(2-) in \<open>cases s, simp add: worker_action_def\<close>)
qed

theorem jobs_run_concurrently:
  "(\<exists>s. reachable 3 (s :: nat ThreadPool) \<and> concurrency s = 2) \<and>
   (\<forall>s. reachable n (s :: 'j ThreadPool) \<longrightarrow> concurrency s \<le> n)"
proof (intro conjI allI impI)
  let ?s = "ThreadPool_new 3 :: nat ThreadPool"
  have "reachable 3 (?s\<lparr>jobs := [0], accepted := [0]\<rparr>)"
    by (rule reachable_accept[OF reachable_new, of 0 None])
       (simp add: acceptJob_def ThreadPool_new_def notify_one_choice_def numeral_3_eq_3)
  then have "reachable 3 (?s\<lparr>jobs := [0, 1], accepted := [0, 1]\<rparr>)"
    by (rule reachable_accept[of _ _ 1 None])
       (simp add: acceptJob_def ThreadPool_new_def notify_one_choice_def numeral_3_eq_3)
  from take_a_job[OF this, of 0 0 "[1]"]
  have "reachable 3 (?s\<lparr>jobs := [1], accepted := [0, 1], workers := [Running 0, AtLock, AtLock], started := [0]\<rparr>)"
    by (simp add: ThreadPool_new_def numeral_3_eq_3)
  from take_a_job[OF this, of 1 1 "[]"]
  have "reachable 3 (?s\<lparr>jobs := [], accepted := [0, 1], workers := [Running 0, Running 1, AtLock], started := [0, 1]\<rparr>)"
    by (simp add: ThreadPool_new_def)
  then show "\<exists>s. reachable 3 (s :: nat ThreadPool) \<and> concurrency s = 2"
    by (intro exI conjI) (assumption, simp add: concurrency_def)
next
  fix s :: "'j ThreadPool" assume "reachable n s"
  then show "concurrency s \<le> n" using reachable_workers length_filter_le by (metis concurrency_def)
qed

end
