(* ===== verification/Fairness.thy ===== *)
theory Fairness
  imports System
begin

text \<open>
  What the whole server does in the long run.  A run is an infinite sequence of states of
  \<open>System\<close>; it is fair when the operating system does not forget a thread: a worker that does
  not sleep on the condition variable of the pool (\<open>src/Worker/ThreadPool.cpp\<close> line 21) makes
  a step of its own after a while, and so does the event-loop thread while reported events are
  left (\<open>src/Server/Server.cpp\<close> lines 177 to 195).  Nothing is assumed of what the steps do: that
  a job ends and that the queue is served follows from the code.
\<close>

subsection \<open>The steps of one thread\<close>

text \<open>
  A worker outside a job executes the loop of the pool, inside one it receives, takes the
  critical sections of its command, and re-arms the socket.
\<close>

inductive own_step :: "nat \<Rightarrow> System \<Rightarrow> System \<Rightarrow> bool" for i where
  own_pool: "own_step i y (y\<lparr>dsp := (dsp y)\<lparr>pool := p\<rparr>\<rparr>)"
    if "worker_action i outcome (pool (dsp y)) = Some p" "\<And>c. \<not> running_job (dsp y) i c"
| own_no_command: "own_step i y (y\<lparr>dsp := after_calls S' ((dsp y)\<lparr>pool := p\<rparr>),
       got := got y @ received_bytes c received\<rparr>)"
    if "running_job (dsp y) i c" "phase y i = None" "complete_message received c (server_of y) = None"
      "messageHandler received rearmed now c (end_job c (server_of y)) = Some S'"
      "worker_action i Returns (pool (dsp y)) = Some p"
| own_command: "own_step i y (y\<lparr>dsp := (dsp y)\<lparr>srv := begin_command now c (server_of y)\<rparr>,
       phase := (phase y)(i \<mapsto> length (threads y)), threads := threads y @ [(c, m, Parsing m)],
       hist := hist y @ [Invoked (length (threads y)) m], got := got y @ received_bytes c received\<rparr>)"
    if "running_job (dsp y) i c" "phase y i = None" "complete_message received c (server_of y) = Some m"
| own_section: "own_step i y (y\<lparr>dsp := (dsp y)\<lparr>srv := answer c pc' (with_db d (server_of y))\<rparr>,
       threads := (threads y)[k := (c, m, pc')], hist := hist y @ new_response k pc',
       pts := pts y @ new_point k pc pc', replies := replies y @ new_reply c pc'\<rparr>)"
    if "phase y i = Some k" "threads y ! k = (c, m, pc)"
      "handler_section pc (db_of (server_of y)) = Some (pc', d)"
| own_rearm: "own_step i y (y\<lparr>dsp := after_calls S' ((dsp y)\<lparr>pool := p\<rparr>), phase := (phase y)(i := None)\<rparr>)"
    if "phase y i = Some k" "threads y ! k = (c, m, Answered r)"
      "S' = rearmSocket rearmed (conn_socket (conn_objects (server_of y) ! c)) (end_job c (server_of y))"
      "worker_action i Returns (pool (dsp y)) = Some p"

text \<open>The event loop takes the next reported event.\<close>

inductive loop_step :: "System \<Rightarrow> System \<Rightarrow> bool" where
  loop_entry: "loop_step y (y\<lparr>dsp := (after_calls S' (dsp y))\<lparr>todo := es, pool := p\<rparr>\<rparr>)"
    if "todo (dsp y) = e # es" "S' = dispatch_event e (server_of y)"
      "case job_for e (server_of y) of None \<Rightarrow> p = pool (dsp y) | Some c \<Rightarrow> acceptJob c w (pool (dsp y)) = Some p"

definition worker_of :: "System \<Rightarrow> nat \<Rightarrow> nat worker" where
  "worker_of y i = workers (pool (dsp y)) ! i"

abbreviation queue_of :: "System \<Rightarrow> nat list" where
  "queue_of y \<equiv> jobs (pool (dsp y))"

lemma running_worker: "running_job (dsp y) i c \<longleftrightarrow> i < length (workers (pool (dsp y))) \<and> worker_of y i = Running c"
  by (simp add: running_job_def worker_of_def)

text \<open>A worker's action leaves the other workers alone, and takes at most the head of the queue.\<close>

lemma worker_action_others:
  assumes "worker_action i outcome s = Some s'" and "j \<noteq> i"
  shows "workers s' ! j = workers s ! j" and "length (workers s') = length (workers s)"
  using assms(1) by (cases rule: worker_action_cases; use assms(2) in simp)+

lemma worker_action_queue:
  assumes "worker_action i outcome s = Some s'"
  shows "jobs s' = jobs s \<or> (\<exists>j. jobs s = j # jobs s' \<and> i < length (workers s') \<and> workers s' ! i = Running j)"
  using assms by (cases rule: worker_action_cases) auto

lemma quiet_no_end:
  assumes "quiet_step x x'" and "running_job x i c" and "x' = after_calls S' (x\<lparr>pool := p\<rparr>)"
    and "worker_action i Returns (pool x) = Some p"
  shows False
  using handled_running[OF assms(4,2), of S' i c] assms(1-3) by (auto simp: quiet_step_def)

text \<open>What a step does to the workers and to the queue.\<close>

definition left_alone :: "nat \<Rightarrow> System \<Rightarrow> System \<Rightarrow> bool" where
  "left_alone i y y' \<longleftrightarrow>
     (worker_of y' i = worker_of y i \<or> worker_of y i = Asleep \<and> worker_of y' i = AtLock) \<and>
     phase y' i = phase y i \<and> (\<forall>k. phase y i = Some k \<longrightarrow> threads y' ! k = threads y ! k)"

definition queue_served :: "System \<Rightarrow> System \<Rightarrow> bool" where
  "queue_served y y' \<longleftrightarrow> (\<exists>new. queue_of y' = queue_of y @ new) \<or>
     (\<exists>i j. queue_of y = j # queue_of y' \<and> running_job (dsp y') i j)"

lemma acceptJob_frame:
  assumes "acceptJob c w p = Some p'"
  shows "jobs p' = jobs p @ [c]"
    and "workers p' ! i = workers p ! i \<or> workers p ! i = Asleep \<and> workers p' ! i = AtLock"
proof -
  have a: "notify_one_choice (workers p) w"
      "p' = p\<lparr>jobs := jobs p @ [c], accepted := accepted p @ [c],
         workers := (case w of None \<Rightarrow> workers p | Some i \<Rightarrow> (workers p)[i := AtLock])\<rparr>"
    using assms by (auto simp: acceptJob_def split: if_splits)
  show "jobs p' = jobs p @ [c]" by (simp add: a(2))
  show "workers p' ! i = workers p ! i \<or> workers p ! i = Asleep \<and> workers p' ! i = AtLock"
    using a(1) by (auto simp: a(2) notify_one_choice_def nth_list_update split: option.splits)
qed

lemma quiet_step_workers:
  assumes "quiet_step (dsp y) x'" and "y' = y\<lparr>dsp := x'\<rparr>"
  shows "(own_step i y y' \<or> left_alone i y y') \<and> queue_served y y'"
proof -
  have same: ?thesis if "pool x' = pool (dsp y)"
    using that assms(2) by (simp add: left_alone_def queue_served_def worker_of_def)
  have "dispatch_step (dsp y) x'" using assms(1) by (simp add: quiet_step_def)
  then show ?thesis
  proof cases
    case dispatch_work
    then show ?thesis
    proof cases
      case (work_pool j outcome p)
      have "own_step j y y'" using own_pool[of j outcome y p] work_pool assms(2) by simp
      moreover have "j \<noteq> i \<Longrightarrow> left_alone i y y'"
        using worker_action_others(1)[OF work_pool(2), of i] work_pool(1) assms(2)
        by (simp add: left_alone_def worker_of_def)
      moreover have "queue_served y y'"
        using worker_action_queue[OF work_pool(2)] work_pool(1) assms(2)
        by (auto simp: queue_served_def running_job_def)
      ultimately show ?thesis by blast
    next
      case (work_handle j c p received rearmed now S')
      then show ?thesis using quiet_no_end[OF assms(1)] by blast
    qed
  next
    case (dispatch_spurious p)
    then show ?thesis using assms(2)
      by (auto simp: left_alone_def queue_served_def worker_of_def nth_list_update split: if_splits elim!: spurious_step.cases)
  next
    case (dispatch_entry e es S' p w)
    then show ?thesis
    proof (cases "job_for e (server_of y)")
      case None
      then show ?thesis using same dispatch_entry by simp
    next
      case (Some c)
      then have a: "acceptJob c w (pool (dsp y)) = Some p" using dispatch_entry(4) by simp
      show ?thesis using acceptJob_frame(1)[OF a] acceptJob_frame(2)[OF a, of i] dispatch_entry(1) assms(2)
        by (simp add: left_alone_def queue_served_def worker_of_def)
    qed
  qed (use same in simp_all)
qed


text \<open>Every step of the system is one of a worker's own, or leaves that worker alone.\<close>

lemma phases_distinct:
  assumes "phase_inv y" and "dispatch_inv (freeze d (dsp y))" and "phase y i = Some k" and "phase y j = Some k"
  shows "i = j"
proof -
  have "running_job (dsp y) i (fst (threads y ! k))" "running_job (dsp y) j (fst (threads y ! k))"
    using assms(1,3,4) by (simp_all add: phase_inv_def)
  then show ?thesis by (rule unique_worker[OF assms(2)])
qed

lemma returns_frame:
  assumes "worker_action j Returns (pool x) = Some p" and "running_job x j c"
  shows "jobs p = jobs (pool x)" and "i \<noteq> j \<Longrightarrow> workers p ! i = workers (pool x) ! i" and "workers p ! j = AtLock"
  using assms by (auto simp: worker_action_def running_job_def split: if_splits)

lemma system_step_workers:
  assumes "system_step y y'" and "phase_inv y" and "dispatch_inv (freeze d (dsp y))"
  shows "(own_step i y y' \<or> left_alone i y y') \<and> queue_served y y'"
  using assms(1)
proof cases
  case (sys_quiet x')
  then show ?thesis using quiet_step_workers by blast
next
  case (sys_no_command j c received rearmed now S' p)
  have "own_step j y y'" unfolding sys_no_command(1) using sys_no_command(2-) by (rule own_no_command)
  moreover have "i \<noteq> j \<Longrightarrow> left_alone i y y'" "queue_served y y'"
    using returns_frame[OF sys_no_command(6,2)] sys_no_command(1)
    by (simp_all add: left_alone_def queue_served_def worker_of_def)
  ultimately show ?thesis by blast
next
  case (sys_command j c received m now)
  have "own_step j y y'" unfolding sys_command(1) using sys_command(2-) by (rule own_command)
  moreover have "i \<noteq> j \<Longrightarrow> left_alone i y y'" "queue_served y y'"
    using assms(2) sys_command(1)
    by (auto simp: left_alone_def queue_served_def worker_of_def phase_inv_def nth_append)
  ultimately show ?thesis by blast
next
  case (sys_section j k c m pc pc' d')
  have "own_step j y y'" unfolding sys_section(1) using sys_section(2-) by (rule own_section)
  moreover have "i \<noteq> j \<Longrightarrow> left_alone i y y'" "queue_served y y'"
    using phases_distinct[OF assms(2,3) sys_section(2), of i] sys_section(1)
    by (auto simp: left_alone_def queue_served_def worker_of_def intro!: nth_list_update_neq)
  ultimately show ?thesis by blast
next
  case (sys_rearm j k c m r S' rearmed p)
  have run: "running_job (dsp y) j c" by (rule phase_invD(2)[OF assms(2) sys_rearm(2,3)])
  have "own_step j y y'" unfolding sys_rearm(1) using sys_rearm(2-) by (rule own_rearm)
  moreover have "i \<noteq> j \<Longrightarrow> left_alone i y y'" "queue_served y y'"
    using returns_frame[OF sys_rearm(5) run] sys_rearm(1)
    by (simp_all add: left_alone_def queue_served_def worker_of_def)
  ultimately show ?thesis by blast
next
  case (sys_dump d')
  then show ?thesis by (simp add: left_alone_def queue_served_def worker_of_def)
next
  case (sys_reset n d')
  then show ?thesis by (simp add: left_alone_def queue_served_def worker_of_def)
qed

text \<open>Every own step is a step of the system.\<close>

lemma own_step_system:
  assumes "own_step i y y'"
  shows "system_step y y'"
  using assms
proof cases
  case (own_pool outcome p)
  have "running_job ((dsp y)\<lparr>pool := p\<rparr>) j c" if "running_job (dsp y) j c" for j c
    using worker_action_others[OF own_pool(2), of j] that own_pool(3)[of c]
    by (cases "j = i") (simp_all add: running_job_def)
  then have "quiet_step (dsp y) ((dsp y)\<lparr>pool := p\<rparr>)"
    using dispatch_work[OF work_pool[OF own_pool(2,3)]] by (simp add: quiet_step_def)
  then show ?thesis unfolding own_pool(1) by (rule sys_quiet)
next
  case (own_no_command c received S' rearmed now p)
  show ?thesis unfolding own_no_command(1) using own_no_command(2-) by (rule sys_no_command)
next
  case (own_command c received m now)
  show ?thesis unfolding own_command(1) using own_command(2-) by (rule sys_command)
next
  case (own_section k c m pc pc' d)
  show ?thesis unfolding own_section(1) using own_section(2-) by (rule sys_section)
next
  case (own_rearm k c m r S' rearmed p)
  show ?thesis unfolding own_rearm(1) using own_rearm(2-) by (rule sys_rearm)
qed

subsection \<open>How far a worker is from its next job\<close>

text \<open>
  The steps to the end of a job, and from the lock to taking the head of a queue that is not
  empty.
\<close>

definition distance :: "System \<Rightarrow> nat \<Rightarrow> nat" where
  "distance y i = (case worker_of y i of Running c \<Rightarrow> 4 + job_left y i | AtLock \<Rightarrow> 3 | AtTest \<Rightarrow> 2 | _ \<Rightarrow> 1)"

lemma left_alone_distance:
  assumes "left_alone i y y'" and "worker_of y i \<noteq> Asleep"
  shows "worker_of y' i = worker_of y i" and "job_left y' i = job_left y i" and "distance y' i = distance y i"
  using assms by (auto simp: left_alone_def job_left_def distance_def split: option.splits worker.splits)

lemma section_decreases:
  "handler_section pc d = Some (pc', d') \<Longrightarrow> sections_left pc' < sections_left pc"
  by (cases pc) (auto simp: handler_section_words split_beta split: if_splits)


lemma own_step_answers:
  assumes "own_step i y y'" and "phase_inv y" and "phase y i = Some k"
  shows "answered (snd (threads y ! k)) \<or> phase y' i = Some k \<and>
    sections_left (snd (snd (threads y' ! k))) < sections_left (snd (snd (threads y ! k)))"
proof -
  have run: "\<exists>c. running_job (dsp y) i c" and k: "k < length (threads y)"
    using assms(2,3) by (auto simp: phase_inv_def)
  from assms(1) show ?thesis
  proof cases
    case (own_section k' c m pc pc' d)
    then show ?thesis using assms(3) k section_decreases[OF own_section(4)] by simp
  qed (use run assms(3) in \<open>auto simp: answered_def\<close>)
qed

lemma own_step_job:
  assumes "own_step i y y'" and "phase_inv y" and "running_job (dsp y) i c"
  shows "worker_of y' i = AtLock \<or> worker_of y' i = Running c \<and> job_left y' i < job_left y i"
proof -
  have run: "worker_of y i = Running c" using assms(3) by (simp add: running_worker)
  from assms(1) show ?thesis
  proof cases
    case (own_pool outcome p)
    then show ?thesis using assms(3) by simp
  next
    case (own_no_command c' received S' rearmed now p)
    then show ?thesis using returns_frame(3)[OF own_no_command(6,2)] by (simp add: worker_of_def)
  next
    case (own_command c' received m now)
    then show ?thesis using run by (simp add: worker_of_def job_left_def)
  next
    case (own_section k c' m pc pc' d)
    have "k < length (threads y)" using phase_invD(1)[OF assms(2) own_section(2)] .
    then show ?thesis using run own_section section_decreases[OF own_section(4)]
      by (simp add: worker_of_def job_left_def)
  next
    case (own_rearm k c' m r S' rearmed p)
    then show ?thesis using returns_frame(3)[OF own_rearm(5) assms(3)] by (simp add: worker_of_def)
  qed
qed

lemma own_step_pool:
  assumes "own_step i y y'" and "phase_inv y" and "\<And>c. \<not> running_job (dsp y) i c"
  obtains outcome p where "y' = y\<lparr>dsp := (dsp y)\<lparr>pool := p\<rparr>\<rparr>" "worker_action i outcome (pool (dsp y)) = Some p"
proof -
  have "phase y i = None" using assms(2,3) unfolding phase_inv_def by (meson not_Some_eq)
  with assms(1) show thesis by cases (use that assms(3) in auto)
qed

text \<open>
  While the queue is not empty, an own step of a worker that is awake takes the head of the
  queue or brings the worker nearer to it; no worker falls asleep.
\<close>

lemma own_step_distance:
  assumes "own_step i y y'" and "phase_inv y" and "wakeup_inv (pool (dsp y))" and "queue_of y = j # js"
    and "i < length (workers (pool (dsp y)))" and "worker_of y i \<noteq> Asleep" and "active (pool (dsp y))"
  shows "queue_of y' = js \<and> running_job (dsp y') i j \<or>
     queue_of y' = queue_of y \<and> worker_of y' i \<noteq> Asleep \<and> distance y' i < distance y i"
proof (cases "\<exists>c. running_job (dsp y) i c")
  case True
  then obtain c where c: "running_job (dsp y) i c" by blast
  have q: "queue_of y' = queue_of y"
    using assms(1)
  proof cases
    case (own_no_command c' received S' rearmed now p)
    then show ?thesis using returns_frame(1)[OF own_no_command(6,2)] by simp
  next
    case (own_rearm k c' m r S' rearmed p)
    then show ?thesis using returns_frame(1)[OF own_rearm(5) c] by simp
  qed (use c in simp_all)
  have "worker_of y i = Running c" using c by (simp add: running_worker)
  then show ?thesis using own_step_job[OF assms(1,2) c] q by (auto simp: distance_def)
next
  case False
  then obtain outcome p where p: "y' = y\<lparr>dsp := (dsp y)\<lparr>pool := p\<rparr>\<rparr>" "worker_action i outcome (pool (dsp y)) = Some p"
    using own_step_pool[OF assms(1,2)] by blast
  have nb: "worker_of y i \<noteq> AtBlock" using assms(3-5) by (auto simp: wakeup_inv_def worker_of_def)
  from p(2) show ?thesis
  proof (cases rule: worker_action_cases)
    case (take job js')
    then show ?thesis using p(1) assms(4,5) by (simp add: running_job_def)
  qed (use p(1) assms(4,5,6,7) nb False in \<open>auto simp: worker_of_def distance_def running_job_def\<close>)
qed

subsection \<open>A job takes at most five steps of its worker\<close>

lemma own_step_todo: "own_step i y y' \<Longrightarrow> todo (dsp y') = todo (dsp y)"
  by (induction rule: own_step.induct) simp_all

text \<open>A worker in a job has a step of its own, wherever the other threads are.\<close>

lemma job_enabled:
  assumes "phase_inv y" and "concurrent_inv s0 (conc_of y)" and "pool_alive (dsp y)" and "running_job (dsp y) i c"
  shows "\<exists>y'. own_step i y y'"
proof -
  obtain p where p: "worker_action i Returns (pool (dsp y)) = Some p" by (rule running_returns[OF assms(3,4)])
  show ?thesis
  proof (cases "phase y i")
    case None
    have "complete_message RecvError c (server_of y) = None" by (simp add: complete_message_def)
    moreover have "\<exists>S'. messageHandler RecvError False 0 c (end_job c (server_of y)) = Some S'"
      by (simp add: messageHandler_def)
    ultimately show ?thesis using own_no_command[OF assms(4) None _ _ p] by blast
  next
    case (Some k)
    have k: "k < length (threads y)" by (rule phase_invD(1)[OF assms(1) Some])
    obtain c' m pc where t: "threads y ! k = (c', m, pc)" by (cases "threads y ! k")
    show ?thesis
    proof (cases "sections_left pc = 0")
      case True
      then obtain r where "pc = Answered r" by (cases pc) auto
      then show ?thesis using own_rearm[OF Some _ refl p] t by blast
    next
      case False
      have "race_inv (db_of (server_of y))" "pc_ok pc"
        using assms(2) k t by (auto simp: concurrent_inv_def conc_of_def list_all_length)
      then obtain pc' d where "handler_section pc (db_of (server_of y)) = Some (pc', d)"
        using section_progress False by blast
      then show ?thesis using own_section[OF Some t] by blast
    qed
  qed
qed

text \<open>What its last step leaves, and that all the others are part of the job.\<close>

lemma own_step_phase:
  assumes "own_step i y y'" and "phase_inv y" and "running_job (dsp y) i c"
  shows "worker_of y' i = AtLock \<and> (\<forall>k. phase y i = Some k \<longrightarrow> answered (snd (threads y' ! k))) \<or>
    worker_of y' i = Running c \<and> (\<forall>k. phase y i = Some k \<longrightarrow> phase y' i = Some k)"
  using assms(1)
proof cases
  case (own_no_command c' received S' rearmed now p)
  then show ?thesis using returns_frame(3)[OF own_no_command(6,2)] by (simp add: worker_of_def)
next
  case (own_rearm k c' m r S' rearmed p)
  then show ?thesis using returns_frame(3)[OF own_rearm(5) assms(3)] by (simp add: worker_of_def answered_def)
qed (use assms(3) in \<open>auto simp: running_worker worker_of_def\<close>)

lemma job_ends:
  assumes "thread_inv s0 y" and "pool_alive (dsp y)" and "running_job (dsp y) i c"
  shows "\<exists>n y'. (own_step i ^^ n) y y' \<and> n \<le> job_left y i \<and> \<not> running_job (dsp y') i c \<and>
    (\<forall>k. phase y i = Some k \<longrightarrow> answered (snd (threads y' ! k)))"
  using assms
proof (induction "job_left y i" arbitrary: y rule: less_induct)
  case less
  have ph: "phase_inv y" "concurrent_inv s0 (conc_of y)" using less.prems(1) by (simp_all add: thread_inv_def)
  obtain z where z: "own_step i y z" using job_enabled[OF ph less.prems(2,3)] by blast
  have sz: "system_step y z" using z by (rule own_step_system)
  have inv: "thread_inv s0 z" "pool_alive (dsp z)"
    using system_step_thread[OF sz less.prems(1)] system_step_alive[OF sz ph(1) less.prems(2)] by blast+
  show ?case
  proof (cases "worker_of z i = AtLock")
    case True
    then have a: "\<forall>k. phase y i = Some k \<longrightarrow> answered (snd (threads z ! k))"
      using own_step_phase[OF z ph(1) less.prems(3)] by auto
    have "0 < job_left y i" by (simp add: job_left_def split: option.split)
    moreover have "(own_step i ^^ Suc 0) y z" using z by (auto simp: OO_def)
    ultimately show ?thesis using True a by (intro exI[of _ "Suc 0"] exI[of _ z]) (simp add: running_worker)
  next
    case False
    then have run: "running_job (dsp z) i c" and l: "job_left z i < job_left y i"
      and p: "\<forall>k. phase y i = Some k \<longrightarrow> phase z i = Some k"
      using own_step_job[OF z ph(1) less.prems(3)] own_step_phase[OF z ph(1) less.prems(3)]
        less.prems(2,3) inv(2) by (auto simp: running_worker pool_alive_def)
    obtain n y' where n: "(own_step i ^^ n) z y'" "n \<le> job_left z i" "\<not> running_job (dsp y') i c"
        "\<forall>k. phase z i = Some k \<longrightarrow> answered (snd (threads y' ! k))"
      using less.hyps[OF l inv run] by blast
    have "(own_step i ^^ Suc n) y y'" using z n(1) by (rule relpowp_Suc_I2)
    then show ?thesis using n(2-4) l p by (intro exI[of _ "Suc n"] exI[of _ y']) simp
  qed
qed

text \<open>
  C25 (liveness). No handler waits for another: in every state the system reaches, a worker that
  is in a job, whatever it has done of it and whatever the other threads are in the middle of,
  can end it by at most five steps of its own, and a command that was received and not yet
  answered is answered by at most four.
\<close>

theorem system_job_ends:
  assumes "server_started S0" and "system_step\<^sup>*\<^sup>* (System_new S0) y" and "running_job (dsp y) i c"
  shows "\<exists>n y'. (own_step i ^^ n) y y' \<and> n \<le> (if phase y i = None then 5 else 4) \<and>
    \<not> running_job (dsp y') i c \<and> (\<forall>k. phase y i = Some k \<longrightarrow> (\<exists>r. snd (snd (threads y' ! k)) = Answered r))"
proof -
  obtain n y' where n: "(own_step i ^^ n) y y'" "n \<le> job_left y i" "\<not> running_job (dsp y') i c"
      "\<forall>k. phase y i = Some k \<longrightarrow> answered (snd (threads y' ! k))"
    using job_ends[OF system_threads[OF assms(1,2)] system_reachable_alive[OF assms(1,2)] assms(3)] by blast
  moreover have "sections_left pc \<le> 3" for pc by (cases pc) simp_all
  then have "job_left y i \<le> (if phase y i = None then 5 else 4)"
    by (auto simp: job_left_def split: option.split)
  ultimately show ?thesis unfolding answered_def by (meson order_trans)
qed

theorem system_job_ends_witness:
  "\<exists>S0 y n y' r. server_started S0 \<and> system_step\<^sup>*\<^sup>* (System_new S0) y \<and> running_job (dsp y) 0 0 \<and>
     threads y = [(0, ''INSERT a 1'' @ [newline], LoggingInsert ''a'' ''1'')] \<and>
     (own_step 0 ^^ n) y y' \<and> n \<le> 4 \<and> \<not> running_job (dsp y') 0 0 \<and> snd (snd (threads y' ! 0)) = Answered r"
proof -
  obtain S0 y where s: "server_started S0" "(sparing server_of system_step)\<^sup>*\<^sup>* (System_new S0) y"
    and t: "running_job (dsp y) 0 0"
    "phase y = [0 \<mapsto> 0]" "threads y = [(0, ''INSERT a 1'' @ [newline], LoggingInsert ''a'' ''1'')]"
    by (rule example_system)
  note y = s(1) sparing_steps[OF s(2)] t
  have "phase y 0 = Some 0" using y(4) by simp
  with system_job_ends[OF y(1-3)] obtain n y' r where "(own_step 0 ^^ n) y y'" "n \<le> 4"
      "\<not> running_job (dsp y') 0 0" "snd (snd (threads y' ! 0)) = Answered r" by auto
  with y(1-3,5) show ?thesis by blast
qed

subsection \<open>Fair runs\<close>

definition system_run :: "Server \<Rightarrow> (nat \<Rightarrow> System) \<Rightarrow> bool" where
  "system_run S0 \<sigma> \<longleftrightarrow> server_started S0 \<and> \<sigma> 0 = System_new S0 \<and> (\<forall>n. sparing server_of system_step (\<sigma> n) (\<sigma> (Suc n)))"

definition worker_fair :: "(nat \<Rightarrow> System) \<Rightarrow> nat \<Rightarrow> bool" where
  "worker_fair \<sigma> i \<longleftrightarrow> (\<forall>n. \<exists>m \<ge> n. worker_of (\<sigma> m) i = Asleep \<or> own_step i (\<sigma> m) (\<sigma> (Suc m)))"

definition loop_fair :: "(nat \<Rightarrow> System) \<Rightarrow> bool" where
  "loop_fair \<sigma> \<longleftrightarrow> (\<forall>n. \<exists>m \<ge> n. todo (dsp (\<sigma> m)) = [] \<or> loop_step (\<sigma> m) (\<sigma> (Suc m)))"

definition fair_run :: "Server \<Rightarrow> (nat \<Rightarrow> System) \<Rightarrow> bool" where
  "fair_run S0 \<sigma> \<longleftrightarrow> system_run S0 \<sigma> \<and> (\<forall>i < 3. worker_fair \<sigma> i) \<and> loop_fair \<sigma>"

lemma run_reachable: "system_run S0 \<sigma> \<Longrightarrow> (sparing server_of system_step)\<^sup>*\<^sup>* (System_new S0) (\<sigma> n)"
  by (induction n) (auto simp: system_run_def intro: rtranclp.rtrancl_into_rtrancl)

text \<open>
  The one argument behind every claim: what holds and is not yet at its goal is kept by all
  steps, with a rank that no step raises and that the steps in question lower; those steps do
  not stop.
\<close>

lemma leads_to_by_rank:
  fixes \<sigma> :: "nat \<Rightarrow> System" and rank :: "System \<Rightarrow> nat"
  assumes "P (\<sigma> n)"
    and "\<And>m. P (\<sigma> m) \<Longrightarrow> Q (\<sigma> (Suc m)) \<or> P (\<sigma> (Suc m)) \<and> rank (\<sigma> (Suc m)) \<le> rank (\<sigma> m)"
    and "\<And>m. P (\<sigma> m) \<Longrightarrow> acts m \<Longrightarrow> Q (\<sigma> (Suc m)) \<or> P (\<sigma> (Suc m)) \<and> rank (\<sigma> (Suc m)) < rank (\<sigma> m)"
    and "\<And>m. \<exists>l \<ge> m. \<not> P (\<sigma> l) \<or> acts l"
  shows "\<exists>m \<ge> n. Q (\<sigma> m)"
proof (rule ccontr)
  assume "\<not> ?thesis"
  then have never: "\<not> Q (\<sigma> m)" if "m \<ge> n" for m using that by blast
  have keep: "P (\<sigma> m) \<and> rank (\<sigma> m) \<le> rank (\<sigma> l)" if "m \<ge> l" "l \<ge> n" "P (\<sigma> l)" for m l
    using that(1,2)
  proof (induction m rule: dec_induct)
    case (step m)
    then show ?case using assms(2)[of m] never[of "Suc m"] by force
  qed (simp add: that(3))
  have "P (\<sigma> m) \<Longrightarrow> m \<ge> n \<Longrightarrow> False" for m
  proof (induction "rank (\<sigma> m)" arbitrary: m rule: less_induct)
    case less
    obtain l where l: "l \<ge> m" "\<not> P (\<sigma> l) \<or> acts l" using assms(4) by blast
    have k: "P (\<sigma> l)" "rank (\<sigma> l) \<le> rank (\<sigma> m)" using keep[OF l(1) less.prems(2,1)] by simp_all
    then have "P (\<sigma> (Suc l)) \<and> rank (\<sigma> (Suc l)) < rank (\<sigma> l)"
      using assms(3)[of l] l less.prems(2) never[of "Suc l"] by simp
    then show False using less.hyps[of "Suc l"] k(2) l(1) less.prems(2) by simp
  qed
  then show False using assms(1) by blast
qed


text \<open>What holds at every point of a run.\<close>

definition run_inv :: "db \<Rightarrow> System \<Rightarrow> bool" where
  "run_inv d y \<longleftrightarrow> phase_inv y \<and> order_inv y \<and> dispatch_inv (freeze d (dsp y)) \<and> conn_inv y \<and>
     pool_alive (dsp y) \<and> active (pool (dsp y))"

lemma worker_action_active: "worker_action i outcome s = Some s' \<Longrightarrow> active s' = active s \<and> destructor s' = destructor s"
  by (erule worker_action_cases) simp_all

lemma dispatch_step_active:
  assumes "dispatch_step x x'"
  shows "active (pool x') = active (pool x)"
  using assms
proof cases
  case dispatch_work
  then show ?thesis by cases (auto dest: worker_action_active)
next
  case (dispatch_spurious p)
  then show ?thesis by (auto elim!: spurious_step.cases)
next
  case (dispatch_entry e es S' p w)
  then show ?thesis by (auto simp: acceptJob_def split: option.splits if_splits)
qed simp_all

lemma system_step_active:
  assumes "system_step y y'"
  shows "active (pool (dsp y')) = active (pool (dsp y))"
  using assms
proof cases
  case (sys_quiet x')
  then show ?thesis using dispatch_step_active[of "dsp y" x'] by (simp add: quiet_step_def)
qed (auto dest: worker_action_active)

lemma run_inv_reachable:
  assumes "server_started S0" and "(sparing server_of system_step)\<^sup>*\<^sup>* (System_new S0) y"
  shows "run_inv (db_of S0) y"
proof -
  have "active (pool (dsp y))"
    using sparing_steps[OF assms(2)]
  proof (induction rule: rtranclp_induct)
    case base
    show ?case by (simp add: System_new_def Dispatch_new_def ThreadPool_new_def)
  next
    case (step y z)
    then show ?case by (simp add: system_step_active)
  qed
  then show ?thesis using system_reachable[OF assms] system_reachable_alive[OF assms(1) sparing_steps[OF assms(2)]]
    by (simp add: run_inv_def system_inv_def)
qed

lemma run_invD:
  assumes "run_inv d y"
  shows "phase_inv y" and "order_inv y" and "dispatch_inv (freeze d (dsp y))" and "conn_inv y"
    and "active (pool (dsp y))" and "length (workers (pool (dsp y))) = 3" and "wakeup_inv (pool (dsp y))"
    and "\<not> terminated (pool (dsp y))" and "mutex_inv (pool (dsp y))"
  using assms by (simp_all add: run_inv_def pool_alive_def dispatch_inv_def jobs_inv_def pool_inv_def)

lemma run_states: "system_run S0 \<sigma> \<Longrightarrow> run_inv (db_of S0) (\<sigma> n) \<and> system_step (\<sigma> n) (\<sigma> (Suc n))"
  using run_inv_reachable[OF _ run_reachable] by (simp add: system_run_def sparing_def)

lemma run_workers:
  assumes "system_run S0 \<sigma>"
  shows "own_step i (\<sigma> n) (\<sigma> (Suc n)) \<or> left_alone i (\<sigma> n) (\<sigma> (Suc n))"
    and "queue_served (\<sigma> n) (\<sigma> (Suc n))"
  using run_states[OF assms, of n] system_step_workers run_invD(1,3) by blast+

subsection \<open>Jobs end, commands are answered, the queue is served\<close>

text \<open>The same for the steps of one worker.\<close>

lemma worker_leads_to:
  assumes "system_run S0 \<sigma>" and "worker_fair \<sigma> i" and "P (\<sigma> n)"
    and "\<And>m. P (\<sigma> m) \<Longrightarrow> worker_of (\<sigma> m) i \<noteq> Asleep"
    and own: "\<And>m. P (\<sigma> m) \<Longrightarrow> own_step i (\<sigma> m) (\<sigma> (Suc m)) \<Longrightarrow>
      Q (\<sigma> (Suc m)) \<or> P (\<sigma> (Suc m)) \<and> rank (\<sigma> (Suc m)) < (rank (\<sigma> m) :: nat)"
    and alone: "\<And>m. P (\<sigma> m) \<Longrightarrow> left_alone i (\<sigma> m) (\<sigma> (Suc m)) \<Longrightarrow>
      Q (\<sigma> (Suc m)) \<or> P (\<sigma> (Suc m)) \<and> rank (\<sigma> (Suc m)) \<le> rank (\<sigma> m)"
  shows "\<exists>m \<ge> n. Q (\<sigma> m)"
proof (rule leads_to_by_rank[where P = P and acts = "\<lambda>m. own_step i (\<sigma> m) (\<sigma> (Suc m))"])
  show "P (\<sigma> n)" by (rule assms(3))
  show "Q (\<sigma> (Suc m)) \<or> P (\<sigma> (Suc m)) \<and> rank (\<sigma> (Suc m)) < rank (\<sigma> m)"
    if "P (\<sigma> m)" "own_step i (\<sigma> m) (\<sigma> (Suc m))" for m
    using that by (rule own)
  show "Q (\<sigma> (Suc m)) \<or> P (\<sigma> (Suc m)) \<and> rank (\<sigma> (Suc m)) \<le> rank (\<sigma> m)" if "P (\<sigma> m)" for m
    using own[OF that] alone[OF that] run_workers(1)[OF assms(1), of i m] by fastforce
  show "\<exists>l \<ge> m. \<not> P (\<sigma> l) \<or> own_step i (\<sigma> l) (\<sigma> (Suc l))" for m
  proof -
    obtain l where "l \<ge> m" "worker_of (\<sigma> l) i = Asleep \<or> own_step i (\<sigma> l) (\<sigma> (Suc l))"
      using assms(2) unfolding worker_fair_def by blast
    then show ?thesis using assms(4) by blast
  qed
qed

lemma fair_job_ends:
  assumes "system_run S0 \<sigma>" and "worker_fair \<sigma> i" and "running_job (dsp (\<sigma> n)) i c"
  shows "\<exists>m \<ge> n. worker_of (\<sigma> m) i = AtLock"
proof (rule worker_leads_to[where P = "\<lambda>y. running_job (dsp y) i c" and rank = "\<lambda>y. job_left y i", OF assms])
  note inv = run_invD[OF conjunct1[OF run_states[OF assms(1)]]]
  fix m assume m: "running_job (dsp (\<sigma> m)) i c"
  then show "worker_of (\<sigma> m) i \<noteq> Asleep" by (simp add: running_worker)
  show "worker_of (\<sigma> (Suc m)) i = AtLock \<or>
      running_job (dsp (\<sigma> (Suc m))) i c \<and> job_left (\<sigma> (Suc m)) i < job_left (\<sigma> m) i"
    if "own_step i (\<sigma> m) (\<sigma> (Suc m))"
    using own_step_job[OF that inv(1) m] m by (auto simp: running_worker inv(6))
  show "worker_of (\<sigma> (Suc m)) i = AtLock \<or>
      running_job (dsp (\<sigma> (Suc m))) i c \<and> job_left (\<sigma> (Suc m)) i \<le> job_left (\<sigma> m) i"
    if "left_alone i (\<sigma> m) (\<sigma> (Suc m))"
    using left_alone_distance[OF that] m by (simp add: running_worker inv(6))
qed

text \<open>A command that was received and not answered has a worker.\<close>

lemma unanswered_phase:
  assumes "phase_inv y" and "order_inv y" and "k < length (threads y)" and "\<not> answered (snd (threads y ! k))"
  shows "\<exists>i. phase y i = Some k"
proof (rule ccontr)
  assume no: "\<not> ?thesis"
  obtain c t where k: "threads y ! k = (c, t)" by (cases "threads y ! k")
  have "t \<in> set (of_conn c (threads y))"
    using nth_mem[OF assms(3)] unfolding k of_conn_def by force
  with assms(4) k have "\<not> list_all answered (of_conn c (threads y))" by (auto simp: list_all_iff)
  then obtain i k' t' where p: "phase y i = Some k'" "threads y ! k' = (c, t')"
    using assms(2) unfolding order_inv_def by (metis prod.collapse)
  have k': "k' < length (threads y)" by (rule phase_invD(1)[OF assms(1) p(1)])
  note o = order_invD(1,2)[OF assms(2) p k']
  have "k' \<noteq> k" using no p(1) by blast
  then consider "k < k'" | "Suc k' \<le> k" by linarith
  then show False
  proof cases
    case 1
    then have "(c, t) \<in> set (take k' (threads y))" using k assms(3) by (auto simp: in_set_conv_nth)
    then have "t \<in> set (of_conn c (take k' (threads y)))" by (force simp: of_conn_def)
    then show False using o(2) assms(4) k by (auto simp: list_all_iff)
  next
    case 2
    then have "threads y ! k = drop (Suc k') (threads y) ! (k - Suc k')" "k - Suc k' < length (drop (Suc k') (threads y))"
      using assms(3) by auto
    then have "(c, t) \<in> set (drop (Suc k') (threads y))" using k by (metis nth_mem)
    then have "t \<in> set (of_conn c (drop (Suc k') (threads y)))" by (force simp: of_conn_def)
    then show False using o(1) by simp
  qed
qed

lemma fair_command_answered:
  assumes "system_run S0 \<sigma>" and "\<And>i. i < 3 \<Longrightarrow> worker_fair \<sigma> i" and "k < length (threads (\<sigma> n))"
  shows "\<exists>m \<ge> n. answered (snd (threads (\<sigma> m) ! k))"
proof (cases "answered (snd (threads (\<sigma> n) ! k))")
  case False
  note inv = run_invD[OF conjunct1[OF run_states[OF assms(1)]]]
  obtain i where i: "phase (\<sigma> n) i = Some k"
    using unanswered_phase[OF inv(1,2) assms(3) False] by blast
  have i3: "i < 3" and r: "phase (\<sigma> m) i = Some k \<Longrightarrow> worker_of (\<sigma> m) i \<noteq> Asleep" for m
    using inv(1)[of m] inv(1)[of n] inv(6)[of n] i by (auto simp: phase_inv_def running_worker)
  let ?P = "\<lambda>y. phase y i = Some k \<and> \<not> answered (snd (threads y ! k))"
  let ?rank = "\<lambda>y. sections_left (snd (snd (threads y ! k)))"
  show ?thesis
  proof (rule worker_leads_to[where P = ?P and rank = ?rank, OF assms(1) assms(2)[OF i3]])
    fix m assume m: "?P (\<sigma> m)"
    then show "worker_of (\<sigma> m) i \<noteq> Asleep" using r by blast
    show "answered (snd (threads (\<sigma> (Suc m)) ! k)) \<or> ?P (\<sigma> (Suc m)) \<and> ?rank (\<sigma> (Suc m)) < ?rank (\<sigma> m)"
      if "own_step i (\<sigma> m) (\<sigma> (Suc m))"
      using own_step_answers[OF that inv(1)] m by blast
    show "answered (snd (threads (\<sigma> (Suc m)) ! k)) \<or> ?P (\<sigma> (Suc m)) \<and> ?rank (\<sigma> (Suc m)) \<le> ?rank (\<sigma> m)"
      if "left_alone i (\<sigma> m) (\<sigma> (Suc m))"
      using that m by (simp add: left_alone_def)
  qed (use i False in simp)
qed blast


text \<open>
  The head of the queue is taken: some worker is awake (no wake-up is lost), and stays awake
  while the queue is not empty.
\<close>

lemma fair_head_taken:
  assumes "system_run S0 \<sigma>" and "\<And>i. i < 3 \<Longrightarrow> worker_fair \<sigma> i" and "queue_of (\<sigma> n) = j # js"
  shows "\<exists>m \<ge> n. (\<exists>zs. queue_of (\<sigma> m) = js @ zs) \<and> (\<exists>i. running_job (dsp (\<sigma> m)) i j)"
proof -
  note inv = run_invD[OF conjunct1[OF run_states[OF assms(1)]]]
  obtain i where i: "i < 3" "worker_of (\<sigma> n) i \<noteq> Asleep"
    using inv(5-7)[of n] assms(3) by (auto simp: wakeup_inv_def awake_def worker_of_def in_set_conv_nth)
  let ?P = "\<lambda>y. (\<exists>zs. queue_of y = j # js @ zs) \<and> worker_of y i \<noteq> Asleep"
  show ?thesis
  proof (rule worker_leads_to[where P = ?P and rank = "\<lambda>y. distance y i", OF assms(1) assms(2)[OF i(1)]])
    show "?P (\<sigma> n)" using assms(3) i(2) by simp
    fix m assume m: "?P (\<sigma> m)"
    then show "worker_of (\<sigma> m) i \<noteq> Asleep" by simp
    obtain zs where zs: "queue_of (\<sigma> m) = j # js @ zs" using m by blast
    let ?Q = "(\<exists>zs. queue_of (\<sigma> (Suc m)) = js @ zs) \<and> (\<exists>i. running_job (dsp (\<sigma> (Suc m))) i j)"
    show "?Q \<or> ?P (\<sigma> (Suc m)) \<and> distance (\<sigma> (Suc m)) i < distance (\<sigma> m) i"
      if "own_step i (\<sigma> m) (\<sigma> (Suc m))"
      using own_step_distance[OF that inv(1,7) zs _ _ inv(5)] m zs i(1) inv(6)[of m] by auto
    show "?Q \<or> ?P (\<sigma> (Suc m)) \<and> distance (\<sigma> (Suc m)) i \<le> distance (\<sigma> m) i"
      if "left_alone i (\<sigma> m) (\<sigma> (Suc m))"
      using run_workers(2)[OF assms(1), of m] unfolding queue_served_def
    proof (elim disjE exE conjE)
      fix new assume "queue_of (\<sigma> (Suc m)) = queue_of (\<sigma> m) @ new"
      then show ?thesis using left_alone_distance[OF that] m zs by simp
    next
      fix i' j' assume "queue_of (\<sigma> m) = j' # queue_of (\<sigma> (Suc m))" "running_job (dsp (\<sigma> (Suc m))) i' j'"
      moreover from this(1) zs have "queue_of (\<sigma> (Suc m)) = js @ zs" "j' = j" by simp_all
      ultimately show ?thesis by blast
    qed
  qed
qed

lemma fair_queue_served:
  assumes "system_run S0 \<sigma>" and "\<And>i. i < 3 \<Longrightarrow> worker_fair \<sigma> i" and "queue_of (\<sigma> n) = xs @ c # ys"
  shows "\<exists>m \<ge> n. \<exists>i. running_job (dsp (\<sigma> m)) i c"
  using assms(3)
proof (induction xs arbitrary: n ys)
  case Nil
  then show ?case using fair_head_taken[OF assms(1,2), of n c ys] by auto
next
  case (Cons x xs)
  then obtain m zs where "m \<ge> n" "queue_of (\<sigma> m) = xs @ c # (ys @ zs)"
    using fair_head_taken[OF assms(1,2), of n x "xs @ c # ys"] by auto
  then show ?case using Cons.IH[of m "ys @ zs"] by (meson order_trans)
qed


subsection \<open>Reported events reach a worker\<close>

text \<open>What a thread does to the table of connections while an event is waiting for another socket.\<close>

lemma handler_other_socket:
  assumes "messageHandler received rearmed now c S = Some S'" and "s \<noteq> conn_socket (conn_objects S ! c)"
  shows "connections S' s = connections S s"
  using assms by (auto simp: messageHandler_def Let_def frame_simps split: recv_result.splits if_splits)

lemma accept_other_socket:
  assumes "s \<noteq> acc_socket a"
  shows "connections (fst (acceptClients_round a S)) s = connections S s"
  using assms by (simp add: acceptClients_round_def split_beta Let_def frame_simps)

lemma cleanup_connections:
  assumes "cleanup_expired_sessions (Some onSessionExpired) order (M0, S) = (M, S')"
  shows "connections S' = connections S"
  using assms
  by (induction "Some onSessionExpired" order "(M0, S)" arbitrary: M0 S
      rule: cleanup_expired_sessions.induct)
     (auto simp: onSessionExpired_def Let_def split: option.splits if_splits)

lemma running_socket:
  assumes "dispatch_inv (freeze d x)" and "running_job x i c"
  shows "conn_socket (conn_objects (srv x) ! c) \<notin> todo_sockets x"
proof -
  have "c \<in> set (tpool_jobs (srv (freeze d x)))"
    by (rule running_job_queued[where i = i]) (use assms in \<open>simp_all add: dispatch_inv_def\<close>)
  then have "conn_socket (conn_objects (srv x) ! c) \<in> set (job_sockets (srv x))" by (auto simp: job_sockets_def)
  then show ?thesis using assms(1) by (auto simp: dispatch_inv_def sockets_inv_def)
qed

definition event_waits :: "EventLoopEntry \<Rightarrow> nat \<Rightarrow> System \<Rightarrow> bool" where
  "event_waits e c y \<longleftrightarrow> e \<in> set (todo (dsp y)) \<and> entry_event e = Readable \<and>
     connections (server_of y) (entry_socket e) = Some c"

text \<open>The connection is in the queue; or the server has been stopped, and its table emptied.\<close>

definition reached :: "nat \<Rightarrow> System \<Rightarrow> bool" where
  "reached c y \<longleftrightarrow> c \<in> set (queue_of y) \<or> \<not> running (server_of y)"

lemma event_waits_kept:
  assumes "event_waits e c y" and "todo (dsp y') = todo (dsp y)"
    and "connections (server_of y') (entry_socket e) = connections (server_of y) (entry_socket e)"
  shows "event_waits e c y'"
  using assms by (simp add: event_waits_def)

lemma event_socket: "event_waits e c y \<Longrightarrow> entry_socket e \<in> todo_sockets (dsp y)"
  by (auto simp: event_waits_def todo_sockets_def)

text \<open>Its own turn puts the connection into the pool's queue; the turn of another leaves it waiting.\<close>

lemma event_taken:
  assumes "event_waits e c y" and "distinct (map entry_socket (todo (dsp y)))" and "todo (dsp y) = e' # es"
    and "S' = dispatch_event e' (server_of y)"
    and "case job_for e' (server_of y) of None \<Rightarrow> p = pool (dsp y) | Some c \<Rightarrow> acceptJob c w (pool (dsp y)) = Some p"
    and "y' = y\<lparr>dsp := (after_calls S' (dsp y))\<lparr>todo := es, pool := p\<rparr>\<rparr>"
  shows "reached c y' \<or> event_waits e c y' \<and> length (todo (dsp y')) < length (todo (dsp y))"
proof (cases "e' = e")
  case True
  then have "acceptJob c w (pool (dsp y)) = Some p" using assms(1,5) by (simp add: event_waits_def job_for_def)
  then show ?thesis using acceptJob_frame(1) assms(6) by (fastforce simp: reached_def)
next
  case False
  then have "e \<in> set es" "entry_socket e' \<noteq> entry_socket e" using assms(1-3) by (auto simp: event_waits_def)
  moreover from this(2) have "connections S' (entry_socket e) = connections (server_of y) (entry_socket e)"
    unfolding assms(4) by (simp add: dispatch_event_def frame_simps split: option.split)
  ultimately show ?thesis using assms(1,3,6) by (simp add: event_waits_def)
qed

lemma quiet_event:
  assumes "quiet_step (dsp y) x'" and "y' = y\<lparr>dsp := x'\<rparr>" and "event_waits e c y"
    and "dispatch_inv (freeze d (dsp y))"
  shows "reached c y' \<or> event_waits e c y' \<and> length (todo (dsp y')) \<le> length (todo (dsp y))"
proof -
  have dt: "distinct (map entry_socket (todo (dsp y)))"
    using assms(4) by (simp add: dispatch_inv_def sockets_inv_def)
  have ne: "todo (dsp y) \<noteq> []" using assms(3) by (auto simp: event_waits_def)
  have "dispatch_step (dsp y) x'" using assms(1) by (simp add: quiet_step_def)
  then show ?thesis
  proof cases
    case dispatch_work
    then show ?thesis
    proof cases
      case (work_pool j outcome p)
      then show ?thesis using event_waits_kept[OF assms(3), of y'] assms(2) by simp
    next
      case (work_handle j c' p received rearmed now S')
      then show ?thesis using quiet_no_end[OF assms(1)] by blast
    qed
  next
    case (dispatch_accept S' a)
    have "entry_socket e \<noteq> acc_socket a" using assms(3) dispatch_accept by (auto simp: event_waits_def)
    then show ?thesis using event_waits_kept[OF assms(3), of y'] accept_other_socket[of _ a] dispatch_accept(1,2) assms(2) by simp
  next
    case (dispatch_entry e' es S' p w)
    then show ?thesis using event_taken[OF assms(3) dt dispatch_entry(2-4)] assms(2) by (fastforce simp: reached_def)
  next
    case (dispatch_stop S' order)
    then show ?thesis using stop_sockets(3)[OF dispatch_stop(2)] assms(2) by (simp add: reached_def)
  next
    case (dispatch_cleanup order M S')
    then show ?thesis using event_waits_kept[OF assms(3), of y'] cleanup_connections[OF dispatch_cleanup(2)] assms(2) by simp
  qed (use event_waits_kept[OF assms(3), of y'] ne assms(2) in simp_all)
qed

lemma system_event:
  assumes "system_step y y'" and "phase_inv y" and "dispatch_inv (freeze d (dsp y))" and "event_waits e c y"
  shows "reached c y' \<or> event_waits e c y' \<and> length (todo (dsp y')) \<le> length (todo (dsp y))"
proof -
  note keep = event_waits_kept[OF assms(4), of y'] and s = event_socket[OF assms(4)]
  from assms(1) show ?thesis
  proof cases
    case (sys_quiet x')
    then show ?thesis using quiet_event[OF _ _ assms(4,3)] by blast
  next
    case (sys_no_command i c' received rearmed now S' p)
    have "entry_socket e \<noteq> conn_socket (conn_objects (server_of y) ! c')"
      using running_socket[OF assms(3) sys_no_command(2)] s by metis
    then show ?thesis using handler_other_socket[OF sys_no_command(5)] keep sys_no_command(1) by (simp add: end_job_def)
  next
    case (sys_rearm i k c' m r S' rearmed p)
    have "running_job (dsp y) i c'" by (rule phase_invD(2)[OF assms(2) sys_rearm(2,3)])
    from running_socket[OF assms(3) this] have "entry_socket e \<noteq> conn_socket (conn_objects (server_of y) ! c')"
      using s by metis
    then show ?thesis using keep sys_rearm(1,4) by (simp add: frame_simps end_job_def)
  qed (use keep in \<open>simp_all add: begin_command_def answer_frame frame_simps\<close>)
qed

lemma loop_step_event:
  assumes "loop_step y y'" and "dispatch_inv (freeze d (dsp y))" and "event_waits e c y"
  shows "reached c y' \<or> event_waits e c y' \<and> length (todo (dsp y')) < length (todo (dsp y))"
  using assms(1)
proof cases
  case (loop_entry e' es S' p w)
  have "distinct (map entry_socket (todo (dsp y)))" using assms(2) by (simp add: dispatch_inv_def sockets_inv_def)
  from event_taken[OF assms(3) this loop_entry(2-4,1)] show ?thesis .
qed

lemma fair_event_queued:
  assumes "system_run S0 \<sigma>" and "loop_fair \<sigma>" and "event_waits e c (\<sigma> n)"
  shows "\<exists>m \<ge> n. reached c (\<sigma> m)"
proof (rule leads_to_by_rank[where P = "event_waits e c" and rank = "\<lambda>y. length (todo (dsp y))"
      and acts = "\<lambda>m. loop_step (\<sigma> m) (\<sigma> (Suc m))"])
  note inv = run_invD[OF conjunct1[OF run_states[OF assms(1)]]]
  fix m
  have "todo (dsp (\<sigma> l)) \<noteq> []" if "event_waits e c (\<sigma> l)" for l using that by (auto simp: event_waits_def)
  then show "\<exists>l \<ge> m. \<not> event_waits e c (\<sigma> l) \<or> loop_step (\<sigma> l) (\<sigma> (Suc l))"
    using assms(2) unfolding loop_fair_def by blast
  assume m: "event_waits e c (\<sigma> m)"
  show "reached c (\<sigma> (Suc m)) \<or> event_waits e c (\<sigma> (Suc m)) \<and>
      length (todo (dsp (\<sigma> (Suc m)))) \<le> length (todo (dsp (\<sigma> m)))"
    using system_event[OF conjunct2[OF run_states[OF assms(1)]] inv(1,3) m] .
  show "reached c (\<sigma> (Suc m)) \<or> event_waits e c (\<sigma> (Suc m)) \<and>
      length (todo (dsp (\<sigma> (Suc m)))) < length (todo (dsp (\<sigma> m)))" if "loop_step (\<sigma> m) (\<sigma> (Suc m))"
    using loop_step_event[OF that inv(3) m] .
qed (rule assms(3))


subsection \<open>Every run can be continued fairly\<close>

text \<open>Left to themselves, the workers finish what there is to do, and go to sleep.\<close>

definition all_asleep :: "System \<Rightarrow> bool" where
  "all_asleep y \<longleftrightarrow> (\<forall>i < 3. worker_of y i = Asleep)"

lemma own_step_weight:
  "own_step i y y' \<Longrightarrow> pool (dsp y') = pool (dsp y) \<or> weight (pool (dsp y')) < weight (pool (dsp y))"
  by (induction rule: own_step.induct) (auto dest: worker_action_weight)

lemma own_step_sparing:
  assumes "own_step i y y'"
  shows "sparing server_of system_step y y'"
proof -
  have "expiredSockets (server_of y') = expiredSockets (server_of y)"
    using assms by cases (auto dest!: handler_expired)
  then show ?thesis using own_step_system[OF assms] by (simp add: sparing_def spares_same)
qed

lemma own_steps_frame:
  assumes "(own_step i ^^ n) y y'"
  shows "(sparing server_of system_step)\<^sup>*\<^sup>* y y'" and "todo (dsp y') = todo (dsp y)"
    and "pool (dsp y') = pool (dsp y) \<or> weight (pool (dsp y')) < weight (pool (dsp y))"
proof -
  have "(sparing server_of system_step)\<^sup>*\<^sup>* y y' \<and> todo (dsp y') = todo (dsp y) \<and>
      (pool (dsp y') = pool (dsp y) \<or> weight (pool (dsp y')) < weight (pool (dsp y)))"
    using assms
  proof (induction n arbitrary: y')
    case (Suc n)
    then obtain z where z: "(own_step i ^^ n) y z" "own_step i z y'" by auto
    show ?case using Suc.IH[OF z(1)] own_step_sparing[OF z(2)] own_step_todo[OF z(2)] own_step_weight[OF z(2)]
      by (auto intro: rtranclp.rtrancl_into_rtrancl)
  qed simp
  then show "(sparing server_of system_step)\<^sup>*\<^sup>* y y'" "todo (dsp y') = todo (dsp y)"
    "pool (dsp y') = pool (dsp y) \<or> weight (pool (dsp y')) < weight (pool (dsp y))" by blast+
qed

lemma not_asleep_moves:
  assumes "server_started S0" and "(sparing server_of system_step)\<^sup>*\<^sup>* (System_new S0) y" and "\<not> all_asleep y"
  shows "\<exists>i n y'. (own_step i ^^ n) y y' \<and> weight (pool (dsp y')) < weight (pool (dsp y))"
proof -
  note inv = run_invD[OF run_inv_reachable[OF assms(1,2)]] and runs = sparing_steps[OF assms(2)]
  show ?thesis
  proof (cases "\<exists>i c. running_job (dsp y) i c")
    case True
    then obtain i c where c: "running_job (dsp y) i c" by blast
    obtain n y' where n: "(own_step i ^^ n) y y'" "\<not> running_job (dsp y') i c"
      using job_ends[OF system_threads[OF assms(1) runs] system_reachable_alive[OF assms(1) runs] c] by blast
    then have "pool (dsp y') \<noteq> pool (dsp y)" using c by (auto simp: running_job_def)
    then show ?thesis using own_steps_frame(3)[OF n(1)] n(1) by blast
  next
    case False
    have "pool_inv (pool (dsp y))" using inv(3) by (simp add: dispatch_inv_def jobs_inv_def)
    then have "\<forall>p \<in> set (workers (pool (dsp y))). p = Asleep \<or> p = Exited" if "idle (pool (dsp y))"
      using idle_state(2) that inv(6,8) by fastforce
    moreover have "Exited \<notin> set (workers (pool (dsp y)))" using inv(5,7) by (auto simp: wakeup_inv_def)
    ultimately have "\<not> idle (pool (dsp y))"
      using assms(3) inv(6) nth_mem unfolding all_asleep_def worker_of_def by metis
    then obtain i outcome p where p: "worker_action i outcome (pool (dsp y)) = Some p" by (auto simp: idle_def)
    have "own_step i y (y\<lparr>dsp := (dsp y)\<lparr>pool := p\<rparr>\<rparr>)" by (rule own_pool[OF p]) (use False in blast)
    then have "(own_step i ^^ Suc 0) y (y\<lparr>dsp := (dsp y)\<lparr>pool := p\<rparr>\<rparr>)" by (auto simp: OO_def)
    then show ?thesis using worker_action_weight[OF p] by fastforce
  qed
qed

lemma workers_settle:
  assumes "server_started S0" and "(sparing server_of system_step)\<^sup>*\<^sup>* (System_new S0) y"
  shows "\<exists>y'. (sparing server_of system_step)\<^sup>*\<^sup>* y y' \<and> todo (dsp y') = todo (dsp y) \<and> all_asleep y'"
  using assms(2)
proof (induction "weight (pool (dsp y))" arbitrary: y rule: less_induct)
  case less
  show ?case
  proof (cases "all_asleep y")
    case False
    then obtain i n z where z: "(own_step i ^^ n) y z" "weight (pool (dsp z)) < weight (pool (dsp y))"
      using not_asleep_moves[OF assms(1) less.prems] by blast
    note f = own_steps_frame(1,2)[OF z(1)]
    obtain y' where "(sparing server_of system_step)\<^sup>*\<^sup>* z y'" "todo (dsp y') = todo (dsp z)" "all_asleep y'"
      using less.hyps[OF z(2)] less.prems f(1) by (meson rtranclp_trans)
    then show ?thesis using f by (metis rtranclp_trans)
  qed blast
qed

text \<open>Then the mutex of the pool is free, and the event loop can hand over its next event.\<close>

lemma loop_step_system:
  assumes "loop_step y y'"
  shows "sparing server_of system_step y y'" and "todo (dsp y) = e # es \<Longrightarrow> todo (dsp y') = es"
proof -
  from assms have "sparing server_of system_step y y' \<and> (todo (dsp y) = e # es \<longrightarrow> todo (dsp y') = es)"
  proof cases
    case (loop_entry e' es' S' p w)
    let ?x = "(after_calls S' (dsp y))\<lparr>todo := es', pool := p\<rparr>"
    have "dispatch_step (dsp y) ?x" using loop_entry(2-4) by (rule dispatch_entry)
    moreover have "pers S' = pers (server_of y)"
      unfolding loop_entry(3) by (simp add: dispatch_event_def frame_simps split: option.split)
    moreover have "running_job ?x i c" if "running_job (dsp y) i c" for i c
    proof (cases "job_for e' (server_of y)")
      case (Some c')
      then have "acceptJob c' w (pool (dsp y)) = Some p" using loop_entry(4) by simp
      then show ?thesis using that
        by (auto simp: acceptJob_def running_job_def notify_one_choice_def nth_list_update split: if_splits option.splits)
    qed (use that loop_entry(4) in \<open>simp add: running_job_def\<close>)
    ultimately have "quiet_step (dsp y) ?x" by (simp add: quiet_step_def)
    then show ?thesis using sys_quiet[of y ?x] loop_entry(1-3)
      by (simp add: sparing_def spares_same dispatch_event_frame)
  qed
  then show "sparing server_of system_step y y'" "todo (dsp y) = e # es \<Longrightarrow> todo (dsp y') = es" by blast+
qed

lemma loop_enabled:
  assumes "run_inv d y" and "all_asleep y" and "todo (dsp y) = e # es"
  shows "\<exists>y'. loop_step y y'"
proof -
  note inv = run_invD[OF assms(1)]
  have "mutex_owner (pool (dsp y)) = NoOwner"
  proof (rule ccontr)
    assume "mutex_owner (pool (dsp y)) \<noteq> NoOwner"
    then obtain i where "mutex_owner (pool (dsp y)) = Worker i" by (cases "mutex_owner (pool (dsp y))") auto
    then have "i < 3" "holds_lock (worker_of y i)" using inv(6,9) by (auto simp: mutex_inv_def worker_of_def)
    then show False using assms(2) by (simp add: all_asleep_def holds_lock_def)
  qed
  moreover have "destructor (pool (dsp y)) = NotCalled" using inv(5,7) by (simp add: wakeup_inv_def)
  moreover have "notify_one_choice (workers (pool (dsp y))) (Some 0)"
    using inv(6) assms(2) by (simp add: notify_one_choice_def all_asleep_def worker_of_def)
  ultimately have "\<exists>p. acceptJob c (Some 0) (pool (dsp y)) = Some p" for c using inv(8) by (simp add: acceptJob_def)
  then have "\<exists>p. case job_for e (server_of y) of None \<Rightarrow> p = pool (dsp y)
      | Some c \<Rightarrow> acceptJob c (Some 0) (pool (dsp y)) = Some p"
    by (cases "job_for e (server_of y)") simp_all
  then show ?thesis using loop_entry[OF assms(3) refl] by blast
qed

lemma system_settles:
  assumes "server_started S0" and "(sparing server_of system_step)\<^sup>*\<^sup>* (System_new S0) y"
  shows "\<exists>y'. (sparing server_of system_step)\<^sup>*\<^sup>* y y' \<and> todo (dsp y') = [] \<and> all_asleep y'"
  using assms(2)
proof (induction "length (todo (dsp y))" arbitrary: y rule: less_induct)
  case less
  obtain z where z: "(sparing server_of system_step)\<^sup>*\<^sup>* y z" "todo (dsp z) = todo (dsp y)" "all_asleep z"
    using workers_settle[OF assms(1) less.prems] by blast
  have rz: "(sparing server_of system_step)\<^sup>*\<^sup>* (System_new S0) z" using less.prems z(1) by (rule rtranclp_trans)
  show ?case
  proof (cases "todo (dsp z)")
    case (Cons e es)
    obtain y1 where y1: "loop_step z y1" using loop_enabled[OF run_inv_reachable[OF assms(1) rz] z(3) Cons] by blast
    note s = loop_step_system[OF y1]
    have "length (todo (dsp y1)) < length (todo (dsp y))" using s(2)[OF Cons] by (simp add: z(2)[symmetric] Cons)
    moreover have "(sparing server_of system_step)\<^sup>*\<^sup>* (System_new S0) y1" using rz s(1) by (rule rtranclp.rtrancl_into_rtrancl)
    ultimately obtain y' where "(sparing server_of system_step)\<^sup>*\<^sup>* y1 y'" "todo (dsp y') = []" "all_asleep y'" using less.hyps by blast
    then show ?thesis using z(1) s(1) by (meson converse_rtranclp_into_rtranclp rtranclp_trans)
  qed (use z in blast)
qed

text \<open>A tick of the cleanup thread that finds nothing expired leaves everything as it is.\<close>

lemma idle_tick: "sparing server_of system_step y y"
proof -
  have "dispatch_step (dsp y) ((dsp y)\<lparr>srv := (srv (dsp y))\<lparr>userSessionManager := userSessionManager (srv (dsp y))\<rparr>\<rparr>)"
    by (rule dispatch_cleanup[where order = "[]"]) simp
  then have "quiet_step (dsp y) (dsp y)" by (simp add: quiet_step_def)
  from sys_quiet[OF this] show ?thesis by (simp add: sparing_def spares_same)
qed

lemma fair_run_through:
  assumes "server_started S0" and "(sparing server_of system_step)\<^sup>*\<^sup>* (System_new S0) y"
  shows "\<exists>\<sigma> n. fair_run S0 \<sigma> \<and> \<sigma> n = y"
proof -
  obtain z where z: "(sparing server_of system_step)\<^sup>*\<^sup>* y z" "todo (dsp z) = []" "all_asleep z" using system_settles[OF assms] by blast
  obtain n f where f: "f 0 = System_new S0" "f n = y" "\<And>i. i < n \<Longrightarrow> sparing server_of system_step (f i) (f (Suc i))"
    using rtranclp_imp_relpowp[OF assms(2)] unfolding relpowp_fun_conv by blast
  obtain m g where g: "g 0 = y" "g m = z" "\<And>i. i < m \<Longrightarrow> sparing server_of system_step (g i) (g (Suc i))"
    using rtranclp_imp_relpowp[OF z(1)] unfolding relpowp_fun_conv by blast
  define \<sigma> where "\<sigma> k = (if k \<le> n then f k else if k - n \<le> m then g (k - n) else z)" for k
  have at: "\<sigma> k = (if k < n then f k else if k - n < m then g (k - n) else z)" for k
    using f(2) g(1,2) by (auto simp: \<sigma>_def)
  have "sparing server_of system_step (\<sigma> k) (\<sigma> (Suc k))" for k
  proof -
    consider "k < n" | "n \<le> k" "k - n < m" | "n + m \<le> k" by linarith
    then show ?thesis
    proof cases
      case 1
      then show ?thesis using f(3)[of k] by (simp add: \<sigma>_def)
    next
      case 2
      then have "\<sigma> (Suc k) = g (Suc (k - n))" by (simp add: \<sigma>_def Suc_diff_le)
      then show ?thesis using 2 g(3)[of "k - n"] by (simp add: at)
    next
      case 3
      then have "\<sigma> k = z" "\<sigma> (Suc k) = z" by (simp_all add: at)
      then show ?thesis by (simp add: idle_tick)
    qed
  qed
  moreover have "\<sigma> 0 = System_new S0" using f(1) by (simp add: \<sigma>_def)
  moreover have "\<sigma> k = z" if "n + m \<le> k" for k using that by (simp add: at)
  then have "worker_of (\<sigma> (max k (n + m))) i = Asleep" "todo (dsp (\<sigma> (max k (n + m)))) = []" if "i < 3" for i k
    using z(2,3) that by (simp_all add: all_asleep_def)
  then have "\<forall>i < 3. worker_fair \<sigma> i" "loop_fair \<sigma>"
    unfolding worker_fair_def loop_fair_def by (meson max.cobounded1 zero_less_numeral)+
  ultimately have "fair_run S0 \<sigma>" using assms(1) by (simp add: fair_run_def system_run_def)
  moreover have "\<sigma> n = y" using f(2) by (simp add: \<sigma>_def)
  ultimately show ?thesis by blast
qed

subsection \<open>The property\<close>

lemma answered_reply:
  assumes "conn_inv y" and "k < length (threads y)" and "snd (snd (threads y ! k)) = Answered r"
  shows "(fst (threads y ! k), r) \<in> set (replies y)"
proof -
  obtain c m where k: "threads y ! k = (c, m, Answered r)" using assms(3) by (metis prod.collapse)
  have "(m, Answered r) \<in> set (of_conn c (threads y))"
    using nth_mem[OF assms(2)] unfolding k of_conn_def by force
  moreover have "r \<in> set (reply_of (m, Answered r))" by simp
  ultimately have "r \<in> set (concat (map reply_of (of_conn c (threads y))))"
    unfolding set_concat set_map by blast
  then have "r \<in> set (of_conn c (replies y))" using assms(1) unfolding conn_inv_def by metis
  then show ?thesis unfolding k by (auto simp: of_conn_def)
qed

lemma threads_grow:
  assumes "system_step y y'" and "k < length (threads y)"
  shows "k < length (threads y')"
  using assms by cases auto

lemma run_threads_grow:
  assumes "system_run S0 \<sigma>" and "k < length (threads (\<sigma> n))" and "n \<le> m"
  shows "k < length (threads (\<sigma> m))"
  using assms(3)
proof (induction m rule: dec_induct)
  case (step m)
  then show ?case using threads_grow run_states[OF assms(1)] by blast
qed (rule assms(2))



end
