(* ===== verification/Durable.thy ===== *)
theory Durable
  imports Fairness Lifecycle
begin

text \<open>
  What is on disk while the server runs, at the granularity of its locks.  Between
  \<open>hashMap.insert\<close> and \<open>pers.appendToLog\<close> (\<open>src/Server/Server.cpp\<close> lines 290 and 291, 314 and
  315), and between the dump of the map and the reset of the log (\<open>src/Storage/Persistence.cpp\<close>
  lines 102 to 118), memory and disk differ, and two interleavings leave them apart for good:
  a record that reaches the log between dump and reset although the dump did not see its update,
  and two updates of one key that reach the log in the other order (\<open>Races\<close>).  \<open>orderly\<close> says
  that a step is neither.  In orderly runs of \<open>System\<close> the files hold, at every moment, the
  commands that passed the map, up to some of those whose record is still to be written; so a
  kill loses no answered command, and a restart is invisible.
\<close>

subsection \<open>The updates of a run\<close>

text \<open>What a message changes in the store.\<close>

definition write_of :: "string \<Rightarrow> store_op option" where
  "write_of m = (case words3 m of (command, key, val) \<Rightarrow>
     if command = ''INSERT'' \<and> val \<noteq> [] then Some (Put key val)
     else if command = ''DELETE'' then Some (Del key) else None)"

lemma respond_write: "snd (respond m s) = (case write_of m of None \<Rightarrow> s | Some x \<Rightarrow> store_step x s)"
  by (cases "words3 m") (simp add: respond_def write_of_def split: option.split)

text \<open>The record that a handler between its two locks has still to write.\<close>

fun pending :: "handler_pc \<Rightarrow> store_op option" where
  "pending (LoggingInsert key val) = Some (Put key val)"
| "pending (LoggingDelete key) = Some (Del key)"
| "pending _ = None"

text \<open>The updates among the messages that passed the map, and those of one key.\<close>

fun writes_in :: "(nat \<times> string \<times> string) list \<Rightarrow> (nat \<times> store_op) list" where
  "writes_in [] = []"
| "writes_in ((i, m, r) # ps) = (case write_of m of None \<Rightarrow> writes_in ps | Some x \<Rightarrow> (i, x) # writes_in ps)"

definition on_key :: "string \<Rightarrow> (nat \<times> store_op) list \<Rightarrow> (nat \<times> store_op) list" where
  "on_key k ws = filter (\<lambda>w. op_key (snd w) = k) ws"

abbreviation after :: "(nat \<times> store_op) list \<Rightarrow> (string \<rightharpoonup> string) \<Rightarrow> (string \<rightharpoonup> string)" where
  "after ws s \<equiv> fold store_step (map snd ws) s"

lemma writes_in_append [simp]: "writes_in (ps @ qs) = writes_in ps @ writes_in qs"
  by (induction ps rule: writes_in.induct) (auto split: option.split)

lemma on_key_append [simp]: "on_key k (ws @ vs) = on_key k ws @ on_key k vs"
  by (simp add: on_key_def)

lemma writes_in_points: "w \<in> set (writes_in ps) \<Longrightarrow> \<exists>m r. (fst w, m, r) \<in> set ps \<and> write_of m = Some (snd w)"
proof (induction ps rule: writes_in.induct)
  case (2 i m r ps)
  show ?case
  proof (cases "w \<in> set (writes_in ps)")
    case True
    then show ?thesis using "2.IH" by (cases "write_of m") (meson list.set_intros(2))+
  next
    case False
    then have "write_of m = Some (snd w) \<and> fst w = i" using "2.prems" by (auto split: option.splits)
    then show ?thesis by (meson list.set_intros(1))
  qed
qed simp

lemma points_writes_in: "(i, m, r) \<in> set ps \<Longrightarrow> write_of m = Some x \<Longrightarrow> (i, x) \<in> set (writes_in ps)"
  by (induction ps rule: writes_in.induct) (auto split: option.splits)

lemma writes_in_distinct: "distinct (map fst ps) \<Longrightarrow> distinct (map fst (writes_in ps))"
proof (induction ps rule: writes_in.induct)
  case (2 i m r ps)
  then show ?case by (cases "write_of m") (force dest: writes_in_points)+
qed simp

lemma writes_in_filter: "writes_in (filter (\<lambda>p. P (fst p)) ps) = filter (\<lambda>w. P (fst w)) (writes_in ps)"
  by (induction ps rule: writes_in.induct) (auto split: option.split)

lemma respond_all_writes: "snd (respond_all (map (\<lambda>p. fst (snd p)) ps) s) = after (writes_in ps) s"
  by (induction ps arbitrary: s rule: writes_in.induct)
     (auto simp: respond_write split_beta split: option.split)

text \<open>One key at a time.\<close>

lemma after_key: "after ws s k = after (on_key k ws) s k"
proof -
  have "filter (\<lambda>x. op_key x = k) (map snd ws) = map snd (on_key k ws)"
    by (induction ws) (simp_all add: on_key_def)
  then show ?thesis using last_effect_filter[of k "map snd ws"] by (simp add: fold_store_step)
qed

lemma on_key_op: "w \<in> set (on_key k ws) \<Longrightarrow> op_key (snd w) = k \<and> w \<in> set ws"
  by (simp add: on_key_def)

text \<open>Of two updates of one key, the earlier passed the map first.\<close>

lemma writes_in_split:
  assumes "writes_in ps = us @ w # vs"
  shows "\<exists>ps1 m r ps2. ps = ps1 @ (fst w, m, r) # ps2 \<and> writes_in ps1 = us"
  using assms
proof (induction ps arbitrary: us rule: writes_in.induct)
  case (2 i m r ps)
  show ?case
  proof (cases "write_of m")
    case None
    then obtain ps1 m' r' ps2 where "ps = ps1 @ (fst w, m', r') # ps2" "writes_in ps1 = us"
      using 2 by fastforce
    then show ?thesis using None by (intro exI[of _ "(i, m, r) # ps1"]) simp
  next
    case (Some x)
    show ?thesis
    proof (cases us)
      case Nil
      then have "(i, m, r) # ps = [] @ (fst w, m, r) # ps \<and> writes_in [] = us" using "2.prems" Some by auto
      then show ?thesis by blast
    next
      case (Cons u us')
      then have "writes_in ps = us' @ w # vs" "u = (i, x)" using "2.prems" Some by simp_all
      then obtain ps1 m' r' ps2 where "ps = ps1 @ (fst w, m', r') # ps2" "writes_in ps1 = us'"
        using "2.IH"(2)[OF Some] by blast
      then show ?thesis using Some Cons \<open>u = (i, x)\<close> by (intro exI[of _ "(i, m, r) # ps1"]) simp
    qed
  qed
qed simp

lemma on_key_split:
  assumes "on_key k ws = us @ w # vs"
  obtains as bs where "ws = as @ w # bs" "us = on_key k as"
proof -
  have "\<exists>as bs. ws = as @ w # bs \<and> us = on_key k as"
    using assms
  proof (induction ws arbitrary: us)
    case (Cons x ws)
    show ?case
    proof (cases "op_key (snd x) = k")
      case False
      then obtain as bs where "ws = as @ w # bs" "us = on_key k as"
        using Cons.IH[of us] Cons.prems by (auto simp: on_key_def)
      then show ?thesis using False by (intro exI[of _ "x # as"] exI[of _ bs]) (simp add: on_key_def)
    next
      case True
      then have e: "x # on_key k ws = us @ w # vs" using Cons.prems by (simp add: on_key_def)
      show ?thesis
      proof (cases us)
        case Nil
        then show ?thesis using e by (intro exI[of _ "[]"] exI[of _ ws]) (simp add: on_key_def)
      next
        case (Cons u us')
        then obtain as bs where "ws = as @ w # bs" "us' = on_key k as" using Cons.IH[of us'] e by auto
        then show ?thesis using True Cons e by (intro exI[of _ "x # as"] exI[of _ bs]) (simp add: on_key_def)
      qed
    qed
  qed (simp add: on_key_def)
  then show thesis using that by blast
qed

lemma on_key_before:
  assumes "on_key k (writes_in ps) = us @ w # vs" and "v \<in> set us"
  shows "before (fst v) (fst w) (map fst ps)"
proof -
  obtain as bs where ab: "writes_in ps = as @ w # bs" "us = on_key k as" by (rule on_key_split[OF assms(1)])
  obtain ps1 m r ps2 where ps: "ps = ps1 @ (fst w, m, r) # ps2" "writes_in ps1 = as"
    using writes_in_split[OF ab(1)] by blast
  have "v \<in> set (writes_in ps1)" using assms(2) ab(2) ps(2) by (simp add: on_key_def)
  then obtain mv rv where "(fst v, mv, rv) \<in> set ps1" using writes_in_points by blast
  then have "fst v \<in> set (map fst ps1)" by force
  then show ?thesis unfolding before_def ps(1)
    by (intro exI[of _ "map fst ps1"] exI[of _ "map fst ((fst w, m, r) # ps2)"]) simp
qed

subsection \<open>What the files hold\<close>

text \<open>
  \<open>P\<close> are the messages that passed the map, \<open>pend\<close> those whose record is to be written, \<open>R\<close> the
  store of the snapshot file and \<open>D\<close> that of both files, \<open>n\<close> where the dump of a snapshot stands.
  Of the updates of a key those to be logged are the last ones, and the files hold all others,
  and some of these when a dump saw them.
\<close>

definition durable :: "(string \<rightharpoonup> string) \<Rightarrow> nat set \<Rightarrow> (nat \<times> string \<times> string) list \<Rightarrow>
    (string \<rightharpoonup> string) \<Rightarrow> (string \<rightharpoonup> string) \<Rightarrow> nat option \<Rightarrow> bool" where
  "durable s0 pend P R D n \<longleftrightarrow>
     (\<forall>k. \<exists>us ws vs. on_key k (writes_in P) = us @ ws @ vs \<and> (\<forall>w \<in> set us. fst w \<notin> pend) \<and>
        (\<forall>w \<in> set (ws @ vs). fst w \<in> pend) \<and> D k = after (us @ ws) s0 k) \<and>
     (\<forall>c. n = Some c \<longrightarrow> c \<le> length P \<and> R = after (writes_in (take c P)) s0 \<and>
        (\<forall>w \<in> set (writes_in (drop c P)). fst w \<in> pend))"

lemma durableE:
  assumes "durable s0 pend P R D n"
  obtains us ws vs where "on_key k (writes_in P) = us @ ws @ vs" "\<forall>w \<in> set us. fst w \<notin> pend"
    "\<forall>w \<in> set (ws @ vs). fst w \<in> pend" "D k = after (us @ ws) s0 k"
  using assms unfolding durable_def by blast

lemma durable_dumped:
  assumes "durable s0 pend P R D (Some c)"
  shows "c \<le> length P" and "R = after (writes_in (take c P)) s0" and "\<forall>w \<in> set (writes_in (drop c P)). fst w \<in> pend"
  using assms unfolding durable_def by blast+

lemma append_split:
  assumes "xs @ ys = zs @ ts"
  obtains t where "xs = zs @ t" "t @ ys = ts" | t where "zs = xs @ t" "ys = t @ ts"
  using assms that by (auto simp: append_eq_append_conv2)

text \<open>A message passes the map.\<close>

lemma durable_parse:
  assumes "durable s0 pend P R D n" and "i \<notin> fst ` set P"
    and "pend' = (if write_of m = None then pend else insert i pend)"
  shows "durable s0 pend' (P @ [(i, m, r)]) R D n"
proof -
  have old: "fst w \<noteq> i" if "w \<in> set (writes_in P)" for w using writes_in_points[OF that] assms(2) by force
  have "\<exists>us ws vs. on_key k (writes_in (P @ [(i, m, r)])) = us @ ws @ vs \<and> (\<forall>w \<in> set us. fst w \<notin> pend') \<and>
        (\<forall>w \<in> set (ws @ vs). fst w \<in> pend') \<and> D k = after (us @ ws) s0 k" for k
  proof -
    obtain us ws vs where u: "on_key k (writes_in P) = us @ ws @ vs" "\<forall>w \<in> set us. fst w \<notin> pend"
        "\<forall>w \<in> set (ws @ vs). fst w \<in> pend" "D k = after (us @ ws) s0 k"
      using assms(1) by (rule durableE)
    let ?new = "on_key k (writes_in [(i, m, r)])"
    have "on_key k (writes_in (P @ [(i, m, r)])) = us @ ws @ (vs @ ?new)" by (simp add: u(1) del: writes_in.simps)
    moreover have "\<forall>w \<in> set ?new. fst w \<in> pend'"
      using assms(3) by (auto simp: on_key_def split: option.splits)
    moreover have "\<forall>w \<in> set us. fst w \<notin> pend'"
    proof
      fix w assume w: "w \<in> set us"
      then have "w \<in> set (on_key k (writes_in P))" by (simp add: u(1))
      then have "fst w \<noteq> i" using old on_key_op by blast
      then show "fst w \<notin> pend'" using u(2) w assms(3) by simp
    qed
    moreover have "\<forall>w \<in> set (ws @ vs). fst w \<in> pend'" using u(3) assms(3) by simp
    ultimately show ?thesis using u(4)
      by (intro exI[of _ us] exI[of _ ws] exI[of _ "vs @ ?new"] conjI) (simp_all add: ball_Un)
  qed
  moreover have "c \<le> length (P @ [(i, m, r)]) \<and> R = after (writes_in (take c (P @ [(i, m, r)]))) s0 \<and>
      (\<forall>w \<in> set (writes_in (drop c (P @ [(i, m, r)]))). fst w \<in> pend')" if "n = Some c" for c
    using durable_dumped[OF assms(1)[unfolded that]] assms(3) by (auto split: option.splits)
  ultimately show ?thesis unfolding durable_def by blast
qed

text \<open>The first handler of a key that has a record to write writes it.\<close>

lemma durable_log:
  assumes "durable s0 pend P R D n" and "distinct (map fst P)" and "(i, x) \<in> set (writes_in P)" and "i \<in> pend"
    and first: "\<And>us vs w. on_key (op_key x) (writes_in P) = us @ (i, x) # vs \<Longrightarrow> w \<in> set us \<Longrightarrow> fst w \<notin> pend"
    and seen: "\<And>c. n = Some c \<Longrightarrow> i \<in> fst ` set (take c P)"
  shows "durable s0 (pend - {i}) P R (store_step x D) n"
proof -
  have dw: "distinct (map fst (writes_in P))" by (rule writes_in_distinct[OF assms(2)])
  have one: "w = (i, x)" if "w \<in> set (writes_in P)" "fst w = i" for w
    using that assms(3) dw by (metis eq_key_imp_eq_value prod.collapse)
  have "\<exists>us ws vs. on_key k (writes_in P) = us @ ws @ vs \<and> (\<forall>w \<in> set us. fst w \<notin> pend - {i}) \<and>
        (\<forall>w \<in> set (ws @ vs). fst w \<in> pend - {i}) \<and> store_step x D k = after (us @ ws) s0 k" for k
  proof -
    obtain us ws vs where u: "on_key k (writes_in P) = us @ ws @ vs" "\<forall>w \<in> set us. fst w \<notin> pend"
        "\<forall>w \<in> set (ws @ vs). fst w \<in> pend" "D k = after (us @ ws) s0 k"
      using assms(1) by (rule durableE)
    have mem: "w \<in> set (writes_in P)" "op_key (snd w) = k" if "w \<in> set (us @ ws @ vs)" for w
      using that on_key_op[of w k "writes_in P"] u(1) by auto
    show ?thesis
    proof (cases "op_key x = k")
      case True
      then have "(i, x) \<in> set (on_key k (writes_in P))" using assms(3) by (simp add: on_key_def)
      then obtain as bs where s: "on_key k (writes_in P) = as @ (i, x) # bs" by (meson split_list)
      have na: "\<forall>w \<in> set as. fst w \<notin> pend" using first s True by blast
      have as: "us = as"
      proof -
        have "us @ (ws @ vs) = as @ ((i, x) # bs)" using u(1) s by simp
        then show ?thesis
        proof (cases rule: append_split)
          case (1 t)
          then show ?thesis using u(2) assms(4) by (cases t) auto
        next
          case (2 t)
          then show ?thesis using u(3) na by (cases t) auto
        qed
      qed
      then have tail: "ws @ vs = (i, x) # bs" using u(1) s by simp
      have d: "distinct (map fst (on_key k (writes_in P)))"
        using dw unfolding on_key_def by (rule distinct_map_filter)
      have "\<forall>w \<in> set bs. fst w \<noteq> i" using d unfolding s by auto
      then have "\<forall>w \<in> set bs. fst w \<in> pend - {i}" using u(3) tail by auto
      moreover have "store_step x D k = after (us @ [(i, x)]) s0 k"
        using True by (cases x) simp_all
      ultimately show ?thesis using u(2) s as
        by (intro exI[of _ "us @ [(i, x)]"] exI[of _ "[]"] exI[of _ bs]) auto
    next
      case False
      have "fst w \<noteq> i" if "w \<in> set (us @ ws @ vs)" for w using one[OF mem(1)[OF that]] mem(2)[OF that] False by (metis snd_conv)
      then show ?thesis using u store_step_other[OF False]
        by (intro exI[of _ us] exI[of _ ws] exI[of _ vs]) auto
    qed
  qed
  moreover have "\<forall>w \<in> set (writes_in (drop c P)). fst w \<in> pend - {i}" if c: "n = Some c" for c
  proof -
    have "distinct (map fst (take c P @ drop c P))" using assms(2) by simp
    then have "i \<notin> fst ` set (drop c P)" using seen[OF c] by (auto simp del: append_take_drop_id)
    then have "\<forall>w \<in> set (writes_in (drop c P)). fst w \<noteq> i" by (force dest: writes_in_points)
    then show ?thesis using durable_dumped(3)[OF assms(1)[unfolded c]] by blast
  qed
  moreover have "c \<le> length P \<and> R = after (writes_in (take c P)) s0" if "n = Some c" for c
    using durable_dumped(1,2)[OF assms(1)[unfolded that]] by blast
  ultimately show ?thesis unfolding durable_def by blast
qed

text \<open>The dump writes what memory holds; the log stays.\<close>

lemma durable_dump:
  assumes "durable s0 pend P R (fold store_step L R) n" and "M = after (writes_in P) s0"
  shows "durable s0 pend P M (fold store_step L M) (Some (length P))"
proof -
  have "\<exists>us ws vs. on_key k (writes_in P) = us @ ws @ vs \<and> (\<forall>w \<in> set us. fst w \<notin> pend) \<and>
        (\<forall>w \<in> set (ws @ vs). fst w \<in> pend) \<and> fold store_step L M k = after (us @ ws) s0 k" for k
  proof -
    obtain us ws vs where u: "on_key k (writes_in P) = us @ ws @ vs" "\<forall>w \<in> set us. fst w \<notin> pend"
        "\<forall>w \<in> set (ws @ vs). fst w \<in> pend" "fold store_step L R k = after (us @ ws) s0 k"
      using assms(1) by (rule durableE)
    show ?thesis
    proof (cases "last_effect L k")
      case None
      then have "fold store_step L M k = after (on_key k (writes_in P)) s0 k"
        using after_key[of "writes_in P" s0 k] by (simp add: fold_store_step assms(2))
      then show ?thesis using u(1-3) by (intro exI[of _ us] exI[of _ "ws @ vs"] exI[of _ "[]"]) simp
    next
      case (Some r)
      then have "fold store_step L M k = after (us @ ws) s0 k" using u(4) by (simp add: fold_store_step)
      then show ?thesis using u(1-3) by blast
    qed
  qed
  then show ?thesis using assms(2) unfolding durable_def by simp
qed

text \<open>The reset leaves the snapshot file alone: it holds what was logged meanwhile.\<close>

lemma durable_reset:
  assumes "durable s0 pend P R D (Some c)"
  shows "durable s0 pend P R R None"
proof -
  note c = durable_dumped[OF assms]
  have P: "writes_in P = writes_in (take c P) @ writes_in (drop c P)"
    using writes_in_append[of "take c P" "drop c P"] by simp
  have "\<exists>us ws vs. on_key k (writes_in P) = us @ ws @ vs \<and> (\<forall>w \<in> set us. fst w \<notin> pend) \<and>
        (\<forall>w \<in> set (ws @ vs). fst w \<in> pend) \<and> R k = after (us @ ws) s0 k" for k
  proof -
    obtain us ws vs where u: "on_key k (writes_in P) = us @ ws @ vs" "\<forall>w \<in> set us. fst w \<notin> pend"
        "\<forall>w \<in> set (ws @ vs). fst w \<in> pend"
      using assms by (rule durableE)
    let ?W = "on_key k (writes_in (take c P))" and ?V = "on_key k (writes_in (drop c P))"
    have V: "\<forall>w \<in> set ?V. fst w \<in> pend" using c(3) on_key_op by blast
    have "us @ (ws @ vs) = ?W @ ?V" using u(1) P by simp
    then obtain t where t: "?W = us @ t" "ws @ vs = t @ ?V"
    proof (cases rule: append_split)
      case (1 t)
      have "t = []"
      proof (cases t)
        case (Cons w t')
        then have "w \<in> set us" "w \<in> set ?V" unfolding 1(2)[symmetric] by (simp_all add: 1(1))
        then show ?thesis using u(2) V by blast
      qed simp
      then show thesis using 1 that[of "[]"] by simp
    qed (use that in blast)
    moreover have "R k = after ?W s0 k" unfolding c(2) by (rule after_key)
    ultimately show ?thesis using u(2,3) P by (intro exI[of _ us] exI[of _ t] exI[of _ ?V]) auto
  qed
  then show ?thesis unfolding durable_def by simp
qed

text \<open>So the files hold the store of all messages but some whose record is to be written.\<close>

lemma durable_store:
  assumes "durable s0 pend P R D n" and "distinct (map fst P)"
  shows "\<exists>lost \<subseteq> pend. D = snd (respond_all (map (\<lambda>p. fst (snd p)) (filter (\<lambda>p. fst p \<notin> lost) P)) s0)"
proof -
  have "\<forall>k. \<exists>ks vs. on_key k (writes_in P) = ks @ vs \<and> (\<forall>w \<in> set vs. fst w \<in> pend) \<and> D k = after ks s0 k"
    using assms(1) unfolding durable_def by (metis append.assoc UnI2 set_append)
  then obtain ks vs where u: "\<And>k. on_key k (writes_in P) = ks k @ vs k" "\<And>k. \<forall>w \<in> set (vs k). fst w \<in> pend"
      "\<And>k. D k = after (ks k) s0 k" by metis
  define lost where "lost = (\<Union>k. fst ` set (vs k))"
  have dw: "distinct (map fst (writes_in P))" by (rule writes_in_distinct[OF assms(2)])
  have "on_key k (filter (\<lambda>w. fst w \<notin> lost) (writes_in P)) = ks k" for k
  proof -
    have d: "distinct (map fst (ks k @ vs k))"
      using dw unfolding u(1)[symmetric] on_key_def by (rule distinct_map_filter)
    have mem: "w \<in> set (writes_in P)" "op_key (snd w) = j" if "w \<in> set (ks j @ vs j)" for w j
      using that on_key_op[of w j "writes_in P"] u(1) by auto
    have "fst w \<notin> lost" if w: "w \<in> set (ks k)" for w
    proof
      assume "fst w \<in> lost"
      then obtain j v where v: "v \<in> set (vs j)" "fst v = fst w" by (auto simp: lost_def)
      then have "v = w" using mem(1)[of v j] mem(1)[of w k] w dw by (metis UnI1 UnI2 eq_key_imp_eq_value prod.collapse set_append)
      then have "j = k" using mem(2)[of v j] mem(2)[of w k] v(1) w by auto
      then show False using d v w by (metis disjoint_iff distinct_append image_eqI list.set_map map_append)
    qed
    moreover have "fst w \<in> lost" if "w \<in> set (vs k)" for w using that by (auto simp: lost_def)
    ultimately have "filter (\<lambda>w. fst w \<notin> lost) (on_key k (writes_in P)) = ks k"
      unfolding u(1) by (simp add: filter_id_conv filter_empty_conv)
    then show ?thesis by (simp add: on_key_def conj_commute)
  qed
  then have "D k = after (filter (\<lambda>w. fst w \<notin> lost) (writes_in P)) s0 k" for k
    using u(3)[of k] after_key[of "filter (\<lambda>w. fst w \<notin> lost) (writes_in P)" s0 k] by simp
  then have "D = snd (respond_all (map (\<lambda>p. fst (snd p)) (filter (\<lambda>p. fst p \<notin> lost) P)) s0)"
    unfolding respond_all_writes writes_in_filter[of "\<lambda>i. i \<notin> lost"] by (rule ext)
  moreover have "lost \<subseteq> pend" using u(2) by (auto simp: lost_def)
  ultimately show ?thesis by blast
qed

subsection \<open>The sections on map and log\<close>

lemma parsing_shadow:
  assumes "race_inv d" and "handler_section (Parsing m) d = Some (pc', d')"
  shows "snd (shadow d') = snd (shadow d)" and "pending pc' = write_of m"
proof -
  obtain c k v where w: "words3 m = (c, k, v)" by (cases "words3 m")
  have ok: "word k \<or> k = []" "v = [] \<or> word k \<and> word v" using words3_words[OF w] by auto
  have "snd (shadow d') = snd (shadow d) \<and> pending pc' = write_of m"
  proof -
    consider (ins) "c = ''INSERT''" "v \<noteq> []" | (del) "c = ''DELETE''"
      | (other) "c \<noteq> ''DELETE''" "c = ''INSERT'' \<longrightarrow> v = []" by blast
    then show ?thesis
    proof cases
      case ins
      then have "db_event_step (InsertMem k v) d = Some d'" "pc' = LoggingInsert k v"
        using assms(2) by (auto simp: handler_section_words w)
      moreover have "snd (shadow_step (InsertMem k v) (shadow d)) = snd (shadow d)" by (cases "shadow d") simp
      ultimately show ?thesis
        using db_event_sim[OF assms(1), of "InsertMem k v"] ok(2) ins by (auto simp: write_of_def w)
    next
      case del
      then have "db_event_step (DeleteMem k) d = Some d'" "pc' = LoggingDelete k"
        using assms(2) by (auto simp: handler_section_words w)
      moreover have "snd (shadow_step (DeleteMem k) (shadow d)) = snd (shadow d)" by (cases "shadow d") simp
      ultimately show ?thesis
        using db_event_sim[OF assms(1), of "DeleteMem k"] ok(1) del by (auto simp: write_of_def w)
    next
      case other
      then show ?thesis using assms(2) by (auto simp: handler_section_words w write_of_def split: if_splits)
    qed
  qed
  then show "snd (shadow d') = snd (shadow d)" "pending pc' = write_of m" by simp_all
qed

text \<open>The record of an update, appended to the log.\<close>

lemma logging_shadow:
  assumes "race_inv d" and "pc_ok pc" and "pending pc = Some x" and "handler_section pc d = Some (pc', d')"
  shows "snd (shadow d') = (fst (snd (shadow d)), snd (snd (shadow d)) @ [x])" and "pending pc' = None"
proof -
  have s: "snd (shadow_step (InsertLog k v) sh) = (fst (snd sh), snd (snd sh) @ [Put k v])"
    "snd (shadow_step (DeleteLog k) sh) = (fst (snd sh), snd (snd sh) @ [Del k])" for k v sh
    by (cases sh, simp)+
  have "snd (shadow d') = (fst (snd (shadow d)), snd (snd (shadow d)) @ [x]) \<and> pending pc' = None"
  proof (cases pc)
    case (LoggingInsert k v)
    then show ?thesis using assms(2-4) db_event_sim[OF assms(1), of "InsertLog k v"] by (auto simp: s)
  next
    case (LoggingDelete k)
    then show ?thesis using assms(2-4) db_event_sim[OF assms(1), of "DeleteLog k"] by (auto simp: s)
  qed (use assms(3) in simp_all)
  then show "snd (shadow d') = (fst (snd (shadow d)), snd (snd (shadow d)) @ [x])" "pending pc' = None" by simp_all
qed

lemma answering_section:
  assumes "pending pc = None" and "\<And>m. pc \<noteq> Parsing m" and "handler_section pc d = Some (pc', d')"
  shows "d' = d" and "pending pc' = None" and "new_point k pc pc' = []"
  using assms by (cases pc; auto simp: new_point_def)+

lemma snapshot_shadow:
  assumes "race_inv d"
  shows "db_event_step SnapDump d = Some d' \<Longrightarrow> snd (shadow d') = (db_store d, snd (snd (shadow d)))"
    and "db_event_step SnapReset d = Some d' \<Longrightarrow> snd (shadow d') = (fst (snd (shadow d)), [])"
  using db_event_sim[OF assms, of SnapDump] db_event_sim[OF assms, of SnapReset] shadow_mem[of d]
  by (cases "shadow d"; auto)+

subsection \<open>Orderly runs\<close>

abbreviation pc_of :: "System \<Rightarrow> nat \<Rightarrow> handler_pc" where
  "pc_of y i \<equiv> snd (snd (threads y ! i))"

definition unlogged :: "System \<Rightarrow> nat set" where
  "unlogged y = {i. i < length (threads y) \<and> pending (pc_of y i) \<noteq> None}"

text \<open>
  Handler \<open>i\<close> may append its record \<open>x\<close>: no handler that passed the map before it has still to
  log an update of the same key, and a dump that waits for its reset saw its update.
\<close>

definition in_turn :: "System \<Rightarrow> nat \<Rightarrow> store_op \<Rightarrow> bool" where
  "in_turn y i x \<longleftrightarrow>
     (\<forall>j x'. before j i (map fst (pts y)) \<longrightarrow> j \<in> unlogged y \<longrightarrow> pending (pc_of y j) = Some x' \<longrightarrow>
        op_key x' \<noteq> op_key x) \<and>
     (\<forall>n. dumped y = Some n \<longrightarrow> i \<in> fst ` set (take n (pts y)))"

definition orderly :: "System \<Rightarrow> System \<Rightarrow> bool" where
  "orderly y y' \<longleftrightarrow>
     (\<forall>i x. i \<in> unlogged y \<longrightarrow> i \<notin> unlogged y' \<longrightarrow> pending (pc_of y i) = Some x \<longrightarrow> in_turn y i x)"

definition orderly_step :: "System \<Rightarrow> System \<Rightarrow> bool" where
  "orderly_step y y' \<longleftrightarrow> system_step y y' \<and> orderly y y'"

lemma orderly_steps: "orderly_step\<^sup>*\<^sup>* y y' \<Longrightarrow> system_step\<^sup>*\<^sup>* y y'"
  by (erule rtranclp_mono[THEN predicate2D, rotated]) (auto simp: orderly_step_def)

text \<open>
  That is so whatever the step, while no snapshot stands between its sections and no two handlers
  stand between map and log with the same key.
\<close>

lemma before_distinct: "distinct xs \<Longrightarrow> \<not> before a a xs"
  by (auto simp: before_def)

lemma orderly_calm:
  assumes "dumped y = None" and "distinct (map fst (pts y))"
    and "\<And>i j x x'. i \<in> unlogged y \<Longrightarrow> j \<in> unlogged y \<Longrightarrow> pending (pc_of y i) = Some x \<Longrightarrow>
      pending (pc_of y j) = Some x' \<Longrightarrow> op_key x' = op_key x \<Longrightarrow> i = j"
  shows "orderly y y'"
  using assms before_distinct[OF assms(2)] unfolding orderly_def in_turn_def by (metis option.discI)

subsection \<open>The invariant of orderly runs\<close>

definition disk_inv :: "(string \<rightharpoonup> string) \<Rightarrow> System \<Rightarrow> bool" where
  "disk_inv s0 y \<longleftrightarrow>
     durable s0 (unlogged y) (pts y) (fst (snd (shadow (db_of (server_of y))))) (disk_store (pers (server_of y))) (dumped y) \<and>
     (\<forall>(i, m, r) \<in> set (pts y). pending (pc_of y i) \<noteq> None \<longrightarrow> pending (pc_of y i) = write_of m)"

lemma disk_inv_same:
  assumes "disk_inv s0 y" and "unlogged y' = unlogged y" and "pts y' = pts y" and "db_of (server_of y') = db_of (server_of y)"
    and "dumped y' = dumped y" and "\<And>i. i \<in> fst ` set (pts y) \<Longrightarrow> pc_of y' i = pc_of y i"
  shows "disk_inv s0 y'"
proof -
  have "pers (server_of y') = pers (server_of y)" using assms(4) by (simp add: db_of_def)
  moreover have "\<forall>(i, m, r) \<in> set (pts y). pending (pc_of y' i) \<noteq> None \<longrightarrow> pending (pc_of y' i) = write_of m"
    using assms(1,6) unfolding disk_inv_def by (force simp: split_beta)
  ultimately show ?thesis using assms(1-5) by (simp add: disk_inv_def)
qed

lemma thread_invD:
  assumes "thread_inv s0 y"
  shows "race_inv (db_of (server_of y))" and "distinct (map fst (pts y))"
    and "db_store (db_of (server_of y)) = after (writes_in (pts y)) s0"
    and "\<And>i. i < length (threads y) \<Longrightarrow> pc_ok (pc_of y i)"
    and "\<And>p. p \<in> set (pts y) \<Longrightarrow> fst p < length (threads y)"
    and "\<And>i m r. (i, m, r) \<in> set (pts y) \<Longrightarrow> promised (pc_of y i) = Some r"
    and "\<And>i. i < length (threads y) \<Longrightarrow> i \<notin> fst ` set (pts y) \<Longrightarrow> \<exists>m. pc_of y i = Parsing m"
    and "\<And>i r. Responded i r \<in> set (hist y) \<Longrightarrow> i < length (threads y) \<and> pc_of y i = Answered r"
proof -
  have c: "concurrent_inv s0 (conc_of y)" using assms by (simp add: thread_inv_def)
  show "race_inv (db_of (server_of y))" "distinct (map fst (pts y))"
    using c by (simp_all add: concurrent_inv_def conc_of_def)
  have "snd (respond_all (map (\<lambda>p. fst (snd p)) (pts y)) s0) = db_store (db_of (server_of y))"
    using c by (simp add: concurrent_inv_def conc_of_def)
  then show "db_store (db_of (server_of y)) = after (writes_in (pts y)) s0" by (simp add: respond_all_writes)
  show "\<And>i. i < length (threads y) \<Longrightarrow> pc_ok (pc_of y i)"
    using c by (auto simp: concurrent_inv_def conc_of_def list_all_length)
  show l: "\<And>p. p \<in> set (pts y) \<Longrightarrow> fst p < length (threads y)"
    using c by (auto simp: concurrent_inv_def conc_of_def)
  show "\<And>i m r. (i, m, r) \<in> set (pts y) \<Longrightarrow> promised (pc_of y i) = Some r"
    using c l unfolding concurrent_inv_def conc_of_def by fastforce
  show "\<And>i. i < length (threads y) \<Longrightarrow> i \<notin> fst ` set (pts y) \<Longrightarrow> \<exists>m. pc_of y i = Parsing m"
    using c by (auto simp: concurrent_inv_def conc_of_def)
  show "\<And>i r. Responded i r \<in> set (hist y) \<Longrightarrow> i < length (threads y) \<and> pc_of y i = Answered r"
    using c by (fastforce simp: concurrent_inv_def conc_of_def)
qed

lemma unlogged_points:
  assumes "thread_inv s0 y" and "i \<in> unlogged y"
  shows "i \<in> fst ` set (pts y)"
proof (rule ccontr)
  assume "i \<notin> fst ` set (pts y)"
  then obtain m where "pc_of y i = Parsing m" using thread_invD(7)[OF assms(1)] assms(2) by (auto simp: unlogged_def)
  then show False using assms(2) by (simp add: unlogged_def)
qed

text \<open>The three kinds of sections.\<close>

lemma section_disk_inv:
  assumes t: "thread_inv s0 y" and d: "disk_inv s0 y" and k: "k < length (threads y)" "threads y ! k = (c, m, pc)"
    and s: "handler_section pc (db_of (server_of y)) = Some (pc', d')"
    and y': "threads y' = (threads y)[k := (c, m, pc')]" "pts y' = pts y @ new_point k pc pc'"
      "db_of (server_of y') = d'" "dumped y' = dumped y"
    and o: "orderly y y'"
  shows "disk_inv s0 y'"
proof -
  let ?db = "db_of (server_of y)"
  note ti = thread_invD[OF t]
  have ri: "race_inv ?db" by (rule ti(1))
  have pcs: "pc_of y' i = (if i = k then pc' else pc_of y i)" for i using y'(1) k(1) by simp
  have ul: "unlogged y' = (if pending pc' = None then unlogged y - {k} else insert k (unlogged y))"
    using k(1) by (auto simp: unlogged_def y'(1) nth_list_update)
  have disk: "disk_store (pers (server_of y)) = fold store_step (snd (snd (shadow ?db))) (fst (snd (shadow ?db)))"
      "disk_store (pers (server_of y')) = fold store_step (snd (snd (shadow d'))) (fst (snd (shadow d')))"
    using shadow_disk[of ?db] shadow_disk[of d'] y'(3) by (auto simp: db_of_def)
  have old: "durable s0 (unlogged y) (pts y) (fst (snd (shadow ?db))) (disk_store (pers (server_of y))) (dumped y)"
      "\<forall>(i, m, r) \<in> set (pts y). pending (pc_of y i) \<noteq> None \<longrightarrow> pending (pc_of y i) = write_of m"
    using d by (simp_all add: disk_inv_def)
  consider (parse) m' where "pc = Parsing m'" | (log) x where "pending pc = Some x"
    | (answer) "pending pc = None" "\<And>m. pc \<noteq> Parsing m" by fastforce
  then show ?thesis
  proof cases
    case (parse m')
    have new: "k \<notin> fst ` set (pts y)"
      using ti(6) k(2) parse by force
    have kn: "k \<notin> unlogged y" using k(2) parse by (simp add: unlogged_def)
    note p = parsing_shadow[OF ri s[unfolded parse]]
    have np: "new_point k pc pc' = [(k, m', the (promised pc'))]" by (simp add: new_point_def parse)
    have "durable s0 (unlogged y') (pts y @ [(k, m', the (promised pc'))]) (fst (snd (shadow ?db)))
        (disk_store (pers (server_of y))) (dumped y)"
      by (rule durable_parse[OF old(1) new]) (use ul p(2) kn in auto)
    moreover have "\<forall>(i, m, r) \<in> set (pts y'). pending (pc_of y' i) \<noteq> None \<longrightarrow> pending (pc_of y' i) = write_of m"
    proof -
      have "fst q \<noteq> k" if "q \<in> set (pts y)" for q using new that by blast
      then show ?thesis using old(2) p(2) unfolding y'(2) np pcs by (auto simp: split_beta)
    qed
    ultimately show ?thesis using disk p(1) by (simp add: disk_inv_def y'(2-4) np)
  next
    case (log x)
    have kp: "k \<in> unlogged y" using k log by (simp add: unlogged_def)
    have ok: "pc_ok pc" using ti(4)[OF k(1)] k(2) by simp
    note l = logging_shadow[OF ri ok log s]
    have np: "new_point k pc pc' = []" using log by (cases pc) (simp_all add: new_point_def)
    have "k \<notin> unlogged y'" using ul l(2) by simp
    then have turn: "in_turn y k x" using o kp log k(2) unfolding orderly_def by simp
    obtain m' r where mr: "(k, m', r) \<in> set (pts y)" using unlogged_points[OF t kp] by force
    then have w: "(k, x) \<in> set (writes_in (pts y))"
      using old(2) log k(2) by (intro points_writes_in) auto
    have "durable s0 (unlogged y - {k}) (pts y) (fst (snd (shadow ?db))) (store_step x (disk_store (pers (server_of y)))) (dumped y)"
    proof (rule durable_log[OF old(1) ti(2) w kp])
      fix us vs v assume u: "on_key (op_key x) (writes_in (pts y)) = us @ (k, x) # vs" "v \<in> set us"
      show "fst v \<notin> unlogged y"
      proof
        assume v: "fst v \<in> unlogged y"
        obtain x' where x': "pending (pc_of y (fst v)) = Some x'" using v by (auto simp: unlogged_def)
        have "v \<in> set (on_key (op_key x) (writes_in (pts y)))" by (simp add: u)
        then have vk: "op_key (snd v) = op_key x" "v \<in> set (writes_in (pts y))" using on_key_op by blast+
        then obtain mv rv where "(fst v, mv, rv) \<in> set (pts y)" "write_of mv = Some (snd v)"
          using writes_in_points by blast
        then have "x' = snd v" using old(2) x' by auto
        moreover have "before (fst v) k (map fst (pts y))" using on_key_before[OF u] by simp
        ultimately show False using turn v x' vk(1) unfolding in_turn_def by blast
      qed
    next
      fix c assume "dumped y = Some c"
      then show "k \<in> fst ` set (take c (pts y))" using turn by (simp add: in_turn_def)
    qed
    moreover have "\<forall>(i, m, r) \<in> set (pts y'). pending (pc_of y' i) \<noteq> None \<longrightarrow> pending (pc_of y' i) = write_of m"
      using old(2) l(2) unfolding y'(2) np pcs by (auto simp: split_beta)
    ultimately show ?thesis using disk l ul by (simp add: disk_inv_def y'(2-4) np)
  next
    case answer
    note a = answering_section[OF answer s]
    have "unlogged y' = unlogged y" using ul a(2) answer(1) k by (auto simp: unlogged_def)
    moreover have "\<forall>(i, m, r) \<in> set (pts y'). pending (pc_of y' i) \<noteq> None \<longrightarrow> pending (pc_of y' i) = write_of m"
      using old(2) a(2) unfolding y'(2) a(3) pcs by (auto simp: split_beta)
    ultimately show ?thesis using old(1) disk a(1) by (simp add: disk_inv_def y'(2-4) a(3))
  qed
qed

lemma orderly_step_inv:
  assumes "orderly_step y y'" and "thread_inv s0 y" and "disk_inv s0 y"
  shows "disk_inv s0 y'"
proof -
  have step: "system_step y y'" and o: "orderly y y'" using assms(1) by (simp_all add: orderly_step_def)
  have ph: "phase_inv y" using assms(2) by (simp add: thread_inv_def)
  note t = thread_invD[OF assms(2)]
  have disk: "disk_store (pers S) = fold store_step (snd (snd (shadow (db_of S)))) (fst (snd (shadow (db_of S))))" for S
    using shadow_disk[of "db_of S"] by (simp add: db_of_def)
  have D: "durable s0 (unlogged y) (pts y) (fst (snd (shadow (db_of (server_of y)))))
      (disk_store (pers (server_of y))) (dumped y)"
    and p: "\<forall>(i, m, r) \<in> set (pts y). pending (pc_of y i) \<noteq> None \<longrightarrow> pending (pc_of y i) = write_of m"
    using assms(3) by (simp_all add: disk_inv_def)
  from step show ?thesis
  proof cases
    case (sys_quiet x')
    then show ?thesis using quiet_step_frame[OF sys_quiet(2)]
      by (intro disk_inv_same[OF assms(3)]) (simp_all add: unlogged_def)
  next
    case (sys_no_command i c received rearmed now S' q)
    then show ?thesis using quiet_job_db[of received c "end_job c (server_of y)"]
      by (intro disk_inv_same[OF assms(3)]) (simp_all add: unlogged_def)
  next
    case (sys_command i c received m now)
    have "pc_of y' j = pc_of y j" if "j \<in> fst ` set (pts y)" for j
      using t(5) that sys_command(1) by (auto simp: nth_append)
    moreover have "unlogged y' = unlogged y"
      using sys_command(1) by (auto simp: unlogged_def nth_append less_Suc_eq)
    ultimately show ?thesis using sys_command(1) by (intro disk_inv_same[OF assms(3)]) simp_all
  next
    case (sys_section i k c m pc pc' d')
    show ?thesis
      by (rule section_disk_inv[OF assms(2,3) phase_invD(1)[OF ph sys_section(2)] sys_section(3,4)])
         (use sys_section(1) o in simp_all)
  next
    case (sys_rearm i k c m r S' rearmed q)
    then show ?thesis by (intro disk_inv_same[OF assms(3)]) (simp_all add: unlogged_def)
  next
    case (sys_dump d')
    note s = snapshot_shadow(1)[OF t(1) sys_dump(3)]
    have "durable s0 (unlogged y) (pts y) (db_store (db_of (server_of y)))
        (fold store_step (snd (snd (shadow (db_of (server_of y))))) (db_store (db_of (server_of y)))) (Some (length (pts y)))"
      by (rule durable_dump[OF D[unfolded disk] t(3)])
    moreover have "unlogged y' = unlogged y" using sys_dump(1) by (simp add: unlogged_def)
    ultimately show ?thesis using p sys_dump(1) s disk[of "with_db d' (server_of y)"] by (simp add: disk_inv_def)
  next
    case (sys_reset n d')
    note s = snapshot_shadow(2)[OF t(1) sys_reset(3)]
    have "unlogged y' = unlogged y" using sys_reset(1) by (simp add: unlogged_def)
    then show ?thesis using p sys_reset(1) s disk[of "with_db d' (server_of y)"]
        durable_reset[OF D[unfolded sys_reset(2)]] by (simp add: disk_inv_def)
  qed
qed

lemma orderly_reachable:
  assumes "server_started S0" and "orderly_step\<^sup>*\<^sup>* (System_new S0) y"
  shows "thread_inv (HashMap_map (hashMap S0)) y" and "disk_inv (HashMap_map (hashMap S0)) y"
proof -
  have "thread_inv (HashMap_map (hashMap S0)) y \<and> disk_inv (HashMap_map (hashMap S0)) y"
    using assms(2)
  proof (induction rule: rtranclp_induct)
    case base
    have "thread_inv (HashMap_map (hashMap S0)) (System_new S0)"
      using System_new_inv[OF assms(1)] by (rule system_inv_thread)
    moreover have "disk_store (pers S0) = HashMap_map (hashMap S0)"
      using server_started_inv[OF assms(1)] by (simp add: server_inv_def db_inv_def)
    then have "disk_inv (HashMap_map (hashMap S0)) (System_new S0)"
      by (simp add: disk_inv_def durable_def System_new_def Dispatch_new_def on_key_def unlogged_def)
    ultimately show ?case ..
  next
    case (step y z)
    then show ?case using system_step_thread[of y z] orderly_step_inv[of y z] by (simp add: orderly_step_def)
  qed
  then show "thread_inv (HashMap_map (hashMap S0)) y" "disk_inv (HashMap_map (hashMap S0)) y" by simp_all
qed

text \<open>The files of a process, however it ended: the destructor and a kill only close them.\<close>

lemma respond_clean:
  assumes "clean_store s"
  shows "clean_store (snd (respond m s))"
proof -
  obtain c k v where w: "words3 m = (c, k, v)" by (cases "words3 m")
  then show ?thesis using words3_words[OF w] clean_store_update[OF assms] assms
    by (auto simp: respond_write write_of_def split: option.split)
qed

lemma respond_all_clean: "clean_store s \<Longrightarrow> clean_store (snd (respond_all ms s))"
  by (induction ms arbitrary: s) (auto simp: split_beta respond_clean)

lemma files_left:
  assumes "thread_inv s0 y" and "disk_inv s0 y" and "clean_store s0"
  shows "files_ok (Persistence_destroy (pers (server_of y)))"
    and "disk_store (Persistence_destroy (pers (server_of y))) = disk_store (pers (server_of y))"
    and "\<exists>lost \<subseteq> unlogged y. disk_store (pers (server_of y)) =
      snd (respond_all (map (\<lambda>p. fst (snd p)) (filter (\<lambda>p. fst p \<notin> lost) (pts y))) s0)"
proof -
  have f: "disk_store (Persistence_destroy p) = disk_store p" "aof_file (Persistence_destroy p) = aof_file p" for p
    by (simp_all add: Persistence_destroy_def disk_store_def)
  then show "disk_store (Persistence_destroy (pers (server_of y))) = disk_store (pers (server_of y))" by blast
  have "durable s0 (unlogged y) (pts y) (fst (snd (shadow (db_of (server_of y)))))
      (disk_store (pers (server_of y))) (dumped y)" using assms(2) by (simp add: disk_inv_def)
  from durable_store[OF this thread_invD(2)[OF assms(1)]]
  show lost: "\<exists>lost \<subseteq> unlogged y. disk_store (pers (server_of y)) =
      snd (respond_all (map (\<lambda>p. fst (snd p)) (filter (\<lambda>p. fst p \<notin> lost) (pts y))) s0)" .
  have r: "race_inv (db_of (server_of y))" by (rule thread_invD(1)[OF assms(1)])
  then obtain g where g: "aof_file (pers (server_of y)) = Some g" "newline_ended g"
    by (auto simp: race_inv_def db_of_def elim: pers_okE)
  have "clean_store (disk_store (pers (server_of y)))" using lost respond_all_clean[OF assms(3)] by auto
  then show "files_ok (Persistence_destroy (pers (server_of y)))" using f g by (simp add: files_ok_def)
qed

subsection \<open>An orderly run\<close>

text \<open>While no handler has written its record, every step is orderly.\<close>

definition none_logged :: "System \<Rightarrow> bool" where
  "none_logged y \<longleftrightarrow> (\<forall>i < length (threads y). 2 \<le> sections_left (pc_of y i))"

lemma pending_section:
  assumes "handler_section pc d = Some (pc', d')" and "pending pc = Some x"
  shows "sections_left pc' < 2"
  using section_decreases[OF assms(1)] assms(2) by (cases pc) simp_all

lemma none_logged_step:
  assumes "system_step y y'" and "phase_inv y" and "none_logged y'"
  shows "none_logged y \<and> orderly y y'"
  using assms(1)
proof cases
  case (sys_command i c received m now)
  then show ?thesis using assms(3)
    by (fastforce simp: none_logged_def orderly_def unlogged_def nth_append less_Suc_eq)
next
  case (sys_section i k c m pc pc' d)
  have k: "k < length (threads y)" by (rule phase_invD(1)[OF assms(2) sys_section(2)])
  have t: "threads y' = (threads y)[k := (c, m, pc')]" by (simp add: sys_section(1))
  have p': "2 \<le> sections_left pc'"
    using assms(3) k t unfolding none_logged_def by (metis length_list_update nth_list_update_eq snd_conv)
  have "2 \<le> sections_left (pc_of y i)" if "i < length (threads y)" for i
  proof (cases "i = k")
    case True
    then show ?thesis using section_decreases[OF sys_section(4)] p' sys_section(3) by simp
  next
    case False
    then show ?thesis using assms(3) that t unfolding none_logged_def by (metis length_list_update nth_list_update_neq)
  qed
  moreover have "pending pc = None" using pending_section[OF sys_section(4)] p' by fastforce
  then have "i \<in> unlogged y \<Longrightarrow> i \<in> unlogged y'" for i
    using sys_section(3) t by (cases "i = k") (auto simp: unlogged_def)
  ultimately show ?thesis by (auto simp: none_logged_def orderly_def)
qed (use assms(3) in \<open>simp_all add: none_logged_def orderly_def unlogged_def\<close>)

lemma none_logged_orderly:
  assumes "server_started S0" and "system_step\<^sup>*\<^sup>* (System_new S0) y" and "none_logged y"
  shows "orderly_step\<^sup>*\<^sup>* (System_new S0) y"
  using assms(2,3)
proof (induction rule: rtranclp_induct)
  case (step y z)
  have "phase_inv y" using system_threads[OF assms(1) step.hyps(1)] by (simp add: thread_inv_def)
  then have "none_logged y \<and> orderly y z" using none_logged_step step.hyps(2) step.prems by blast
  then show ?case using step.IH step.hyps(2) by (auto simp: orderly_step_def intro: rtranclp.rtrancl_into_rtrancl)
qed simp

text \<open>The insert of the example in \<open>System\<close> is logged and answered.\<close>

lemma unlogged_single: "threads y = [(c, m, pc)] \<Longrightarrow> unlogged y = (if pending pc = None then {} else {0})"
  by (auto simp: unlogged_def less_Suc_eq nth_Cons')

lemma example_answered:
  obtains S0 y where "server_started S0" "orderly_step\<^sup>*\<^sup>* (System_new S0) y"
    "threads y = [(0, ''INSERT a 1'' @ [newline], Answered (''Insert command was successful'' @ [newline]))]"
    "Responded 0 (''Insert command was successful'' @ [newline]) \<in> set (hist y)" "unlogged y = {}"
    "HashMap_map (hashMap S0) = Map.empty" "HashMap_map (hashMap (server_of y)) = [''a'' \<mapsto> ''1'']"
proof -
  let ?m = "''INSERT a 1'' @ [newline]" and ?r = "''Insert command was successful'' @ [newline]"
  obtain S0 y where x: "server_started S0" "(sparing server_of system_step)\<^sup>*\<^sup>* (System_new S0) y" and y: "phase y = [0 \<mapsto> 0]"
    "threads y = [(0, ?m, LoggingInsert ''a'' ''1'')]" "HashMap_map (hashMap S0) = Map.empty"
    "HashMap_map (hashMap (server_of y)) = [''a'' \<mapsto> ''1'']" "dumped y = None"
    by (rule example_system)
  note run = sparing_steps[OF x(2)]
  have o: "orderly_step\<^sup>*\<^sup>* (System_new S0) y"
    by (rule none_logged_orderly[OF x(1) run]) (simp add: none_logged_def y(2))
  note t = thread_invD[OF system_threads[OF x(1) run]]
  have "pc_ok (LoggingInsert ''a'' ''1'')" using t(4)[of 0] y(2) by simp
  moreover obtain pc' d where d: "handler_section (LoggingInsert ''a'' ''1'') (db_of (server_of y)) = Some (pc', d)"
    using section_progress[OF t(1) calculation] by auto
  ultimately have st: "db_store d = [''a'' \<mapsto> ''1'']"
    using later_section(4)[OF t(1) _ _ d] y(4) by (simp add: db_store_def db_of_def)
  have pc': "pc' = Answering ?r" using d by auto
  let ?y1 = "y\<lparr>dsp := (dsp y)\<lparr>srv := answer 0 pc' (with_db d (server_of y))\<rparr>,
       threads := (threads y)[0 := (0, ?m, pc')], hist := hist y @ new_response 0 pc',
       pts := pts y @ new_point 0 (LoggingInsert ''a'' ''1'') pc', replies := replies y @ new_reply 0 pc'\<rparr>"
  have s1: "system_step y ?y1" by (rule sys_section[where i = 0]) (use y d in simp_all)
  have "j = 0" if j: "before j 0 (map fst (pts y))" for j
  proof -
    have "j \<in> set (map fst (pts y))" using j unfolding before_def by (metis UnI1 set_append)
    then show ?thesis using t(5) y(2) by auto
  qed
  then have "in_turn y 0 x" for x
    using before_distinct[OF t(2), of 0] y(5) by (auto simp: in_turn_def)
  then have "orderly y ?y1" by (auto simp: orderly_def unlogged_def y(2))
  with o s1 have o1: "orderly_step\<^sup>*\<^sup>* (System_new S0) ?y1"
    by (auto simp: orderly_step_def intro: rtranclp.rtrancl_into_rtrancl)
  let ?y2 = "?y1\<lparr>dsp := (dsp ?y1)\<lparr>srv := answer 0 (Answered ?r) (with_db (db_of (server_of ?y1)) (server_of ?y1))\<rparr>,
       threads := (threads ?y1)[0 := (0, ?m, Answered ?r)], hist := hist ?y1 @ new_response 0 (Answered ?r),
       pts := pts ?y1 @ new_point 0 (Answering ?r) (Answered ?r), replies := replies ?y1 @ new_reply 0 (Answered ?r)\<rparr>"
  have "system_step ?y1 ?y2" by (rule sys_section[where i = 0]) (use y pc' in simp_all)
  moreover have "orderly ?y1 ?y2" by (simp add: orderly_def unlogged_def y(2) pc')
  ultimately have o2: "orderly_step\<^sup>*\<^sup>* (System_new S0) ?y2"
    using o1 by (auto simp: orderly_step_def intro: rtranclp.rtrancl_into_rtrancl)
  have u: "unlogged ?y2 = {}" using unlogged_single[of ?y2 0 ?m "Answered ?r"] by (simp add: y(2))
  have h: "HashMap_map (hashMap (server_of ?y2)) = [''a'' \<mapsto> ''1'']"
    using st by (simp add: answer_frame db_store_def db_of_def)
  show thesis by (rule that[OF x(1) o2 _ _ u y(3) h]) (simp_all add: y(2) new_response_def)
qed

subsection \<open>Properties\<close>

lemma started_from_files:
  assumes "server_started S0" and "orderly_step\<^sup>*\<^sup>* (System_new S0) y" and "startup_ok a"
  obtains lost S where "lost \<subseteq> unlogged y"
    "program_start a (Persistence_destroy (pers (server_of y))) = Some (Inr S)" "server_started S"
    "HashMap_map (hashMap S) =
       snd (respond_all (map (\<lambda>(k, m, r). m) (filter (\<lambda>(k, m, r). k \<notin> lost) (pts y))) (HashMap_map (hashMap S0)))"
    "respond_all (map (\<lambda>(k, m, r). m) (pts y)) (HashMap_map (hashMap S0)) =
       (map (\<lambda>(k, m, r). r) (pts y), HashMap_map (hashMap (server_of y)))"
proof -
  let ?s0 = "HashMap_map (hashMap S0)"
  note i = orderly_reachable[OF assms(1,2)]
  have "clean_store ?s0" using server_started_inv[OF assms(1)] by (simp add: server_inv_def db_inv_def)
  note f = files_left[OF i this]
  obtain lost where lost: "lost \<subseteq> unlogged y" "disk_store (pers (server_of y)) =
      snd (respond_all (map (\<lambda>p. fst (snd p)) (filter (\<lambda>p. fst p \<notin> lost) (pts y))) ?s0)"
    using f(3) by blast
  obtain S where S: "program_start a (Persistence_destroy (pers (server_of y))) = Some (Inr S)" "server_started S"
      "HashMap_map (hashMap S) = disk_store (pers (server_of y))"
    using program_start_ok[OF assms(3) f(1)] f(2) by auto
  have "concurrent_inv ?s0 (conc_of y)" using i(1) by (simp add: thread_inv_def)
  then have "respond_all (map (\<lambda>(k, m, r). m) (pts y)) ?s0 =
       (map (\<lambda>(k, m, r). r) (pts y), HashMap_map (hashMap (server_of y)))"
    by (simp add: concurrent_inv_def conc_of_def db_store_def db_of_def split_beta')
  then show thesis using lost S by (intro that[of lost S]) (simp_all add: split_beta')
qed



text \<open>The messages of a history in an order that respects real time, with the responses given.\<close>

definition linearized_by :: "handler_event list \<Rightarrow> (nat \<times> string \<times> string) list \<Rightarrow> bool" where
  "linearized_by h ops \<longleftrightarrow> distinct (map fst ops) \<and> (\<forall>(i, m, r) \<in> set ops. Invoked i m \<in> set h) \<and>
     (\<forall>i r. Responded i r \<in> set h \<longrightarrow> (\<exists>m. (i, m, r) \<in> set ops)) \<and> real_time h (map fst ops)"

lemma linearizable_by:
  "linearizable h s0 s \<longleftrightarrow> (\<exists>ops. linearized_by h ops \<and>
     respond_all (map (\<lambda>x. fst (snd x)) ops) s0 = (map (\<lambda>x. snd (snd x)) ops, s))"
  by (auto simp: linearizable_def linearized_by_def)

lemma system_linearized:
  assumes "server_started S0" and "system_step\<^sup>*\<^sup>* (System_new S0) y"
  obtains ops where "linearized_by (hist y) ops"
    "respond_all (map (\<lambda>x. fst (snd x)) ops) (HashMap_map (hashMap S0)) =
       (map (\<lambda>x. snd (snd x)) ops, HashMap_map (hashMap (server_of y)))"
proof -
  have "concurrent_inv (HashMap_map (hashMap S0)) (conc_of y)"
    using system_threads[OF assms] by (simp add: thread_inv_def)
  from concurrent_inv_linearizable[OF this]
  have "linearizable (hist y) (HashMap_map (hashMap S0)) (HashMap_map (hashMap (server_of y)))"
    by (simp add: conc_of_def db_store_def db_of_def)
  then show thesis using that unfolding linearizable_by by blast
qed

text \<open>
  C1 (refinement). A restart is invisible.  When a process ends, after such a run, with no
  command between map and log and no file half written, the next one starts from its files, and
  whatever its threads do,
  the two together answer as one abstract server that begins with the store of the files the
  first one found: each process' messages in an order that respects real time, the second's
  after the first's.
\<close>

theorem restart_linearizable:
  assumes "startup_ok a1" and "files_ok files" and "program_start a1 files = Some (Inr S1)"
    and "orderly_step\<^sup>*\<^sup>* (System_new S1) y1" and "unlogged y1 = {}" and "startup_ok a2"
  shows "\<exists>S2. program_start a2 (Persistence_destroy (pers (server_of y1))) = Some (Inr S2) \<and> server_started S2 \<and>
    (\<forall>y2. system_step\<^sup>*\<^sup>* (System_new S2) y2 \<longrightarrow>
       (\<exists>ops1 ops2. linearized_by (hist y1) ops1 \<and> linearized_by (hist y2) ops2 \<and>
          respond_all (map (\<lambda>(k, m, r). m) (ops1 @ ops2)) (disk_store files) =
            (map (\<lambda>(k, m, r). r) (ops1 @ ops2), HashMap_map (hashMap (server_of y2)))))"
proof -
  have S1: "server_started S1" "HashMap_map (hashMap S1) = disk_store files"
    using program_start_ok[OF assms(1,2)] assms(3) by auto
  obtain ops1 where o1: "linearized_by (hist y1) ops1" "respond_all (map (\<lambda>x. fst (snd x)) ops1) (disk_store files) =
       (map (\<lambda>x. snd (snd x)) ops1, HashMap_map (hashMap (server_of y1)))"
    using system_linearized[OF S1(1) orderly_steps[OF assms(4)]] unfolding S1(2) .
  obtain lost S2 where S2: "lost \<subseteq> unlogged y1"
      "program_start a2 (Persistence_destroy (pers (server_of y1))) = Some (Inr S2)" "server_started S2"
      "HashMap_map (hashMap S2) =
       snd (respond_all (map (\<lambda>(k, m, r). m) (filter (\<lambda>(k, m, r). k \<notin> lost) (pts y1))) (HashMap_map (hashMap S1)))"
      "respond_all (map (\<lambda>(k, m, r). m) (pts y1)) (HashMap_map (hashMap S1)) =
       (map (\<lambda>(k, m, r). r) (pts y1), HashMap_map (hashMap (server_of y1)))"
    by (rule started_from_files[OF S1(1) assms(4,6)])
  have "lost = {}" using S2(1) assms(5) by blast
  then have st: "HashMap_map (hashMap S2) = HashMap_map (hashMap (server_of y1))"
    using S2(4,5) by (simp add: split_beta')
  have "\<exists>ops1 ops2. linearized_by (hist y1) ops1 \<and> linearized_by (hist y2) ops2 \<and>
          respond_all (map (\<lambda>(k, m, r). m) (ops1 @ ops2)) (disk_store files) =
            (map (\<lambda>(k, m, r). r) (ops1 @ ops2), HashMap_map (hashMap (server_of y2)))"
    if y2: "system_step\<^sup>*\<^sup>* (System_new S2) y2" for y2
  proof -
    obtain ops2 where "linearized_by (hist y2) ops2"
      "respond_all (map (\<lambda>x. fst (snd x)) ops2) (HashMap_map (hashMap (server_of y1))) =
       (map (\<lambda>x. snd (snd x)) ops2, HashMap_map (hashMap (server_of y2)))"
      using system_linearized[OF S2(3) y2] unfolding st .
    then show ?thesis using o1
      by (intro exI[of _ ops1] exI[of _ ops2]) (simp add: respond_all_append split_beta')
  qed
  then show ?thesis using S2(2,3) by blast
qed

text \<open>A started server was started by the program from some files.\<close>

lemma started_program:
  assumes "server_started S"
  obtains a files where "startup_ok a" "files_ok files" "program_start a files = Some (Inr S)"
    "disk_store files = HashMap_map (hashMap S)"
proof -
  obtain raw files now sock S0 where S0: "Server_new raw files True now sock = Some (Inr S0)"
      "clean_store (disk_store files)" "case aof_file files of None \<Rightarrow> True | Some f \<Rightarrow> newline_ended f"
      "Server_start True True True True S0 = Some (Inr S)"
    using assms by (auto simp: server_started_def)
  have "sock \<noteq> INVALID_SOCKET" using S0(1) by (auto simp: Server_new_def Persistence_new_def bind_eq_Some_conv)
  let ?a = "\<lparr>st_raw = raw, st_can_open_log = True, st_now = now, st_socket = sock, st_bind_ok = True,
     st_listen_ok = True, st_can_open_rdb = True, st_can_open_aof = True\<rparr>"
  have "startup_ok ?a" using \<open>sock \<noteq> INVALID_SOCKET\<close> by (simp add: startup_ok_def)
  moreover have "files_ok files" using S0(2,3) by (simp add: files_ok_def)
  moreover have p: "program_start ?a files = Some (Inr S)" using S0(1,4) by (simp add: program_start_def)
  moreover have "disk_store files = HashMap_map (hashMap S)"
    using program_start_ok[OF calculation(1,2)] p by auto
  ultimately show thesis by (rule that)
qed

theorem restart_linearizable_witness:
  "\<exists>a1 files S1 y1 S2. program_start a1 files = Some (Inr S1) \<and> orderly_step\<^sup>*\<^sup>* (System_new S1) y1 \<and> unlogged y1 = {} \<and>
     Responded 0 (''Insert command was successful'' @ [newline]) \<in> set (hist y1) \<and>
     program_start example_startup (Persistence_destroy (pers (server_of y1))) = Some (Inr S2) \<and>
     (\<exists>ops1 ops2. linearized_by (hist y1) ops1 \<and>
        respond_all (map (\<lambda>(k, m, r). m) (ops1 @ ops2)) Map.empty =
          (map (\<lambda>(k, m, r). r) (ops1 @ ops2), HashMap_map (hashMap S2)))"
proof -
  obtain S1 y1 where y: "server_started S1" "orderly_step\<^sup>*\<^sup>* (System_new S1) y1" "unlogged y1 = {}"
    "Responded 0 (''Insert command was successful'' @ [newline]) \<in> set (hist y1)"
    "HashMap_map (hashMap S1) = Map.empty"
    by (rule example_answered)
  obtain a1 files where a: "startup_ok a1" "files_ok files" "program_start a1 files = Some (Inr S1)"
    "disk_store files = HashMap_map (hashMap S1)"
    using y(1) by (rule started_program)
  obtain S2 where S2: "program_start example_startup (Persistence_destroy (pers (server_of y1))) = Some (Inr S2)"
    and r: "\<forall>y2. system_step\<^sup>*\<^sup>* (System_new S2) y2 \<longrightarrow>
       (\<exists>ops1 ops2. linearized_by (hist y1) ops1 \<and> linearized_by (hist y2) ops2 \<and>
          respond_all (map (\<lambda>(k, m, r). m) (ops1 @ ops2)) (disk_store files) =
            (map (\<lambda>(k, m, r). r) (ops1 @ ops2), HashMap_map (hashMap (server_of y2))))"
    using restart_linearizable[OF a(1-3) y(2,3) example_startup_ok] by blast
  have "server_of (System_new S2) = S2" by (simp add: System_new_def Dispatch_new_def)
  then have "\<exists>ops1 ops2. linearized_by (hist y1) ops1 \<and>
        respond_all (map (\<lambda>(k, m, r). m) (ops1 @ ops2)) Map.empty =
          (map (\<lambda>(k, m, r). r) (ops1 @ ops2), HashMap_map (hashMap S2))"
    using spec[OF r, of "System_new S2"] unfolding a(4) y(5) by auto
  with a(3) y(2-4) S2 show ?thesis by blast
qed



end
