(* ===== verification/Clients.thy ===== *)
theory Clients
  imports Durable Sending
begin

text \<open>
  What a client sees of the server.  First, isolation: a client that alone writes the keys it
  uses is served as if it were the only one.  Then the Python client of the integration tests
  (\<open>src/Tests/integration/client.py\<close>) and the tests themselves
  (\<open>src/Tests/integration/test_basic_commands.py\<close>), run against \<open>System\<close>.
\<close>

subsection \<open>The key of a command\<close>

definition command_key :: "string \<Rightarrow> string" where
  "command_key m = fst (snd (words3 m))"

definition writes :: "string \<Rightarrow> string \<Rightarrow> bool" where
  "writes m k \<longleftrightarrow> (case write_of m of None \<Rightarrow> False | Some x \<Rightarrow> op_key x = k)"

lemma respond_elsewhere: "\<not> writes m k \<Longrightarrow> snd (respond m s) k = s k"
  by (cases "write_of m") (simp_all add: respond_write writes_def store_step_other)

lemma respond_pointwise: "s k = s' k \<Longrightarrow> snd (respond m s) k = snd (respond m s') k"
  using store_step_same[of s k s'] by (cases "write_of m") (simp_all add: respond_write)

lemma respond_local:
  assumes "s (command_key m) = s' (command_key m)"
  shows "fst (respond m s) = fst (respond m s')"
proof -
  obtain command key val where w: "words3 m = (command, key, val)" by (cases "words3 m")
  show ?thesis using assms unfolding respond_def command_key_def w by (simp split: option.split)
qed

text \<open>
  Of a sequence of commands, those that satisfy \<open>P\<close> use keys of \<open>K\<close> only, and the others do
  not write these: the others can be left out.
\<close>

lemma respond_all_isolated:
  assumes "\<And>x k. x \<in> set ops \<Longrightarrow> \<not> P x \<Longrightarrow> k \<in> K \<Longrightarrow> \<not> writes (msg x) k"
    and "\<And>x. x \<in> set ops \<Longrightarrow> P x \<Longrightarrow> command_key (msg x) \<in> K"
    and "\<And>k. k \<in> K \<Longrightarrow> s k = s' k"
    and "fst (respond_all (map msg ops) s) = map res ops"
  shows "fst (respond_all (map msg (filter P ops)) s') = map res (filter P ops) \<and>
    (\<forall>k \<in> K. snd (respond_all (map msg (filter P ops)) s') k = snd (respond_all (map msg ops) s) k)"
  using assms
proof (induction ops arbitrary: s s')
  case (Cons x ops)
  have r: "fst (respond (msg x) s) = res x" "fst (respond_all (map msg ops) (snd (respond (msg x) s))) = map res ops"
    using Cons.prems(4) by (simp_all add: split_beta)
  show ?case
  proof (cases "P x")
    case True
    have "snd (respond (msg x) s) k = snd (respond (msg x) s') k" if "k \<in> K" for k
      by (rule respond_pointwise) (use Cons.prems(3) that in blast)
    then have "fst (respond_all (map msg (filter P ops)) (snd (respond (msg x) s'))) = map res (filter P ops) \<and>
        (\<forall>k \<in> K. snd (respond_all (map msg (filter P ops)) (snd (respond (msg x) s'))) k
          = snd (respond_all (map msg ops) (snd (respond (msg x) s))) k)"
      by (intro Cons.IH) (use Cons.prems(1,2) r(2) in auto)
    moreover have "fst (respond (msg x) s) = fst (respond (msg x) s')"
      using Cons.prems(2,3) True by (intro respond_local) simp
    ultimately show ?thesis using True r(1) by (simp add: split_beta)
  next
    case False
    have "snd (respond (msg x) s) k = s' k" if "k \<in> K" for k
      using respond_elsewhere[of "msg x" k s] Cons.prems(1)[of x k] Cons.prems(3)[of k] False that by simp
    then have "fst (respond_all (map msg (filter P ops)) s') = map res (filter P ops) \<and>
        (\<forall>k \<in> K. snd (respond_all (map msg (filter P ops)) s') k
          = snd (respond_all (map msg ops) (snd (respond (msg x) s))) k)"
      by (intro Cons.IH) (use Cons.prems(1,2) r(2) in auto)
    then show ?thesis using False by (simp add: split_beta)
  qed
qed simp

subsection \<open>A client that keeps its keys to itself\<close>

lemma system_step_grows:
  assumes "system_step y y'" and "phase_inv y"
  shows "(\<exists>new. pts y' = pts y @ new) \<and> (\<forall>k < length (threads y). k < length (threads y') \<and>
    fst (threads y' ! k) = fst (threads y ! k))"
  using assms(1)
proof cases
  case (sys_section i k c m pc pc' d)
  have "fst ((threads y)[k := (c, m, pc')] ! j) = fst (threads y ! j)" if "j < length (threads y)" for j
    using that sys_section(3) by (cases "j = k") simp_all
  then show ?thesis using sys_section(1) by simp
next
  case (sys_command i c received m now)
  then show ?thesis by (simp add: nth_append)
qed simp_all

lemma system_steps_grow:
  assumes "(sparing server_of system_step)\<^sup>*\<^sup>* y1 y2" and "system_inv s0 d0 y1"
  shows "(\<exists>new. pts y2 = pts y1 @ new) \<and> (\<forall>k < length (threads y1). k < length (threads y2) \<and>
    fst (threads y2 ! k) = fst (threads y1 ! k))"
  using assms(1)
proof (induction rule: rtranclp_induct)
  case (step y z)
  have yz: "system_step y z" using step.hyps(2) by (simp add: sparing_def)
  have "system_inv s0 d0 y" using step.hyps(1) assms(2) by (induction rule: rtranclp_induct) (auto intro: system_step_inv)
  then have "phase_inv y" by (simp add: system_inv_def)
  from system_step_grows[OF yz this] show ?case using step.IH by force
qed simp

text \<open>The commands that were executed between two states, and for whom.\<close>

definition executed_between :: "System \<Rightarrow> System \<Rightarrow> (nat \<times> string) list" where
  "executed_between y1 y2 =
     map (\<lambda>(k, m, r). (fst (threads y2 ! k), m)) (drop (length (pts y1)) (pts y2))"

definition commands_of :: "System \<Rightarrow> nat \<Rightarrow> string list" where
  "commands_of y c = frames '''' (of_conn c (got y))"

lemma alone_between:
  assumes "server_started S0" and "(sparing server_of system_step)\<^sup>*\<^sup>* (System_new S0) y1" and "(sparing server_of system_step)\<^sup>*\<^sup>* y1 y2"
    and "commands_of y1 c = []" and "\<not> handled_now y2 c"
    and "\<forall>(c', m) \<in> set (executed_between y1 y2). c' \<noteq> c \<longrightarrow> list_all (\<lambda>m'. \<not> writes m (command_key m')) (commands_of y2 c)"
  shows "of_conn c (replies y2) = fst (respond_all (commands_of y2 c) (HashMap_map (hashMap (server_of y1))))"
    and "\<forall>m \<in> set (commands_of y2 c). HashMap_map (hashMap (server_of y2)) (command_key m)
       = snd (respond_all (commands_of y2 c) (HashMap_map (hashMap (server_of y1)))) (command_key m)"
proof -
  let ?P = "\<lambda>p. fst (threads y2 ! fst p) = c"
  let ?msg = "\<lambda>p :: nat \<times> string \<times> string. fst (snd p)" and ?res = "\<lambda>p :: nat \<times> string \<times> string. snd (snd p)"
  let ?s1 = "HashMap_map (hashMap (server_of y1))" and ?s2 = "HashMap_map (hashMap (server_of y2))"
  have r2: "(sparing server_of system_step)\<^sup>*\<^sup>* (System_new S0) y2" using assms(2,3) by (rule rtranclp_trans)
  have i1: "system_inv (HashMap_map (hashMap S0)) (db_of S0) y1" by (rule system_reachable[OF assms(1,2)])
  obtain new where new: "pts y2 = pts y1 @ new" using system_steps_grow[OF assms(3) i1] by blast
  have e1: "respond_all (map ?msg (pts y1)) (HashMap_map (hashMap S0)) = (map ?res (pts y1), ?s1)"
    using conjunct1[OF conjunct2[OF conjunct2[OF system_points[OF assms(1,2)]]]] by (simp add: case_prod_unfold)
  have "respond_all (map ?msg (pts y1 @ new)) (HashMap_map (hashMap S0)) = (map ?res (pts y1 @ new), ?s2)"
    using conjunct1[OF conjunct2[OF conjunct2[OF system_points[OF assms(1) r2]]]] by (simp add: case_prod_unfold new)
  then have e2: "respond_all (map ?msg new) ?s1 = (map ?res new, ?s2)"
    using e1 by (simp add: respond_all_append split: prod.splits)
  have p1: "\<forall>p \<in> set (pts y1). fst p < length (threads y1)" and f1: "messages_framed y1"
    using i1 by (simp_all add: system_inv_def conn_inv_def)
  have "map fst (of_conn c (threads y1)) @ frames (buffer_of (server_of y1) c) [] = frames '''' (of_conn c (got y1) @ [])"
    using f1 unfolding messages_framed_def by blast
  then have m1: "of_conn c (threads y1) = []" using assms(4) by (simp add: commands_of_def)
  have none: "filter ?P (pts y1) = []"
  proof -
    have "fst (threads y2 ! fst p) \<noteq> c" if "p \<in> set (pts y1)" for p
    proof -
      have k: "fst p < length (threads y1)" using p1 that by blast
      then have "fst (threads y1 ! fst p) \<noteq> c"
        using m1 nth_mem[OF k] by (auto simp: of_conn_def filter_empty_conv)
      then show ?thesis using system_steps_grow[OF assms(3) i1] k by simp
    qed
    then show ?thesis by (simp add: filter_empty_conv)
  qed
  have mine: "map ?msg (filter ?P new) = commands_of y2 c" "of_conn c (replies y2) = map ?res (filter ?P new)"
    using spec[of _ c, OF conjunct2[OF conjunct2[OF conjunct2[OF conjunct2[OF system_points[OF assms(1) r2]]]]]] assms(5)
    unfolding case_prod_unfold new filter_append none append_Nil Let_def commands_of_def by simp_all
  have iso: "fst (respond_all (map ?msg (filter ?P new)) ?s1) = map ?res (filter ?P new) \<and>
      (\<forall>k \<in> set (map command_key (commands_of y2 c)).
        snd (respond_all (map ?msg (filter ?P new)) ?s1) k = snd (respond_all (map ?msg new) ?s1) k)"
  proof (rule respond_all_isolated)
    show "\<not> writes (?msg x) k" if x: "x \<in> set new" "\<not> ?P x" and k: "k \<in> set (map command_key (commands_of y2 c))" for x k
    proof -
      have "(fst (threads y2 ! fst x), ?msg x) \<in> set (executed_between y1 y2)"
        unfolding executed_between_def new using x(1) by (force simp: case_prod_unfold)
      then have "list_all (\<lambda>m'. \<not> writes (?msg x) (command_key m')) (commands_of y2 c)" using assms(6) x(2) by fastforce
      then show ?thesis using k by (auto simp: list_all_iff)
    qed
    show "command_key (?msg x) \<in> set (map command_key (commands_of y2 c))" if "x \<in> set new" "?P x" for x
      unfolding mine(1)[symmetric] using that by simp
    show "fst (respond_all (map ?msg new) ?s1) = map ?res new" using e2 by simp
  qed simp
  show "of_conn c (replies y2) = fst (respond_all (commands_of y2 c) ?s1)" using iso mine by simp
  show "\<forall>m \<in> set (commands_of y2 c). ?s2 (command_key m) = snd (respond_all (commands_of y2 c) ?s1) (command_key m)"
    using iso e2 mine(1) by simp
qed


subsection \<open>The client of the integration tests\<close>

text \<open>What \<open>str.strip\<close> removes, of the characters below 128.\<close>

definition python_space :: "char \<Rightarrow> bool" where
  "python_space c \<longleftrightarrow> (let n = of_char c :: nat in 9 \<le> n \<and> n \<le> 13 \<or> 28 \<le> n \<and> n \<le> 32)"

definition strip :: "string \<Rightarrow> string" where
  "strip s = rev (dropWhile python_space (rev (dropWhile python_space s)))"

text \<open>
  \<open>_recv_line\<close>: \<open>recv\<close> gives the stream in chunks, the empty one when the server has closed
  the connection; \<open>None\<close> is the wait for more.
\<close>

definition ends_line :: "string \<Rightarrow> bool" where
  "ends_line data \<longleftrightarrow> data \<noteq> [] \<and> last data = newline"

fun recv_line :: "string \<Rightarrow> string list \<Rightarrow> string option" where
  "recv_line data [] = (if ends_line data then Some (strip data) else None)"
| "recv_line data (chunk # chunks) =
     (if ends_line data then Some (strip data)
      else if chunk = [] then Some (strip data)
      else recv_line (data @ chunk) chunks)"

text \<open>
  \<open>_send\<close>: each attempt either meets an \<open>OSError\<close> (then the client connects anew and sends the
  command again) or reads its line; after \<open>max_retries\<close> of them the client gives up.
\<close>

fun client_send :: "nat \<Rightarrow> string list option list \<Rightarrow> string option" where
  "client_send (Suc retries) (None # attempts) = client_send retries attempts"
| "client_send (Suc retries) (Some chunks # attempts) = recv_line '''' chunks"
| "client_send _ _ = None"

definition command_line :: "string \<Rightarrow> string" where
  "command_line command = command @ [newline]"

definition insert_command :: "string \<Rightarrow> string \<Rightarrow> string" where
  "insert_command key val = ''INSERT '' @ key @ '' '' @ val"

definition get_command :: "string \<Rightarrow> string" where
  "get_command key = ''GET '' @ key"

definition delete_command :: "string \<Rightarrow> string" where
  "delete_command key = ''DELETE '' @ key"

text \<open>A response is read whole, however the stream is cut.\<close>

lemma recv_line_rest:
  assumes "data @ concat chunks = b @ [newline]" and "newline \<notin> set b" and "[] \<notin> set chunks"
  shows "recv_line data chunks = Some (strip (b @ [newline]))"
  using assms(1,3)
proof (induction chunks arbitrary: data)
  case (Cons chunk chunks)
  have e: "data = b @ [newline]" if "ends_line data"
  proof -
    have "data \<noteq> []" "last data = newline" using that by (simp_all add: ends_line_def)
    then obtain xs where xs: "data = xs @ [newline]" by (metis append_butlast_last_id)
    then have "xs @ newline # concat (chunk # chunks) = b @ [newline]" using Cons.prems(1) by simp
    then have "xs = b" using assms(2) by (auto simp: append_eq_append_conv2 append_eq_Cons_conv Cons_eq_append_conv)
    then show ?thesis using xs by simp
  qed
  show ?case using e Cons by (cases "ends_line data") auto
qed (simp add: ends_line_def)

text \<open>
  A connection that the server has closed is not an error to the client: it reads an empty
  response, and does not try again.
\<close>

lemma closed_connection_reads_empty: "client_send (Suc retries) (Some ['''' :: string] # attempts) = Some ''''"
  by (simp add: ends_line_def strip_def)

text \<open>Sending a command a second time changes nothing: the retry is harmless.\<close>

lemma respond_twice: "respond m (snd (respond m s)) = respond m s"
proof -
  obtain command key val where w: "words3 m = (command, key, val)" by (cases "words3 m")
  show ?thesis unfolding respond_def w by (simp split: option.split)
qed

lemma respond_retries:
  "respond_all (replicate (Suc n) m) s = (replicate (Suc n) (fst (respond m s)), snd (respond m s))"
proof (induction n arbitrary: s)
  case (Suc n)
  show ?case using Suc.IH[of "snd (respond m s)"] by (simp add: respond_twice split_beta)
qed (simp add: split_beta)

subsection \<open>The tests\<close>

text \<open>A session of a test: the commands it sends, and what it asserts of a response.\<close>

type_synonym script = "(string \<times> string option) list"

definition session_passes :: "script \<Rightarrow> string option list \<Rightarrow> bool" where
  "session_passes script results \<longleftrightarrow>
     list_all2 (\<lambda>(command, expected) result. result \<noteq> None \<and> (expected \<noteq> None \<longrightarrow> result = expected)) script results"

definition test_insert_get_delete :: script where
  "test_insert_get_delete =
     [(insert_command ''volt'' ''3333'', Some ''Insert command was successful''),
      (get_command ''volt'', Some ''Get command was successful: 3333''),
      (delete_command ''volt'', Some ''Delete command was successful'')]"

definition test_get_after_delete :: script where
  "test_get_after_delete =
     [(insert_command ''volt'' ''3333'', None), (get_command ''volt'', None), (delete_command ''volt'', None),
      (get_command ''volt'', Some ''Get command was successful but key dont exist'')]"

definition test_unknown_command :: script where
  "test_unknown_command = [(''FOOBAR volt 3333'', Some ''No command was received'')]"

definition vault_worker :: "nat \<Rightarrow> script" where
  "vault_worker i = (let key = ''vault'' @ to_string i; val = to_string (1000 + i) in
     [(insert_command key val, None), (get_command key, Some (''Get command was successful: '' @ val)),
      (delete_command key, None)])"

definition test_concurrent_clients_distinct_keys :: "script list" where
  "test_concurrent_clients_distinct_keys = map vault_worker [0..<5]"

definition shared_writer :: script where
  "shared_writer = [(insert_command ''shared'' ''42'', Some ''Insert command was successful''),
     (delete_command ''shared'', Some ''Delete command was successful'')]"

definition shared_reader :: script where
  "shared_reader = [(get_command ''shared'', Some ''Get command was successful but key dont exist'')]"

subsection \<open>What the server answers to the scripts\<close>

lemma words3_line:
  assumes "word a" and "word k" and "word v"
  shows "words3 (a @ '' '' @ k @ '' '' @ v @ [newline]) = (a, k, v)"
    and "words3 (a @ '' '' @ k @ [newline]) = (a, k, '''')"
proof -
  have first: "read_word '''' (istringstream (a @ '' '' @ r)) = (a, \<lparr>rest = CHR '' '' # r, eofbit = False, failbit = False\<rparr>)" for r
    using read_next_word(2)[OF assms(1), of "''''" r] by (simp add: istringstream_def)
  have last: "read_word old \<lparr>rest = CHR '' '' # w @ [newline], eofbit = False, failbit = False\<rparr>
      = (w, \<lparr>rest = [newline], eofbit = False, failbit = False\<rparr>)" if "word w" for old w
    using read_word_good[of "\<lparr>rest = CHR '' '' # w @ [newline], eofbit = False, failbit = False\<rparr>" w "[newline]"] that
    by (simp add: skip_word)
  have "read_word '''' \<lparr>rest = [newline], eofbit = False, failbit = False\<rparr> = ('''', \<lparr>rest = [], eofbit = True, failbit = True\<rparr>)"
    by (simp add: read_word_def)
  then show "words3 (a @ '' '' @ k @ [newline]) = (a, k, '''')"
    using first[of "k @ [newline]"] last[OF assms(2), of "''''"] by (simp add: words3_def)
  show "words3 (a @ '' '' @ k @ '' '' @ v @ [newline]) = (a, k, v)"
    using first[of "k @ '' '' @ v @ [newline]"] last[OF assms(3), of "''''"]
      read_next_word(1)[OF assms(2), of "''''" "v @ [newline]"] by (simp add: words3_def)
qed

lemma client_words:
  assumes "word k" and "word v"
  shows "words3 (command_line (insert_command k v)) = (''INSERT'', k, v)"
    and "words3 (command_line (get_command k)) = (''GET'', k, '''')"
    and "words3 (command_line (delete_command k)) = (''DELETE'', k, '''')"
  using words3_line(1)[OF word_literals(1) assms] words3_line(2)[OF word_literals(3) assms]
    words3_line(2)[OF word_literals(2) assms]
  by (simp_all add: command_line_def insert_command_def get_command_def delete_command_def)


lemma respond_client:
  assumes "word k" and "word v"
  shows "respond (command_line (insert_command k v)) s = (''Insert command was successful'' @ [newline], s(k \<mapsto> v))"
    and "respond (command_line (get_command k)) s =
      (case s k of None \<Rightarrow> ''Get command was successful but key dont exist'' @ [newline]
        | Some x \<Rightarrow> ''Get command was successful: '' @ x @ [newline], s)"
    and "respond (command_line (delete_command k)) s = (''Delete command was successful'' @ [newline], s(k := None))"
proof -
  have "v \<noteq> []" using assms(2) by (simp add: word_def)
  then show "respond (command_line (insert_command k v)) s = (''Insert command was successful'' @ [newline], s(k \<mapsto> v))"
    unfolding respond_def client_words(1)[OF assms] by simp
  show "respond (command_line (get_command k)) s =
      (case s k of None \<Rightarrow> ''Get command was successful but key dont exist'' @ [newline]
        | Some x \<Rightarrow> ''Get command was successful: '' @ x @ [newline], s)"
    unfolding respond_def client_words(2)[OF assms] by (simp split: option.split)
  show "respond (command_line (delete_command k)) s = (''Delete command was successful'' @ [newline], s(k := None))"
    unfolding respond_def client_words(3)[OF assms] by simp
qed

lemma client_keys:
  assumes "word k" and "word v"
  shows "command_key (command_line (insert_command k v)) = k" and "command_key (command_line (get_command k)) = k"
    and "command_key (command_line (delete_command k)) = k"
    and "writes (command_line (insert_command k v)) k' \<longleftrightarrow> k' = k" and "\<not> writes (command_line (get_command k)) k'"
    and "writes (command_line (delete_command k)) k' \<longleftrightarrow> k' = k"
  using assms(2) by (auto simp: command_key_def writes_def write_of_def client_words[OF assms] word_def)

lemma strip_line:
  assumes "x \<noteq> []" and "\<not> python_space (hd x)" and "\<not> python_space (last x)"
  shows "strip (x @ [newline]) = x"
proof -
  have "python_space newline" by code_simp
  moreover have "dropWhile python_space (x @ [newline]) = x @ [newline]" using assms(1,2) by (cases x) auto
  moreover have "dropWhile python_space (rev x) = rev x"
    using assms(1,3) by (metis dropWhile_eq_self_iff hd_rev rev_is_Nil_conv)
  ultimately show ?thesis by (simp add: strip_def)
qed

text \<open>The fixed texts; the value of a get is stripped with them.\<close>

lemma strip_texts:
  "strip (''Insert command was successful'' @ [newline]) = ''Insert command was successful''"
  "strip (''Delete command was successful'' @ [newline]) = ''Delete command was successful''"
  "strip (''Get command was successful but key dont exist'' @ [newline]) = ''Get command was successful but key dont exist''"
  "strip (''No command was received'' @ [newline]) = ''No command was received''"
  by code_simp+

lemma strip_value:
  assumes "val \<noteq> []" and "\<not> python_space (last val)"
  shows "strip (''Get command was successful: '' @ val @ [newline]) = ''Get command was successful: '' @ val"
proof -
  have "strip ((''Get command was successful: '' @ val) @ [newline]) = ''Get command was successful: '' @ val"
    by (rule strip_line) (use assms in \<open>simp_all add: python_space_def\<close>)
  then show ?thesis by simp
qed

lemma line_texts:
  "response_line (''Insert command was successful'' @ [newline])"
  "response_line (''Delete command was successful'' @ [newline])"
  "response_line (''Get command was successful but key dont exist'' @ [newline])"
  "response_line (''No command was received'' @ [newline])"
  by (rule response_lineI, code_simp)+

lemma line_value:
  assumes "newline \<notin> set val"
  shows "response_line (''Get command was successful: '' @ val @ [newline])"
proof -
  have "newline \<notin> set ''Get command was successful: ''" by code_simp
  then have "response_line ((''Get command was successful: '' @ val) @ [newline])"
    using assms by (intro response_lineI) simp
  then show ?thesis by simp
qed

definition script_messages :: "script \<Rightarrow> string list" where
  "script_messages script = map (\<lambda>x. command_line (fst x)) script"

text \<open>Alone, each script is answered by lines that it accepts, whatever is in the store.\<close>

definition answered_well :: "script \<Rightarrow> (string \<rightharpoonup> string) \<Rightarrow> bool" where
  "answered_well script s \<longleftrightarrow> (let rs = fst (respond_all (script_messages script) s) in
     list_all response_line rs \<and> session_passes script (map (\<lambda>r. Some (strip r)) rs))"

lemmas scripts = test_insert_get_delete_def test_get_after_delete_def test_unknown_command_def
  vault_worker_def shared_writer_def shared_reader_def

lemma test_words: "word ''volt''" "word ''3333''" "word ''shared''" "word ''42''"
  by code_simp+

lemma to_string_word: "word (to_string n)" "to_string n \<noteq> []" "\<not> python_space (last (to_string n))" "newline \<notin> set (to_string n)"
proof -
  show ne: "to_string n \<noteq> []" by (subst to_string.simps) simp
  have d: "\<not> isspace c \<and> \<not> python_space c \<and> c \<noteq> newline" if "digit c" for c
    using that by (auto simp: digit_def isspace_def python_space_def newline_def Let_def)
  have all: "\<And>c. c \<in> set (to_string n) \<Longrightarrow> digit c" using to_string_digits[of n] by (simp add: list_all_iff)
  show "word (to_string n)" using ne all d by (auto simp: word_def list_all_iff)
  show "\<not> python_space (last (to_string n))" using ne all d by auto
  show "newline \<notin> set (to_string n)" using all d by blast
qed

lemma vault_word: "word (''vault'' @ to_string i)"
proof -
  have "list_all (\<lambda>c. \<not> isspace c) ''vault''" by code_simp
  then show ?thesis using to_string_word(1)[of i] by (simp add: word_def)
qed

lemmas run_script = answered_well_def script_messages_def session_passes_def Let_def list.map fst_conv snd_conv
  respond_all.simps prod.case option.case fun_upd_same list.pred_inject strip_texts line_texts list_all2_Cons list_all2_Nil

lemma tests_answered_well:
  "answered_well test_insert_get_delete s" "answered_well test_get_after_delete s"
  "answered_well test_unknown_command s" "answered_well (vault_worker i) s" "answered_well shared_writer s"
  "s ''shared'' = None \<Longrightarrow> answered_well shared_reader s"
proof -
  note v = respond_client[OF test_words(1,2)] and sh = respond_client[OF test_words(3,4)]
    and w = respond_client[OF vault_word to_string_word(1)]
  have val: "''3333'' \<noteq> []" "\<not> python_space (last ''3333'')" "newline \<notin> set ''3333''" by code_simp+
  note sv = strip_value[OF val(1,2)] line_value[OF val(3)]
  have u: "respond (command_line ''FOOBAR volt 3333'') s = (''No command was received'' @ [newline], s)"
  proof -
    have "words3 (command_line ''FOOBAR volt 3333'') = (''FOOBAR'', ''volt'', ''3333'')" by code_simp
    then show ?thesis by (simp add: respond_def)
  qed
  show "answered_well test_insert_get_delete s" "answered_well test_get_after_delete s"
    unfolding scripts by (simp only: run_script v sv; simp)+
  show "answered_well test_unknown_command s" unfolding scripts by (simp only: run_script u; simp)
  show "answered_well (vault_worker i) s"
    unfolding scripts
    by (simp only: run_script w strip_value[OF to_string_word(2,3)] line_value[OF to_string_word(4)]; simp)
  show "answered_well shared_writer s" unfolding scripts by (simp only: run_script sh; simp)
  show "answered_well shared_reader s" if "s ''shared'' = None"
    unfolding scripts by (simp only: run_script sh that; simp)
qed


subsection \<open>The tests pass\<close>

lemma session_read:
  assumes "answered_well script s" and "map concat chunkss = fst (respond_all (script_messages script) s)"
    and "\<forall>chunks \<in> set chunkss. [] \<notin> set chunks"
  shows "session_passes script (map (recv_line '''') chunkss)"
proof -
  have lines: "list_all response_line (map concat chunkss)"
    and ok: "session_passes script (map (\<lambda>r. Some (strip r)) (map concat chunkss))"
    using assms(1) unfolding answered_well_def assms(2)[symmetric] by (simp_all add: Let_def)
  have "recv_line '''' chunks = Some (strip (concat chunks))" if "chunks \<in> set chunkss" for chunks
  proof -
    have "response_line (concat chunks)" using lines that by (simp add: list_all_iff)
    then obtain b where b: "concat chunks = b @ [newline]" "newline \<notin> set b" unfolding response_line_def by blast
    have "recv_line '''' chunks = Some (strip (b @ [newline]))"
      by (rule recv_line_rest) (use b assms(3) that in auto)
    then show ?thesis by (simp add: b(1))
  qed
  then have e: "map (recv_line '''') chunkss = map (\<lambda>r. Some (strip r)) (map concat chunkss)" by simp
  show ?thesis unfolding e by (rule ok)
qed

text \<open>The clients of a test: each has its connection, its script, and what \<open>recv\<close> gave it.\<close>

record test_client =
  cl_conn :: nat
  cl_script :: script
  cl_chunks :: "string list list"

definition client_ran :: "System \<Rightarrow> System \<Rightarrow> test_client \<Rightarrow> bool" where
  "client_ran y1 y2 t \<longleftrightarrow> commands_of y1 (cl_conn t) = [] \<and>
     commands_of y2 (cl_conn t) = script_messages (cl_script t) \<and> \<not> handled_now y2 (cl_conn t) \<and>
     map concat (cl_chunks t) = of_conn (cl_conn t) (replies y2) \<and> (\<forall>chunks \<in> set (cl_chunks t). [] \<notin> set chunks)"

definition client_passes :: "test_client \<Rightarrow> bool" where
  "client_passes t \<longleftrightarrow> session_passes (cl_script t) (map (recv_line '''') (cl_chunks t))"

definition harmless :: "script \<Rightarrow> string \<Rightarrow> bool" where
  "harmless script m \<longleftrightarrow> list_all (\<lambda>m'. \<not> writes m (command_key m')) (script_messages script)"

lemma client_alone_passes:
  assumes "server_started S0" and "(sparing server_of system_step)\<^sup>*\<^sup>* (System_new S0) y1" and "(sparing server_of system_step)\<^sup>*\<^sup>* y1 y2"
    and "client_ran y1 y2 t"
    and "\<forall>(c', m) \<in> set (executed_between y1 y2). c' \<noteq> cl_conn t \<longrightarrow> harmless (cl_script t) m"
    and "answered_well (cl_script t) (HashMap_map (hashMap (server_of y1)))"
  shows "client_passes t"
proof -
  have t: "commands_of y1 (cl_conn t) = []" "commands_of y2 (cl_conn t) = script_messages (cl_script t)"
      "\<not> handled_now y2 (cl_conn t)" "map concat (cl_chunks t) = of_conn (cl_conn t) (replies y2)"
      "\<forall>chunks \<in> set (cl_chunks t). [] \<notin> set chunks"
    using assms(4) by (simp_all add: client_ran_def)
  have "map concat (cl_chunks t) = fst (respond_all (script_messages (cl_script t)) (HashMap_map (hashMap (server_of y1))))"
    using alone_between(1)[OF assms(1-3) t(1,3)] assms(5) unfolding t(2,4) harmless_def by blast
  from session_read[OF assms(6) this t(5)] show ?thesis by (simp add: client_passes_def)
qed

text \<open>The five clients of the test with threads do not write each other's keys.\<close>

lemma vault_workers_apart:
  assumes "m \<in> set (script_messages (vault_worker j))" and "i \<noteq> j"
  shows "harmless (vault_worker i) m"
proof -
  note w = client_keys[OF vault_word to_string_word(1)]
  have ne: "''vault'' @ to_string i \<noteq> ''vault'' @ to_string j" using assms(2) by (simp add: to_string_inject)
  have keys: "map command_key (script_messages (vault_worker i)) = replicate 3 (''vault'' @ to_string i)" for i
    unfolding script_messages_def vault_worker_def Let_def list.map fst_conv w numeral_3_eq_3 replicate.simps by (rule refl)
  have "\<not> writes m (''vault'' @ to_string i)"
    using assms(1) ne unfolding script_messages_def vault_worker_def Let_def list.map fst_conv set_simps insert_iff
    by (elim disjE) (simp_all only: w(4-6) not_False_eq_True empty_iff)
  then have "\<forall>k \<in> set (map command_key (script_messages (vault_worker i))). \<not> writes m k" unfolding keys by simp
  then show ?thesis by (simp add: harmless_def list_all_iff)
qed

definition test_scripts :: "script list list" where
  "test_scripts = [[test_insert_get_delete], [test_get_after_delete], [test_unknown_command],
     test_concurrent_clients_distinct_keys]"

lemma test_scripts_cases:
  assumes "scripts \<in> set test_scripts" and "i < length scripts"
  obtains "scripts ! i \<in> {test_insert_get_delete, test_get_after_delete, test_unknown_command}" "length scripts = 1"
  | "scripts ! i = vault_worker i" "scripts = map vault_worker [0..<5]"
  using assms by (auto simp: test_scripts_def test_concurrent_clients_distinct_keys_def)

lemma executed_commands:
  assumes "server_started S0" and "(sparing server_of system_step)\<^sup>*\<^sup>* (System_new S0) y2"
    and "(c, m) \<in> set (executed_between y1 y2)" and "\<not> handled_now y2 c"
  shows "m \<in> set (commands_of y2 c)"
proof -
  obtain p where p: "p \<in> set (drop (length (pts y1)) (pts y2))" "c = fst (threads y2 ! fst p)" "m = fst (snd p)"
    using assms(3) by (auto simp: executed_between_def)
  have "p \<in> set (pts y2)" using p(1) by (rule in_set_dropD)
  moreover have "commands_of y2 c = map (\<lambda>p. fst (snd p)) (filter (\<lambda>p. fst (threads y2 ! fst p) = c) (pts y2))"
    using spec[of _ c, OF conjunct2[OF conjunct2[OF conjunct2[OF conjunct2[OF system_points[OF assms(1,2)]]]]]] assms(4)
    unfolding Let_def commands_of_def case_prod_unfold by simp
  ultimately show ?thesis using p(2,3) by simp
qed


lemma scripts_answered_well:
  assumes "scripts \<in> set test_scripts" and "i < length scripts"
  shows "answered_well (scripts ! i) s"
  using assms
proof (cases rule: test_scripts_cases[where i = i])
  case 1
  then show ?thesis using tests_answered_well(1-3) by (elim insertE emptyE) simp_all
next
  case 2
  show ?thesis unfolding 2(1) by (rule tests_answered_well(4))
qed

lemma scripts_apart:
  assumes "scripts \<in> set test_scripts" and "i < length scripts" and "j < length scripts" and "i \<noteq> j"
    and "m \<in> set (script_messages (scripts ! j))"
  shows "harmless (scripts ! i) m"
  using assms(1,2)
proof (cases rule: test_scripts_cases[where i = i])
  case 2
  have "scripts ! n = vault_worker n" if "n < length scripts" for n
    using arg_cong[OF 2(2), of "\<lambda>xs. xs ! n :: script"] arg_cong[OF 2(2), of length] that by simp
  then show ?thesis using vault_workers_apart[OF _ assms(4)] assms(2,3,5) by simp
qed (use assms(2-4) in auto)


text \<open>The test of two clients, one after the other.\<close>

theorem cross_client_test_passes:
  assumes "server_started S0" and "(sparing server_of system_step)\<^sup>*\<^sup>* (System_new S0) y1" and "(sparing server_of system_step)\<^sup>*\<^sup>* y1 y2"
    and "(sparing server_of system_step)\<^sup>*\<^sup>* y2 y3"
    and "client_ran y1 y2 a" and "cl_script a = shared_writer" and "client_ran y2 y3 b" and "cl_script b = shared_reader"
    and "\<forall>(c, m) \<in> set (executed_between y1 y2). c \<noteq> cl_conn a \<longrightarrow> harmless shared_writer m"
    and "\<forall>(c, m) \<in> set (executed_between y2 y3). c \<noteq> cl_conn b \<longrightarrow> harmless shared_reader m"
  shows "client_passes a \<and> client_passes b"
proof
  show "client_passes a"
    using client_alone_passes[OF assms(1-3,5)] assms(6,9) tests_answered_well(5) by simp
  have r2: "(sparing server_of system_step)\<^sup>*\<^sup>* (System_new S0) y2" using assms(2,3) by (rule rtranclp_trans)
  have a: "commands_of y1 (cl_conn a) = []" "commands_of y2 (cl_conn a) = script_messages shared_writer"
      "\<not> handled_now y2 (cl_conn a)"
    using assms(5,6) by (simp_all add: client_ran_def)
  have c: "\<forall>(c', m) \<in> set (executed_between y1 y2). c' \<noteq> cl_conn a \<longrightarrow>
      list_all (\<lambda>m'. \<not> writes m (command_key m')) (commands_of y2 (cl_conn a))"
    using assms(9) unfolding a(2) harmless_def .
  note w = respond_client[OF test_words(3,4)] and k = client_keys[OF test_words(3,4)]
  have "snd (respond_all (script_messages shared_writer) s) ''shared'' = None" for s
    unfolding script_messages_def shared_writer_def
    by (simp only: list.map fst_conv respond_all.simps w prod.case snd_conv fun_upd_same)
  moreover have "command_line (delete_command ''shared'') \<in> set (commands_of y2 (cl_conn a))"
    unfolding a(2) script_messages_def shared_writer_def by simp
  ultimately have "HashMap_map (hashMap (server_of y2)) ''shared'' = None"
    using alone_between(2)[OF assms(1-3) a(1,3) c] k(3) unfolding a(2) by fastforce
  then show "client_passes b"
    using client_alone_passes[OF assms(1) r2 assms(4,7)] assms(8,10) tests_answered_well(6) by simp
qed

subsection \<open>A session of one command\<close>

lemma own_step_got:
  assumes "own_step i y y'" and "phase_inv y" and "phase y i = Some k"
  shows "got y' = got y \<and> length (threads y') = length (threads y) \<and> (\<forall>j. j \<noteq> i \<longrightarrow> phase y' j = phase y j) \<and>
    (phase y' i = Some k \<or> phase y' i = None)"
  using assms(1)
proof cases
  case (own_pool outcome p)
  then show ?thesis using assms(2,3) by (auto simp: phase_inv_def)
qed (use assms(3) in auto)

lemma finish_job:
  assumes "system_inv s0 d0 y" and "pool_alive (dsp y)" and "phase y i = Some k"
  shows "\<exists>y'. (sparing server_of system_step)\<^sup>*\<^sup>* y y' \<and> got y' = got y \<and> length (threads y') = length (threads y) \<and>
    phase y' = (phase y)(i := None)"
  using assms
proof (induction "job_left y i" arbitrary: y rule: less_induct)
  case less
  have inv: "phase_inv y" "concurrent_inv s0 (conc_of y)" using less.prems(1) by (simp_all add: system_inv_def)
  obtain c where c: "running_job (dsp y) i c" using inv(1) less.prems(3) by (auto simp: phase_inv_def)
  obtain z where z: "own_step i y z" using job_enabled[OF inv less.prems(2) c] by blast
  have sz: "sparing server_of system_step y z" using z by (rule own_step_sparing)
  have st: "system_step y z" using z by (rule own_step_system)
  have f: "got z = got y" "length (threads z) = length (threads y)" "\<And>j. j \<noteq> i \<Longrightarrow> phase z j = phase y j"
      "phase z i = Some k \<or> phase z i = None"
    using own_step_got[OF z inv(1) less.prems(3)] by simp_all
  show ?case
  proof (cases "phase z i")
    case None
    then have "phase z = (phase y)(i := None)" using f(3) by auto
    then show ?thesis using sz f(1,2) by blast
  next
    case (Some k')
    have sz': "system_inv s0 d0 z" "pool_alive (dsp z)"
      using system_step_inv[OF sz less.prems(1)] system_step_alive[OF st inv(1) less.prems(2)] by blast+
    have "phase_inv z" using sz'(1) by (simp add: system_inv_def)
    then have "worker_of z i \<noteq> AtLock" using Some by (auto simp: phase_inv_def running_worker)
    then have "job_left z i < job_left y i" using own_step_job[OF z inv(1) c] by blast
    then obtain y' where y': "(sparing server_of system_step)\<^sup>*\<^sup>* z y'" "got y' = got z" "length (threads y') = length (threads z)"
        "phase y' = (phase z)(i := None)"
      using less.hyps[of z] sz' f(4) Some by fastforce
    moreover have "(phase z)(i := None) = (phase y)(i := None)" using f(3) by auto
    ultimately show ?thesis using sz f(1,2) by (metis converse_rtranclp_into_rtranclp)
  qed
qed

text \<open>A client connects, sends one command, and is answered.\<close>

lemma example_session:
  assumes "newline \<in> set m" and "length m \<le> MAX_COMMAND_BUFFER_LENGTH"
  obtains S0 y where "server_started S0" "(sparing server_of system_step)\<^sup>*\<^sup>* (System_new S0) y" "commands_of y 0 = [m]"
    "\<not> handled_now y 0" "\<forall>(c, m') \<in> set (executed_between (System_new S0) y). c = 0"
    "HashMap_map (hashMap S0) = Map.empty"
proof -
  obtain S0 x where x: "server_started S0" "plain_step\<^sup>*\<^sup>* (Dispatch_new S0) x" "running_job x 0 0"
    "commandBuffer (conn_objects (srv x) ! 0) = ''''" "HashMap_map (hashMap (srv x)) = Map.empty" "hashMap S0 = hashMap (srv x)"
    by (rule example_plain)
  define y0 where "y0 = (System_new S0)\<lparr>dsp := x\<rparr>"
  have r0: "(sparing server_of system_step)\<^sup>*\<^sup>* (System_new S0) y0"
    using plain_quiet[OF x(2), of "System_new S0"] by (simp add: y0_def System_new_def)
  define y1 where "y1 = y0\<lparr>dsp := x\<lparr>srv := begin_command 0 0 (srv x)\<rparr>, phase := [0 \<mapsto> 0],
      threads := [(0, m, Parsing m)], hist := [Invoked 0 m], got := [(0, m)]\<rparr>"
  have "complete_message (Received m) 0 (srv x) = Some m" using assms by (simp add: complete_message_def x(4))
  then have "system_step y0 y1"
    using sys_command[of y0 0 0 "Received m" m 0] x(3) by (simp add: y0_def y1_def System_new_def)
  then have "sparing server_of system_step y0 y1" by (simp add: sparing_def spares_same y0_def y1_def)
  with r0 have r1: "(sparing server_of system_step)\<^sup>*\<^sup>* (System_new S0) y1" by (rule rtranclp.rtrancl_into_rtrancl)
  have "phase y1 0 = Some 0" by (simp add: y1_def)
  then obtain y where y: "(sparing server_of system_step)\<^sup>*\<^sup>* y1 y" "got y = got y1" "length (threads y) = length (threads y1)"
      "phase y = (phase y1)(0 := None)"
    using finish_job[OF system_reachable[OF x(1) r1] system_reachable_alive[OF x(1) sparing_steps[OF r1]]] by blast
  have r: "(sparing server_of system_step)\<^sup>*\<^sup>* (System_new S0) y" using r1 y(1) by (rule rtranclp_trans)
  have t: "length (threads y) = 1" "fst (threads y ! 0) = 0"
    using y(3) system_steps_grow[OF y(1) system_reachable[OF x(1) r1]] by (simp_all add: y1_def)
  have "\<forall>p \<in> set (pts y). fst p < length (threads y)"
    using system_reachable[OF x(1) r] by (simp add: system_inv_def conn_inv_def)
  then have e: "\<forall>(c, m') \<in> set (executed_between (System_new S0) y). c = 0"
    using t by (auto simp: executed_between_def System_new_def)
  have "phase y = Map.empty" unfolding y(4) by (simp add: y1_def)
  then have "\<not> handled_now y 0" by (simp add: handled_now_def)
  moreover have "commands_of y 0 = [m]" using assms by (simp add: commands_of_def y(2) y1_def not_less)
  ultimately show thesis using that[OF x(1) r _ _ e] x(5,6) by simp
qed

lemma nobody_else: "\<forall>(c, m') \<in> xs. c = d \<Longrightarrow> \<forall>(c, m) \<in> xs. c \<noteq> d \<longrightarrow> P c m"
  by auto

lemma no_commands_yet: "commands_of (System_new S0) c = []"
  by (simp add: commands_of_def System_new_def)



end
