(* ===== verification/Rates.thy ===== *)
theory Rates
  imports UnitTests
begin

text \<open>
  The promise of a token bucket (\<open>src/Limit/Limiter.cpp\<close>, lines 41 to 72): in any stretch of
  time an address is granted no more than a full bucket and what is refilled meanwhile, for the
  limiter that the server constructs (\<open>src/Server/Server.cpp\<close> line 11: ten tokens, five per
  second) and with the rounding of its doubles; then the integration test that relies on it
  (\<open>src/Tests/integration/test_basic_commands.py\<close>, lines 78 to 102).
\<close>

subsection \<open>Rounding of small numbers\<close>

lemma rnd64_below:
  assumes "0 \<le> x" and "x < 2 powi k" and "- 1021 \<le> k"
  shows "rnd64 x \<le> x + 2 powi (k - 53)"
proof (cases "x = 0")
  case False
  then have x: "0 < x" using assms(1) by simp
  have "expo x < k" by (rule expo_less[OF x assms(2)])
  then have "ulp_expo x \<le> k - 53" using assms(3) by (simp add: ulp_expo_def)
  then have g: "(2 :: rat) powi ulp_expo x \<le> 2 powi (k - 53)" by (simp add: powi_le_iff)
  have "rnd64 x = on_grid (2 powi ulp_expo x) x" using x by (simp add: rnd64_def rnd_pos_def)
  moreover have "\<bar>on_grid (2 powi ulp_expo x) x - x\<bar> \<le> 2 powi ulp_expo x / 2" by (rule on_grid_error) simp
  moreover have "(0 :: rat) < 2 powi ulp_expo x" by simp
  ultimately show ?thesis using g by linarith
qed simp

definition slack :: rat where
  "slack = 1 / 2 ^ 44"

lemma rnd64_small:
  assumes "0 \<le> x" and "x < 64"
  shows "rnd64 x \<le> x + slack / 8"
proof -
  have "(2 :: rat) powi 6 = 64" "(2 :: rat) powi (6 - 53) = slack / 8"
    by (simp_all add: power_int_def slack_def power_one_over)
  then show ?thesis using rnd64_below[of x 6] assms by simp
qed

text \<open>What a bucket gains in \<open>ns\<close> nanoseconds.\<close>

definition earned :: "int \<Rightarrow> rat" where
  "earned ns = 5 * of_int ns / 1000000000"

lemma earned_add: "earned (a + b) = earned a + earned b"
  by (simp add: earned_def ring_distribs add_divide_distrib)

lemma earned_mono: "a \<le> b \<Longrightarrow> earned a \<le> earned b"
  by (simp add: earned_def)

lemma earned_nonneg: "0 \<le> a \<Longrightarrow> 0 \<le> earned a"
  by (simp add: earned_def)

lemma refill_bound:
  assumes "0 \<le> tok" and "tok \<le> 10" and "0 \<le> ns"
  shows "min 10 (dadd tok (dmul (to_seconds ns) 5)) \<le> tok + earned ns + slack"
proof (cases "2000000000 \<le> ns")
  case True
  then have "(10 :: rat) \<le> earned ns" using earned_mono[OF True] by (simp add: earned_def)
  then show ?thesis using assms(1) by (simp add: slack_def min_def)
next
  case False
  have e: "(0 :: rat) < slack" "slack < 1" by (simp_all add: slack_def)
  have s0: "rnd64 (of_int ns) = of_int ns" by (rule rnd64_of_int) (use False assms(3) in simp)
  have "(of_int ns :: rat) < of_int 2000000000" using False by (simp only: of_int_less_iff not_le)
  then have s: "0 \<le> (of_int ns / 1000000000 :: rat)" "(of_int ns / 1000000000 :: rat) < 2" using assms(3) by simp_all
  have t: "to_seconds ns \<le> of_int ns / 1000000000 + slack / 8"
    unfolding to_seconds_def ddiv_def s0 by (rule rnd64_small) (use s in simp_all)
  have tn: "0 \<le> to_seconds ns" using assms(3) by (rule to_seconds_nonneg)
  have p: "dmul (to_seconds ns) 5 \<le> to_seconds ns * 5 + slack / 8"
    unfolding dmul_def by (rule rnd64_small) (use t tn s e in linarith)+
  have pn: "0 \<le> dmul (to_seconds ns) 5" unfolding dmul_def using tn by (simp add: rnd64.nonneg)
  have "dadd tok (dmul (to_seconds ns) 5) \<le> tok + dmul (to_seconds ns) 5 + slack / 8"
    unfolding dadd_def by (rule rnd64_small) (use assms(1,2) p pn t s e in linarith)+
  then show ?thesis using p t e by (simp add: earned_def min_def)
qed

subsection \<open>Grants of one address\<close>

definition granted :: "uint32 \<Rightarrow> (uint32 \<times> int \<times> int) list \<Rightarrow> RateLimiter \<Rightarrow> nat" where
  "granted ip rs l = length (filter (\<lambda>(r, a). fst r = ip \<and> a) (zip rs (fst (isAllowed_run rs l))))"

lemma granted_Nil [simp]: "granted ip [] l = 0"
  by (simp add: granted_def)

lemma granted_Cons:
  "granted ip ((a, tg, tp) # rs) l =
     (if a = ip \<and> fst (isAllowed a tg tp l) then 1 else 0) + granted ip rs (snd (isAllowed a tg tp l))"
  by (auto simp: granted_def isAllowed_run_Cons)

text \<open>A request of the address that the window lets through; all others leave its bucket alone.\<close>

lemma isAllowed_bucket:
  assumes "limiter_ok l" and "refilled_before tp l"
  obtains (untouched) "ipRecords (snd (isAllowed a tg tp l)) ip = ipRecords l ip" "a \<noteq> ip \<or> \<not> fst (isAllowed a tg tp l)"
  | (refused) "a = ip" "\<not> fst (isAllowed a tg tp l)"
      "ipRecords (snd (isAllowed a tg tp l)) ip = Some \<lparr>tokens = available ip tp l, lastRefill = tp\<rparr>"
  | (taken) "a = ip" "1 \<le> available ip tp l"
      "ipRecords (snd (isAllowed a tg tp l)) ip = Some \<lparr>tokens = dsub (available ip tp l) 1, lastRefill = tp\<rparr>"
proof -
  let ?l = "snd (isAllowedGlobal tg l)"
  have av: "available ip tp ?l = available ip tp l"
    by (simp add: available_def frame_simps cong: option.case_cong)
  show thesis
  proof (cases "fst (isAllowedGlobal tg l) \<and> a = ip")
    case True
    then show thesis using refused taken av
      by (cases "available ip tp l < 1") (auto simp: isAllowed_cases isAllowedPrivate_available)
  next
    case False
    then show thesis using untouched by (auto simp: isAllowed_cases frame_simps)
  qed
qed

definition ten_five :: "RateLimiter \<Rightarrow> bool" where
  "ten_five l \<longleftrightarrow> limiter_ok l \<and> maxTokens l = 10 \<and> refillRate l = 5"

lemma ten_five_step:
  assumes "ten_five l" and "refilled_before tp l"
  shows "ten_five (snd (isAllowed a tg tp l))" and "refilled_before tp (snd (isAllowed a tg tp l))"
  using assms isAllowed_ok[of l tp a tg] by (simp_all add: ten_five_def frame_simps)

lemma available_ten_five:
  assumes "ten_five l" and "refilled_before tp l"
  shows "available ip tp l \<le> 10" and "0 \<le> available ip tp l" and "is_double (available ip tp l)"
    and "1 \<le> available ip tp l \<Longrightarrow> dsub (available ip tp l) 1 = available ip tp l - 1"
    and "ipRecords l ip = Some r \<Longrightarrow> available ip tp l \<le> tokens r + earned (tp - lastRefill r) + slack"
proof -
  note b = available_bounds[OF _ assms(2), of ip]
  show a: "available ip tp l \<le> 10" "0 \<le> available ip tp l" "is_double (available ip tp l)"
    using b assms(1) by (simp_all add: ten_five_def)
  show "dsub (available ip tp l) 1 = available ip tp l - 1" if "1 \<le> available ip tp l"
    by (rule dsub_1_exact[OF a(3) that]) (use a(1) in simp)
  show "available ip tp l \<le> tokens r + earned (tp - lastRefill r) + slack" if "ipRecords l ip = Some r"
  proof -
    have "0 \<le> tokens r" "tokens r \<le> 10" "lastRefill r \<le> tp"
      using assms that by (auto simp: ten_five_def limiter_ok_def bucket_ok_def refilled_before_def)
    then show ?thesis using refill_bound[of "tokens r" "tp - lastRefill r"] that assms(1)
      by (simp add: available_def ten_five_def)
  qed
qed

lemma granted_from_record:
  assumes "ten_five l" and "refilled_before t l" and "steady_from t rs" and "ipRecords l ip = Some r"
    and "\<forall>(a, tg, tp) \<in> set rs. tp \<le> T" and "lastRefill r \<le> T"
  shows "of_nat (granted ip rs l) \<le> tokens r + earned (T - lastRefill r) + of_nat (length rs) * slack"
  using assms
proof (induction rs arbitrary: l t r)
  case Nil
  then have "0 \<le> tokens r" by (auto simp: ten_five_def limiter_ok_def bucket_ok_def)
  then show ?case using Nil.prems(6) by (simp add: earned_nonneg)
next
  case (Cons x rs)
  obtain a tg tp where x: "x = (a, tg, tp)" by (cases x)
  have tp: "t \<le> tp" "steady_from tp rs" "tp \<le> T" using Cons.prems(3,5) x by auto
  have rf: "refilled_before tp l" using Cons.prems(2) tp(1) by (rule refilled_before_mono)
  let ?l = "snd (isAllowed a tg tp l)"
  note step = ten_five_step[OF Cons.prems(1) rf, of a tg]
  note av = available_ten_five[OF Cons.prems(1) rf, of ip]
  have T: "\<forall>(a, tg, tp) \<in> set rs. tp \<le> T" using Cons.prems(5) by simp
  have e: "0 \<le> slack" by (simp add: slack_def)
  have after: "of_nat (granted ip rs ?l) \<le> tokens r' + earned (T - lastRefill r') + of_nat (length rs) * slack"
    if "ipRecords ?l ip = Some r'" "lastRefill r' \<le> T" for r'
    by (rule Cons.IH[OF step tp(2) that(1) T that(2)])
  have split: "earned (T - lastRefill r) = earned (tp - lastRefill r) + earned (T - tp)"
    using earned_add[of "tp - lastRefill r" "T - tp"] by simp
  from Cons.prems(1) have "limiter_ok l" by (simp add: ten_five_def)
  from this rf show ?case
  proof (cases rule: isAllowed_bucket[where a = a and tg = tg and ip = ip])
    case untouched
    then show ?thesis using after[of r] Cons.prems(4,6) e unfolding x by (auto simp: granted_Cons distrib_right)
  next
    case refused
    then show ?thesis using after[OF refused(3)] av(5)[OF Cons.prems(4)] tp(3) unfolding split x
      by (simp add: granted_Cons distrib_right)
  next
    case taken
    then show ?thesis using after[OF taken(3)] av(4)[OF taken(2)] av(5)[OF Cons.prems(4)] tp(3) unfolding split x
      by (simp add: granted_Cons distrib_right)
  qed
qed

lemma granted_in_window:
  assumes "ten_five l" and "refilled_before t l" and "steady_from t rs"
    and "\<forall>(a, tg, tp) \<in> set rs. t0 \<le> tp \<and> tp \<le> t0 + D" and "0 \<le> D"
  shows "of_nat (granted ip rs l) \<le> 10 + earned D + of_nat (length rs) * slack"
  using assms(1-4)
proof (induction rs arbitrary: l t)
  case Nil
  then show ?case using earned_nonneg[OF assms(5)] by simp
next
  case (Cons x rs)
  obtain a tg tp where x: "x = (a, tg, tp)" by (cases x)
  have tp: "t \<le> tp" "steady_from tp rs" "t0 \<le> tp" "tp \<le> t0 + D" using Cons.prems(3,4) x by auto
  have rf: "refilled_before tp l" using Cons.prems(2) tp(1) by (rule refilled_before_mono)
  let ?l = "snd (isAllowed a tg tp l)"
  note step = ten_five_step[OF Cons.prems(1) rf, of a tg]
  note av = available_ten_five[OF Cons.prems(1) rf, of ip]
  have T: "\<forall>(a, tg, tp) \<in> set rs. tp \<le> t0 + D" using Cons.prems(4) by auto
  have e: "0 \<le> slack" by (simp add: slack_def)
  have after: "of_nat (granted ip rs ?l) \<le> tokens r' + earned (t0 + D - lastRefill r') + of_nat (length rs) * slack"
    if "ipRecords ?l ip = Some r'" "lastRefill r' \<le> t0 + D" for r'
    by (rule granted_from_record[OF step tp(2) that(1) T that(2)])
  have left: "earned (t0 + D - tp) \<le> earned D" by (rule earned_mono) (use tp(3) in simp)
  from Cons.prems(1) have "limiter_ok l" by (simp add: ten_five_def)
  from this rf show ?case
  proof (cases rule: isAllowed_bucket[where a = a and tg = tg and ip = ip])
    case untouched
    have "of_nat (granted ip rs ?l) \<le> 10 + earned D + of_nat (length rs) * slack"
      by (rule Cons.IH[OF step tp(2)]) (use Cons.prems(4) in auto)
    then show ?thesis using untouched(2) e unfolding x by (auto simp: granted_Cons distrib_right)
  next
    case refused
    then show ?thesis using after[OF refused(3)] av(1) tp(4) left e unfolding x by (simp add: granted_Cons distrib_right)
  next
    case taken
    then show ?thesis using after[OF taken(3)] av(4)[OF taken(2)] av(1) tp(4) left e unfolding x
      by (simp add: granted_Cons distrib_right)
  qed
qed


lemma ten_five_run:
  assumes "ten_five l" and "refilled_before t l" and "steady_from t (rs1 @ rs2)"
  obtains t' where "ten_five (snd (isAllowed_run rs1 l))" "refilled_before t' (snd (isAllowed_run rs1 l))"
    "steady_from t' rs2"
  using assms
proof (induction rs1 arbitrary: l t thesis)
  case (Cons x rs1)
  obtain a tg tp where x: "x = (a, tg, tp)" by (cases x)
  have rf: "refilled_before tp l" using Cons.prems(3,4) x by (auto intro: refilled_before_mono)
  note step = ten_five_step[OF Cons.prems(2) rf, of a tg]
  show ?case using Cons.IH[OF _ step] Cons.prems(1,4) unfolding x by (auto simp: isAllowed_run_Cons)
qed simp

lemma ten_five_new: "ten_five (RateLimiter_new now 10 5 limit)" "refilled_before t (RateLimiter_new now 10 5 limit)"
  using RateLimiter_new_ok[of 10 5 now limit t] small_doubles(5) by (simp_all add: ten_five_def RateLimiter_new_def)

lemma granted_after:
  assumes "steady_from now (rs1 @ rs2)" and "\<forall>(a, tg, tp) \<in> set rs2. t0 \<le> tp \<and> tp \<le> t0 + D" and "0 \<le> D"
  shows "of_nat (granted ip rs2 (snd (isAllowed_run rs1 (RateLimiter_new now 10 5 1000)))) \<le>
    10 + earned D + of_nat (length rs2) * slack"
proof -
  obtain t where t: "ten_five (snd (isAllowed_run rs1 (RateLimiter_new now 10 5 1000)))"
      "refilled_before t (snd (isAllowed_run rs1 (RateLimiter_new now 10 5 1000)))" "steady_from t rs2"
    by (rule ten_five_run[OF ten_five_new(1) ten_five_new(2)[where t = now] assms(1)])
  from granted_in_window[OF t assms(2,3)] show ?thesis .
qed

text \<open>
  C37 (bounds). The promise of the token bucket: whatever requests came before, from whatever
  addresses, in any stretch of \<open>D\<close> nanoseconds an address is granted at most ten connections
  and five for each second of the stretch, up to \<open>2 ^ -44\<close> of a connection per request for the
  rounding of the doubles.
\<close>

theorem connections_within_rate:
  assumes "steady_from now (rs1 @ rs2)" and "\<forall>(a, tg, tp) \<in> set rs2. t0 \<le> tp \<and> tp \<le> t0 + D" and "0 \<le> D"
  shows "of_nat (granted ip rs2 (snd (isAllowed_run rs1 (RateLimiter_new now 10 5 1000)))) \<le>
    10 + 5 * of_int D / 1000000000 + of_nat (length rs2) / (2 ^ 44 :: rat)"
  using granted_after[OF assms, of ip] by (simp add: earned_def slack_def)

text \<open>An address that asks twelve times within a tenth of a second is refused at least once.\<close>

theorem connections_within_rate_witness:
  "granted 7 (replicate 12 (7, 0, 0)) (RateLimiter_new 0 10 5 1000) \<le> 10"
proof -
  have "steady_from 0 (replicate n (7, 0, 0))" for n by (induction n) simp_all
  then have "rat_of_nat (granted 7 (replicate 12 (7, 0, 0)) (snd (isAllowed_run [] (RateLimiter_new 0 10 5 1000)))) \<le>
      10 + 5 * of_int 0 / 1000000000 + of_nat (length (replicate 12 (7 :: uint32, 0 :: int, 0 :: int))) / 2 ^ 44"
    by (intro connections_within_rate[of 0 "[]" _ 0]) simp_all
  then have "rat_of_nat (granted 7 (replicate 12 (7, 0, 0)) (RateLimiter_new 0 10 5 1000)) < 11" by simp
  then have "rat_of_nat (granted 7 (replicate 12 (7, 0, 0)) (RateLimiter_new 0 10 5 1000)) < of_nat 11" by simp
  then show ?thesis by (simp only: of_nat_less_iff)
qed

subsection \<open>The test that counts on it\<close>

text \<open>
  Up to fifty connections, one after the other, until one is closed without an answer;
  \<open>clock i\<close> are the readings of the server for the \<open>i\<close>-th.
\<close>

definition blocks_excess_connections :: "uint32 \<Rightarrow> (nat \<Rightarrow> int \<times> int) \<Rightarrow> RateLimiter \<Rightarrow> bool" where
  "blocks_excess_connections ip clock limiter \<longleftrightarrow> False \<in> set (asked limiter clock (replicate 50 ip))"

lemma asked_requests:
  "asked l clock (replicate n ip) = fst (isAllowed_run (map (\<lambda>i. (ip, clock i)) [0..<n]) l)"
proof -
  have "map (\<lambda>i. (replicate n ip ! i, clock i)) [0..<n] = map (\<lambda>i. (ip, clock i)) [0..<n]" by simp
  then show ?thesis unfolding asked_def length_replicate by (rule arg_cong)
qed

lemma length_answers: "length (fst (isAllowed_run rs l)) = length rs"
  by (induction rs arbitrary: l) (auto simp: isAllowed_run_Cons)

lemma all_granted:
  assumes "False \<notin> set (fst (isAllowed_run rs l))" and "\<forall>r \<in> set rs. fst r = ip"
  shows "granted ip rs l = length rs"
proof -
  have "fst r = ip \<and> a" if "(r, a) \<in> set (zip rs (fst (isAllowed_run rs l)))" for r a
    using that assms by (metis set_zip_leftD set_zip_rightD)
  then have "filter (\<lambda>(r, a). fst r = ip \<and> a) (zip rs (fst (isAllowed_run rs l))) = zip rs (fst (isAllowed_run rs l))"
    by (intro filter_True) auto
  then show ?thesis by (simp add: granted_def length_answers)
qed

theorem fast_attempts_are_blocked:
  assumes "steady_from now (rs @ map (\<lambda>i. (ip, clock i)) [0..<50])"
    and "\<forall>i < 50. snd (clock 0) \<le> snd (clock i) \<and> snd (clock i) \<le> snd (clock 0) + 7900000000"
  shows "blocks_excess_connections ip clock (snd (isAllowed_run rs (RateLimiter_new now 10 5 1000)))"
proof (rule ccontr)
  let ?l = "snd (isAllowed_run rs (RateLimiter_new now 10 5 1000))" and ?rs = "map (\<lambda>i. (ip, clock i)) [0..<50]"
  assume "\<not> ?thesis"
  then have "granted ip ?rs ?l = length ?rs"
    by (intro all_granted) (auto simp: blocks_excess_connections_def asked_requests)
  then have "granted ip ?rs ?l = 50" by simp
  moreover have "of_nat (granted ip ?rs ?l) \<le> 10 + earned 7900000000 + of_nat (length ?rs) * slack"
    using assms(2) by (intro granted_after[OF assms(1)]) auto
  ultimately show False by (simp add: earned_def slack_def)
qed

text \<open>On a machine where each attempt takes a quarter of a second, none is blocked, and the test fails.\<close>

lemma quarter_refill:
  assumes "250000000 \<le> ns"
  shows "1 \<le> dmul (to_seconds ns) 5"
proof -
  have "of_int 250000000 \<le> rnd64 (of_int ns)"
    by (rule rnd64.above_fixpoint[OF _ rnd64_of_int]) (use assms in \<open>simp_all only: of_int_le_iff, simp\<close>)
  moreover have "rnd64 (1 / 4) = (1 / 4 :: rat)" using rnd64_exact[of 1 "- 2"]
    by (simp add: power_int_def eval_nat_numeral)
  ultimately have "1 / 4 \<le> to_seconds ns"
    unfolding to_seconds_def ddiv_def by (intro rnd64.above_fixpoint) simp_all
  then show ?thesis unfolding dmul_def by (intro rnd64.ge_one) simp
qed

lemma slow_private:
  assumes "ten_five l" and "refilled_before (snd (clock 0)) l"
    and "\<And>r. ipRecords l ip = Some r \<Longrightarrow> lastRefill r + 250000000 \<le> snd (clock 0)"
    and "\<And>i. snd (clock i) + 250000000 \<le> snd (clock (Suc i))"
  shows "private_answers (map (\<lambda>i. (ip, clock i)) [0..<n]) l = replicate n True"
  using assms
proof (induction n arbitrary: l clock)
  case (Suc n)
  let ?t = "snd (clock 0)" and ?l = "snd (isAllowedPrivate ip (snd (clock 0)) l)"
  note av = available_ten_five[OF Suc.prems(1,2), of ip]
  have one: "1 \<le> available ip ?t l"
  proof (cases "ipRecords l ip")
    case None
    then show ?thesis using Suc.prems(1) small_doubles(5) by (simp add: available_fresh ten_five_def)
  next
    case (Some r)
    have "0 \<le> tokens r" using Suc.prems(1) Some by (auto simp: ten_five_def limiter_ok_def bucket_ok_def)
    moreover have "1 \<le> dmul (to_seconds (?t - lastRefill r)) 5" using Suc.prems(3)[OF Some] by (intro quarter_refill) simp
    ultimately have "1 \<le> dadd (tokens r) (dmul (to_seconds (?t - lastRefill r)) 5)"
      unfolding dadd_def by (intro rnd64.ge_one) simp
    then show ?thesis using Some Suc.prems(1) by (simp add: available_def ten_five_def)
  qed
  then have l: "fst (isAllowedPrivate ip ?t l)" "ipRecords ?l ip = Some \<lparr>tokens = dsub (available ip ?t l) 1, lastRefill = ?t\<rparr>"
    by (simp_all add: isAllowedPrivate_available)
  have "ten_five ?l" using Suc.prems(1,2) isAllowedPrivate_ok[of l ?t ip] by (simp add: ten_five_def frame_simps)
  moreover have "refilled_before (snd (clock (Suc 0))) ?l"
    by (rule refilled_before_mono[OF isAllowedPrivate_refilled[OF Suc.prems(2)]]) (use Suc.prems(4)[of 0] in simp)
  ultimately have "private_answers (map (\<lambda>i. (ip, clock (Suc i))) [0..<n]) ?l = replicate n True"
    using Suc.IH[of ?l "\<lambda>i. clock (Suc i)"] Suc.prems(4) l(2) by simp
  moreover have "map (\<lambda>i. (ip, clock i)) [0..<Suc n] = (ip, clock 0) # map (\<lambda>i. (ip, clock (Suc i))) [0..<n]"
    by (simp add: upt_conv_Cons map_Suc_upt[symmetric] comp_def del: upt_Suc)
  ultimately show ?case using l(1) by simp
qed simp

text \<open>
  So the test depends on the speed of the machine: on a fresh server it passes when the fifty
  attempts come within 7.9 seconds, and fails when each takes a quarter of a second.
\<close>

theorem slow_attempts_pass:
  assumes "\<And>i. snd (clock i) + 250000000 \<le> snd (clock (Suc i))"
  shows "\<not> blocks_excess_connections ip clock (RateLimiter_new now 10 5 1000)"
proof -
  let ?l = "RateLimiter_new now 10 5 1000"
  have "fst (isAllowed_run (map (\<lambda>i. (ip, clock i)) [0..<50]) ?l) = private_answers (map (\<lambda>i. (ip, clock i)) [0..<50]) ?l"
    by (rule plenty_answers) (simp_all add: RateLimiter_new_def)
  also have "\<dots> = replicate 50 True"
    by (rule slow_private[OF ten_five_new]) (use assms in \<open>simp_all add: RateLimiter_new_def\<close>)
  finally show ?thesis by (simp add: blocks_excess_connections_def asked_requests)
qed

end
