(* ===== verification/Setup.thy ===== *)
theory Setup
  imports Server_Correct
begin

text \<open>
  What the constructor of the server sets up besides its parts (\<open>src/Server/Server.cpp\<close>, lines
  14 to 16 and 40 to 42): the callback of the session manager
  (\<open>src/UserSession/UserSession.cpp\<close>, lines 62 to 64), and the address it will listen on; and
  the end of a session object (lines 81 to 83 and 89 to 95 there).
\<close>

subsection \<open>The callback of the session manager\<close>

text \<open>The manager with its other member; the callback acts on a state of its own.\<close>

record 's SessionRegistry =
  manager :: UserSessionManager
  on_session_expired :: "(SocketType \<Rightarrow> 's \<Rightarrow> 's) option"

definition SessionRegistry_new :: "'s SessionRegistry" where
  "SessionRegistry_new = \<lparr>manager = UserSessionManager_new, on_session_expired = None\<rparr>"

definition set_on_session_expired :: "(SocketType \<Rightarrow> 's \<Rightarrow> 's) \<Rightarrow> 's SessionRegistry \<Rightarrow> 's SessionRegistry" where
  "set_on_session_expired cb R = R\<lparr>on_session_expired := Some cb\<rparr>"

definition registry_cleanup :: "(SessionKey \<times> int) list \<Rightarrow> 's SessionRegistry \<times> 's \<Rightarrow> 's SessionRegistry \<times> 's" where
  "registry_cleanup order Rs =
     (case cleanup_expired_sessions (on_session_expired (fst Rs)) order (manager (fst Rs), snd Rs) of
        (M, st) \<Rightarrow> ((fst Rs)\<lparr>manager := M\<rparr>, st))"

definition server_registry :: "Server SessionRegistry" where
  "server_registry = set_on_session_expired onSessionExpired SessionRegistry_new"

subsection \<open>The end of a session object\<close>

text \<open>
  \<open>terminate_session\<close> is empty: the socket is the server's.  The state stands for whatever the
  destructor could act on.
\<close>

definition terminate_session :: "UserSession \<Rightarrow> 's \<Rightarrow> 's" where
  "terminate_session s st = st"

definition UserSession_destroy :: "UserSession \<Rightarrow> 's \<Rightarrow> 's" where
  "UserSession_destroy s st = terminate_session s st"

subsection \<open>The address of the server\<close>

definition INADDR_ANY :: uint32 where
  "INADDR_ANY = 0"

definition htons :: "uint16 \<Rightarrow> uint16" where
  "htons p = push_bit 8 p OR drop_bit 8 p"

text \<open>The port is an \<open>int\<close>; the parameter of \<open>htons\<close> keeps its low 16 bits.\<close>

definition server_address :: "int32 \<Rightarrow> sockaddr_in" where
  "server_address port = \<lparr>sin_addr = INADDR_ANY, sin_port = htons (ucast port)\<rparr>"

definition main_port :: int32 where
  "main_port = 6625"

lemma ntohs_htons: "ntohs (htons p) = p"
  using ntohs_ntohs[of p] by (simp add: htons_def ntohs_def)

subsection \<open>Properties\<close>

lemma fold_server_callback:
  "fold onSessionExpired socks S = S\<lparr>expiredSockets := expiredSockets S @ socks\<rparr>"
  by (induction socks arbitrary: S) (simp_all add: onSessionExpired_def)

text \<open>
  Every session that a cleanup removes is told to the server, which closes its connection on
  the next round of the event loop; had the constructor not registered the callback, the
  sessions would go and the server would keep their sockets open for good.
\<close>

theorem expiry_reaches_server:
  assumes "distinct (map fst order)" and "on_session_expired R = on_session_expired server_registry"
  shows "registry_cleanup order (R, S) =
       (R\<lparr>manager := (manager R)\<lparr>users_sessions := kept order (manager R)\<rparr>\<rparr>,
        S\<lparr>expiredSockets := expiredSockets S @ expired_sockets order (manager R)\<rparr>)"
    and "registry_cleanup order (R\<lparr>on_session_expired := None\<rparr>, S) =
       (R\<lparr>on_session_expired := None, manager := (manager R)\<lparr>users_sessions := kept order (manager R)\<rparr>\<rparr>, S)"
proof -
  show "registry_cleanup order (R, S) =
       (R\<lparr>manager := (manager R)\<lparr>users_sessions := kept order (manager R)\<rparr>\<rparr>,
        S\<lparr>expiredSockets := expiredSockets S @ expired_sockets order (manager R)\<rparr>)"
    using assms by (simp add: registry_cleanup_def server_registry_def set_on_session_expired_def
        cleanup_run fold_server_callback)
  have "cleanup_expired_sessions None order (manager R, S) =
      ((manager R)\<lparr>users_sessions := kept order (manager R)\<rparr>, S)"
    using cleanup_without_callback[of order "manager R" S] cleanup_run[OF assms(1), of "\<lambda>_ s. s" "manager R" S]
    by (simp add: prod_eq_iff)
  then show "registry_cleanup order (R\<lparr>on_session_expired := None\<rparr>, S) =
       (R\<lparr>on_session_expired := None, manager := (manager R)\<lparr>users_sessions := kept order (manager R)\<rparr>\<rparr>, S)"
    by (simp add: registry_cleanup_def)
qed

text \<open>
  The server listens on the port it was given if that is one, and else on the port modulo
  \<open>2 ^ 16\<close>, without a complaint; the port of \<open>main\<close> is kept.
\<close>

theorem listens_on_port:
  "uint (ntohs (sin_port (server_address port))) = sint port mod 2 ^ 16 \<and>
   uint (ntohs (sin_port (server_address main_port))) = 6625"
proof -
  have u: "uint (ntohs (sin_port (server_address p))) = uint p mod 2 ^ 16" for p
    by (simp add: server_address_def ntohs_htons unsigned_ucast_eq take_bit_eq_mod)
  have "sint p mod 2 ^ 16 = uint p mod 2 ^ 16" for p :: int32
  proof -
    have "uint p = sint p mod 2 ^ 32" using uint_sint[of p] by (simp add: take_bit_eq_mod)
    then show ?thesis by (simp add: mod_mod_cancel)
  qed
  then show ?thesis by (simp add: u main_port_def)
qed

end
