(* ===== verification/Spec2Isabelle.thy ===== *)
theory Spec2Isabelle
  imports Prelude Store HashMap HashMap_Correct Doubles Limiter Streams Persistence Database Races
    UserSession EventLoop Server Server_Correct Linearize Concurrent OneShot Readiness ThreadPool Dispatch
    Expiry DiskFull Schedulers Startup Platform Lifecycle Locks System Sending Timing IocpContext UnitTests Fairness
    Durable Clients Rates Setup
begin

text \<open>
  Verification of the key-value database under \<open>src/src/\<close>: a TCP server that keeps a hash map
  in memory, logs every write, takes snapshots, limits connections per address and overall,
  and expires idle sessions.

  \<^bold>\<open>The program.\<close>  \<open>Server\<close> owns everything.  The main thread runs \<open>acceptClients\<close>, which asks
  the \<open>RateLimiter\<close>, registers a session with the \<open>UserSessionManager\<close>, enters the connection
  in a table and has the event loop watch the socket.  The event-loop thread
  (\<open>runEventLoop\<close>) closes expired sockets, waits, and hands each readable socket to the
  \<open>ThreadPool\<close>, whose workers run \<open>messageHandler\<close>: receive, collect a command in the
  connection's buffer, execute it on the \<open>HashMap\<close> and the log of \<open>Persistence\<close>, answer, and
  re-arm the socket.  The \<open>SnapshotScheduler\<close> thread dumps the map and resets the log every
  interval; the \<open>UserSessionBackgroundWorker\<close> thread removes expired sessions and queues
  their sockets for the event loop.

  \<^bold>\<open>The theories.\<close>
  \<^item> \<open>Prelude\<close>: machine integers, lists and maps, runs of operations that may have no defined
    result, and the locale \<open>simulation\<close> with the one proof that a run refines an abstract run.
  \<^item> \<open>Store\<close>: the abstract store, a partial map from strings to strings, its two updates, the
    last update of a key in a list, and the locale \<open>kv_store\<close>, the contract of an
    implementation.
  \<^item> \<open>HashMap\<close> models \<open>RAM/HashMap.h\<close> and \<open>RAM/HashMap.cpp\<close>: the nodes in a heap, the buckets
    as pointers, every operation and the destructor.  \<open>HashMap_Correct\<close> gives the heap
    invariant \<open>HashMap_inv\<close>, the bucket lists and the store of a map, interprets
    \<open>kv_store\<close>, and shows what each operation does to the chains, that nothing dangles and
    nothing leaks, and which characters of a key the hash depends on.
  \<^item> \<open>Doubles\<close> (binary64 rounding on the rationals, the locale \<open>rounding\<close>) and \<open>Limiter\<close> model
    \<open>Limit/Limiter.h\<close> and \<open>Limit/Limiter.cpp\<close>; the lemmas bound the buckets and the window and
    say when requests are granted.
  \<^item> \<open>Streams\<close>: extraction of words and lines, as the parsers use them.  \<open>Persistence\<close> models
    \<open>Storage/Persistence.h\<close> and \<open>Storage/Persistence.cpp\<close>; \<open>disk_store\<close> is the store two files
    describe, and the lemmas relate loading, logging, snapshots, failing calls, crashes and
    torn records to it.
  \<^item> \<open>Database\<close>: map and log together, as lines 290, 314, 6 and 81 of \<open>Server/Server.cpp\<close> drive
    them, an instance of \<open>simulation\<close>, and durability.  \<open>Races\<close>: the critical sections of
    those operations, interleaved by several threads, another instance of \<open>simulation\<close>.
    \<open>DiskFull\<close>: the same data path on a disk with a limited number of free bytes.
  \<^item> \<open>UserSession\<close> models \<open>UserSession/UserSession.h\<close> and \<open>UserSession/UserSession.cpp\<close>: the
    session table, what a cleanup removes, and when.
  \<^item> \<open>EventLoop\<close> models \<open>Networking/EventLoop.h\<close>, \<open>EpollEventLoop.cpp\<close> and \<open>IocpEventLoop.cpp\<close>.
    \<open>Readiness\<close> has what the server relies on as the locale \<open>readiness_loop\<close>, the behaviour of
    \<open>epoll_ctl\<close> and \<open>epoll_wait\<close> as the locale \<open>epoll_kernel\<close>, a \<open>sublocale\<close> that shows that
    \<open>EpollEventLoop\<close> meets the contract on every such kernel, and how \<open>IocpEventLoop\<close> breaks it.
    \<open>IocpContext\<close> puts the contexts of the completion-port loop into a memory, with the buffers
    and pointers \<open>WSARecv\<close> is given; the loop of \<open>EventLoop\<close> is its abstraction.  Whether
    \<open>WSARecv\<close> accepts a receive (\<open>queued\<close>), and how many bytes a completion moves (\<open>moved\<close>, at most
    what the buffer holds), are answers of the system.
  \<^item> \<open>Server\<close> models \<open>Server/Server.h\<close>, \<open>Server/Server.cpp\<close> and \<open>UserSession/Connection.h\<close>:
    the record \<open>Server\<close> has the members of the class, and there is one definition for each
    member function.  \<open>Server_Correct\<close> has the step relation of the server's threads, its
    invariant, the refinement of the command protocol \<open>respond\<close> by the handler, the handling
    of fragments, and the fate of sockets.  \<open>OneShot\<close> adds the set of sockets the kernel
    watches and shows that at most one job per connection is queued as long as no session
    expires while a job of its connection is queued or running (\<open>sparing\<close>), and what goes wrong
    otherwise: the program closes such a socket, and \<open>accept\<close> may return its number.
  \<^item> \<open>Linearize\<close>: the steps of \<open>Server_Correct\<close>, whole handlers and whole snapshots, as
    executable events; the responses of a run of them are those of the abstract server
    \<open>respond_all\<close> on one sequence of the clients' messages, and none of them is stuck.  \<open>Concurrent\<close> goes below the handler's step: handlers as threads of the
    critical sections of \<open>Races\<close>, and linearizability in real time.  \<open>Expiry\<close> relates the table
    of connections to the sessions: which connections a cleanup and a round of the loop close.
    \<open>Sending\<close> gives each connection the bytes that \<open>send\<close> took for it and the process the
    dispositions of its signals: what a client reads, and what ends the server.
  \<^item> \<open>ThreadPool\<close> models \<open>Worker/ThreadPool.h\<close> and \<open>Worker/ThreadPool.cpp\<close> with one program
    counter per worker; the invariants give mutual exclusion, first-in-first-out execution,
    exactly once, and that no notification of a job is lost; a weight bounds the workers'
    actions.  \<open>Dispatch\<close> runs the server and the pool together, one event and one action of a
    worker at a time: handlers of one connection never overlap, and every dispatched job is
    handled.  \<open>System\<close> puts everything together: the threads of \<open>Dispatch\<close>, with the handlers
    of \<open>Concurrent\<close> in place of the atomic ones, snapshots cut at their locks, and \<open>stop\<close>; its
    responses are linearizable, and in the runs of \<open>sparing\<close> steps, those in which no session expires
    while a job of its connection is queued or running, handlers of one connection never
    overlap and its commands are executed in the order in which they were sent.  \<open>Fairness\<close> has
    the infinite runs of \<open>System\<close>: no handler waits for another, and when no thread is forgotten
    every reported event gets a worker, unless the server is stopped, and every command its
    response; every run can be continued to such a run.  \<open>Durable\<close> has the files of \<open>System\<close>: in
    \<open>orderly\<close> runs, those without the two interleavings that \<open>Races\<close> shows to be harmful, a kill loses
    no answered command and a restart is invisible.
  \<^item> \<open>Schedulers\<close> models \<open>Worker/SnapshotScheduler.cpp\<close> and
    \<open>Worker/UserSessionBackgroundWorker.cpp\<close>, which run the same loop.  \<open>Timing\<close> adds the
    clock: the intervals, the deadline of the wait and a latency of the threads; from the
    distance of two cleanups follows when a silent client is disconnected.  \<open>Startup\<close>: a
    snapshot that comes before, during or after the load.
  \<^item> \<open>Locks\<close>: the functions as sequences of acquisitions, accesses and releases; a discipline
    (locks in the order of their ranks, guarded data under their lock) that excludes data
    races and deadlocks, and the table of connections, which has no lock.
  \<^item> \<open>Platform\<close> models both halves of \<open>Networking/NetworkTypes.h\<close>, \<open>EventLoopFactory.h\<close>, how the
    handler reads the result of \<open>recv\<close>, and the threads of \<open>main.cpp\<close>.  \<open>Lifecycle\<close> has the run of
    the process, \<open>main_run\<close>, from construction to the destructor, what a restart finds, which
    descriptors the shutdown closes twice, and which members the threads still use when the
    destructors of \<open>Server.h\<close>'s members run.
  \<^item> \<open>UnitTests\<close>: the tests of \<open>src/Tests\<close> on the models, the test of concurrent inserts in every
    interleaving, the tests of the limiter for all readings of the clock.  \<open>Clients\<close>: a client that
    alone writes its keys is isolated from the others, and with that the Python client and the
    integration tests of the commands, run against \<open>System\<close>.  \<open>Rates\<close>: the bound that the buckets
    of the limiter give over any stretch of time, rounding included, and the integration test
    that counts on it.
  \<^item> \<open>Setup\<close>: what the constructor of the server sets up besides its parts, the callback for expired
    sessions and the address it listens on, and the end of a session object.

  \<^bold>\<open>Correspondence.\<close>  A class is a record of its data members; mutexes appear where threads
  are interleaved (\<open>Races\<close>, \<open>ThreadPool\<close>, \<open>Schedulers\<close>) and make an operation atomic
  elsewhere.  An operation is a function on that record.  \<open>None\<close> is undefined behaviour or
  divergence, a sum type holds the exceptions.  Strings are byte strings, files are strings or
  missing.  What the operating system answers (\<open>recv\<close>, \<open>accept\<close>, \<open>epoll_wait\<close>, clocks,
  whether a file can be opened) is an argument; what is asked of it is recorded in \<open>calls\<close>.
  An iteration over an \<open>unordered_map\<close> takes its order as an argument.

  \<^bold>\<open>Granularity.\<close>  \<open>Server_Correct\<close>, \<open>OneShot\<close>, \<open>Readiness\<close>, \<open>Linearize\<close>, \<open>Expiry\<close>, \<open>Sending\<close>,
  \<open>Timing\<close> and \<open>Lifecycle\<close> take a handler, a snapshot, a round of a loop, a callback as one step.
  What they say of one handler or of the connections and sessions does not depend on that, but
  their invariant that memory and disk hold the same store, and what rests on it, is of whole
  steps only.  \<open>Dispatch\<close> splits the round into its events and the pool into the workers' actions;
  \<open>Concurrent\<close> and \<open>Races\<close> split the handler and the snapshot at their locks, and \<open>System\<close> does so
  in the context of all threads.  There memory and disk differ between two sections, and the
  interleavings of \<open>Races\<close> leave them apart; what holds of the files is in \<open>Durable\<close>.

  \<^bold>\<open>Reused socket numbers.\<close>  Of \<open>accept\<close> the runs assume that it returns no number that is open.
  The event loop closes the socket of an expired session without looking whether a job of the
  connection is pending, and \<open>accept\<close> may then return the number.  The properties that need
  connections to keep their workers apart are therefore of runs whose steps are \<open>sparing\<close>:
  they say so, and \<open>stale_job_serves_new_client\<close> of \<open>OneShot\<close> shows what happens otherwise.

  \<^bold>\<open>Fairness.\<close>  A worker that does not sleep on the condition variable makes a step after a
  while, and so does the event loop while events are left; that a mutex is handed out in the
  end is part of this.  Apart from it and from \<open>sparing\<close>, nothing is assumed of the runs of \<open>Fairness\<close>.

  \<^bold>\<open>Bounds.\<close>  No loop is cut off by fuel (\<open>to_answer\<close> of \<open>Concurrent\<close> counts sections, and two
  precede every answer): the chain loops of the map are partial functions, and a defined
  result is proved where it is claimed; the other loops are structural or have a measure.  The
  command buffer is bounded by 2024 bytes as in the code.  Integers of the limiter and the hash
  have their width; times are unbounded integers in nanoseconds.

  \<^bold>\<open>Not modelled.\<close>  What a data race on the connection table does to it: \<open>Locks\<close> shows that
  there are such races, and its operations are atomic in every other model.  A kill while a file
  is being written, in the context of all threads (\<open>Persistence\<close> has it for one snapshot and
  for a torn record).  The options of the
  listening socket, the log output, what the system keeps in an \<open>OVERLAPPED\<close>, the sleeps of the
  tests of the pool, the load generator \<open>src/Tests/Stress/simple.py\<close>, and the kernel's side of
  fairness: \<open>Fairness\<close> starts at the events that \<open>wait\<close> reports.
\<close>

end
